(* ===== verification/Prelude.thy ===== *)
theory Prelude
  imports Main "HOL-Library.Word"
begin

text \<open>
  Shared vocabulary of the development: the machine integers and byte buffers of the C code,
  the three-way result of the \<open>libdwarf\<close> functions, C strings, and the list and word lemmas
  that several components use.
\<close>

unbundle bit_operations_syntax

subsection \<open>Machine types\<close>

text \<open>
  \<open>Dwarf_Small\<close>/\<open>unsigned char\<close> is a byte; \<open>Dwarf_Unsigned\<close>, \<open>Dwarf_Signed\<close>,
  \<open>ADDRINT\<close> and \<open>uintptr_t\<close> are 64 bits wide (the signed one read with \<open>sint\<close>);
  \<open>unsigned int\<close> is 32 bits wide.
\<close>

type_synonym byte = "8 word"
type_synonym u32 = "32 word"
type_synonym u64 = "64 word"

subsection \<open>Results of libdwarf functions\<close>

text \<open>
  Every public \<open>libdwarf\<close> function returns \<open>DW_DLV_OK\<close>, \<open>DW_DLV_NO_ENTRY\<close> or
  \<open>DW_DLV_ERROR\<close>. The values passed back through pointer arguments on success are the
  payload of \<open>DW_DLV_OK\<close>, what is recorded on failure is the payload of \<open>DW_DLV_ERROR\<close>.
\<close>

datatype ('e, 'a) dlv =
    DW_DLV_OK 'a
  | DW_DLV_NO_ENTRY
  | DW_DLV_ERROR 'e

text \<open>
  \<open>dlv_bind r f\<close> is the shape of every \<open>if (res != DW_DLV_OK) return res;\<close> and of the
  \<open>..._CK\<close> macros, which return from the enclosing function on an error.
\<close>

primrec dlv_bind :: "('e, 'a) dlv \<Rightarrow> ('a \<Rightarrow> ('e, 'b) dlv) \<Rightarrow> ('e, 'b) dlv" where
  "dlv_bind (DW_DLV_OK x) f = f x"
| "dlv_bind DW_DLV_NO_ENTRY f = DW_DLV_NO_ENTRY"
| "dlv_bind (DW_DLV_ERROR e) f = DW_DLV_ERROR e"

lemma dlv_bind_OK_iff:
  "dlv_bind r f = DW_DLV_OK y \<longleftrightarrow> (\<exists>x. r = DW_DLV_OK x \<and> f x = DW_DLV_OK y)"
  by (cases r) auto

lemma dlv_bind_cong [fundef_cong]:
  "r = r' \<Longrightarrow> (\<And>x. r' = DW_DLV_OK x \<Longrightarrow> f x = g x) \<Longrightarrow> dlv_bind r f = dlv_bind r' g"
  by (cases r') auto

primrec dlv_is_ok :: "('e, 'a) dlv \<Rightarrow> bool" where
  "dlv_is_ok (DW_DLV_OK x) = True"
| "dlv_is_ok DW_DLV_NO_ENTRY = False"
| "dlv_is_ok (DW_DLV_ERROR e) = False"

subsection \<open>Words\<close>

named_theorems word_bits \<open>bit-level facts used by the encoders and decoders\<close>

lemma and_127 [word_bits]: "x AND 127 = take_bit 7 (x :: 'a::len word)"
  by (simp add: take_bit_eq_mask mask_eq_exp_minus_1)

lemma and_128_eq_0 [word_bits]: "b AND 128 = (0::byte) \<longleftrightarrow> \<not> bit b 7"
  using and_exp_eq_0_iff_not_bit [of b 7] by simp

lemma and_64_eq_0 [word_bits]: "b AND 64 = (0::byte) \<longleftrightarrow> \<not> bit b 6"
  using and_exp_eq_0_iff_not_bit [of b 6] by simp

lemma take_bit_7_or_128 [simp]: "take_bit 7 (b OR 128 :: byte) = take_bit 7 b"
  by (simp add: take_bit_or)

lemma bit_or_128_7 [simp]: "bit (b OR 128 :: byte) 7"
  by (simp add: bit_simps)

lemma bit_take_bit_7_7 [simp]: "\<not> bit (take_bit 7 b :: byte) 7"
  by (simp add: bit_simps)

lemma ucast_low7: "ucast (take_bit 7 (ucast (x :: u64) :: byte)) = take_bit 7 x"
  by (rule bit_word_eqI) (auto simp: bit_simps)

lemma low7_split: "take_bit 7 v OR push_bit 7 (drop_bit 7 v) = (v :: 'a::len word)"
proof (rule bit_word_eqI)
  fix n
  show "bit (take_bit 7 v OR push_bit 7 (drop_bit 7 v)) n \<longleftrightarrow> bit v n" if "n < LENGTH('a)"
    using that by (cases "n < 7") (auto simp: bit_simps)
qed

lemma low7_split_signed: "take_bit 7 v OR push_bit 7 (signed_drop_bit 7 v) = (v :: 'a::len word)"
proof (rule bit_word_eqI)
  fix n
  show "bit (take_bit 7 v OR push_bit 7 (signed_drop_bit 7 v)) n \<longleftrightarrow> bit v n" if "n < LENGTH('a)"
    using that by (cases "n < 7") (auto simp: bit_simps)
qed

lemma take_bit_7_id: "\<not> bit b 7 \<Longrightarrow> take_bit 7 b = (b :: byte)"
proof (rule bit_word_eqI)
  fix n
  show "bit (take_bit 7 b) n \<longleftrightarrow> bit b n" if "\<not> bit b 7" "n < LENGTH(8)"
    using that by (cases "n = 7") (auto simp: bit_simps)
qed

lemma bit_int_2pow63 [word_bits]: "bit (9223372036854775808 :: int) n \<longleftrightarrow> n = 63"
  using bit_exp_iff [where 'a = int, of 63 n] by simp

lemma bit_int_64 [word_bits]: "bit (64 :: int) n \<longleftrightarrow> n = 6"
  using bit_exp_iff [where 'a = int, of 6 n] by simp

lemma ucast_ucast_low7 [simp]: "ucast (ucast (take_bit 7 (v :: u64)) :: byte) = take_bit 7 v"
  by (rule bit_word_eqI) (auto simp: bit_simps)

lemma bit_signed_drop_63 [simp]: "bit (signed_drop_bit n (v :: u64)) 63 = bit v 63"
  by (cases n) (auto simp: bit_simps)

lemma option_ext: "(\<And>c. a = Some c \<longleftrightarrow> b = Some c) \<Longrightarrow> a = b"
  by (cases a; cases b) auto

subsection \<open>Signed reading of 64-bit words\<close>

lemma sint_64: "sint v = (if uint v < 2 ^ 63 then uint v else uint v - 2 ^ 64)" for v :: u64
proof -
  have u: "0 \<le> uint v" "uint v < 2 ^ 64" using uint_lt2p [of v] by simp_all
  have s: "sint v = (uint v + 2 ^ 63) mod 2 ^ 64 - 2 ^ 63"
    by (simp add: sint_uint signed_take_bit_eq_take_bit_shift take_bit_eq_mod)
  show ?thesis
  proof (cases "uint v < 2 ^ 63")
    case True
    then have "(uint v + 2 ^ 63) mod 2 ^ 64 = uint v + 2 ^ 63"
      using u by (intro mod_pos_pos_trivial) auto
    then show ?thesis using s True by simp
  next
    case False
    then have "(uint v + 2 ^ 63 - 2 ^ 64) mod 2 ^ 64 = uint v + 2 ^ 63 - 2 ^ 64"
      using u by (intro mod_pos_pos_trivial) auto
    moreover have "(uint v + 2 ^ 63 - 2 ^ 64) mod 2 ^ 64 = (uint v + 2 ^ 63) mod 2 ^ 64"
      by (rule minus_mod_self2)
    ultimately show ?thesis using s False by simp
  qed
qed

lemma unat_minus_negative: "sint v < 0 \<Longrightarrow> int (unat (- v)) = - sint v" for v :: u64
proof -
  assume neg: "sint v < 0"
  have u: "0 \<le> uint v" "uint v < 2 ^ 64" using uint_lt2p [of v] by simp_all
  with neg have "\<not> uint v < 2 ^ 63" "sint v = uint v - 2 ^ 64"
    using sint_64 [of v] by (auto split: if_splits)
  moreover have "uint (- v) = (- uint v) mod 2 ^ 64" using uint_word_ariths(4) [of v] by simp
  moreover have "(- uint v + 2 ^ 64) mod 2 ^ 64 = (- uint v) mod 2 ^ 64" by (rule mod_add_self2)
  moreover have "(- uint v + 2 ^ 64) mod 2 ^ 64 = - uint v + 2 ^ 64"
    using u calculation(1) by (intro mod_pos_pos_trivial) auto
  ultimately show ?thesis by simp
qed

lemma sint_not_negative: "0 \<le> sint v \<Longrightarrow> int (unat v) = sint v" for v :: u64
  using sint_64 [of v] uint_lt2p [of v] by (auto split: if_splits)

lemma sint_64_cases:
  fixes v :: u64
  obtains "uint v < 2 ^ 63" "sint v = uint v" "0 \<le> uint v"
  | "2 ^ 63 \<le> uint v" "sint v = uint v - 2 ^ 64" "uint v < 2 ^ 64"
  using sint_64 [of v] uint_lt2p [of v] uint_ge_0 [of v] by (cases "uint v < 2 ^ 63") auto

lemma sint_lower: "- (2 ^ 63) \<le> sint v" for v :: u64
proof (rule sint_64_cases [of v])
  assume "sint v = uint v" and "0 \<le> uint v"
  then have "0 \<le> sint v" by linarith
  then show ?thesis by (rule order_trans [rotated]) simp
qed simp_all

lemma sint_upper: "sint v < 2 ^ 63" for v :: u64
  by (rule sint_64_cases [of v]) simp_all

lemma sint_min: "sint v = - (2 ^ 63) \<Longrightarrow> v = 0x8000000000000000" for v :: u64
proof -
  assume m: "sint v = - (2 ^ 63)"
  have "uint v = 2 ^ 63" by (rule sint_64_cases [of v]) (use m in simp_all)
  then have "uint v = uint (0x8000000000000000 :: u64)" by simp
  then show ?thesis by (rule word_uint_eqI)
qed

subsection \<open>Shared pieces of the C library\<close>

text \<open>
  The outcomes of the coming calls of \<open>malloc\<close> and \<open>calloc\<close>; when the list is used up they
  all succeed.
\<close>

type_synonym allocs = "bool list"

fun alloc :: "allocs \<Rightarrow> bool \<times> allocs" where
  "alloc [] = (True, [])"
| "alloc (b # bs) = (b, bs)"

text \<open>\<open>isspace\<close> in the C locale.\<close>

definition is_space :: "char \<Rightarrow> bool" where
  "is_space c = (let n = of_char c :: nat in n = 32 \<or> (9 \<le> n \<and> n \<le> 13))"

end
