(* ===== verification/Leb128.thy ===== *)
theory Leb128
  imports Prelude
begin

text \<open>
  LEB128 variable-length integers: \<open>dwarf_leb.c\<close> of \<open>libdwarf\<close>.
  A buffer is the list of the bytes from the pointer \<open>leb128\<close> up to \<open>endptr\<close>, so
  \<open>leb128 >= endptr\<close> is the empty list and \<open>++leb128\<close> is the tail.
\<close>

definition BYTESLEBMAX :: nat where
  "BYTESLEBMAX = 24"

text \<open>
  The decoders leave in \<open>*leb128_length\<close>, on one of the error returns, the value
  \<open>BYTESLEBMAX\<close>: the payload of \<open>DW_DLV_ERROR\<close> is what was written there, if anything.
  The callers of this library pass a non-null \<open>leb128_length\<close>.
\<close>

type_synonym 'a leb_result = "(nat option, nat \<times> 'a) dlv"

subsection \<open>Skipping\<close>

fun dwarf_skip_leb128_loop :: "byte list \<Rightarrow> nat \<Rightarrow> (nat option, nat) dlv" where
  "dwarf_skip_leb128_loop [] byte_length = DW_DLV_ERROR None"
| "dwarf_skip_leb128_loop (b # bs) byte_length =
     (if b AND 0x80 \<noteq> 0
      then if BYTESLEBMAX \<le> byte_length then DW_DLV_ERROR None
           else dwarf_skip_leb128_loop bs (byte_length + 1)
      else DW_DLV_OK byte_length)"

fun dwarf_skip_leb128 :: "byte list \<Rightarrow> (nat option, nat) dlv" where
  "dwarf_skip_leb128 [] = DW_DLV_ERROR None"
| "dwarf_skip_leb128 (b # bs) =
     (if b AND 0x80 = 0 then DW_DLV_OK 1
      else case bs of
          [] \<Rightarrow> DW_DLV_ERROR None
        | b2 # _ \<Rightarrow>
            (if b2 AND 0x80 = 0 then DW_DLV_OK 2
             else dwarf_skip_leb128_loop bs 2))"

subsection \<open>Decoding unsigned numbers\<close>

text \<open>
  One turn of the \<open>for\<close> loop: \<open>byte\<close> is the byte under \<open>leb128\<close>, \<open>rest\<close> the bytes
  after it.
\<close>

fun dwarf_decode_leb128_loop ::
    "byte \<Rightarrow> byte list \<Rightarrow> u64 \<Rightarrow> nat \<Rightarrow> nat \<Rightarrow> u64 leb_result" where
  "dwarf_decode_leb128_loop byte rest number shift byte_length =
     (let b = byte AND 0x7f in
      if 64 \<le> shift then
        if b = 0 then
          if BYTESLEBMAX \<le> byte_length then DW_DLV_ERROR (Some BYTESLEBMAX)
          else case rest of
              [] \<Rightarrow> if byte = 0 then DW_DLV_OK (byte_length, number) else DW_DLV_ERROR None
            | byte' # rest' \<Rightarrow>
                dwarf_decode_leb128_loop byte' rest' number (shift + 7) (byte_length + 1)
        else DW_DLV_ERROR None
      else
        let number' = number OR push_bit shift (ucast b) in
        if byte AND 0x80 = 0 then DW_DLV_OK (byte_length, number')
        else if BYTESLEBMAX < byte_length + 1 then DW_DLV_ERROR (Some BYTESLEBMAX)
        else case rest of
            [] \<Rightarrow> DW_DLV_ERROR None
          | byte' # rest' \<Rightarrow>
              dwarf_decode_leb128_loop byte' rest' number' (shift + 7) (byte_length + 1))"

declare dwarf_decode_leb128_loop.simps [simp del]

fun dwarf_decode_leb128 :: "byte list \<Rightarrow> u64 leb_result" where
  "dwarf_decode_leb128 [] = DW_DLV_ERROR None"
| "dwarf_decode_leb128 (byte # bs) =
     (if byte AND 0x80 = 0 then DW_DLV_OK (1, ucast byte)
      else case bs of
          [] \<Rightarrow> DW_DLV_ERROR None
        | byte2 # _ \<Rightarrow>
            (if byte2 AND 0x80 = 0
             then DW_DLV_OK (2, ucast (byte AND 0x7f) OR push_bit 7 (ucast (byte2 AND 0x7f)))
             else dwarf_decode_leb128_loop byte bs 0 0 1))"

subsection \<open>Decoding signed numbers\<close>

text \<open>
  The final adjustment of the number by the sign bit: \<open>shiftlim\<close> is 63.
\<close>

definition signed_leb_finish :: "u64 \<Rightarrow> bool \<Rightarrow> nat \<Rightarrow> u64" where
  "signed_leb_finish number sign shift =
     (if sign then
        if shift < 63 then number OR (- push_bit shift 1)
        else if shift = 63 then number OR push_bit shift 1
        else number OR push_bit 63 1
      else number)"

fun dwarf_decode_signed_leb128_loop ::
    "byte \<Rightarrow> byte list \<Rightarrow> u64 \<Rightarrow> nat \<Rightarrow> nat \<Rightarrow> u64 leb_result" where
  "dwarf_decode_signed_leb128_loop byte rest number shift byte_length =
     (let b = byte AND 0x7f; sign = (b AND 0x40 \<noteq> 0) in
      if 64 \<le> shift then
        if byte = 0 \<or> byte = 0x40 then
          DW_DLV_OK (byte_length, signed_leb_finish number sign shift)
        else if b = 0 then
          if BYTESLEBMAX < byte_length + 1 then DW_DLV_ERROR (Some BYTESLEBMAX)
          else case rest of
              [] \<Rightarrow> DW_DLV_ERROR None
            | byte' # rest' \<Rightarrow>
                dwarf_decode_signed_leb128_loop byte' rest' number (shift + 7) (byte_length + 1)
        else DW_DLV_ERROR None
      else
        let number' = number OR push_bit shift (ucast b) in
        if byte AND 0x80 = 0
        then DW_DLV_OK (byte_length, signed_leb_finish number' sign (shift + 7))
        else case rest of
            [] \<Rightarrow> DW_DLV_ERROR None
          | byte' # rest' \<Rightarrow>
              if BYTESLEBMAX < byte_length + 1 then DW_DLV_ERROR (Some BYTESLEBMAX)
              else dwarf_decode_signed_leb128_loop byte' rest' number' (shift + 7) (byte_length + 1))"

declare dwarf_decode_signed_leb128_loop.simps [simp del]

fun dwarf_decode_signed_leb128 :: "byte list \<Rightarrow> u64 leb_result" where
  "dwarf_decode_signed_leb128 [] = DW_DLV_ERROR None"
| "dwarf_decode_signed_leb128 (byte # rest) = dwarf_decode_signed_leb128_loop byte rest 0 0 1"

subsection \<open>Encoding\<close>

text \<open>
  The encoders get the caller's space as the number of bytes left in it; the bytes they
  write are the result.
\<close>

fun dwarf_encode_leb128 :: "u64 \<Rightarrow> nat \<Rightarrow> (unit, byte list) dlv" where
  "dwarf_encode_leb128 val 0 = DW_DLV_ERROR ()"
| "dwarf_encode_leb128 val (Suc space) =
     (let uc = ucast (val AND 0x7f) :: byte; val' = drop_bit 7 val in
      if val' \<noteq> 0
      then dlv_bind (dwarf_encode_leb128 val' space) (\<lambda>bs. DW_DLV_OK ((uc OR 0x80) # bs))
      else DW_DLV_OK [uc])"

text \<open>\<open>sign\<close> is \<open>-(value < 0)\<close> of the original value: 0 or -1.\<close>

fun dwarf_encode_signed_leb128_loop :: "u64 \<Rightarrow> u64 \<Rightarrow> nat \<Rightarrow> (unit, byte list) dlv" where
  "dwarf_encode_signed_leb128_loop sign val 0 = DW_DLV_ERROR ()"
| "dwarf_encode_signed_leb128_loop sign val (Suc space) =
     (let byte = ucast (val AND 0x7f) :: byte; val' = signed_drop_bit 7 val in
      if val' = sign \<and> ucast (byte AND 0x40) = sign AND 0x40
      then DW_DLV_OK [byte]
      else dlv_bind (dwarf_encode_signed_leb128_loop sign val' space)
             (\<lambda>bs. DW_DLV_OK ((byte OR 0x80) # bs)))"

definition dwarf_encode_signed_leb128 :: "u64 \<Rightarrow> nat \<Rightarrow> (unit, byte list) dlv" where
  "dwarf_encode_signed_leb128 value space =
     dwarf_encode_signed_leb128_loop (if sint value < 0 then -1 else 0) value space"

subsection \<open>Reference meaning\<close>

primrec leb_word :: "byte list \<Rightarrow> u64" where
  "leb_word [] = 0"
| "leb_word (b # bs) = ucast (take_bit 7 b) OR push_bit 7 (leb_word bs)"

primrec leb_value :: "byte list \<Rightarrow> nat" where
  "leb_value [] = 0"
| "leb_value (b # bs) = unat b mod 128 + 128 * leb_value bs"

definition leb_shape :: "byte list \<Rightarrow> bool" where
  "leb_shape bs \<longleftrightarrow> bs \<noteq> [] \<and> (\<forall>b \<in> set (butlast bs). bit b 7) \<and> \<not> bit (last bs) 7"

lemma leb_shape_simps [simp]:
  "\<not> leb_shape []"
  "leb_shape [b] \<longleftrightarrow> \<not> bit b 7"
  "leb_shape (b # c # bs) \<longleftrightarrow> bit b 7 \<and> leb_shape (c # bs)"
  by (auto simp: leb_shape_def)

lemma leb_word_value: "leb_word bs = of_nat (leb_value bs)"
proof (induction bs)
  case Nil
  then show ?case by simp
next
  case (Cons b bs)
  have "leb_word (b # bs) = ucast (take_bit 7 b) + push_bit 7 (leb_word bs)"
    unfolding leb_word.simps
    by (rule disjunctive_add [symmetric]) (auto simp: bit_simps)
  moreover have "unat (take_bit 7 b) = unat b mod 128"
    by (simp only: unsigned_take_bit_eq) (simp add: take_bit_eq_mod)
  then have "(ucast (take_bit 7 b) :: u64) = of_nat (unat b mod 128)"
    by (metis of_nat_unat)
  ultimately show ?case
    using Cons.IH by (simp add: push_bit_eq_mult)
qed

lemma decode_loop_shape:
  assumes "leb_shape (b # bs)" and "k + length bs \<le> 9"
  shows "dwarf_decode_leb128_loop b (bs @ rest) number (7 * k) (k + 1) =
    DW_DLV_OK (k + 1 + length bs, number OR push_bit (7 * k) (leb_word (b # bs)))"
  using assms
proof (induction bs arbitrary: b number k)
  case Nil
  then show ?case
    by (simp add: dwarf_decode_leb128_loop.simps [of b] word_bits BYTESLEBMAX_def)
next
  case (Cons c bs)
  have IH: "dwarf_decode_leb128_loop c (bs @ rest) n' (7 * Suc k) (Suc k + 1) =
    DW_DLV_OK (Suc k + 1 + length bs, n' OR push_bit (7 * Suc k) (leb_word (c # bs)))" for n'
    using Cons.prems by (intro Cons.IH) auto
  have "7 * k < 64" "k \<le> 22" "bit b 7" using Cons.prems by auto
  then have "dwarf_decode_leb128_loop b ((c # bs) @ rest) number (7 * k) (k + 1) =
    dwarf_decode_leb128_loop c (bs @ rest) (number OR push_bit (7 * k) (ucast (take_bit 7 b)))
      (7 * Suc k) (Suc k + 1)"
    by (subst dwarf_decode_leb128_loop.simps) (simp add: word_bits BYTESLEBMAX_def Let_def add.commute)
  then show ?case
    using IH by (simp add: push_bit_or push_bit_push_bit or.assoc add.commute)
qed

lemma decode_shape:
  assumes "leb_shape bs" and "length bs \<le> 10"
  shows "dwarf_decode_leb128 (bs @ rest) = DW_DLV_OK (length bs, leb_word bs)"
proof (cases bs)
  case Nil
  then show ?thesis using assms by simp
next
  case (Cons b cs)
  show ?thesis
  proof (cases "cs = [] \<or> length cs = 1")
    case True
    then show ?thesis
      using assms Cons by (auto simp: word_bits length_Suc_conv take_bit_7_id)
  next
    case False
    then obtain c d ds where cs: "cs = c # d # ds" by (auto simp: neq_Nil_conv)
    then show ?thesis
      using assms Cons decode_loop_shape [of b cs 0 rest 0] by (simp add: word_bits)
  qed
qed

lemma leb_shape_or_128 [simp]: "leb_shape bs \<Longrightarrow> leb_shape ((b OR 128) # bs)"
  by (cases bs) auto

lemma encode_shape:
  "dwarf_encode_leb128 v n = DW_DLV_OK bs \<Longrightarrow>
   leb_shape bs \<and> leb_word bs = v \<and> length bs \<le> n"
proof (induction v n arbitrary: bs rule: dwarf_encode_leb128.induct)
  case (1 v)
  then show ?case by simp
next
  case (2 v n)
  show ?case
  proof (cases "drop_bit 7 v = 0")
    case True
    then have v: "take_bit 7 v = v" using low7_split [of v] by simp
    have "\<not> bit v 7" by (subst v [symmetric]) (simp add: bit_simps)
    with v True "2.prems" show ?thesis
      by (auto simp: word_bits Let_def ucast_low7 bit_simps)
  next
    case False
    then obtain cs where cs: "dwarf_encode_leb128 (drop_bit 7 v) n = DW_DLV_OK cs"
      and bs: "bs = (ucast (v AND 0x7f) OR 128) # cs"
      using "2.prems" by (auto simp: Let_def dlv_bind_OK_iff)
    from "2.IH" [OF refl refl False cs] bs show ?thesis
      by (auto simp: word_bits ucast_low7 low7_split)
  qed
qed

lemma encode_total:
  "drop_bit (7 * Suc k) v = 0 \<Longrightarrow> k < n \<Longrightarrow>
   \<exists>bs. dwarf_encode_leb128 v n = DW_DLV_OK bs \<and> length bs \<le> Suc k"
proof (induction k arbitrary: v n)
  case 0
  then obtain m where "n = Suc m" by (cases n) auto
  with 0 show ?case by (simp add: Let_def)
next
  case (Suc k)
  then obtain m where n: "n = Suc m" by (cases n) auto
  have "drop_bit (7 * Suc k) (drop_bit 7 v) = 0"
    using Suc.prems by (simp add: drop_bit_drop_bit add.commute)
  with Suc.IH [of "drop_bit 7 v" m] Suc.prems n obtain bs where
    "dwarf_encode_leb128 (drop_bit 7 v) m = DW_DLV_OK bs" "length bs \<le> Suc k" by auto
  with n show ?case by (auto simp: Let_def)
qed

fun sleb_word :: "byte list \<Rightarrow> u64" where
  "sleb_word [] = 0"
| "sleb_word [b] = signed_take_bit 6 (ucast b)"
| "sleb_word (b # c # bs) = ucast (take_bit 7 b) OR push_bit 7 (sleb_word (c # bs))"

lemma signed_finish_last:
  assumes "k \<le> 9" and "k = 9 \<longrightarrow> bit b 6 \<longrightarrow> bit (b :: byte) 0"
  shows "signed_leb_finish (number OR push_bit (7 * k) (ucast (take_bit 7 b))) (bit b 6) (7 * k + 7) =
    number OR push_bit (7 * k) (signed_take_bit 6 (ucast b))"
proof (cases "bit b 6")
  case False
  have "signed_take_bit 6 (ucast b :: u64) = ucast (take_bit 7 b)"
  proof (rule bit_word_eqI)
    fix n
    show "bit (signed_take_bit 6 (ucast b) :: u64) n = bit (ucast (take_bit 7 b) :: u64) n" if "n < LENGTH(64)"
      using that False by (cases "n = 6") (auto simp: bit_simps min_def)
  qed
  then show ?thesis using False by (simp add: signed_leb_finish_def)
next
  case True
  have neg: "- push_bit (7 * k + 7) 1 = (push_bit (7 * k + 7) (- 1) :: u64)"
    by (simp add: push_bit_eq_mult)
  have "k = 9 \<or> k = 8 \<or> k \<le> 7" using assms by auto
  then consider "k = 9" | "k = 8" | "k \<le> 7" by auto
  then show ?thesis
  proof cases
    case 1
    with assms True have "bit b 0" by simp
    with 1 True show ?thesis
      by (intro bit_word_eqI) (auto simp: signed_leb_finish_def bit_int_2pow63 bit_simps min_def)
  next
    case 2
    show ?thesis
    proof (rule bit_word_eqI)
      fix n
      show "bit (signed_leb_finish (number OR push_bit (7 * k) (ucast (take_bit 7 b))) (bit b 6) (7 * k + 7)) n =
        bit (number OR push_bit (7 * k) (signed_take_bit 6 (ucast b))) n" if "n < LENGTH(64)"
        using 2 True that
        by (cases "n = 62"; cases "n = 63")
          (auto simp: signed_leb_finish_def bit_int_2pow63 bit_simps min_def)
    qed
  next
    case 3
    have fin: "signed_leb_finish x True (7 * k + 7) = x OR push_bit (7 * k + 7) (- 1)" for x
      using 3 by (simp only: signed_leb_finish_def neg) simp
    show ?thesis
    proof (rule bit_word_eqI)
      fix n
      show "bit (signed_leb_finish (number OR push_bit (7 * k) (ucast (take_bit 7 b))) (bit b 6) (7 * k + 7)) n =
        bit (number OR push_bit (7 * k) (signed_take_bit 6 (ucast b))) n" if "n < LENGTH(64)"
        using 3 that unfolding eqTrueI [OF True] fin using True
        by (cases "n = 7 * k + 6")
          (auto simp: bit_simps min_def simp del: push_bit_minus_one_eq_not_mask)
    qed
  qed
qed

lemma signed_decode_loop_shape:
  assumes "leb_shape (b # bs)" and "k + length bs \<le> 9"
    and "k + length bs = 9 \<longrightarrow> bit (last (b # bs)) 6 \<longrightarrow> bit (last (b # bs)) 0"
  shows "dwarf_decode_signed_leb128_loop b (bs @ rest) number (7 * k) (k + 1) =
    DW_DLV_OK (k + 1 + length bs, number OR push_bit (7 * k) (sleb_word (b # bs)))"
  using assms
proof (induction bs arbitrary: b number k)
  case Nil
  then show ?case
    using signed_finish_last [of k b number]
    by (simp add: dwarf_decode_signed_leb128_loop.simps [of b] word_bits bit_simps)
next
  case (Cons c bs)
  have IH: "dwarf_decode_signed_leb128_loop c (bs @ rest) n' (7 * Suc k) (Suc k + 1) =
    DW_DLV_OK (Suc k + 1 + length bs, n' OR push_bit (7 * Suc k) (sleb_word (c # bs)))" for n'
    using Cons.prems by (intro Cons.IH) auto
  have "7 * k < 64" "k \<le> 22" "bit b 7" using Cons.prems by auto
  then have "dwarf_decode_signed_leb128_loop b ((c # bs) @ rest) number (7 * k) (k + 1) =
    dwarf_decode_signed_leb128_loop c (bs @ rest) (number OR push_bit (7 * k) (ucast (take_bit 7 b)))
      (7 * Suc k) (Suc k + 1)"
    by (subst dwarf_decode_signed_leb128_loop.simps)
      (simp add: word_bits BYTESLEBMAX_def Let_def add.commute)
  then show ?case
    using IH by (simp add: push_bit_or push_bit_push_bit or.assoc add.commute)
qed

lemma signed_decode_shape:
  assumes "leb_shape bs" and "length bs \<le> 10"
    and "length bs = 10 \<longrightarrow> bit (last bs) 6 \<longrightarrow> bit (last bs) 0"
  shows "dwarf_decode_signed_leb128 (bs @ rest) = DW_DLV_OK (length bs, sleb_word bs)"
  using assms signed_decode_loop_shape [of "hd bs" "tl bs" 0 rest 0] by (cases bs) auto

lemma signed_low7_last:
  assumes "signed_drop_bit 7 v = (if bit v 63 then - 1 else 0 :: u64)" and "bit v 6 = bit v 63"
  shows "signed_take_bit 6 (take_bit 7 v) = v"
proof (rule bit_word_eqI)
  fix n
  assume n: "n < LENGTH(64)"
  have "bit (signed_drop_bit 7 v) (n - 7) = bit (if bit v 63 then - 1 else 0 :: u64) (n - 7)"
    using assms(1) by simp
  then have "n \<ge> 7 \<Longrightarrow> bit v n = bit v 63" using n by (auto simp: bit_simps split: if_splits)
  then show "bit (signed_take_bit 6 (take_bit 7 v)) n = bit v n"
    using n assms(2) by (cases "n = 6"; cases "n < 7") (auto simp: bit_simps min_def)
qed

lemma encode_signed_last_test:
  "ucast (ucast (v AND 0x7f) AND 0x40 :: byte) = (if s then - 1 else 0 :: u64) AND 0x40 \<longleftrightarrow>
   bit (v :: u64) 6 = s"
proof -
  have "ucast (ucast (v AND 0x7f) AND 0x40 :: byte) = v AND (64 :: u64)"
    by (rule bit_word_eqI) (auto simp: word_bits bit_simps)
  moreover have "v AND (64 :: u64) = (if bit v 6 then 64 else 0)"
    by (rule bit_word_eqI) (auto simp: word_bits bit_simps)
  ultimately show ?thesis by simp
qed

lemma encode_signed_shape:
  "dwarf_encode_signed_leb128_loop (if bit v 63 then - 1 else 0) v n = DW_DLV_OK bs \<Longrightarrow>
   leb_shape bs \<and> sleb_word bs = v \<and> length bs \<le> n \<and>
   last bs = ucast (take_bit 7 (signed_drop_bit (7 * (length bs - 1)) v))"
proof (induction n arbitrary: v bs)
  case 0
  then show ?case by simp
next
  case (Suc n)
  let ?s = "if bit v 63 then - 1 else 0 :: u64"
  show ?case
  proof (cases "signed_drop_bit 7 v = ?s \<and> bit v 6 = bit v 63")
    case True
    then have "bs = [ucast (v AND 0x7f)]"
      using Suc.prems by (simp add: Let_def encode_signed_last_test)
    with True signed_low7_last [of v] show ?thesis by (auto simp: word_bits bit_simps)
  next
    case False
    then obtain cs where cs: "dwarf_encode_signed_leb128_loop ?s (signed_drop_bit 7 v) n = DW_DLV_OK cs"
      and bs: "bs = (ucast (v AND 0x7f) OR 128) # cs"
      using Suc.prems by (auto simp: Let_def encode_signed_last_test dlv_bind_OK_iff split: if_splits)
    from Suc.IH [of "signed_drop_bit 7 v" cs] cs
    have IH: "leb_shape cs" "sleb_word cs = signed_drop_bit 7 v" "length cs \<le> n"
      "last cs = ucast (take_bit 7 (signed_drop_bit (7 * (length cs - 1)) (signed_drop_bit 7 v)))"
      by auto
    then obtain c ds where c: "cs = c # ds" by (cases cs) auto
    have "7 * (length cs - 1) + 7 = 7 * (length bs - 1)" using bs c by simp
    have "7 * length ds + 7 = 7 + 7 * length ds" by simp
    then show ?thesis
      using IH bs c by (auto simp: word_bits ucast_low7 low7_split_signed add.commute)
  qed
qed

lemma encode_signed_total:
  "signed_drop_bit (7 * k + 6) v = (if bit v 63 then - 1 else 0) \<Longrightarrow> k < n \<Longrightarrow>
   \<exists>bs. dwarf_encode_signed_leb128_loop (if bit v 63 then - 1 else 0) v n = DW_DLV_OK bs \<and>
     length bs \<le> Suc k"
proof (induction k arbitrary: v n)
  case 0
  let ?s = "if bit v 63 then - 1 else 0 :: u64"
  obtain m where n: "n = Suc m" using 0 by (cases n) auto
  have "signed_drop_bit 7 v = signed_drop_bit 1 (signed_drop_bit 6 v)" by simp
  also have "\<dots> = ?s" using 0 by (intro bit_word_eqI) (auto simp: bit_simps)
  finally have "signed_drop_bit 7 v = ?s" .
  moreover have "bit (signed_drop_bit 6 v) 0 = bit ?s 0" using 0 by simp
  then have "bit v 6 = bit v 63" by (auto simp: bit_simps split: if_splits)
  ultimately show ?case using n by (simp add: Let_def encode_signed_last_test)
next
  case (Suc k)
  obtain m where n: "n = Suc m" using Suc.prems by (cases n) auto
  have "signed_drop_bit (7 * k + 6) (signed_drop_bit 7 v) = (if bit v 63 then - 1 else 0)"
    using Suc.prems by (simp add: add.commute)
  with Suc.IH [of "signed_drop_bit 7 v" m] Suc.prems n show ?case
    by (auto simp: Let_def encode_signed_last_test)
qed

lemma decode_loop_prefix:
  assumes "\<forall>x \<in> set (b # bs). bit x 7" and "k + length bs \<le> 9"
  shows "dwarf_decode_leb128_loop b (bs @ c # rest) number (7 * k) (k + 1) =
    dwarf_decode_leb128_loop c rest (number OR push_bit (7 * k) (leb_word (b # bs)))
      (7 * (k + 1 + length bs)) (k + 2 + length bs)"
  using assms
proof (induction bs arbitrary: b number k)
  case Nil
  then show ?case
    by (subst dwarf_decode_leb128_loop.simps) (simp add: word_bits BYTESLEBMAX_def Let_def add.commute)
next
  case (Cons d bs)
  have IH: "dwarf_decode_leb128_loop d (bs @ c # rest) n' (7 * Suc k) (Suc k + 1) =
    dwarf_decode_leb128_loop c rest (n' OR push_bit (7 * Suc k) (leb_word (d # bs)))
      (7 * (Suc k + 1 + length bs)) (Suc k + 2 + length bs)" for n'
    using Cons.prems by (intro Cons.IH) auto
  have "7 * k < 64" "k \<le> 22" "bit b 7" using Cons.prems by auto
  then have "dwarf_decode_leb128_loop b ((d # bs) @ c # rest) number (7 * k) (k + 1) =
    dwarf_decode_leb128_loop d (bs @ c # rest) (number OR push_bit (7 * k) (ucast (take_bit 7 b)))
      (7 * Suc k) (Suc k + 1)"
    by (subst dwarf_decode_leb128_loop.simps) (simp add: word_bits BYTESLEBMAX_def Let_def add.commute)
  then show ?case
    using IH by (simp add: push_bit_or push_bit_push_bit or.assoc add.commute)
qed

lemma skip_loop_shape:
  "leb_shape bs \<Longrightarrow> k + length bs \<le> 25 \<Longrightarrow> 0 < k \<Longrightarrow>
   dwarf_skip_leb128_loop (bs @ rest) k = DW_DLV_OK (k + length bs - 1)"
proof (induction bs arbitrary: k)
  case Nil
  then show ?case by simp
next
  case (Cons b bs)
  then show ?case by (cases bs) (auto simp: word_bits BYTESLEBMAX_def)
qed

lemma skip_shape:
  assumes "leb_shape bs" and "length bs \<le> 24"
  shows "dwarf_skip_leb128 (bs @ rest) = DW_DLV_OK (length bs)"
proof -
  consider b where "bs = [b]" | b c where "bs = [b, c]" | b c d ds where "bs = b # c # d # ds"
    using assms by (cases bs; cases "tl bs"; cases "tl (tl bs)") auto
  then show ?thesis
    using assms skip_loop_shape [of "tl bs" 2 rest] by cases (auto simp: word_bits)
qed

lemma decode_loop_bounds:
  "dwarf_decode_leb128_loop byte rest number shift bl = DW_DLV_OK (n, v) \<Longrightarrow> bl \<le> 24 \<Longrightarrow>
   bl \<le> n \<and> n \<le> bl + length rest \<and> n \<le> 24"
proof (induction rest arbitrary: byte number shift bl)
  case Nil
  then show ?case
    by (auto simp: dwarf_decode_leb128_loop.simps [of byte] Let_def split: if_splits)
next
  case (Cons c cs)
  from Cons.prems show ?case
    unfolding dwarf_decode_leb128_loop.simps [of byte "c # cs"] Let_def BYTESLEBMAX_def
    by (simp split: if_splits) (use Cons.IH in fastforce)+
qed

lemma signed_decode_loop_bounds:
  "dwarf_decode_signed_leb128_loop byte rest number shift bl = DW_DLV_OK (n, v) \<Longrightarrow> bl \<le> 24 \<Longrightarrow>
   bl \<le> n \<and> n \<le> bl + length rest \<and> n \<le> 24"
proof (induction rest arbitrary: byte number shift bl)
  case Nil
  then show ?case
    by (auto simp: dwarf_decode_signed_leb128_loop.simps [of byte] Let_def split: if_splits)
next
  case (Cons c cs)
  from Cons.prems show ?case
    unfolding dwarf_decode_signed_leb128_loop.simps [of byte "c # cs"] Let_def BYTESLEBMAX_def
    by (simp split: if_splits) (use Cons.IH in fastforce)+
qed

lemma skip_loop_bounds:
  "dwarf_skip_leb128_loop bs k = DW_DLV_OK n \<Longrightarrow> k \<le> 24 \<Longrightarrow> k \<le> n \<and> n < k + length bs \<and> n \<le> 24"
proof (induction bs arbitrary: k)
  case Nil
  then show ?case by simp
next
  case (Cons b bs)
  from Cons.prems Cons.IH [of "k + 1"] show ?case
    by (auto simp: BYTESLEBMAX_def split: if_splits)
qed

lemmas leb_loop_bounds = decode_loop_bounds signed_decode_loop_bounds skip_loop_bounds

lemma sint_neg_iff: "sint (v :: u64) < 0 \<longleftrightarrow> bit v 63"
  using bit_last_iff [of v] by simp

lemma encode_signed_spec:
  assumes "dwarf_encode_signed_leb128 v n = DW_DLV_OK bs"
  shows "leb_shape bs" and "sleb_word bs = v" and "length bs \<le> n"
    and "length bs = 10 \<Longrightarrow> bit (last bs) 6 \<Longrightarrow> bit (last bs) 0"
proof -
  have enc: "dwarf_encode_signed_leb128_loop (if bit v 63 then - 1 else 0) v n = DW_DLV_OK bs"
    using assms by (simp add: dwarf_encode_signed_leb128_def sint_neg_iff)
  from encode_signed_shape [OF this]
  have l: "last bs = ucast (take_bit 7 (signed_drop_bit (7 * (length bs - 1)) v))"
    and "leb_shape bs \<and> sleb_word bs = v \<and> length bs \<le> n" by auto
  then show "leb_shape bs" and "sleb_word bs = v" and "length bs \<le> n" by auto
  show "bit (last bs) 0" if "length bs = 10" "bit (last bs) 6"
    using that(2) unfolding l that(1) by (auto simp: bit_simps)
qed

lemma leb_value_less: "leb_value bs < 128 ^ length bs"
proof (induction bs)
  case Nil
  then show ?case by simp
next
  case (Cons b bs)
  have "unat b mod 128 < 128" by simp
  with Cons.IH show ?case by simp
qed

lemma decode_bounds:
  "dwarf_decode_leb128 bs = DW_DLV_OK (n, v) \<Longrightarrow> 1 \<le> n \<and> n \<le> length bs \<and> n \<le> BYTESLEBMAX"
proof (cases bs)
  case Nil
  then show "dwarf_decode_leb128 bs = DW_DLV_OK (n, v) \<Longrightarrow> ?thesis" by simp
next
  case (Cons b cs)
  then show "dwarf_decode_leb128 bs = DW_DLV_OK (n, v) \<Longrightarrow> ?thesis"
    using decode_loop_bounds [of b cs 0 0 1 n v]
    by (auto simp: BYTESLEBMAX_def split: if_splits list.splits)
qed

lemma signed_decode_bounds:
  "dwarf_decode_signed_leb128 bs = DW_DLV_OK (n, v) \<Longrightarrow> 1 \<le> n \<and> n \<le> length bs \<and> n \<le> BYTESLEBMAX"
  using signed_decode_loop_bounds [of "hd bs" "tl bs" 0 0 1 n v]
  by (cases bs) (auto simp: BYTESLEBMAX_def)

lemma skip_bounds:
  "dwarf_skip_leb128 bs = DW_DLV_OK n \<Longrightarrow> 1 \<le> n \<and> n \<le> length bs \<and> n \<le> BYTESLEBMAX"
proof (cases bs)
  case Nil
  then show "dwarf_skip_leb128 bs = DW_DLV_OK n \<Longrightarrow> ?thesis" by simp
next
  case (Cons b cs)
  then show "dwarf_skip_leb128 bs = DW_DLV_OK n \<Longrightarrow> ?thesis"
    using skip_loop_bounds [of cs 2 n]
    by (auto simp: BYTESLEBMAX_def split: if_splits list.splits)
qed

lemma encode_more_space:
  "dwarf_encode_leb128 v n = DW_DLV_OK bs \<Longrightarrow> dwarf_encode_leb128 v (n + k) = DW_DLV_OK cs \<Longrightarrow> cs = bs"
proof (induction v n arbitrary: bs cs rule: dwarf_encode_leb128.induct)
  case (1 v)
  then show ?case by simp
next
  case (2 v n)
  then show ?case
    by (cases "drop_bit 7 v = 0") (auto simp: Let_def dlv_bind_OK_iff)
qed

lemma encode_signed_more_space:
  "dwarf_encode_signed_leb128_loop s v n = DW_DLV_OK bs \<Longrightarrow> dwarf_encode_signed_leb128_loop s v (n + k) = DW_DLV_OK bs"
proof (induction s v n arbitrary: bs rule: dwarf_encode_signed_leb128_loop.induct)
  case (2 s v n)
  then show ?case
    by (cases "signed_drop_bit 7 v = s \<and> ucast (ucast (v AND 0x7f) AND 0x40 :: byte) = s AND 0x40")
      (auto simp: Let_def dlv_bind_OK_iff)
qed simp

subsection \<open>Properties\<close>

text \<open>
  C7: encoding a 64-bit unsigned number into a space of at least ten bytes always succeeds,
  uses at most ten bytes, and decoding those bytes, whatever follows them, gives back the
  number and the number of bytes used.
\<close>

theorem uleb128_roundtrip:
  "\<exists>bs. dwarf_encode_leb128 v (10 + m) = DW_DLV_OK bs \<and> length bs \<le> 10 \<and>
    (\<forall>rest. dwarf_decode_leb128 (bs @ rest) = DW_DLV_OK (length bs, v))"
proof -
  have "drop_bit (7 * Suc 9) v = 0" by (rule bit_word_eqI) (simp add: bit_simps)
  then obtain bs where bs: "dwarf_encode_leb128 v (10 + m) = DW_DLV_OK bs" "length bs \<le> 10"
    using encode_total [of 9 v "10 + m"] by auto
  with encode_shape [OF bs(1)] decode_shape [of bs] show ?thesis by auto
qed

text \<open>
  C33: encoding a 64-bit signed number into a space of at least ten bytes always succeeds,
  uses at most ten bytes, and decoding those bytes, whatever follows them, gives back the
  number and the number of bytes used.
\<close>

theorem sleb128_roundtrip:
  "\<exists>bs. dwarf_encode_signed_leb128 v (10 + m) = DW_DLV_OK bs \<and> length bs \<le> 10 \<and>
    (\<forall>rest. dwarf_decode_signed_leb128 (bs @ rest) = DW_DLV_OK (length bs, v))"
proof -
  have "signed_drop_bit (7 * 9 + 6) v = (if bit v 63 then - 1 else 0)"
    by (rule bit_word_eqI) (auto simp: bit_simps)
  then obtain bs where bs: "dwarf_encode_signed_leb128 v (10 + m) = DW_DLV_OK bs" "length bs \<le> 10"
    using encode_signed_total [of 9 v "10 + m"]
    by (auto simp: dwarf_encode_signed_leb128_def sint_neg_iff)
  with encode_signed_spec [OF bs(1)] signed_decode_shape [of bs] show ?thesis by auto
qed

text \<open>
  on a well-formed number of at most ten bytes the unrolled decoder computes the
  mathematical value of the base-128 digits modulo \<open>2 ^ 64\<close>, and the skipping routine
  agrees on its length.
\<close>

theorem uleb128_decode_value:
  assumes "leb_shape bs" and "length bs \<le> 10"
  shows "dwarf_decode_leb128 (bs @ rest) = DW_DLV_OK (length bs, of_nat (leb_value bs))
    \<and> dwarf_skip_leb128 (bs @ rest) = DW_DLV_OK (length bs)"
  using decode_shape [OF assms, of rest] skip_shape [of bs rest] assms
  by (simp add: leb_word_value)

theorem uleb128_decode_value_witness:
  "dwarf_decode_leb128 ([0xe5, 0x8e, 0x26] @ [0x01]) = DW_DLV_OK (3, 624485)
    \<and> dwarf_skip_leb128 ([0xe5, 0x8e, 0x26] @ [0x01]) = DW_DLV_OK 3"
proof -
  have "leb_shape [0xe5, 0x8e, 0x26]" by (simp add: bit_simps)
  from uleb128_decode_value [OF this, of "[0x01]"] show ?thesis by simp
qed

text \<open>
  the encoder emits the shortest representation: no well-formed sequence of base-128
  digits with the same value is shorter.
\<close>

theorem uleb128_encode_minimal:
  assumes "dwarf_encode_leb128 v n = DW_DLV_OK bs" and "leb_shape cs" and "leb_value cs = unat v"
  shows "length bs \<le> length cs"
proof -
  from assms(2) obtain k where k: "length cs = Suc k" by (cases cs) auto
  have "(128 :: nat) ^ Suc k = 2 ^ (7 * Suc k)"
    by (simp only: power_mult) simp
  then have "unat v < 2 ^ (7 * Suc k)"
    using leb_value_less [of cs] assms(3) k by simp
  then have "drop_bit (7 * Suc k) v = 0"
    by (metis div_less drop_bit_eq_div unat_drop_bit_eq unat_eq_zero)
  with encode_total [of k v "n + Suc k"] obtain bs' where
    bs': "dwarf_encode_leb128 v (n + Suc k) = DW_DLV_OK bs'" "length bs' \<le> Suc k" by auto
  have "bs' = bs" using assms(1) bs'(1) by (rule encode_more_space)
  with bs' k show ?thesis by simp
qed

theorem uleb128_encode_minimal_witness:
  "length [0x80, 0x01 :: byte] \<le> length [0x80, 0x81, 0x00 :: byte]"
proof (rule uleb128_encode_minimal)
  show "dwarf_encode_leb128 128 10 = DW_DLV_OK [0x80, 0x01]"
    by code_simp
qed (simp_all add: bit_simps)

text \<open>
  no decoder consumes more bytes than the buffer holds, nor more than
  \<open>BYTESLEBMAX\<close>, and a success consumes at least one.
\<close>

theorem leb128_consumed_bounds:
  "(dwarf_decode_leb128 bs = DW_DLV_OK (n, v) \<longrightarrow> 1 \<le> n \<and> n \<le> length bs \<and> n \<le> BYTESLEBMAX)
   \<and> (dwarf_decode_signed_leb128 bs = DW_DLV_OK (n, v) \<longrightarrow> 1 \<le> n \<and> n \<le> length bs \<and> n \<le> BYTESLEBMAX)
   \<and> (dwarf_skip_leb128 bs = DW_DLV_OK n \<longrightarrow> 1 \<le> n \<and> n \<le> length bs \<and> n \<le> BYTESLEBMAX)"
  by (intro conjI impI decode_bounds signed_decode_bounds skip_bounds)

theorem leb128_consumed_bounds_witness:
  "(1::nat) \<le> 2 \<and> 2 \<le> length [0x80, 0x01 :: byte] \<and> 2 \<le> BYTESLEBMAX"
proof -
  have "dwarf_decode_leb128 [0x80, 0x01] = DW_DLV_OK (2, 128)" by simp
  with leb128_consumed_bounds [of "[0x80, 0x01]" 2 128] show ?thesis by blast
qed

text \<open>
  a number padded to eleven bytes with a final zero byte is skipped as eleven bytes, and
  is decoded when the buffer ends there, but is rejected as soon as a further byte with
  a non-zero low part follows it: the padding loop does not stop at the byte without the
  continuation bit.
\<close>

theorem uleb128_padding_misread:
  assumes "length xs = 10" and "\<forall>x \<in> set xs. bit x 7" and "take_bit 7 c \<noteq> 0"
  shows "dwarf_skip_leb128 (xs @ 0 # c # rest) = DW_DLV_OK 11
    \<and> dwarf_decode_leb128 (xs @ [0]) = DW_DLV_OK (11, leb_word xs)
    \<and> dwarf_decode_leb128 (xs @ 0 # c # rest) = DW_DLV_ERROR None"
proof -
  obtain b d bs where xs: "xs = b # d # bs" using assms(1) by (cases xs; cases "tl xs") auto
  have skip: "dwarf_skip_leb128 ((xs @ [0]) @ c # rest) = DW_DLV_OK (length (xs @ [0]))"
    using assms by (intro skip_shape) (auto simp: leb_shape_def)
  have start: "dwarf_decode_leb128 (xs @ 0 # zs) = dwarf_decode_leb128_loop 0 zs (leb_word xs) 70 11" for zs
    using decode_loop_prefix [of b "d # bs" 0 0 zs 0] assms xs by (simp add: word_bits)
  from start [of "[]"] start [of "c # rest"] skip assms show ?thesis
    by (simp add: dwarf_decode_leb128_loop.simps word_bits BYTESLEBMAX_def)
qed

theorem uleb128_padding_misread_witness:
  "dwarf_decode_leb128 (replicate 10 0x80 @ 0 # 1 # []) = DW_DLV_ERROR None"
proof -
  have "take_bit 7 (1 :: byte) \<noteq> 0" by simp
  with uleb128_padding_misread [of "replicate 10 0x80" 1 "[]"] show ?thesis by (simp add: bit_simps)
qed

end
