(* ===== verification/Icflow_Tool.thy ===== *)
theory Icflow_Tool
  imports Prelude "HOL-Library.AList" "HOL-Library.Char_ord"
begin

text \<open>
  The collector itself: \<open>MyPinTool.cpp\<close>. It records the indirect call and jump edges of the
  instrumented program that stay inside the main image's \<open>.text\<close> section, and at the end
  merges them with the JSON files earlier runs left beside the binary.
  This theory holds the edge maps, the callbacks (\<open>ImageLoad\<close>, \<open>Instruction\<close>,
  \<open>RecordIndirectEdge\<close>), loading and saving, and \<open>Fini\<close>; \<open>Icflow_Sharing\<close> holds
  several runs ending at the same time.
\<close>

subsection \<open>Edge maps\<close>

text \<open>
  \<open>std::map<ADDRINT, std::unordered_set<ADDRINT>>\<close>: a list of entries with increasing keys,
  each with the elements of its set in some order. \<open>insert_edge\<close> is \<open>m[src].insert(tgt)\<close>.
\<close>

type_synonym addrint = u64
type_synonym edge_map = "(addrint \<times> addrint list) list"

fun insert_edge :: "addrint \<Rightarrow> addrint \<Rightarrow> edge_map \<Rightarrow> edge_map" where
  "insert_edge s t [] = [(s, [t])]"
| "insert_edge s t ((s', ts) # m) =
     (if s = s' then (s', List.insert t ts) # m
      else if s < s' then (s, [t]) # (s', ts) # m
      else (s', ts) # insert_edge s t m)"

definition edges :: "edge_map \<Rightarrow> (addrint \<times> addrint) set" where
  "edges m = {(s, t). \<exists>ts. (s, ts) \<in> set m \<and> t \<in> set ts}"

definition edge_map_wf :: "edge_map \<Rightarrow> bool" where
  "edge_map_wf m \<longleftrightarrow> sorted_wrt (<) (map fst m) \<and> (\<forall>(s, ts) \<in> set m. ts \<noteq> [] \<and> distinct ts)"

subsection \<open>Hexadecimal addresses\<close>

text \<open>\<open>ss << "0x" << std::hex << a\<close>: lower case, no leading zeros.\<close>

definition hex_char :: "nat \<Rightarrow> char" where
  "hex_char d = ''0123456789abcdef'' ! d"

fun hex_digits :: "nat \<Rightarrow> string" where
  "hex_digits n = (if n < 16 then [hex_char n] else hex_digits (n div 16) @ [hex_char (n mod 16)])"

declare hex_digits.simps [simp del]

definition hex_string :: "addrint \<Rightarrow> string" where
  "hex_string a = ''0x'' @ hex_digits (unat a)"

text \<open>\<open>std::stoull(s, nullptr, 16)\<close>, with the exceptions it throws.\<close>

datatype load_error = Parse_error | Type_error | Invalid_argument | Out_of_range

definition hex_value :: "char \<Rightarrow> nat option" where
  "hex_value c =
     (let n = of_char c :: nat in
      if 48 \<le> n \<and> n \<le> 57 then Some (n - 48)
      else if 97 \<le> n \<and> n \<le> 102 then Some (n - 87)
      else if 65 \<le> n \<and> n \<le> 70 then Some (n - 55)
      else None)"

fun hex_run :: "string \<Rightarrow> nat list" where
  "hex_run [] = []"
| "hex_run (c # cs) = (case hex_value c of None \<Rightarrow> [] | Some d \<Rightarrow> d # hex_run cs)"

fun strip_0x :: "string \<Rightarrow> string" where
  "strip_0x (z # x # d # cs) =
     (if z = CHR ''0'' \<and> (x = CHR ''x'' \<or> x = CHR ''X'') \<and> hex_value d \<noteq> None
      then d # cs else z # x # d # cs)"
| "strip_0x cs = cs"

fun split_sign :: "string \<Rightarrow> bool \<times> string" where
  "split_sign (c # cs) =
     (if c = CHR ''-'' then (True, cs) else if c = CHR ''+'' then (False, cs) else (False, c # cs))"
| "split_sign [] = (False, [])"

definition digits_value :: "nat list \<Rightarrow> nat" where
  "digits_value = foldl (\<lambda>a d. a * 16 + d) 0"

definition stoull16 :: "string \<Rightarrow> load_error + addrint" where
  "stoull16 s =
     (let (neg, s2) = split_sign (dropWhile is_space s);
          ds = hex_run (strip_0x s2)
      in if ds = [] then Inl Invalid_argument
         else if 2 ^ 64 \<le> digits_value ds then Inl Out_of_range
         else Inr (if neg then - of_nat (digits_value ds) else of_nat (digits_value ds)))"

subsection \<open>JSON documents\<close>

text \<open>
  The values of \<open>nlohmann::json\<close> as far as the tool can meet them (\<open>JOther\<close>: numbers and
  booleans). Objects are lists of members; the tool never depends on their order.
\<close>

datatype json = JNull | JString string | JArray "json list" | JObject "(string \<times> json) list" | JOther

text \<open>\<open>j[key] = v\<close> on a null value makes it an object.\<close>

fun json_set :: "string \<Rightarrow> json \<Rightarrow> json \<Rightarrow> json" where
  "json_set k v (JObject kvs) = JObject (AList.update k v kvs)"
| "json_set k v j = JObject [(k, v)]"

text \<open>The members \<open>j.items()\<close> goes through, and the elements of a \<open>for\<close> over a value.\<close>

fun dec_digits :: "nat \<Rightarrow> string" where
  "dec_digits n = (if n < 10 then [hex_char n] else dec_digits (n div 10) @ [hex_char (n mod 10)])"

fun json_items :: "json \<Rightarrow> (string \<times> json) list" where
  "json_items JNull = []"
| "json_items (JObject kvs) = kvs"
| "json_items (JArray js) = zip (map dec_digits [0..<length js]) js"
| "json_items j = [('''', j)]"

definition json_elements :: "json \<Rightarrow> json list" where
  "json_elements j = map snd (json_items j)"

fun json_get_string :: "json \<Rightarrow> load_error + string" where
  "json_get_string (JString s) = Inr s"
| "json_get_string _ = Inl Type_error"

subsection \<open>Merging a document into an edge map\<close>

fun load_targets :: "addrint \<Rightarrow> json list \<Rightarrow> edge_map \<Rightarrow> load_error + edge_map" where
  "load_targets src [] m = Inr m"
| "load_targets src (j # js) m =
     (case json_get_string j of
        Inl e \<Rightarrow> Inl e
      | Inr s \<Rightarrow> (case stoull16 s of
          Inl e \<Rightarrow> Inl e
        | Inr tgt \<Rightarrow> load_targets src js (insert_edge src tgt m)))"

fun load_items :: "(string \<times> json) list \<Rightarrow> edge_map \<Rightarrow> load_error + edge_map" where
  "load_items [] m = Inr m"
| "load_items ((key, val) # kvs) m =
     (case stoull16 key of
        Inl e \<Rightarrow> Inl e
      | Inr src \<Rightarrow> (case load_targets src (json_elements val) m of
          Inl e \<Rightarrow> Inl e
        | Inr m' \<Rightarrow> load_items kvs m'))"

definition json_targets :: "addrint list \<Rightarrow> json" where
  "json_targets tgts = JArray (map (\<lambda>t. JString (hex_string t)) tgts)"

definition json_of_edges :: "edge_map \<Rightarrow> json" where
  "json_of_edges m =
     foldl (\<lambda>j (src, tgts). json_set (hex_string src) (json_targets tgts) j) JNull m"

subsection \<open>Files\<close>

text \<open>
  A file is a JSON document, or text that is no JSON document (an empty file is one).
  \<open>readable\<close> and \<open>writable\<close> say whether \<open>open\<close> would succeed, \<open>lockable\<close> whether
  \<open>flock\<close> would.
\<close>

record file_system =
  contents :: "string \<Rightarrow> json option option"
  readable :: "string \<Rightarrow> bool"
  writable :: "string \<Rightarrow> bool"
  lockable :: "string \<Rightarrow> bool"

definition write_file :: "string \<Rightarrow> json option \<Rightarrow> file_system \<Rightarrow> file_system" where
  "write_file path c fs = fs\<lparr>contents := (contents fs)(path \<mapsto> c)\<rparr>"

definition load_edges_from_json ::
    "file_system \<Rightarrow> string \<Rightarrow> edge_map \<Rightarrow> load_error + edge_map" where
  "load_edges_from_json fs path m =
     (case contents fs path of
        None \<Rightarrow> Inr m
      | Some c \<Rightarrow>
          if \<not> readable fs path then Inr m
          else case c of
              None \<Rightarrow> Inl Parse_error
            | Some j \<Rightarrow> load_items (json_items j) m)"

text \<open>The constructor of \<open>FileLock\<close>: \<open>open(path, O_WRONLY | O_CREAT, 0644)\<close>.\<close>

definition file_lock_open :: "string \<Rightarrow> file_system \<Rightarrow> file_system option" where
  "file_lock_open path fs =
     (if \<not> writable fs path then None
      else Some (if contents fs path = None then write_file path None fs else fs))"

definition save_edges_as_json :: "string \<Rightarrow> edge_map \<Rightarrow> file_system \<Rightarrow> file_system" where
  "save_edges_as_json path m fs =
     (case file_lock_open path fs of
        None \<Rightarrow> fs
      | Some fs1 \<Rightarrow>
          if \<not> lockable fs1 path then fs1
          else write_file path (Some (json_of_edges m)) fs1)"

subsection \<open>The tool's state and its callbacks\<close>

record tool =
  indirect_jump_edges :: edge_map
  indirect_call_edges :: edge_map
  text_section_base :: addrint
  text_section_high :: addrint
  main_image_name :: string

record pin_image =
  img_is_main :: bool
  img_name :: string
  img_sections :: "(string \<times> addrint \<times> addrint) list" \<comment> \<open>name, address, size\<close>

record instruction =
  ins_is_indirect :: bool
  ins_is_call :: bool
  ins_address :: addrint

definition initial_tool :: tool where
  "initial_tool = \<lparr>indirect_jump_edges = [], indirect_call_edges = [],
     text_section_base = 0, text_section_high = 0, main_image_name = ''''\<rparr>"

definition in_text :: "tool \<Rightarrow> addrint \<Rightarrow> bool" where
  "in_text T a \<longleftrightarrow> \<not> (a < text_section_base T \<or> text_section_high T \<le> a)"

definition record_indirect_edge :: "addrint \<Rightarrow> addrint \<Rightarrow> bool \<Rightarrow> tool \<Rightarrow> tool" where
  "record_indirect_edge ip tgt is_call T =
     (if \<not> in_text T ip then T
      else if \<not> in_text T tgt then T
      else if is_call
        then T\<lparr>indirect_call_edges := insert_edge ip tgt (indirect_call_edges T)\<rparr>
        else T\<lparr>indirect_jump_edges := insert_edge ip tgt (indirect_jump_edges T)\<rparr>)"

definition image_load :: "pin_image \<Rightarrow> tool \<Rightarrow> tool" where
  "image_load img T =
     (if img_is_main img then
        let T1 = T\<lparr>main_image_name := img_name img\<rparr> in
        case filter (\<lambda>sec. fst sec = ''.text'') (img_sections img) of
          [] \<Rightarrow> T1
        | (_, addr, sz) # _ \<Rightarrow>
            T1\<lparr>text_section_base := addr, text_section_high := addr + sz\<rparr>
      else T)"

text \<open>
  \<open>Instruction\<close>: which analysis call, if any, is inserted; \<open>img\<close> is the result of
  \<open>IMG_FindByAddress\<close> (\<open>None\<close>: not valid). The result is the \<open>isCall\<close> argument.
\<close>

definition instruction_callback :: "tool \<Rightarrow> instruction \<Rightarrow> pin_image option \<Rightarrow> bool option" where
  "instruction_callback T ins img =
     (if \<not> ins_is_indirect ins then None
      else case img of
          None \<Rightarrow> None
        | Some i \<Rightarrow>
            if img_is_main i \<and> text_section_base T \<le> ins_address ins
               \<and> ins_address ins < text_section_high T
            then Some (ins_is_call ins) else None)"

text \<open>
  A run of the program under Pin: images are loaded, instructions are translated (and
  probed), probed instructions transfer control.
\<close>

datatype event =
    Image_loaded pin_image
  | Translated instruction "pin_image option"
  | Branch_taken addrint addrint

record run_state =
  the_tool :: tool
  probes :: "(addrint \<times> bool) list"

fun run_event :: "run_state \<Rightarrow> event \<Rightarrow> run_state" where
  "run_event r (Image_loaded img) = r\<lparr>the_tool := image_load img (the_tool r)\<rparr>"
| "run_event r (Translated ins img) =
     (case instruction_callback (the_tool r) ins img of
        None \<Rightarrow> r
      | Some is_call \<Rightarrow> r\<lparr>probes := AList.update (ins_address ins) is_call (probes r)\<rparr>)"
| "run_event r (Branch_taken ip tgt) =
     (case map_of (probes r) ip of
        None \<Rightarrow> r
      | Some is_call \<Rightarrow> r\<lparr>the_tool := record_indirect_edge ip tgt is_call (the_tool r)\<rparr>)"

definition run_events :: "run_state \<Rightarrow> event list \<Rightarrow> run_state" where
  "run_events = foldl run_event"

subsection \<open>Fini\<close>

text \<open>\<open>std::filesystem::path::filename\<close> and \<open>parent_path\<close> on the image's path.\<close>

definition path_filename :: "string \<Rightarrow> string" where
  "path_filename p = rev (takeWhile (\<lambda>c. c \<noteq> CHR ''/'') (rev p))"

definition path_parent :: "string \<Rightarrow> string" where
  "path_parent p =
     (let d = dropWhile (\<lambda>c. c \<noteq> CHR ''/'') (rev p);
          d' = dropWhile (\<lambda>c. c = CHR ''/'') d
      in if d = [] then [] else if d' = [] then ''/'' else rev d')"

definition ijump_path :: "tool \<Rightarrow> string" where
  "ijump_path T =
     path_parent (main_image_name T) @ ''/'' @ path_filename (main_image_name T) @ ''_ijump.json''"

definition icall_path :: "tool \<Rightarrow> string" where
  "icall_path T =
     path_parent (main_image_name T) @ ''/'' @ path_filename (main_image_name T) @ ''_icall.json''"

definition fini :: "tool \<Rightarrow> file_system \<Rightarrow> load_error + (tool \<times> file_system)" where
  "fini T fs =
     (case load_edges_from_json fs (ijump_path T) (indirect_jump_edges T) of
        Inl e \<Rightarrow> Inl e
      | Inr jumps \<Rightarrow> (case load_edges_from_json fs (icall_path T) (indirect_call_edges T) of
          Inl e \<Rightarrow> Inl e
        | Inr calls \<Rightarrow>
            Inr (T\<lparr>indirect_jump_edges := jumps, indirect_call_edges := calls\<rparr>,
              save_edges_as_json (icall_path T) calls
                (save_edges_as_json (ijump_path T) jumps fs))))"

subsection \<open>The interface of the edge maps\<close>

text \<open>
  What loading and recording rely on: inserting adds one pair and keeps the representation
  well-formed. The lemmas about merging a whole document are proved from this alone.
\<close>

locale edge_store =
  fixes empty_store :: 'm
    and ins :: "'a \<Rightarrow> 'a \<Rightarrow> 'm \<Rightarrow> 'm"
    and pairs :: "'m \<Rightarrow> ('a \<times> 'a) set"
    and wf_store :: "'m \<Rightarrow> bool"
  assumes pairs_empty: "pairs empty_store = {}"
    and pairs_ins: "pairs (ins s t m) = insert (s, t) (pairs m)"
    and wf_empty: "wf_store empty_store"
    and wf_ins: "wf_store m \<Longrightarrow> wf_store (ins s t m)"
begin

lemma pairs_fold_targets: "pairs (fold (ins s) ts m) = pairs m \<union> {s} \<times> set ts"
  by (induction ts arbitrary: m) (auto simp: pairs_ins)

lemma wf_fold_targets: "wf_store m \<Longrightarrow> wf_store (fold (ins s) ts m)"
  by (induction ts arbitrary: m) (auto simp: wf_ins)

lemma pairs_fold_entries:
  "pairs (fold (\<lambda>(s, ts). fold (ins s) ts) es m) = pairs m \<union> {(s, t). \<exists>ts. (s, ts) \<in> set es \<and> t \<in> set ts}"
proof (induction es arbitrary: m)
  case Nil
  then show ?case by simp
next
  case (Cons e es)
  then show ?case by (cases e) (auto simp: pairs_fold_targets)
qed

lemma wf_fold_entries: "wf_store m \<Longrightarrow> wf_store (fold (\<lambda>(s, ts). fold (ins s) ts) es m)"
  by (induction es arbitrary: m) (auto simp: wf_fold_targets split: prod.splits)

end

lemma edges_Nil [simp]: "edges [] = {}"
  by (simp add: edges_def)

lemma edges_Cons: "edges ((s, ts) # m) = {s} \<times> set ts \<union> edges m"
  by (auto simp: edges_def)

lemma edges_insert_edge: "edges (insert_edge s t m) = insert (s, t) (edges m)"
  by (induction s t m rule: insert_edge.induct) (auto simp: edges_Cons)

lemma keys_insert_edge: "fst ` set (insert_edge s t m) = insert s (fst ` set m)"
  by (induction s t m rule: insert_edge.induct) auto

lemma edge_map_wf_insert_edge: "edge_map_wf m \<Longrightarrow> edge_map_wf (insert_edge s t m)"
proof (induction s t m rule: insert_edge.induct)
  case (1 s t)
  then show ?case by (simp add: edge_map_wf_def)
next
  case (2 s t s' ts m)
  have keys: "\<forall>k \<in> set (map fst m). s' < k" and wf: "edge_map_wf m"
    using "2.prems" by (auto simp: edge_map_wf_def)
  consider "s = s'" | "s < s'" | "s \<noteq> s'" "\<not> s < s'" by blast
  then show ?case
  proof cases
    case 3
    then have "s' < s" by simp
    moreover have "edge_map_wf (insert_edge s t m)" using "2.IH" 3 wf by blast
    ultimately show ?thesis
      using 3 keys "2.prems" keys_insert_edge [of s t m] by (auto simp: edge_map_wf_def)
  next
    case 2
    with keys "2.prems" show ?thesis by (fastforce simp: edge_map_wf_def)
  next
    case 1
    with "2.prems" show ?thesis by (auto simp: edge_map_wf_def List.insert_def)
  qed
qed

interpretation edge_maps: edge_store "[]" insert_edge edges edge_map_wf
  by unfold_locales (simp_all add: edges_insert_edge edge_map_wf_insert_edge, simp add: edge_map_wf_def)

lemma hex_value_hex_char: "d < 16 \<Longrightarrow> hex_value (hex_char d) = Some d"
proof -
  have "\<forall>d \<in> set [0..<16]. hex_value (hex_char d) = Some d" by code_simp
  then show "d < 16 \<Longrightarrow> ?thesis" by simp
qed

lemma hex_run_append:
  "\<forall>c \<in> set s. hex_value c \<noteq> None \<Longrightarrow> hex_run (s @ s') = hex_run s @ hex_run s'"
  by (induction s) auto

lemma digits_value_snoc [simp]: "digits_value (ds @ [d]) = digits_value ds * 16 + d"
  by (simp add: digits_value_def)

lemma hex_digits_value:
  "(\<forall>c \<in> set (hex_digits n). hex_value c \<noteq> None) \<and> digits_value (hex_run (hex_digits n)) = n"
proof (induction n rule: hex_digits.induct)
  case (1 n)
  show ?case
  proof (cases "n < 16")
    case True
    then show ?thesis
      by (simp add: hex_digits.simps [of n] hex_value_hex_char digits_value_def)
  next
    case False
    with 1 show ?thesis
      by (simp add: hex_digits.simps [of n] hex_value_hex_char hex_run_append)
  qed
qed

lemma hex_digits_nonempty: "hex_digits n \<noteq> []"
  by (subst hex_digits.simps) simp

lemma stoull16_hex_string [simp]: "stoull16 (hex_string a) = Inr a"
proof -
  obtain d ds where hd: "hex_digits (unat a) = d # ds"
    using hex_digits_nonempty [of "unat a"] by (cases "hex_digits (unat a)") auto
  then have "hex_value d \<noteq> None" "hex_run (d # ds) \<noteq> []" "digits_value (hex_run (d # ds)) = unat a"
    using hex_digits_value [of "unat a"] by (auto split: option.splits)
  moreover have "unat a < 2 ^ LENGTH(64)" by (rule unsigned_less)
  ultimately show ?thesis
    by (simp add: stoull16_def hex_string_def hd is_space_def)
qed

lemma hex_string_inj: "hex_string a = hex_string b \<longleftrightarrow> a = b"
  by (metis stoull16_hex_string sum.inject(2))

lemma load_targets_hex:
  "load_targets src (map (\<lambda>t. JString (hex_string t)) ts) m = Inr (fold (insert_edge src) ts m)"
  by (induction ts arbitrary: m) auto

definition json_entry :: "addrint \<times> addrint list \<Rightarrow> string \<times> json" where
  "json_entry = (\<lambda>(s, ts). (hex_string s, json_targets ts))"

lemma fst_json_entry [simp]: "fst (json_entry e) = hex_string (fst e)"
  by (simp add: json_entry_def split: prod.splits)

lemma json_entry_pair: "json_entry (s, ts) = (hex_string s, json_targets ts)"
  by (simp add: json_entry_def)

lemma json_elements_targets [simp]:
  "json_elements (json_targets ts) = map (\<lambda>t. JString (hex_string t)) ts"
  by (simp add: json_elements_def json_targets_def)

lemma load_items_entries:
  "load_items (map json_entry es) m = Inr (fold (\<lambda>(s, ts). fold (insert_edge s) ts) es m)"
  by (induction es arbitrary: m) (auto simp: json_entry_pair load_targets_hex)

lemma update_fresh: "k \<notin> fst ` set kvs \<Longrightarrow> AList.update k v kvs = kvs @ [(k, v)]"
  by (induction kvs) auto

lemma foldl_json_set:
  "distinct (map fst es) \<Longrightarrow> fst ` set kvs \<inter> fst ` set (map json_entry es) = {} \<Longrightarrow>
   foldl (\<lambda>j (src, tgts). json_set (hex_string src) (json_targets tgts) j)
     (JObject kvs) es = JObject (kvs @ map json_entry es)"
proof (induction es arbitrary: kvs)
  case Nil
  then show ?case by simp
next
  case (Cons e es)
  obtain s ts where e: "e = (s, ts)" by (cases e)
  have "hex_string s \<notin> fst ` set kvs"
    using Cons.prems e by auto
  moreover have "foldl (\<lambda>j (src, tgts). json_set (hex_string src) (json_targets tgts) j)
     (JObject (kvs @ [json_entry e])) es = JObject ((kvs @ [json_entry e]) @ map json_entry es)"
    using Cons.prems e
    by (intro Cons.IH) (auto simp: hex_string_inj image_iff)
  ultimately show ?case using e by (simp add: update_fresh json_entry_pair)
qed

lemma json_of_edges_eq:
  assumes "edge_map_wf m"
  shows "json_of_edges m = (if m = [] then JNull else JObject (map json_entry m))"
proof (cases m)
  case Nil
  then show ?thesis by (simp add: json_of_edges_def)
next
  case (Cons e es)
  have "distinct (map fst m)" using assms
    by (auto simp: edge_map_wf_def strict_sorted_iff)
  then show ?thesis
    using Cons foldl_json_set [of es "[json_entry e]"]
    by (cases e) (auto simp: json_of_edges_def json_entry_pair hex_string_inj image_iff)
qed

lemma load_saved:
  assumes "edge_map_wf m"
  shows "\<exists>m''. load_items (json_items (json_of_edges m)) m' = Inr m'' \<and>
    edges m'' = edges m' \<union> edges m \<and> (edge_map_wf m' \<longrightarrow> edge_map_wf m'')"
proof -
  have "load_items (json_items (json_of_edges m)) m' =
      Inr (fold (\<lambda>(s, ts). fold (insert_edge s) ts) m m')"
    using json_of_edges_eq [OF assms] load_items_entries [of m m'] by simp
  then show ?thesis
    using edge_maps.pairs_fold_entries [of m m'] edge_maps.wf_fold_entries [of m' m]
    by (auto simp: edges_def)
qed

subsection \<open>Runs\<close>

definition loads_main :: "event \<Rightarrow> bool" where
  "loads_main ev = (case ev of Image_loaded img \<Rightarrow> img_is_main img | _ \<Rightarrow> False)"

definition edges_of_kind :: "bool \<Rightarrow> tool \<Rightarrow> (addrint \<times> addrint) set" where
  "edges_of_kind is_call T =
     edges (if is_call then indirect_call_edges T else indirect_jump_edges T)"

definition same_text :: "tool \<Rightarrow> tool \<Rightarrow> bool" where
  "same_text T T' \<longleftrightarrow> text_section_base T' = text_section_base T
     \<and> text_section_high T' = text_section_high T"

lemma same_text_refl [simp]: "same_text T T"
  and same_text_trans: "same_text T T' \<Longrightarrow> same_text T' T'' \<Longrightarrow> same_text T T''"
  and same_text_in_text: "same_text T T' \<Longrightarrow> in_text T' a = in_text T a"
  by (auto simp: same_text_def in_text_def)

lemma run_events_simps [simp]:
  "run_events r [] = r"
  "run_events r (es @ [ev]) = run_event (run_events r es) ev"
  by (simp_all add: run_events_def)

lemma record_same_text: "same_text T (record_indirect_edge ip tgt c T)"
  by (simp add: record_indirect_edge_def same_text_def)

lemma edges_record:
  "edges_of_kind k (record_indirect_edge ip tgt c T) =
     (if k = c \<and> in_text T ip \<and> in_text T tgt then insert (ip, tgt) (edges_of_kind k T)
      else edges_of_kind k T)"
  by (auto simp: edges_of_kind_def record_indirect_edge_def edges_insert_edge)

lemma run_event_same_text: "\<not> loads_main ev \<Longrightarrow> same_text (the_tool r) (the_tool (run_event r ev))"
  by (cases ev) (auto simp: loads_main_def image_load_def record_same_text split: option.split)

lemma run_event_edges:
  "edges_of_kind k (the_tool (run_event r ev)) =
     edges_of_kind k (the_tool r) \<union>
     {(a, t). ev = Branch_taken a t \<and> map_of (probes r) a = Some k
        \<and> in_text (the_tool r) a \<and> in_text (the_tool r) t}"
proof (cases ev)
  case (Image_loaded img)
  then show ?thesis
    by (auto simp: edges_of_kind_def image_load_def Let_def split: list.split)
next
  case (Translated ins img)
  then show ?thesis by (auto split: option.split)
next
  case (Branch_taken a t)
  then show ?thesis by (auto simp: edges_record split: option.splits)
qed

lemma run_events_same_text:
  "\<forall>ev \<in> set es. \<not> loads_main ev \<Longrightarrow> same_text (the_tool r) (the_tool (run_events r es))"
  by (induction es rule: rev_induct) (auto intro: same_text_trans run_event_same_text)

definition taken_edges :: "bool \<Rightarrow> run_state \<Rightarrow> event list \<Rightarrow> (addrint \<times> addrint) set" where
  "taken_edges k r es = {(a, t). in_text (the_tool r) a \<and> in_text (the_tool r) t \<and>
     (\<exists>earlier later. es = earlier @ Branch_taken a t # later \<and>
        map_of (probes (run_events r earlier)) a = Some k)}"

lemma split_snoc:
  "(\<exists>earlier later. es @ [ev] = earlier @ x # later \<and> P earlier) \<longleftrightarrow>
     (\<exists>earlier later. es = earlier @ x # later \<and> P earlier) \<or> ev = x \<and> P es"
proof (intro iffI; elim exE conjE disjE)
  fix earlier later
  assume "es @ [ev] = earlier @ x # later" "P earlier"
  then show "(\<exists>earlier later. es = earlier @ x # later \<and> P earlier) \<or> ev = x \<and> P es"
    by (cases later rule: rev_cases) auto
next
  fix earlier later
  assume "es = earlier @ x # later" "P earlier"
  then show "\<exists>earlier later. es @ [ev] = earlier @ x # later \<and> P earlier"
    by (intro exI [of _ earlier] exI [of _ "later @ [ev]"]) simp
qed auto

lemma taken_edges_snoc:
  "taken_edges k r (es @ [ev]) = taken_edges k r es \<union>
     {(a, t). ev = Branch_taken a t \<and> map_of (probes (run_events r es)) a = Some k
        \<and> in_text (the_tool r) a \<and> in_text (the_tool r) t}"
  unfolding taken_edges_def split_snoc by blast

lemma run_events_edges:
  assumes "\<forall>ev \<in> set es. \<not> loads_main ev"
  shows "edges_of_kind k (the_tool (run_events r es)) =
    edges_of_kind k (the_tool r) \<union> taken_edges k r es"
  using assms
proof (induction es rule: rev_induct)
  case Nil
  then show ?case by (simp add: taken_edges_def)
next
  case (snoc ev es)
  have intext: "in_text (the_tool (run_events r es)) a = in_text (the_tool r) a" for a
    using snoc.prems by (intro same_text_in_text run_events_same_text) auto
  have ih: "edges_of_kind k (the_tool (run_events r es)) =
      edges_of_kind k (the_tool r) \<union> taken_edges k r es"
    by (rule snoc.IH) (use snoc.prems in auto)
  show ?case
    by (simp only: run_events_simps run_event_edges intext ih taken_edges_snoc Un_assoc)
qed

text \<open>The probe at an address is that of the last translation of an indirect transfer of the main image there.\<close>

definition translates :: "addrint \<Rightarrow> event \<Rightarrow> bool" where
  "translates a ev = (case ev of
       Translated ins (Some img) \<Rightarrow> ins_is_indirect ins \<and> img_is_main img \<and> ins_address ins = a
     | _ \<Rightarrow> False)"

definition probed_as :: "bool \<Rightarrow> addrint \<Rightarrow> event list \<Rightarrow> bool" where
  "probed_as k a es = (case filter (translates a) (rev es) of
       Translated ins img # _ \<Rightarrow> ins_is_call ins = k
     | _ \<Rightarrow> False)"

lemma probed_as_snoc:
  "probed_as k a (es @ [ev]) =
     (if translates a ev then (case ev of Translated ins img \<Rightarrow> ins_is_call ins = k | _ \<Rightarrow> False)
      else probed_as k a es)"
  by (simp add: probed_as_def split: event.split)

lemma probes_are:
  assumes "\<forall>ev \<in> set es. \<not> loads_main ev" "probes r = []" "in_text (the_tool r) a"
  shows "map_of (probes (run_events r es)) a = Some k \<longleftrightarrow> probed_as k a es"
  using assms(1)
proof (induction es rule: rev_induct)
  case Nil
  then show ?case using assms(2) by (simp add: probed_as_def)
next
  case (snoc ev es)
  let ?r = "run_events r es"
  have ih: "map_of (probes ?r) a = Some k \<longleftrightarrow> probed_as k a es" using snoc by simp
  have same: "same_text (the_tool r) (the_tool ?r)" using snoc.prems by (intro run_events_same_text) auto
  show ?case
  proof (cases ev)
    case (Translated ins img)
    have "map_of (probes (run_event ?r ev)) a =
        (if translates a ev then Some (ins_is_call ins) else map_of (probes ?r) a)"
      using assms(3) same unfolding Translated
      by (auto simp: translates_def instruction_callback_def same_text_def in_text_def update_conv' split: option.split)
    then show ?thesis using Translated ih by (simp add: probed_as_snoc)
  qed (use ih in \<open>auto simp: probed_as_snoc translates_def split: option.split\<close>)
qed

text \<open>Before the main image is loaded no address is in the section.\<close>

definition start_run :: run_state where
  "start_run = \<lparr>the_tool = initial_tool, probes = []\<rparr>"

lemma nothing_before_main:
  "\<forall>ev \<in> set es. \<not> loads_main ev \<Longrightarrow> run_events start_run es = start_run"
proof (induction es rule: rev_induct)
  case (snoc ev es)
  then have "run_events start_run es = start_run" "\<not> loads_main ev" by simp_all
  then show ?case
    by (cases ev) (auto simp: start_run_def initial_tool_def image_load_def loads_main_def instruction_callback_def
        split: option.split)
qed simp

lemma filter_find: "find P xs = Some y \<Longrightarrow> \<exists>rest. filter P xs = y # rest"
  by (induction xs) (auto split: if_splits)

lemma loaded_text:
  assumes "img_is_main img" "find (\<lambda>sec. fst sec = ''.text'') (img_sections img) = Some (nm, base, sz)"
  shows "in_text (image_load img T) a \<longleftrightarrow> base \<le> a \<and> a < base + sz"
    and "edges_of_kind k (image_load img T) = edges_of_kind k T"
proof -
  have "\<exists>rest. filter (\<lambda>sec. fst sec = ''.text'') (img_sections img) = (nm, base, sz) # rest"
    using assms(2) by (rule filter_find)
  then show "in_text (image_load img T) a \<longleftrightarrow> base \<le> a \<and> a < base + sz"
    and "edges_of_kind k (image_load img T) = edges_of_kind k T"
    using assms(1) by (auto simp: image_load_def in_text_def edges_of_kind_def not_less)
qed

text \<open>
  C23: whatever images are loaded, instructions translated and branches taken in a run, in whatever order, the
  call (jump) edges recorded at its end are exactly the branches taken after the main image was loaded whose two
  ends lie in its \<open>.text\<close> section, first byte included and the byte behind the section excluded, from an address
  where the last indirect transfer of the main image translated before the branch was a call (was none).
\<close>

theorem run_records_exactly:
  assumes "img_is_main img" "find (\<lambda>sec. fst sec = ''.text'') (img_sections img) = Some (nm, base, sz)"
    and "\<forall>ev \<in> set (es0 @ es). \<not> loads_main ev"
  shows "edges_of_kind k (the_tool (run_events start_run (es0 @ Image_loaded img # es))) =
      {(a, t). base \<le> a \<and> a < base + sz \<and> base \<le> t \<and> t < base + sz \<and>
         (\<exists>earlier later. es = earlier @ Branch_taken a t # later \<and> probed_as k a earlier)}"
proof -
  let ?r = "run_event start_run (Image_loaded img)"
  have r: "run_events start_run (es0 @ Image_loaded img # es) = run_events ?r es"
    using nothing_before_main [of es0] assms(3) by (simp add: run_events_def)
  have inside: "in_text (the_tool ?r) a \<longleftrightarrow> base \<le> a \<and> a < base + sz" for a
    using loaded_text(1) [OF assms(1,2)] by simp
  have none: "edges_of_kind k (the_tool ?r) = {}"
    using loaded_text(2) [OF assms(1,2)] by (simp add: start_run_def initial_tool_def edges_of_kind_def)
  have probed: "map_of (probes (run_events ?r earlier)) a = Some k \<longleftrightarrow> probed_as k a earlier"
    if "in_text (the_tool ?r) a" "es = earlier @ later" for a earlier later
    by (rule probes_are) (use that assms(3) in \<open>auto simp: start_run_def\<close>)
  have all: "\<forall>ev \<in> set es. \<not> loads_main ev" using assms(3) by simp
  have "taken_edges k ?r es = {(a, t). in_text (the_tool ?r) a \<and> in_text (the_tool ?r) t \<and>
      (\<exists>earlier later. es = earlier @ Branch_taken a t # later \<and> probed_as k a earlier)}"
    unfolding taken_edges_def
    by (intro Collect_cong prod.case_cong refl conj_cong ex_cong1) (rule probed)
  then show ?thesis unfolding r run_events_edges [OF all] none inside by simp
qed

definition demo_image :: pin_image where
  "demo_image = \<lparr>img_is_main = True, img_name = ''/data/bin/testlink'',
     img_sections = [(''.plt'', 0x400, 0x100), (''.text'', 0x1000, 0x200)]\<rparr>"

definition demo_events :: "event list" where
  "demo_events =
     [Translated \<lparr>ins_is_indirect = True, ins_is_call = True, ins_address = 0x1010\<rparr> (Some demo_image),
      Branch_taken 0x1010 0x11ff, Branch_taken 0x1010 0x1200]"

theorem run_records_exactly_witness:
  "(0x1010, 0x11ff) \<in> edges_of_kind True (the_tool (run_events start_run ([] @ Image_loaded demo_image # demo_events)))
    \<and> (0x1010, 0x1200) \<notin> edges_of_kind True (the_tool (run_events start_run ([] @ Image_loaded demo_image # demo_events)))"
proof -
  have h: "img_is_main demo_image" "\<forall>ev \<in> set ([] @ demo_events). \<not> loads_main ev"
      "find (\<lambda>sec. fst sec = ''.text'') (img_sections demo_image) = Some (''.text'', 0x1000, 0x200)"
    by (simp_all add: demo_events_def loads_main_def demo_image_def)
  have "demo_events = [hd demo_events] @ Branch_taken 0x1010 0x11ff # [Branch_taken 0x1010 0x1200]"
      "probed_as True 0x1010 [hd demo_events]"
    by (simp_all add: demo_events_def probed_as_def translates_def demo_image_def)
  then have "\<exists>earlier later. demo_events = earlier @ Branch_taken 0x1010 0x11ff # later \<and> probed_as True 0x1010 earlier"
    by blast
  then show ?thesis unfolding run_records_exactly [OF h(1,3,2)] by simp
qed

subsection \<open>Merging with earlier runs\<close>

definition holds_edges :: "file_system \<Rightarrow> string \<Rightarrow> (addrint \<times> addrint) set \<Rightarrow> bool" where
  "holds_edges fs p E \<longleftrightarrow>
     (contents fs p = None \<and> E = {}) \<or>
     (\<exists>m. edge_map_wf m \<and> edges m = E \<and> contents fs p = Some (Some (json_of_edges m)))"

definition usable :: "file_system \<Rightarrow> string \<Rightarrow> bool" where
  "usable fs p \<longleftrightarrow> readable fs p \<and> writable fs p \<and> lockable fs p"

lemma write_file_simps [simp]:
  "contents (write_file p c fs) = (contents fs)(p \<mapsto> c)"
  "readable (write_file p c fs) = readable fs"
  "writable (write_file p c fs) = writable fs"
  "lockable (write_file p c fs) = lockable fs"
  by (simp_all add: write_file_def)

lemma save_usable:
  "usable fs p \<Longrightarrow> contents (save_edges_as_json p m fs) = (contents fs)(p \<mapsto> Some (json_of_edges m))"
  by (auto simp: save_edges_as_json_def file_lock_open_def usable_def)

lemma save_attributes [simp]:
  "readable (save_edges_as_json p m fs) = readable fs"
  "writable (save_edges_as_json p m fs) = writable fs"
  "lockable (save_edges_as_json p m fs) = lockable fs"
  by (simp_all add: save_edges_as_json_def file_lock_open_def)

lemma usable_save [simp]: "usable (save_edges_as_json p m fs) q = usable fs q"
  by (simp add: usable_def)

lemma load_holds:
  assumes "holds_edges fs p E" and "usable fs p" and "edge_map_wf m"
  shows "\<exists>m'. load_edges_from_json fs p m = Inr m' \<and> edge_map_wf m' \<and> edges m' = edges m \<union> E"
  using assms load_saved
  by (fastforce simp: load_edges_from_json_def holds_edges_def usable_def)

lemma paths_differ: "ijump_path T \<noteq> icall_path T"
  by (simp add: ijump_path_def icall_path_def)

lemma fini_step:
  assumes "holds_edges fs (ijump_path T) J" and "holds_edges fs (icall_path T) C"
    and "usable fs (ijump_path T)" and "usable fs (icall_path T)"
    and "edge_map_wf (indirect_jump_edges T)" and "edge_map_wf (indirect_call_edges T)"
  shows "\<exists>T' fs'. fini T fs = Inr (T', fs')
    \<and> holds_edges fs' (ijump_path T) (J \<union> edges_of_kind False T)
    \<and> holds_edges fs' (icall_path T) (C \<union> edges_of_kind True T)
    \<and> (\<forall>p. p \<noteq> ijump_path T \<longrightarrow> p \<noteq> icall_path T \<longrightarrow> contents fs' p = contents fs p)
    \<and> usable fs' = usable fs"
proof -
  from load_holds [OF assms(1,3,5)] obtain jm where
    jm: "load_edges_from_json fs (ijump_path T) (indirect_jump_edges T) = Inr jm" "edge_map_wf jm"
      "edges jm = edges (indirect_jump_edges T) \<union> J" by auto
  from load_holds [OF assms(2,4,6)] obtain cm where
    cm: "load_edges_from_json fs (icall_path T) (indirect_call_edges T) = Inr cm" "edge_map_wf cm"
      "edges cm = edges (indirect_call_edges T) \<union> C" by auto
  show ?thesis
    using jm cm assms(3,4) paths_differ [of T]
    by (auto simp: fini_def save_usable holds_edges_def edges_of_kind_def fun_eq_iff)
qed

text \<open>Runs of the same binary that end one after the other.\<close>

fun fini_all :: "tool list \<Rightarrow> file_system \<Rightarrow> load_error + file_system" where
  "fini_all [] fs = Inr fs"
| "fini_all (T # Ts) fs =
     (case fini T fs of Inl e \<Rightarrow> Inl e | Inr (T', fs') \<Rightarrow> fini_all Ts fs')"

text \<open>
  C1: runs of the same binary that end one after the other accumulate: if the two files
  beside the binary hold the edge sets J and C (or are absent), then after any number of
  complete \<open>Fini\<close> calls they hold J and C together with every edge every run recorded,
  nothing else, and every \<open>Fini\<close> succeeds.
\<close>

theorem sequential_runs_accumulate:
  assumes "\<forall>T \<in> set Ts. main_image_name T = main_image_name T0
      \<and> edge_map_wf (indirect_jump_edges T) \<and> edge_map_wf (indirect_call_edges T)"
    and "holds_edges fs (ijump_path T0) J" and "holds_edges fs (icall_path T0) C"
    and "usable fs (ijump_path T0)" and "usable fs (icall_path T0)"
  shows "\<exists>fs'. fini_all Ts fs = Inr fs'
    \<and> holds_edges fs' (ijump_path T0) (J \<union> (\<Union>T \<in> set Ts. edges_of_kind False T))
    \<and> holds_edges fs' (icall_path T0) (C \<union> (\<Union>T \<in> set Ts. edges_of_kind True T))"
  using assms
proof (induction Ts arbitrary: fs J C)
  case Nil
  then show ?case by simp
next
  case (Cons T Ts)
  have p: "ijump_path T = ijump_path T0" "icall_path T = icall_path T0"
    using Cons.prems(1) by (auto simp: ijump_path_def icall_path_def)
  from Cons.prems fini_step [of fs T J C] p obtain T' fs' where
    f: "fini T fs = Inr (T', fs')"
      "holds_edges fs' (ijump_path T0) (J \<union> edges_of_kind False T)"
      "holds_edges fs' (icall_path T0) (C \<union> edges_of_kind True T)"
      "usable fs' = usable fs" by auto
  have "\<exists>fs''. fini_all Ts fs' = Inr fs''
    \<and> holds_edges fs'' (ijump_path T0) ((J \<union> edges_of_kind False T) \<union> (\<Union>T \<in> set Ts. edges_of_kind False T))
    \<and> holds_edges fs'' (icall_path T0) ((C \<union> edges_of_kind True T) \<union> (\<Union>T \<in> set Ts. edges_of_kind True T))"
    by (rule Cons.IH) (use Cons.prems f in auto)
  then show ?case using f by (simp add: Un_assoc)
qed

definition open_fs :: file_system where
  "open_fs = \<lparr>contents = Map.empty, readable = (\<lambda>_. True), writable = (\<lambda>_. True),
     lockable = (\<lambda>_. True)\<rparr>"

definition demo_run :: "addrint \<Rightarrow> addrint \<Rightarrow> tool" where
  "demo_run a t = record_indirect_edge a t True (image_load demo_image initial_tool)"

theorem sequential_runs_accumulate_witness:
  "\<exists>fs'. fini_all [demo_run 0x1010 0x1100, demo_run 0x1010 0x1180] open_fs = Inr fs' \<and>
     holds_edges fs' (icall_path (image_load demo_image initial_tool))
       {(0x1010, 0x1100), (0x1010, 0x1180)}"
proof -
  let ?T0 = "image_load demo_image initial_tool"
  have img: "main_image_name (demo_run a t) = main_image_name ?T0"
    "edge_map_wf (indirect_jump_edges (demo_run a t))"
    "edge_map_wf (indirect_call_edges (demo_run a t))" for a t
    by (simp_all add: demo_run_def record_indirect_edge_def image_load_def demo_image_def
        initial_tool_def edge_map_wf_def)
  have e: "edges_of_kind True (demo_run 0x1010 0x1100) = {(0x1010, 0x1100)}"
    "edges_of_kind True (demo_run 0x1010 0x1180) = {(0x1010, 0x1180)}"
    by (simp_all add: demo_run_def edges_record)
      (auto simp: edges_of_kind_def image_load_def demo_image_def initial_tool_def in_text_def edges_def)
  have "\<exists>fs'. fini_all [demo_run 0x1010 0x1100, demo_run 0x1010 0x1180] open_fs = Inr fs' \<and>
     holds_edges fs' (ijump_path ?T0)
      ({} \<union> (\<Union>T \<in> set [demo_run 0x1010 0x1100, demo_run 0x1010 0x1180]. edges_of_kind False T)) \<and>
     holds_edges fs' (icall_path ?T0)
      ({} \<union> (\<Union>T \<in> set [demo_run 0x1010 0x1100, demo_run 0x1010 0x1180]. edges_of_kind True T))"
    by (rule sequential_runs_accumulate)
      (use img in \<open>auto simp: holds_edges_def open_fs_def usable_def\<close>)
  then obtain fs' where
    "fini_all [demo_run 0x1010 0x1100, demo_run 0x1010 0x1180] open_fs = Inr fs'"
    "holds_edges fs' (icall_path ?T0) {(0x1010, 0x1100), (0x1010, 0x1180)}"
    by (auto simp: e insert_commute simp del: fini_all.simps)
  then show ?thesis by blast
qed

subsection \<open>Documents \<open>Fini\<close> does not read\<close>

text \<open>
  \<open>Fini\<close> aborts with the parser's exception when the jump file exists, can be
  read and is not a JSON document, whatever was recorded. The empty file that \<open>FileLock\<close>
  creates is one: after a save whose \<open>flock\<close> failed, the next \<open>Fini\<close> on that path ends
  this way.
\<close>

theorem fini_after_failed_lock:
  assumes "contents fs (ijump_path T) = None" and "readable fs (ijump_path T)"
    and "writable fs (ijump_path T)" and "\<not> lockable fs (ijump_path T)"
    and "main_image_name T' = main_image_name T"
  shows "fini T' (save_edges_as_json (ijump_path T) m fs) = Inl Parse_error"
proof -
  have "ijump_path T' = ijump_path T" using assms(5) by (simp add: ijump_path_def)
  then show ?thesis
    using assms(1-4)
    by (auto simp: fini_def save_edges_as_json_def file_lock_open_def load_edges_from_json_def)
qed

theorem fini_after_failed_lock_witness:
  "fini initial_tool (save_edges_as_json (ijump_path initial_tool) []
     (open_fs\<lparr>lockable := (\<lambda>_. False)\<rparr>)) = Inl Parse_error"
  using fini_after_failed_lock [of "open_fs\<lparr>lockable := (\<lambda>_. False)\<rparr>" initial_tool initial_tool "[]"]
  by (simp add: open_fs_def)

text \<open>
  what is saved is a function of the recorded edges: a map with no edges is written
  as \<open>null\<close>, any other as an object whose members are the entries in increasing order
  of the source address, each with the array of its targets, with no entry lost.
\<close>

theorem saved_document:
  assumes "edge_map_wf m"
  shows "json_of_edges m =
    (if m = [] then JNull
     else JObject (map (\<lambda>(s, ts). (hex_string s, JArray (map (JString \<circ> hex_string) ts))) m))"
  using json_of_edges_eq [OF assms] by (simp add: json_entry_def json_targets_def comp_def)

theorem saved_document_witness:
  "json_of_edges [] = JNull \<and>
   json_of_edges [(0x1010, [0x1100])] = JObject [(''0x1010'', JArray [JString ''0x1100''])]"
proof -
  have wf: "edge_map_wf []" "edge_map_wf [(0x1010, [0x1100])]" by (simp_all add: edge_map_wf_def)
  have "hex_string 0x1010 = ''0x1010''" "hex_string 0x1100 = ''0x1100''" by (simp_all add: hex_string_def hex_digits.simps hex_char_def)
  then show ?thesis
    using saved_document [OF wf(1)] saved_document [OF wf(2)] by simp
qed

end
