(* ===== verification/Icflow_Sharing.thy ===== *)
theory Icflow_Sharing
  imports Icflow_Tool
begin

text \<open>
  Several runs of the tool ending at the same time: \<open>Fini\<close> of \<open>MyPinTool.cpp\<close> as the
  sequence of its file operations, interleaved arbitrarily. A step is one system call (one
  \<open>LoadEdgesFromJSON\<close>, the \<open>open\<close> of \<open>FileLock\<close>, \<open>flock\<close>, the truncation by \<open>ofstream\<close>,
  the write, the unlock) of one run; the lock table is what \<open>flock\<close> keeps per file.
\<close>

subsection \<open>Stages of a run\<close>

text \<open>The flag of a stage says which file it is about: \<open>True\<close> the call edges, \<open>False\<close> the jump edges.\<close>

datatype stage =
    Loading bool | Opening bool | Locking bool | Truncating bool | Writing bool | Unlocking bool
  | Finished | Crashed

record proc =
  p_tool :: tool
  p_stage :: stage

record shared =
  sh_fs :: file_system
  sh_locks :: "string \<Rightarrow> nat option"
  sh_procs :: "proc list"

definition edge_path :: "bool \<Rightarrow> tool \<Rightarrow> string" where
  "edge_path k T = (if k then icall_path T else ijump_path T)"

definition kind_edges :: "bool \<Rightarrow> tool \<Rightarrow> edge_map" where
  "kind_edges k T = (if k then indirect_call_edges T else indirect_jump_edges T)"

definition set_kind_edges :: "bool \<Rightarrow> edge_map \<Rightarrow> tool \<Rightarrow> tool" where
  "set_kind_edges k m T =
     (if k then T\<lparr>indirect_call_edges := m\<rparr> else T\<lparr>indirect_jump_edges := m\<rparr>)"

definition after_save :: "bool \<Rightarrow> stage" where
  "after_save k = (if k then Finished else Opening True)"

definition after_load :: "bool \<Rightarrow> stage" where
  "after_load k = (if k then Opening False else Loading True)"

definition set_proc :: "nat \<Rightarrow> proc \<Rightarrow> shared \<Rightarrow> shared" where
  "set_proc i P s = s\<lparr>sh_procs := (sh_procs s)[i := P]\<rparr>"

definition set_stage :: "nat \<Rightarrow> stage \<Rightarrow> shared \<Rightarrow> shared" where
  "set_stage i st s = set_proc i ((sh_procs s ! i)\<lparr>p_stage := st\<rparr>) s"

fun stage_step :: "stage \<Rightarrow> nat \<Rightarrow> tool \<Rightarrow> shared \<Rightarrow> shared option" where
  "stage_step (Loading k) i T s =
     Some (case load_edges_from_json (sh_fs s) (edge_path k T) (kind_edges k T) of
       Inl e \<Rightarrow> set_stage i Crashed s
     | Inr m \<Rightarrow> set_proc i \<lparr>p_tool = set_kind_edges k m T, p_stage = after_load k\<rparr> s)"
| "stage_step (Opening k) i T s =
     Some (case file_lock_open (edge_path k T) (sh_fs s) of
       None \<Rightarrow> set_stage i (after_save k) s
     | Some fs \<Rightarrow> set_stage i (Locking k) (s\<lparr>sh_fs := fs\<rparr>))"
| "stage_step (Locking k) i T s =
     (if \<not> lockable (sh_fs s) (edge_path k T) then Some (set_stage i (after_save k) s)
      else if sh_locks s (edge_path k T) = None
        then Some (set_stage i (Truncating k)
               (s\<lparr>sh_locks := (sh_locks s)(edge_path k T \<mapsto> i)\<rparr>))
        else None)"
| "stage_step (Truncating k) i T s =
     Some (set_stage i (Writing k) (s\<lparr>sh_fs := write_file (edge_path k T) None (sh_fs s)\<rparr>))"
| "stage_step (Writing k) i T s =
     Some (set_stage i (Unlocking k) (s\<lparr>sh_fs :=
       write_file (edge_path k T) (Some (json_of_edges (kind_edges k T))) (sh_fs s)\<rparr>))"
| "stage_step (Unlocking k) i T s =
     Some (set_stage i (after_save k) (s\<lparr>sh_locks := (sh_locks s)(edge_path k T := None)\<rparr>))"
| "stage_step Finished i T s = None"
| "stage_step Crashed i T s = None"

definition proc_step :: "nat \<Rightarrow> shared \<Rightarrow> shared option" where
  "proc_step i s =
     (if i < length (sh_procs s)
      then stage_step (p_stage (sh_procs s ! i)) i (p_tool (sh_procs s ! i)) s else None)"

inductive step :: "shared \<Rightarrow> shared \<Rightarrow> bool" where
  step_proc: "proc_step i s = Some s' \<Longrightarrow> step s s'"

inductive reaches :: "shared \<Rightarrow> shared \<Rightarrow> bool" for s0 where
  reaches_start: "reaches s0 s0"
| reaches_step: "reaches s0 s \<Longrightarrow> step s s' \<Longrightarrow> reaches s0 s'"

inductive_simps step_iff: "step s s'"

definition start_shared :: "tool list \<Rightarrow> file_system \<Rightarrow> shared" where
  "start_shared Ts fs = \<lparr>sh_fs = fs, sh_locks = Map.empty,
     sh_procs = map (\<lambda>T. \<lparr>p_tool = T, p_stage = Loading False\<rparr>) Ts\<rparr>"

definition schedule :: "nat list \<Rightarrow> shared \<Rightarrow> shared option" where
  "schedule is s = foldl (\<lambda>r i. Option.bind r (proc_step i)) (Some s) is"

lemma schedule_simps [simp]:
  "schedule [] s = Some s"
  "schedule (is @ [i]) s = Option.bind (schedule is s) (proc_step i)"
  by (simp_all add: schedule_def)

lemma schedule_reaches: "schedule is s = Some s' \<Longrightarrow> reaches s s'"
proof (induction "is" arbitrary: s' rule: rev_induct)
  case Nil
  then show ?case by (simp add: reaches_start)
next
  case (snoc i "is")
  then obtain t where "schedule is s = Some t" "proc_step i t = Some s'"
    by (auto simp: bind_eq_Some_conv)
  then show ?case using snoc.IH reaches_step step_proc by blast
qed

lemma edge_path_set [simp]: "edge_path k (set_kind_edges k' m T) = edge_path k T"
  by (simp add: edge_path_def set_kind_edges_def ijump_path_def icall_path_def)

lemma edge_path_inj [simp]: "edge_path k T = edge_path k' T \<longleftrightarrow> k = k'"
  using paths_differ [of T] by (auto simp: edge_path_def)

lemma set_simps [simp]:
  "sh_fs (set_proc i P s) = sh_fs s" "sh_locks (set_proc i P s) = sh_locks s"
  "sh_procs (set_proc i P s) = (sh_procs s)[i := P]"
  "sh_fs (set_stage i st s) = sh_fs s" "sh_locks (set_stage i st s) = sh_locks s"
  "sh_procs (set_stage i st s) = (sh_procs s)[i := (sh_procs s ! i)\<lparr>p_stage := st\<rparr>]"
  by (simp_all add: set_proc_def set_stage_def)

subsection \<open>Mutual exclusion\<close>

definition in_section :: "bool \<Rightarrow> stage \<Rightarrow> bool" where
  "in_section k st \<longleftrightarrow> st = Truncating k \<or> st = Writing k \<or> st = Unlocking k"

definition owns :: "shared \<Rightarrow> nat \<Rightarrow> string \<Rightarrow> bool" where
  "owns s i p \<longleftrightarrow> i < length (sh_procs s) \<and>
     (\<exists>k. in_section k (p_stage (sh_procs s ! i)) \<and> p = edge_path k (p_tool (sh_procs s ! i)))"

definition lock_inv :: "shared \<Rightarrow> bool" where
  "lock_inv s \<longleftrightarrow> (\<forall>p i. sh_locks s p = Some i \<longleftrightarrow> owns s i p)"

lemma in_section_simps [simp]:
  "in_section k (Truncating k') \<longleftrightarrow> k' = k" "in_section k (Writing k') \<longleftrightarrow> k' = k"
  "in_section k (Unlocking k') \<longleftrightarrow> k' = k" "\<not> in_section k (Loading k')"
  "\<not> in_section k (Opening k')" "\<not> in_section k (Locking k')" "\<not> in_section k Finished"
  "\<not> in_section k Crashed" "\<not> in_section k (after_save k')" "\<not> in_section k (after_load k')"
  by (auto simp: in_section_def after_save_def after_load_def)

lemma owns_update:
  assumes "i < length (sh_procs s)" and "sh_procs s' = (sh_procs s)[i := P]"
  shows "owns s' j p \<longleftrightarrow> (if j = i then \<exists>k. in_section k (p_stage P) \<and> p = edge_path k (p_tool P)
     else owns s j p)"
  using assms by (auto simp: owns_def)

lemma owns_here:
  assumes "i < length (sh_procs s)"
  shows "owns s i p \<longleftrightarrow>
    (\<exists>k. in_section k (p_stage (sh_procs s ! i)) \<and> p = edge_path k (p_tool (sh_procs s ! i)))"
  using assms by (simp add: owns_def)

lemma proc_step_procs:
  assumes "proc_step i s = Some s'"
  shows "i < length (sh_procs s) \<and> (\<exists>P. sh_procs s' = (sh_procs s)[i := P])"
  using assms
  by (cases "p_stage (sh_procs s ! i)")
    (auto simp: proc_step_def split: if_splits sum.splits option.splits)

lemma lock_inv_step:
  assumes inv: "lock_inv s" and st: "proc_step i s = Some s'"
  shows "lock_inv s'"
proof -
  have i: "i < length (sh_procs s)" using proc_step_procs [OF st] by simp
  note own = owns_update [OF i] owns_here [OF i]
  have inv': "sh_locks s p = Some j \<longleftrightarrow> owns s j p" for p j using inv by (simp add: lock_inv_def)
  have uniq: "owns s j p \<Longrightarrow> owns s i p \<Longrightarrow> j = i" for j p
    using inv' by (metis option.inject)
  have free: "sh_locks s p = None \<Longrightarrow> \<not> owns s j p" for j p
    using inv' by (metis option.distinct(1))
  show ?thesis
  proof (cases "p_stage (sh_procs s ! i)")
    case (Loading k)
    then show ?thesis
      using st i inv' uniq by (auto simp: lock_inv_def proc_step_def own split: sum.splits if_splits)
  next
    case (Opening k)
    then show ?thesis
      using st i inv' uniq by (auto simp: lock_inv_def proc_step_def own split: option.splits if_splits)
  next
    case (Locking k)
    then show ?thesis
      using st i inv' free by (auto simp: lock_inv_def proc_step_def own split: if_splits)
  next
    case (Truncating k)
    then show ?thesis
      using st i inv' uniq by (auto simp: lock_inv_def proc_step_def own split: if_splits)
  next
    case (Writing k)
    then show ?thesis
      using st i inv' uniq by (auto simp: lock_inv_def proc_step_def own split: if_splits)
  next
    case (Unlocking k)
    then show ?thesis
      using st i inv' uniq by (auto simp: lock_inv_def proc_step_def own split: if_splits)
  next
    case Finished
    then show ?thesis using st i by (simp add: proc_step_def)
  next
    case Crashed
    then show ?thesis using st i by (simp add: proc_step_def)
  qed
qed

lemma lock_inv_start: "lock_inv (start_shared Ts fs)"
  by (auto simp: lock_inv_def start_shared_def owns_def)

lemma lock_inv_reaches: "reaches s0 s \<Longrightarrow> lock_inv s0 \<Longrightarrow> lock_inv s"
  by (induction rule: reaches.induct) (auto simp: step_iff intro: lock_inv_step)

text \<open>
  C24: the lock does exclude writers: in no state that runs ending together can reach are
  two of them inside the section of \<open>SaveEdgesAsJSON\<close> between taking the lock of a file and
  giving it back.
\<close>

theorem writers_exclude_each_other:
  assumes "reaches (start_shared Ts fs) s"
    and "i < length (sh_procs s)" and "j < length (sh_procs s)"
    and "in_section k (p_stage (sh_procs s ! i))" and "in_section k' (p_stage (sh_procs s ! j))"
    and "edge_path k (p_tool (sh_procs s ! i)) = edge_path k' (p_tool (sh_procs s ! j))"
  shows "i = j"
proof -
  have "lock_inv s" using lock_inv_reaches [OF assms(1) lock_inv_start] .
  moreover have "owns s i (edge_path k (p_tool (sh_procs s ! i)))"
    "owns s j (edge_path k (p_tool (sh_procs s ! i)))"
    using assms by (auto simp: owns_def)
  ultimately show ?thesis unfolding lock_inv_def by (metis option.inject)
qed

definition lone_writer :: shared where
  "lone_writer = \<lparr>sh_fs = write_file (edge_path False initial_tool) None open_fs,
     sh_locks = [edge_path False initial_tool \<mapsto> 0],
     sh_procs = [\<lparr>p_tool = initial_tool, p_stage = Truncating False\<rparr>,
       \<lparr>p_tool = initial_tool, p_stage = Loading False\<rparr>]\<rparr>"

lemma schedule_lone_writer:
  "schedule [0, 0, 0, 0] (start_shared [initial_tool, initial_tool] open_fs) = Some lone_writer"
proof -
  have "set_kind_edges k (kind_edges k T) T = T" for k T
    by (simp add: set_kind_edges_def kind_edges_def)
  then show ?thesis
    by (simp add: schedule_def proc_step_def start_shared_def set_stage_def set_proc_def after_load_def
        load_edges_from_json_def file_lock_open_def open_fs_def lone_writer_def write_file_def)
qed

lemmas reaches_lone_writer = schedule_reaches [OF schedule_lone_writer]

theorem writers_exclude_each_other_witness:
  "in_section False (p_stage (sh_procs lone_writer ! 0)) \<and>
   \<not> in_section False (p_stage (sh_procs lone_writer ! 1))"
proof
  show "in_section False (p_stage (sh_procs lone_writer ! 0))" by (simp add: lone_writer_def)
  show "\<not> in_section False (p_stage (sh_procs lone_writer ! 1))"
    using writers_exclude_each_other [OF reaches_lone_writer, of 1 0 False False]
    by (auto simp: lone_writer_def)
qed

subsection \<open>What a reader can find\<close>

definition whole :: "shared \<Rightarrow> string \<Rightarrow> bool" where
  "whole s p \<longleftrightarrow> (\<exists>j. contents (sh_fs s) p = Some (Some j)) \<or>
     (\<exists>i < length (sh_procs s). \<exists>k. p_stage (sh_procs s ! i) = Writing k
        \<and> p = edge_path k (p_tool (sh_procs s ! i)))"

definition document_there :: "shared \<Rightarrow> string \<Rightarrow> bool" where
  "document_there s p \<longleftrightarrow> (\<exists>j. contents (sh_fs s) p = Some (Some j))"

definition writing_at :: "shared \<Rightarrow> nat \<Rightarrow> string \<Rightarrow> bool" where
  "writing_at s i p \<longleftrightarrow> i < length (sh_procs s) \<and>
     (\<exists>k. p_stage (sh_procs s ! i) = Writing k \<and> p = edge_path k (p_tool (sh_procs s ! i)))"

lemma whole_iff: "whole s p \<longleftrightarrow> document_there s p \<or> (\<exists>i. writing_at s i p)"
  by (auto simp: whole_def document_there_def writing_at_def)

lemma writing_update:
  assumes "i < length (sh_procs s)" and "sh_procs s' = (sh_procs s)[i := P]"
  shows "writing_at s' j p \<longleftrightarrow>
    (if j = i then \<exists>k. p_stage P = Writing k \<and> p = edge_path k (p_tool P) else writing_at s j p)"
  using assms by (auto simp: writing_at_def)

lemma after_not_writing [simp]: "after_save k \<noteq> Writing k'" "after_load k \<noteq> Writing k'"
  by (auto simp: after_save_def after_load_def)

lemma whole_step:
  assumes "whole s p" and st: "proc_step i s = Some s'"
  shows "whole s' p"
proof -
  have i: "i < length (sh_procs s)" using proc_step_procs [OF st] by simp
  note w = writing_update [OF i]
  show ?thesis
  proof (cases "document_there s p")
    case True
    show ?thesis
    proof (cases "\<exists>k. p_stage (sh_procs s ! i) = Truncating k \<and>
        edge_path k (p_tool (sh_procs s ! i)) = p")
      case t: True
      then have "writing_at s' i p"
        using st i by (auto simp: proc_step_def w)
      then show ?thesis by (auto simp: whole_iff)
    next
      case False
      then have "document_there s' p"
        using st i True
        by (cases "p_stage (sh_procs s ! i)")
          (auto simp: proc_step_def document_there_def file_lock_open_def
             split: if_splits sum.splits option.splits)
      then show ?thesis by (simp add: whole_iff)
    qed
  next
    case False
    then obtain j where j: "writing_at s j p" using assms(1) by (auto simp: whole_iff)
    show ?thesis
    proof (cases "j = i")
      case True
      then have "document_there s' p"
        using st j by (auto simp: proc_step_def document_there_def writing_at_def)
      then show ?thesis by (simp add: whole_iff)
    next
      case False
      from proc_step_procs [OF st] obtain P where "sh_procs s' = (sh_procs s)[i := P]" by auto
      from w [OF this] j False have "writing_at s' j p" by simp
      then show ?thesis by (auto simp: whole_iff)
    qed
  qed
qed

lemma whole_reaches: "reaches s0 s \<Longrightarrow> whole s0 p \<Longrightarrow> whole s p"
  by (induction rule: reaches.induct) (auto simp: step_iff intro: whole_step)

text \<open>
  once a file holds a JSON document it holds one for ever, except between the
  truncation and the write of the run that has its lock; so a reader that took the lock
  first would always find a document.
\<close>

theorem unlocked_file_is_whole:
  assumes "reaches (start_shared Ts fs) s" and "contents fs p = Some (Some j)"
    and "sh_locks s p = None"
  shows "\<exists>j'. contents (sh_fs s) p = Some (Some j')"
proof -
  have "whole (start_shared Ts fs) p"
    using assms(2) by (auto simp: whole_iff document_there_def start_shared_def)
  then have "whole s p" using whole_reaches assms(1) by blast
  moreover have "\<not> writing_at s i p" for i
  proof
    assume "writing_at s i p"
    then have "owns s i p" by (auto simp: writing_at_def owns_def in_section_def)
    then show False
      using lock_inv_reaches [OF assms(1) lock_inv_start] assms(3)
      by (metis lock_inv_def option.distinct(1))
  qed
  ultimately show ?thesis by (auto simp: whole_iff document_there_def)
qed

theorem unlocked_file_is_whole_witness:
  "\<exists>j'. contents (sh_fs (start_shared [] (open_fs\<lparr>contents := (\<lambda>_. Some (Some JNull))\<rparr>))) ''p'' =
     Some (Some j')"
  by (rule unlocked_file_is_whole [OF reaches_start, where j = JNull])
    (simp_all add: start_shared_def)

subsection \<open>Every execution ends\<close>

fun stage_rank :: "stage \<Rightarrow> nat" where
  "stage_rank (Loading k) = (if k then 11 else 12)"
| "stage_rank (Opening k) = (if k then 5 else 10)"
| "stage_rank (Locking k) = (if k then 4 else 9)"
| "stage_rank (Truncating k) = (if k then 3 else 8)"
| "stage_rank (Writing k) = (if k then 2 else 7)"
| "stage_rank (Unlocking k) = (if k then 1 else 6)"
| "stage_rank Finished = 0"
| "stage_rank Crashed = 0"

definition work_left :: "shared \<Rightarrow> nat" where
  "work_left s = sum_list (map (\<lambda>P. stage_rank (p_stage P)) (sh_procs s))"

definition ended :: "stage \<Rightarrow> bool" where
  "ended st \<longleftrightarrow> st = Finished \<or> st = Crashed"

lemma sum_list_update_less:
  fixes f :: "'a \<Rightarrow> nat"
  assumes "i < length xs" and "f x < f (xs ! i)"
  shows "sum_list (map f (xs[i := x])) < sum_list (map f xs)"
  using assms
proof (induction xs arbitrary: i)
  case Nil
  then show ?case by simp
next
  case (Cons y ys)
  then show ?case by (cases i) auto
qed

lemma rank_after [simp]:
  "stage_rank (after_save k) = (if k then 0 else 5)"
  "stage_rank (after_load k) = (if k then 10 else 11)"
  by (simp_all add: after_save_def after_load_def)

lemma work_decreases:
  assumes st: "proc_step i s = Some s'"
  shows "work_left s' < work_left s"
proof -
  have i: "i < length (sh_procs s)" using proc_step_procs [OF st] by simp
  have "\<exists>P. sh_procs s' = (sh_procs s)[i := P] \<and> stage_rank (p_stage P) < stage_rank (p_stage (sh_procs s ! i))"
    using st i
    by (cases "p_stage (sh_procs s ! i)")
      (auto simp: proc_step_def split: if_splits sum.splits option.splits)
  then show ?thesis
    using sum_list_update_less [OF i, of "\<lambda>P. stage_rank (p_stage P)"]
    by (auto simp: work_left_def)
qed

lemma work_start: "work_left (start_shared Ts fs) = 12 * length Ts"
  by (simp add: work_left_def start_shared_def comp_def sum_list_triv)

lemma section_steps: "i < length (sh_procs s) \<Longrightarrow> in_section k (p_stage (sh_procs s ! i)) \<Longrightarrow>
    \<exists>s'. proc_step i s = Some s'"
  by (auto simp: proc_step_def in_section_def)

lemma schedule_work: "schedule is s0 = Some s \<Longrightarrow> length is + work_left s \<le> work_left s0"
proof (induction "is" arbitrary: s rule: rev_induct)
  case Nil
  then show ?case by simp
next
  case (snoc i "is")
  then obtain t where "schedule is s0 = Some t" "proc_step i t = Some s"
    by (auto simp: bind_eq_Some_conv)
  then show ?case using snoc.IH work_decreases by fastforce
qed

lemma some_step:
  assumes inv: "lock_inv s" and i: "i < length (sh_procs s)" and "\<not> ended (p_stage (sh_procs s ! i))"
  shows "\<exists>s'. step s s'"
proof (cases "proc_step i s")
  case (Some s')
  then show ?thesis by (auto simp: step_iff)
next
  case None
  then obtain p where "sh_locks s p \<noteq> None"
    using i assms(3)
    by (cases "p_stage (sh_procs s ! i)") (auto simp: proc_step_def ended_def split: if_splits)
  then obtain j where "owns s j p" using inv by (auto simp: lock_inv_def)
  then obtain k where "j < length (sh_procs s)" "in_section k (p_stage (sh_procs s ! j))"
    by (auto simp: owns_def)
  then show ?thesis using section_steps by (metis step_iff)
qed

text \<open>The steps one run has left.\<close>

definition run_rank :: "shared \<Rightarrow> nat \<Rightarrow> nat" where
  "run_rank s i = (if i < length (sh_procs s) then stage_rank (p_stage (sh_procs s ! i)) else 0)"

lemma proc_step_rank:
  assumes st: "proc_step j s = Some s'"
  shows "(if i = j then 1 else 0) + run_rank s' i \<le> run_rank s i"
proof -
  have j: "j < length (sh_procs s)" using proc_step_procs [OF st] by simp
  have "\<exists>P. sh_procs s' = (sh_procs s)[j := P] \<and> stage_rank (p_stage P) < stage_rank (p_stage (sh_procs s ! j))"
    using st j
    by (cases "p_stage (sh_procs s ! j)")
      (auto simp: proc_step_def split: if_splits sum.splits option.splits)
  then show ?thesis using j by (auto simp: run_rank_def)
qed

lemma schedule_rank: "schedule is s0 = Some s \<Longrightarrow> count_list is i + run_rank s i \<le> run_rank s0 i"
proof (induction "is" arbitrary: s rule: rev_induct)
  case Nil
  then show ?case by simp
next
  case (snoc j "is")
  then obtain t where t: "schedule is s0 = Some t" "proc_step j t = Some s"
    by (auto simp: bind_eq_Some_conv)
  then show ?case using snoc.IH [OF t(1)] proc_step_rank [OF t(2), of i] by (auto split: if_splits)
qed

lemma rank_start: "run_rank (start_shared Ts fs) i \<le> 12"
  by (simp add: run_rank_def start_shared_def)

lemma schedule_Cons [simp]: "schedule (i # is) s = Option.bind (proc_step i s) (schedule is)"
proof (cases "proc_step i s")
  case None
  have "foldl (\<lambda>r i. Option.bind r (proc_step i)) None is = None"
    by (induction "is") auto
  then show ?thesis using None by (simp add: schedule_def)
next
  case (Some s')
  then show ?thesis by (simp add: schedule_def)
qed

lemma schedule_append:
  "schedule (is @ js) s = Option.bind (schedule is s) (schedule js)"
  by (induction "is" arbitrary: s) (simp_all split: Option.bind_split)

lemma schedule_length: "schedule is s0 = Some s \<Longrightarrow> length (sh_procs s) = length (sh_procs s0)"
proof (induction "is" arbitrary: s rule: rev_induct)
  case Nil
  then show ?case by simp
next
  case (snoc j "is")
  then show ?case using proc_step_procs by (fastforce simp: bind_eq_Some_conv)
qed

definition all_ended :: "shared \<Rightarrow> bool" where
  "all_ended s \<longleftrightarrow> (\<forall>P \<in> set (sh_procs s). ended (p_stage P))"

lemma stuck_ended: "lock_inv s \<Longrightarrow> \<nexists>s'. step s s' \<Longrightarrow> all_ended s"
  using some_step by (fastforce simp: all_ended_def in_set_conv_nth)

lemma can_end: "lock_inv s \<Longrightarrow> \<exists>js s'. schedule js s = Some s' \<and> all_ended s'"
proof (induction "work_left s" arbitrary: s rule: less_induct)
  case less
  show ?case
  proof (cases "\<exists>s'. step s s'")
    case True
    then obtain i t where t: "proc_step i s = Some t" by (auto simp: step_iff)
    then obtain js s' where "schedule js t = Some s'" "all_ended s'"
      using less.hyps [OF work_decreases [OF t] lock_inv_step [OF less.prems t]] by blast
    then have "schedule (i # js) s = Some s' \<and> all_ended s'" using t by simp
    then show ?thesis by blast
  next
    case False
    then have "schedule [] s = Some s \<and> all_ended s" using stuck_ended [OF less.prems] by simp
    then show ?thesis by blast
  qed
qed

text \<open>
  C31: no deadlock and no endless waiting: however the system calls of the runs interleave, no run has made more
  than twelve of them; while a run has not finished or aborted some run can go on; and from every state reached
  the execution can be completed to one where all runs have.
\<close>

theorem every_execution_ends:
  assumes "schedule is (start_shared Ts fs) = Some s"
  shows "(\<forall>i. count_list is i \<le> 12)
    \<and> ((\<nexists>s'. step s s') \<longrightarrow> (\<forall>P \<in> set (sh_procs s). ended (p_stage P)))
    \<and> (\<exists>js s'. schedule (is @ js) (start_shared Ts fs) = Some s' \<and> length (sh_procs s') = length Ts
        \<and> (\<forall>P \<in> set (sh_procs s'). ended (p_stage P)))"
proof (intro conjI allI)
  have inv: "lock_inv s" using lock_inv_reaches [OF schedule_reaches [OF assms] lock_inv_start] .
  show "count_list is i \<le> 12" for i
    using schedule_rank [OF assms, of i] rank_start [of Ts fs i] by simp
  show "(\<nexists>s'. step s s') \<longrightarrow> (\<forall>P \<in> set (sh_procs s). ended (p_stage P))"
    using stuck_ended [OF inv] by (simp add: all_ended_def)
  obtain js s' where js: "schedule js s = Some s'" "all_ended s'" using can_end [OF inv] by blast
  have "schedule (is @ js) (start_shared Ts fs) = Some s'" using assms js by (simp add: schedule_append)
  moreover from schedule_length [OF this] have "length (sh_procs s') = length Ts" by (simp add: start_shared_def)
  ultimately show "\<exists>js s'. schedule (is @ js) (start_shared Ts fs) = Some s' \<and> length (sh_procs s') = length Ts
        \<and> (\<forall>P \<in> set (sh_procs s'). ended (p_stage P))"
    using js(2) by (auto simp: all_ended_def)
qed

theorem every_execution_ends_witness:
  "\<exists>js s'. schedule ([0, 0, 0, 0] @ js) (start_shared [initial_tool, initial_tool] open_fs) = Some s'
     \<and> map (\<lambda>P. ended (p_stage P)) (sh_procs s') = [True, True]"
proof -
  obtain js s' where s': "schedule ([0, 0, 0, 0] @ js) (start_shared [initial_tool, initial_tool] open_fs) = Some s'"
      "length (sh_procs s') = 2" "\<forall>P \<in> set (sh_procs s'). ended (p_stage P)"
    using every_execution_ends [OF schedule_lone_writer] unfolding list.size by fastforce
  then have "map (\<lambda>P. ended (p_stage P)) (sh_procs s') = [True, True]"
    by (auto simp: length_Suc_conv numeral_2_eq_2)
  then show ?thesis using s'(1) by (intro exI [of _ js] exI [of _ s'] conjI)
qed

subsection \<open>A run alone\<close>

lemma save_fs_cases:
  "save_edges_as_json p m fs =
    (if \<not> writable fs p then fs
     else if \<not> lockable fs p then (if contents fs p = None then write_file p None fs else fs)
     else write_file p (Some (json_of_edges m)) (write_file p None fs))"
  by (auto simp: save_edges_as_json_def file_lock_open_def write_file_def)

lemma save_alone:
  assumes "i < length (sh_procs s)" and "sh_procs s ! i = \<lparr>p_tool = T, p_stage = Opening k\<rparr>"
    and "sh_locks s (edge_path k T) = None"
  shows "\<exists>n. schedule (replicate n i) s =
    Some (set_proc i \<lparr>p_tool = T, p_stage = after_save k\<rparr>
      (s\<lparr>sh_fs := save_edges_as_json (edge_path k T) (kind_edges k T) (sh_fs s)\<rparr>))"
proof -
  let ?p = "edge_path k T" and ?fs = "sh_fs s"
  have idem: "(sh_locks s)(?p := None) = sh_locks s" using assms(3) by (simp add: fun_upd_idem)
  consider "\<not> writable ?fs ?p" | "writable ?fs ?p" "\<not> lockable ?fs ?p"
    | "writable ?fs ?p" "lockable ?fs ?p" by blast
  then show ?thesis
  proof cases
    case 1
    then show ?thesis
      using assms
      by (intro exI [of _ 1])
        (simp add: proc_step_def save_fs_cases file_lock_open_def set_stage_def set_proc_def)
  next
    case 2
    then show ?thesis
      using assms
      by (intro exI [of _ 2])
        (simp add: proc_step_def save_fs_cases file_lock_open_def set_stage_def set_proc_def
          numeral_2_eq_2)
  next
    case 3
    then show ?thesis
      using assms idem
      by (intro exI [of _ 5])
        (simp add: proc_step_def save_fs_cases file_lock_open_def set_stage_def set_proc_def
          eval_nat_numeral write_file_def)
  qed
qed

lemma load_alone:
  assumes "i < length (sh_procs s)" and "sh_procs s ! i = \<lparr>p_tool = T, p_stage = Loading k\<rparr>"
  shows "proc_step i s = Some (case load_edges_from_json (sh_fs s) (edge_path k T) (kind_edges k T) of
      Inl e \<Rightarrow> set_proc i \<lparr>p_tool = T, p_stage = Crashed\<rparr> s
    | Inr m \<Rightarrow> set_proc i \<lparr>p_tool = set_kind_edges k m T, p_stage = after_load k\<rparr> s)"
  using assms by (simp add: proc_step_def set_stage_def split: sum.split)

lemma set_proc_twice [simp]: "set_proc i P (set_proc i Q s) = set_proc i P s"
  by (simp add: set_proc_def)

lemma set_proc_fs [simp]: "set_proc i P (s\<lparr>sh_fs := fs\<rparr>) = (set_proc i P s)\<lparr>sh_fs := fs\<rparr>"
  by (simp add: set_proc_def)

lemma kind_edges_set [simp]:
  "kind_edges k (set_kind_edges k' m T) = (if k = k' then m else kind_edges k T)"
  by (simp add: kind_edges_def set_kind_edges_def)

lemma fini_alt:
  "fini T fs =
     (case load_edges_from_json fs (edge_path False T) (kind_edges False T) of
        Inl e \<Rightarrow> Inl e
      | Inr jm \<Rightarrow> (case load_edges_from_json fs (edge_path True T) (kind_edges True T) of
          Inl e \<Rightarrow> Inl e
        | Inr cm \<Rightarrow> Inr (set_kind_edges True cm (set_kind_edges False jm T),
            save_edges_as_json (edge_path True T) cm
              (save_edges_as_json (edge_path False T) jm fs))))"
  by (simp add: fini_def edge_path_def kind_edges_def set_kind_edges_def split: sum.split)

lemma saves_alone:
  assumes i: "i < length (sh_procs s)" and "sh_procs s ! i = \<lparr>p_tool = T, p_stage = Opening False\<rparr>"
    and "sh_locks s (edge_path False T) = None" and "sh_locks s (edge_path True T) = None"
  shows "\<exists>n. schedule (replicate n i) s =
    Some (set_proc i \<lparr>p_tool = T, p_stage = Finished\<rparr> (s\<lparr>sh_fs :=
      save_edges_as_json (edge_path True T) (kind_edges True T)
        (save_edges_as_json (edge_path False T) (kind_edges False T) (sh_fs s))\<rparr>))"
proof -
  let ?s1 = "set_proc i \<lparr>p_tool = T, p_stage = after_save False\<rparr>
      (s\<lparr>sh_fs := save_edges_as_json (edge_path False T) (kind_edges False T) (sh_fs s)\<rparr>)"
  from save_alone [OF assms(1-3)] obtain n where n: "schedule (replicate n i) s = Some ?s1" by auto
  have "\<exists>m. schedule (replicate m i) ?s1 = Some (set_proc i \<lparr>p_tool = T, p_stage = after_save True\<rparr>
      (?s1\<lparr>sh_fs := save_edges_as_json (edge_path True T) (kind_edges True T) (sh_fs ?s1)\<rparr>))"
    by (rule save_alone) (use assms in \<open>auto simp: after_save_def\<close>)
  then obtain m where "schedule (replicate m i) ?s1 =
      Some (set_proc i \<lparr>p_tool = T, p_stage = after_save True\<rparr>
      (?s1\<lparr>sh_fs := save_edges_as_json (edge_path True T) (kind_edges True T) (sh_fs ?s1)\<rparr>))"
    by blast
  with n have "schedule (replicate (n + m) i) s =
      Some (set_proc i \<lparr>p_tool = T, p_stage = after_save True\<rparr>
      (?s1\<lparr>sh_fs := save_edges_as_json (edge_path True T) (kind_edges True T) (sh_fs ?s1)\<rparr>))"
    by (simp only: replicate_add schedule_append Option.bind.bind_lunit)
  then show ?thesis by (intro exI [of _ "n + m"]) (simp add: after_save_def set_proc_def)
qed

text \<open>
  The step-by-step model refines the big-step \<open>fini\<close>: a run whose locks are free and that is scheduled alone
  ends exactly where \<open>fini\<close> says, finished with its files and edge maps or aborted with the files untouched.
\<close>

lemma run_alone_is_fini:
  assumes "i < length (sh_procs s)" and "sh_procs s ! i = \<lparr>p_tool = T, p_stage = Loading False\<rparr>"
    and "sh_locks s (ijump_path T) = None" and "sh_locks s (icall_path T) = None"
  shows "\<exists>n. case fini T (sh_fs s) of
      Inl e \<Rightarrow> \<exists>T'. schedule (replicate n i) s = Some (set_proc i \<lparr>p_tool = T', p_stage = Crashed\<rparr> s)
    | Inr (T', fs') \<Rightarrow> schedule (replicate n i) s =
        Some (set_proc i \<lparr>p_tool = T', p_stage = Finished\<rparr> (s\<lparr>sh_fs := fs'\<rparr>))"
proof (cases "load_edges_from_json (sh_fs s) (edge_path False T) (kind_edges False T)")
  case (Inl e)
  then have "fini T (sh_fs s) = Inl e" by (simp add: fini_alt)
  then show ?thesis
    using load_alone [OF assms(1,2)] Inl by (intro exI [of _ "Suc 0"]) auto
next
  case jm: (Inr jm)
  let ?T1 = "set_kind_edges False jm T"
  let ?s1 = "set_proc i \<lparr>p_tool = ?T1, p_stage = Loading True\<rparr> s"
  have 1: "proc_step i s = Some ?s1"
    using load_alone [OF assms(1,2)] jm by (simp add: after_load_def)
  have i1: "i < length (sh_procs ?s1)" "sh_procs ?s1 ! i = \<lparr>p_tool = ?T1, p_stage = Loading True\<rparr>"
    using assms(1) by simp_all
  show ?thesis
  proof (cases "load_edges_from_json (sh_fs s) (edge_path True T) (kind_edges True T)")
    case (Inl e)
    then have "fini T (sh_fs s) = Inl e" using jm by (simp add: fini_alt)
    then show ?thesis
      using load_alone [OF i1] Inl 1 by (intro exI [of _ "Suc (Suc 0)"]) auto
  next
    case cm: (Inr cm)
    let ?T2 = "set_kind_edges True cm ?T1"
    let ?s2 = "set_proc i \<lparr>p_tool = ?T2, p_stage = Opening False\<rparr> s"
    have 2: "proc_step i ?s1 = Some ?s2"
      using load_alone [OF i1] cm by (simp add: after_load_def)
    have "\<exists>n. schedule (replicate n i) ?s2 =
        Some (set_proc i \<lparr>p_tool = ?T2, p_stage = Finished\<rparr> (?s2\<lparr>sh_fs :=
        save_edges_as_json (edge_path True ?T2) (kind_edges True ?T2)
        (save_edges_as_json (edge_path False ?T2) (kind_edges False ?T2) (sh_fs ?s2))\<rparr>))"
      by (rule saves_alone) (use assms in \<open>auto simp: edge_path_def set_kind_edges_def
        ijump_path_def icall_path_def\<close>)
    then obtain n where "schedule (replicate n i) ?s2 =
        Some (set_proc i \<lparr>p_tool = ?T2, p_stage = Finished\<rparr> (?s2\<lparr>sh_fs :=
        save_edges_as_json (edge_path True T) cm (save_edges_as_json (edge_path False T) jm (sh_fs s))\<rparr>))"
      by auto
    then show ?thesis
      using 1 2 jm cm by (intro exI [of _ "Suc (Suc n)"]) (simp add: fini_alt)
  qed
qed

text \<open>
  C22: a run that is not disturbed while it ends, whatever state other runs are in, finishes after at most twelve
  system calls of its own: both files then hold what they held and every edge the run recorded, the lock table and
  the other runs are as before, and so is every other file.
\<close>

theorem run_alone_accumulates:
  assumes "i < length (sh_procs s)" "sh_procs s ! i = \<lparr>p_tool = T, p_stage = Loading False\<rparr>"
    and "sh_locks s (ijump_path T) = None" "sh_locks s (icall_path T) = None"
    and "holds_edges (sh_fs s) (ijump_path T) J" "holds_edges (sh_fs s) (icall_path T) C"
    and "usable (sh_fs s) (ijump_path T)" "usable (sh_fs s) (icall_path T)"
    and "edge_map_wf (indirect_jump_edges T)" "edge_map_wf (indirect_call_edges T)"
  shows "\<exists>n s'. n \<le> 12 \<and> schedule (replicate n i) s = Some s' \<and> p_stage (sh_procs s' ! i) = Finished
    \<and> holds_edges (sh_fs s') (ijump_path T) (J \<union> edges_of_kind False T)
    \<and> holds_edges (sh_fs s') (icall_path T) (C \<union> edges_of_kind True T)
    \<and> (\<forall>p. p \<noteq> ijump_path T \<longrightarrow> p \<noteq> icall_path T \<longrightarrow> contents (sh_fs s') p = contents (sh_fs s) p)
    \<and> sh_locks s' = sh_locks s \<and> length (sh_procs s') = length (sh_procs s)
    \<and> (\<forall>j. j \<noteq> i \<longrightarrow> sh_procs s' ! j = sh_procs s ! j)"
proof -
  obtain T' fs' where f: "fini T (sh_fs s) = Inr (T', fs')"
      "holds_edges fs' (ijump_path T) (J \<union> edges_of_kind False T)"
      "holds_edges fs' (icall_path T) (C \<union> edges_of_kind True T)"
      "\<forall>p. p \<noteq> ijump_path T \<longrightarrow> p \<noteq> icall_path T \<longrightarrow> contents fs' p = contents (sh_fs s) p"
    using fini_step [OF assms(5-10)] by blast
  let ?s' = "set_proc i \<lparr>p_tool = T', p_stage = Finished\<rparr> (s\<lparr>sh_fs := fs'\<rparr>)"
  obtain n where n: "schedule (replicate n i) s = Some ?s'"
    using run_alone_is_fini [OF assms(1-4)] f(1) by auto
  have "count_list (replicate n i) i = n" by (induction n) simp_all
  then have "n \<le> 12"
    using schedule_rank [OF n, of i] assms(1,2) by (simp add: run_rank_def)
  then show ?thesis using n f assms(1) by (intro exI [of _ n] exI [of _ ?s']) simp
qed

theorem run_alone_accumulates_witness:
  "\<exists>n s. schedule (replicate n 0) (start_shared [demo_run 0x1010 0x1100, initial_tool] open_fs) = Some s
     \<and> p_stage (sh_procs s ! 0) = Finished
     \<and> holds_edges (sh_fs s) (icall_path (demo_run 0x1010 0x1100)) {(0x1010, 0x1100)}"
proof -
  let ?T = "demo_run 0x1010 0x1100" and ?s = "start_shared [demo_run 0x1010 0x1100, initial_tool] open_fs"
  have e: "edges_of_kind True ?T = {(0x1010, 0x1100)}" "edge_map_wf (indirect_jump_edges ?T)"
      "edge_map_wf (indirect_call_edges ?T)"
    by (auto simp: demo_run_def record_indirect_edge_def edges_of_kind_def image_load_def demo_image_def
        initial_tool_def in_text_def edges_def edge_map_wf_def)
  show ?thesis
    using run_alone_accumulates [of 0 ?s ?T "{}" "{}"] e
    by (simp add: start_shared_def holds_edges_def usable_def open_fs_def) blast
qed

subsection \<open>Runs that end together\<close>

lemma set_proc_other: "i \<noteq> j \<Longrightarrow> sh_procs (set_proc i P s) ! j = sh_procs s ! j"
  by simp

lemma main_image_set [simp]: "main_image_name (set_kind_edges k m T) = main_image_name T"
  by (simp add: set_kind_edges_def)

lemma edges_of_kind_eq: "edges_of_kind k T = edges (kind_edges k T)"
  by (simp add: edges_of_kind_def kind_edges_def)

lemma set_kind_same [simp]: "set_kind_edges k (kind_edges k T) T = T"
  by (simp add: set_kind_edges_def kind_edges_def)

lemma load_absent:
  assumes "i < length (sh_procs s)" and "sh_procs s ! i = \<lparr>p_tool = T, p_stage = Loading k\<rparr>"
    and "contents (sh_fs s) (edge_path k T) = None"
  shows "proc_step i s = Some (set_proc i \<lparr>p_tool = T, p_stage = after_load k\<rparr> s)"
  using load_alone [OF assms(1,2)] assms(3) by (simp add: load_edges_from_json_def)

definition loaded :: "tool \<Rightarrow> file_system \<Rightarrow> (addrint \<times> addrint) set \<Rightarrow>
    (addrint \<times> addrint) set \<Rightarrow> tool \<Rightarrow> bool" where
  "loaded T fs J C T' \<longleftrightarrow> main_image_name T' = main_image_name T
     \<and> edge_map_wf (kind_edges False T') \<and> edge_map_wf (kind_edges True T')
     \<and> edges (kind_edges False T') = edges_of_kind False T \<union> J
     \<and> edges (kind_edges True T') = edges_of_kind True T \<union> C"

lemma both_loads:
  assumes i: "i < length (sh_procs s)" "sh_procs s ! i = \<lparr>p_tool = T, p_stage = Loading False\<rparr>"
    and h: "holds_edges (sh_fs s) (edge_path False T) J" "holds_edges (sh_fs s) (edge_path True T) C"
    and u: "usable (sh_fs s) (edge_path False T)" "usable (sh_fs s) (edge_path True T)"
    and wf: "edge_map_wf (kind_edges False T)" "edge_map_wf (kind_edges True T)"
  shows "\<exists>T'. schedule [i, i] s = Some (set_proc i \<lparr>p_tool = T', p_stage = Opening False\<rparr> s)
    \<and> loaded T (sh_fs s) J C T'"
proof -
  from load_holds [OF h(1) u(1) wf(1)] obtain jm where
    jm: "load_edges_from_json (sh_fs s) (edge_path False T) (kind_edges False T) = Inr jm"
      "edge_map_wf jm" "edges jm = edges (kind_edges False T) \<union> J" by auto
  from load_holds [OF h(2) u(2) wf(2)] obtain cm where
    cm: "load_edges_from_json (sh_fs s) (edge_path True T) (kind_edges True T) = Inr cm"
      "edge_map_wf cm" "edges cm = edges (kind_edges True T) \<union> C" by auto
  let ?T1 = "set_kind_edges False jm T"
  let ?s1 = "set_proc i \<lparr>p_tool = ?T1, p_stage = Loading True\<rparr> s"
  have 1: "proc_step i s = Some ?s1"
    using load_alone [OF i] jm by (simp add: after_load_def)
  have i1: "i < length (sh_procs ?s1)" "sh_procs ?s1 ! i = \<lparr>p_tool = ?T1, p_stage = Loading True\<rparr>"
    using i by simp_all
  have "proc_step i ?s1 =
      Some (set_proc i \<lparr>p_tool = set_kind_edges True cm ?T1, p_stage = Opening False\<rparr> s)"
    using load_alone [OF i1] cm by (simp add: after_load_def)
  then show ?thesis
    using 1 jm cm
    by (intro exI [of _ "set_kind_edges True cm ?T1"])
      (simp add: loaded_def edges_of_kind_eq)
qed

lemma saves_hold:
  assumes "loaded T fs0 J C T'" and "usable fs (edge_path False T)" and "usable fs (edge_path True T)"
  shows "holds_edges (save_edges_as_json (edge_path True T') (kind_edges True T')
      (save_edges_as_json (edge_path False T') (kind_edges False T') fs))
      (edge_path k T) (edges_of_kind k T \<union> (if k then C else J))"
proof -
  have p: "edge_path b T' = edge_path b T" for b
    using assms(1) by (auto simp: loaded_def edge_path_def ijump_path_def icall_path_def)
  show ?thesis
    using assms by (cases k) (auto simp: p save_usable holds_edges_def loaded_def)
qed

text \<open>
  C30: the merge is not atomic: \<open>Fini\<close> reads the files before it takes any lock, so two
  runs of one binary that end together can both finish normally with the files holding
  only what was there before and the second run's edges: every edge that only the first
  run recorded is lost.
\<close>

theorem concurrent_runs_lose_edges:
  assumes wf: "\<forall>T \<in> {T1, T2}. edge_map_wf (indirect_jump_edges T) \<and> edge_map_wf (indirect_call_edges T)"
    and same: "main_image_name T1 = main_image_name T2"
    and h: "holds_edges fs (ijump_path T2) J" "holds_edges fs (icall_path T2) C"
    and u: "usable fs (ijump_path T2)" "usable fs (icall_path T2)"
  shows "\<exists>s. reaches (start_shared [T1, T2] fs) s
    \<and> map p_stage (sh_procs s) = [Finished, Finished]
    \<and> holds_edges (sh_fs s) (ijump_path T2) (edges_of_kind False T2 \<union> J)
    \<and> holds_edges (sh_fs s) (icall_path T2) (edges_of_kind True T2 \<union> C)"
proof -
  let ?s0 = "start_shared [T1, T2] fs"
  have P: "edge_path False T = ijump_path T" "edge_path True T = icall_path T" for T
    by (simp_all add: edge_path_def)
  have P1: "ijump_path T1 = ijump_path T2" "icall_path T1 = icall_path T2"
    using same by (simp_all add: ijump_path_def icall_path_def)
  have K: "edge_map_wf (kind_edges b T1)" "edge_map_wf (kind_edges b T2)" for b
    using wf by (simp_all add: kind_edges_def)
  have "\<exists>T'. schedule [0, 0] ?s0 = Some (set_proc 0 \<lparr>p_tool = T', p_stage = Opening False\<rparr> ?s0)
      \<and> loaded T1 (sh_fs ?s0) J C T'"
    by (rule both_loads) (use h u K in \<open>simp_all add: start_shared_def P P1\<close>)
  then obtain U1 where
    a: "schedule [0, 0] ?s0 = Some (set_proc 0 \<lparr>p_tool = U1, p_stage = Opening False\<rparr> ?s0)" (is "_ = Some ?s1")
      "loaded T1 fs J C U1" by (auto simp: start_shared_def)
  have "\<exists>T'. schedule [1, 1] ?s1 = Some (set_proc 1 \<lparr>p_tool = T', p_stage = Opening False\<rparr> ?s1)
      \<and> loaded T2 (sh_fs ?s1) J C T'"
    by (rule both_loads) (use h u K in \<open>simp_all add: start_shared_def P\<close>)
  then obtain U2 where
    b: "schedule [1, 1] ?s1 = Some (set_proc 1 \<lparr>p_tool = U2, p_stage = Opening False\<rparr> ?s1)" (is "_ = Some ?s2")
      "loaded T2 fs J C U2" by (auto simp: start_shared_def)
  let ?fs3 = "save_edges_as_json (edge_path True U1) (kind_edges True U1)
      (save_edges_as_json (edge_path False U1) (kind_edges False U1) (sh_fs ?s2))"
  have "\<exists>n. schedule (replicate n 0) ?s2 =
      Some (set_proc 0 \<lparr>p_tool = U1, p_stage = Finished\<rparr> (?s2\<lparr>sh_fs := ?fs3\<rparr>))"
    by (rule saves_alone) (simp_all add: start_shared_def)
  then obtain n where
    c: "schedule (replicate n 0) ?s2 = Some (set_proc 0 \<lparr>p_tool = U1, p_stage = Finished\<rparr> (?s2\<lparr>sh_fs := ?fs3\<rparr>))"
      (is "_ = Some ?s3") by blast
  let ?fs4 = "save_edges_as_json (edge_path True U2) (kind_edges True U2)
      (save_edges_as_json (edge_path False U2) (kind_edges False U2) (sh_fs ?s3))"
  have "\<exists>n. schedule (replicate n 1) ?s3 =
      Some (set_proc 1 \<lparr>p_tool = U2, p_stage = Finished\<rparr> (?s3\<lparr>sh_fs := ?fs4\<rparr>))"
    by (rule saves_alone) (simp_all add: start_shared_def)
  then obtain m where
    d: "schedule (replicate m 1) ?s3 = Some (set_proc 1 \<lparr>p_tool = U2, p_stage = Finished\<rparr> (?s3\<lparr>sh_fs := ?fs4\<rparr>))"
      (is "_ = Some ?s4") by blast
  have "schedule ([0, 0] @ [1, 1] @ replicate n 0 @ replicate m 1) ?s0 = Some ?s4"
    by (simp only: schedule_append a b c d Option.bind.bind_lunit)
  then have "reaches ?s0 ?s4" by (rule schedule_reaches)
  moreover have "usable (sh_fs ?s3) (edge_path b T2)" for b
    using u by (cases b) (simp_all add: start_shared_def P)
  then have "holds_edges (sh_fs ?s4) (edge_path k T2) (edges_of_kind k T2 \<union> (if k then C else J))" for k
    using saves_hold [OF b(2)] by simp
  note this [of False] this [of True]
  ultimately show ?thesis
    by (intro exI [of _ ?s4]) (simp add: P start_shared_def)
qed

theorem concurrent_runs_lose_edges_witness:
  "\<exists>s. reaches (start_shared [demo_run 0x1010 0x1100, demo_run 0x1010 0x1180] open_fs) s
    \<and> map p_stage (sh_procs s) = [Finished, Finished]
    \<and> holds_edges (sh_fs s) (icall_path (demo_run 0x1010 0x1180)) {(0x1010, 0x1180)}"
proof -
  have e: "edges_of_kind True (demo_run 0x1010 0x1180) = {(0x1010, 0x1180)}"
    by (simp add: demo_run_def edges_record)
      (auto simp: edges_of_kind_def image_load_def demo_image_def initial_tool_def in_text_def edges_def)
  have "\<exists>s. reaches (start_shared [demo_run 0x1010 0x1100, demo_run 0x1010 0x1180] open_fs) s
    \<and> map p_stage (sh_procs s) = [Finished, Finished]
    \<and> holds_edges (sh_fs s) (ijump_path (demo_run 0x1010 0x1180))
        (edges_of_kind False (demo_run 0x1010 0x1180) \<union> {})
    \<and> holds_edges (sh_fs s) (icall_path (demo_run 0x1010 0x1180))
        (edges_of_kind True (demo_run 0x1010 0x1180) \<union> {})"
    by (rule concurrent_runs_lose_edges)
      (simp_all add: holds_edges_def open_fs_def usable_def demo_run_def record_indirect_edge_def
        image_load_def demo_image_def initial_tool_def edge_map_wf_def)
  then show ?thesis unfolding e by auto
qed

text \<open>
  the file \<open>FileLock\<close> creates is empty until the first run has written it, and a
  second run that ends in this window reads it, fails to parse it and aborts, so its edges
  are lost too: possible whenever neither run finds a jump file.
\<close>

theorem concurrent_first_runs_crash:
  assumes same: "main_image_name T1 = main_image_name T2"
    and h: "contents fs (ijump_path T2) = None" "contents fs (icall_path T2) = None"
    and u: "usable fs (ijump_path T2)"
  shows "\<exists>s. reaches (start_shared [T1, T2] fs) s
    \<and> map p_stage (sh_procs s) = [Locking False, Crashed]"
proof -
  have "ijump_path T1 = ijump_path T2" "icall_path T1 = icall_path T2"
    using same by (simp_all add: ijump_path_def icall_path_def)
  then have p: "edge_path b T1 = edge_path b T2" "contents fs (edge_path b T2) = None"
    "readable fs (edge_path False T2)" "writable fs (edge_path False T2)" for b
    using h u by (simp_all add: edge_path_def usable_def)
  let ?s0 = "start_shared [T1, T2] fs"
  let ?s1 = "set_proc 0 \<lparr>p_tool = T1, p_stage = Loading True\<rparr> ?s0"
  let ?s2 = "set_proc 0 \<lparr>p_tool = T1, p_stage = Opening False\<rparr> ?s0"
  let ?s3 = "set_proc 0 \<lparr>p_tool = T1, p_stage = Locking False\<rparr>
      (?s0\<lparr>sh_fs := write_file (edge_path False T2) None fs\<rparr>)"
  have "proc_step 0 ?s0 = Some ?s1" "proc_step 0 ?s1 = Some ?s2"
    using p load_absent [of 0 ?s0 T1 False] load_absent [of 0 ?s1 T1 True]
    by (simp_all add: after_load_def start_shared_def)
  moreover have "proc_step 0 ?s2 = Some ?s3"
    using p by (simp add: proc_step_def start_shared_def set_stage_def set_proc_def file_lock_open_def)
  moreover have "proc_step 1 ?s3 = Some (set_proc 1 \<lparr>p_tool = T2, p_stage = Crashed\<rparr> ?s3)"
    using p load_alone [of 1 ?s3 T2 False]
    by (simp add: start_shared_def load_edges_from_json_def)
  ultimately have "schedule [0, 0, 0, 1] ?s0 = Some (set_proc 1 \<lparr>p_tool = T2, p_stage = Crashed\<rparr> ?s3)"
    by (simp only: schedule_Cons schedule_simps Option.bind.bind_lunit)
  then have "reaches ?s0 (set_proc 1 \<lparr>p_tool = T2, p_stage = Crashed\<rparr> ?s3)"
    by (rule schedule_reaches)
  then show ?thesis by (intro exI conjI) (assumption, simp add: start_shared_def)
qed

theorem concurrent_first_runs_crash_witness:
  "\<exists>s. reaches (start_shared [initial_tool, initial_tool] open_fs) s
    \<and> map p_stage (sh_procs s) = [Locking False, Crashed]"
  by (rule concurrent_first_runs_crash) (simp_all add: open_fs_def usable_def)

end
