(* ===== verification/Tsearch_Hash.thy ===== *)
theory Tsearch_Hash
  imports Prelude
begin

text \<open>
  The search table behind \<open>dwarf_tsearch\<close>: \<open>dwarf_tsearchhash.c\<close>, a hash table with chains
  that grows through a fixed list of primes.
  A slot of \<open>hashtab_\<close> is its first record and the list of the keys on its chain; a key is a
  pointer, \<open>None\<close> the null pointer. Memory is the list of the outcomes of the coming
  allocations (all later ones succeed), threaded through the operations.
\<close>

subsection \<open>Data\<close>

definition primes :: "nat list" where
  "primes = [521, 1009, 5591, 10007, 21839, 41413, 99907, 199967, 400009, 800029, 1600141,
     3000089, 6000121, 12000257, 24000143, 48000203, 100000127, 200001611, 400000669,
     800000573, 0]"

definition allowed_fill_percent :: nat where
  "allowed_fill_percent = 90"

record 'k ts_entry =
  keyptr :: "'k option"
  entryused :: bool
  chain :: "'k option list"

record 'k hs_base =
  hs_tablesize :: nat
  hs_tablesize_entry_index :: nat
  hs_allowed_fill :: nat
  hs_record_count :: nat
  hs_hashtab :: "'k ts_entry list"
  hs_hashfunc :: "('k option \<Rightarrow> nat) option"

datatype search_intent = want_insert | only_find | want_delete

text \<open>Where an entry is: its slot, and 0 for the slot itself or the position on the chain from 1.\<close>

datatype entry_ref = Entry_ref nat nat

type_synonym 'k compar = "'k option \<Rightarrow> 'k option \<Rightarrow> int"
definition calculate_allowed_fill :: "nat \<Rightarrow> nat \<Rightarrow> nat" where
  "calculate_allowed_fill fill_percent ct =
     (if ct < 100000 then ct * fill_percent div 100 else ct div 100 * fill_percent)"

definition empty_entry :: "'k ts_entry" where
  "empty_entry = \<lparr>keyptr = None, entryused = False, chain = []\<rparr>"

fun pick_prime :: "nat \<Rightarrow> nat list \<Rightarrow> nat \<Rightarrow> (nat \<times> nat) option" where
  "pick_prime size_estimate [] k = None"
| "pick_prime size_estimate (p # ps) k =
     (if p = 0 then None
      else if size_estimate \<noteq> 0 \<and> p < size_estimate then pick_prime size_estimate ps (k + 1)
      else Some (p, k))"

text \<open>
  The result is the returned base, what \<open>*treeptr\<close> holds afterwards, and the memory.
\<close>

definition dwarf_initialize_search_hash ::
    "'k hs_base option \<Rightarrow> ('k option \<Rightarrow> nat) option \<Rightarrow> nat \<Rightarrow> allocs \<Rightarrow>
     'k hs_base option \<times> 'k hs_base option \<times> allocs" where
  "dwarf_initialize_search_hash treeptr hashfunc size_estimate mem =
     (case treeptr of
        Some base \<Rightarrow> (Some base, Some base, mem)
      | None \<Rightarrow>
          (case alloc mem of
             (False, mem1) \<Rightarrow> (None, None, mem1)
           | (True, mem1) \<Rightarrow>
               (case pick_prime size_estimate primes 0 of
                  None \<Rightarrow> (None, None, mem1)
                | Some (prime_to_use, entry_index) \<Rightarrow>
                    let fill = calculate_allowed_fill allowed_fill_percent prime_to_use in
                    if fill < prime_to_use div 2 then (None, None, mem1)
                    else case alloc mem1 of
                        (False, mem2) \<Rightarrow> (None, None, mem2)
                      | (True, mem2) \<Rightarrow>
                          let base = \<lparr>hs_tablesize = prime_to_use,
                                hs_tablesize_entry_index = entry_index, hs_allowed_fill = fill,
                                hs_record_count = 0,
                                hs_hashtab = replicate prime_to_use empty_entry,
                                hs_hashfunc = hashfunc\<rparr>
                          in (Some base, Some base, mem2))))"

subsection \<open>Searching one slot\<close>

fun chain_find :: "'k compar \<Rightarrow> 'k option \<Rightarrow> 'k option list \<Rightarrow> nat option" where
  "chain_find compar key [] = None"
| "chain_find compar key (c # cs) =
     (if compar key c = 0 then Some 0 else map_option Suc (chain_find compar key cs))"

definition set_slot :: "nat \<Rightarrow> 'k ts_entry \<Rightarrow> 'k hs_base \<Rightarrow> 'k hs_base" where
  "set_slot i s head = head\<lparr>hs_hashtab := (hs_hashtab head)[i := s]\<rparr>"

definition count_record :: "'k hs_base \<Rightarrow> 'k hs_base" where
  "count_record head = head\<lparr>hs_record_count := hs_record_count head + 1\<rparr>"

definition uncount_record :: "'k hs_base \<Rightarrow> 'k hs_base" where
  "uncount_record head = head\<lparr>hs_record_count := hs_record_count head - 1\<rparr>"

text \<open>\<open>_tsearch_inner\<close> after the table has been resized, if it had to be.\<close>

definition tsearch_slot ::
    "'k compar \<Rightarrow> 'k option \<Rightarrow> nat \<Rightarrow> 'k hs_base \<Rightarrow> allocs \<Rightarrow> search_intent \<Rightarrow>
     entry_ref option \<times> bool \<times> 'k hs_base \<times> allocs" where
  "tsearch_slot compar key keyhash head mem intent =
     (let hindx = keyhash mod hs_tablesize head; s = hs_hashtab head ! hindx in
      if \<not> entryused s then
        if intent \<noteq> want_insert then (None, False, head, mem)
        else (Some (Entry_ref hindx 0), True,
              count_record (set_slot hindx \<lparr>keyptr = key, entryused = True, chain = []\<rparr> head), mem)
      else if compar key (keyptr s) = 0 then (Some (Entry_ref hindx 0), False, head, mem)
      else case chain_find compar key (chain s) of
          Some j \<Rightarrow> (Some (Entry_ref hindx (Suc j)), False, head, mem)
        | None \<Rightarrow>
            if intent \<noteq> want_insert then (None, False, head, mem)
            else case alloc mem of
                (False, mem') \<Rightarrow> (None, False, head, mem')
              | (True, mem') \<Rightarrow>
                  (Some (Entry_ref hindx 1), True,
                   count_record (set_slot hindx (s\<lparr>chain := key # chain s\<rparr>) head), mem'))"

subsection \<open>Growing\<close>

text \<open>The keys \<open>resize_table\<close> carries over, in its order: a null key at the head of a chain is not.\<close>

definition carried_keys :: "'k ts_entry \<Rightarrow> 'k option list" where
  "carried_keys p = (if keyptr p \<noteq> None then [keyptr p] else []) @ chain p"

type_synonym 'k inserter = "'k option \<Rightarrow> 'k hs_base \<Rightarrow> allocs \<Rightarrow> bool \<times> 'k hs_base \<times> allocs"

fun resize_fill :: "'k inserter \<Rightarrow> 'k option list \<Rightarrow> 'k hs_base \<Rightarrow> allocs \<Rightarrow>
    'k hs_base option \<times> allocs" where
  "resize_fill ins [] newhead mem = (Some newhead, mem)"
| "resize_fill ins (k # ks) newhead mem =
     (case ins k newhead mem of
        (inserted, newhead', mem') \<Rightarrow>
          if \<not> inserted then (None, mem') else resize_fill ins ks newhead' mem')"

definition resize_table :: "'k inserter \<Rightarrow> 'k hs_base \<Rightarrow> allocs \<Rightarrow> 'k hs_base \<times> allocs" where
  "resize_table ins head mem =
     (let new_entry_index = hs_tablesize_entry_index head + 1;
          prime_to_use = primes ! new_entry_index;
          fill = calculate_allowed_fill allowed_fill_percent prime_to_use
      in if prime_to_use = 0 then (head, mem)
         else if fill < prime_to_use div 2 then (head, mem)
         else case alloc mem of
             (False, mem1) \<Rightarrow> (head, mem1)
           | (True, mem1) \<Rightarrow>
               (case resize_fill ins (concat (map carried_keys (hs_hashtab head)))
                       (head\<lparr>hs_tablesize := prime_to_use, hs_tablesize_entry_index := new_entry_index,
                          hs_allowed_fill := fill, hs_record_count := 0,
                          hs_hashtab := replicate prime_to_use empty_entry\<rparr>) mem1 of
                  (None, mem2) \<Rightarrow> (head, mem2)
                | (Some newhead, mem2) \<Rightarrow> (newhead, mem2)))"

text \<open>
  \<open>_tsearch_inner\<close> and \<open>resize_table\<close> call each other: filling the new table may in turn
  resize it. Each resize moves one prime up, so the depth is bounded by the list of primes,
  which is the bound the recursion is given.
\<close>

fun tsearch_level ::
    "nat \<Rightarrow> 'k compar \<Rightarrow> 'k option \<Rightarrow> 'k hs_base \<Rightarrow> allocs \<Rightarrow> search_intent \<Rightarrow>
     entry_ref option \<times> bool \<times> 'k hs_base \<times> allocs" where
  "tsearch_level level compar key head mem intent =
     (case hs_hashfunc head of
        None \<Rightarrow> (None, False, head, mem)
      | Some hashfunc \<Rightarrow>
          if intent = want_insert \<and> hs_allowed_fill head < hs_record_count head \<and> level \<noteq> 0
          then case resize_table
                 (\<lambda>k h m. snd (tsearch_level (level - 1) compar k h m want_insert)) head mem of
               (head', mem') \<Rightarrow> tsearch_slot compar key (hashfunc key) head' mem' intent
          else tsearch_slot compar key (hashfunc key) head mem intent)"

declare tsearch_level.simps [simp del]

definition tsearch_inner ::
    "'k compar \<Rightarrow> 'k option \<Rightarrow> 'k hs_base \<Rightarrow> allocs \<Rightarrow> search_intent \<Rightarrow>
     entry_ref option \<times> bool \<times> 'k hs_base \<times> allocs" where
  "tsearch_inner = tsearch_level (length primes)"

subsection \<open>The operations\<close>

definition key_at :: "'k hs_base \<Rightarrow> entry_ref \<Rightarrow> 'k option" where
  "key_at head r = (case r of Entry_ref i j \<Rightarrow>
     (case j of 0 \<Rightarrow> keyptr (hs_hashtab head ! i) | Suc k \<Rightarrow> chain (hs_hashtab head ! i) ! k))"

text \<open>
  The returned pointers point to a key pointer; the model returns that key pointer:
  \<open>None\<close> is the operation's NULL.
\<close>

definition dwarf_tsearch :: "'k compar \<Rightarrow> 'k option \<Rightarrow> 'k hs_base option \<Rightarrow> allocs \<Rightarrow>
    'k option option \<times> 'k hs_base option \<times> allocs" where
  "dwarf_tsearch compar key root mem =
     (case root of
        None \<Rightarrow> (None, None, mem)
      | Some head \<Rightarrow> (case tsearch_inner compar key head mem want_insert of
          (r, _, head', mem') \<Rightarrow> (map_option (key_at head') r, Some head', mem')))"

definition dwarf_tfind :: "'k compar \<Rightarrow> 'k option \<Rightarrow> 'k hs_base option \<Rightarrow> 'k option option" where
  "dwarf_tfind compar key root =
     (case root of
        None \<Rightarrow> None
      | Some head \<Rightarrow> map_option (key_at head) (fst (tsearch_inner compar key head [] only_find)))"

definition remove_entry :: "entry_ref \<Rightarrow> 'k hs_base \<Rightarrow> 'k option option \<times> 'k hs_base" where
  "remove_entry r head =
     (case r of Entry_ref i j \<Rightarrow>
        let found = hs_hashtab head ! i in
        case j of
          Suc k \<Rightarrow>
            (Some (key_at head (Entry_ref i k)),
             set_slot i (found\<lparr>chain := take k (chain found) @ drop (Suc k) (chain found)\<rparr>)
               (uncount_record head))
        | 0 \<Rightarrow>
            (case chain found of
               pullup # rest \<Rightarrow>
                 (Some pullup,
                  set_slot i \<lparr>keyptr = pullup, entryused = True, chain = rest\<rparr>
                    (uncount_record head))
             | [] \<Rightarrow> (None, set_slot i empty_entry (uncount_record head))))"

definition dwarf_tdelete :: "'k compar \<Rightarrow> 'k option \<Rightarrow> 'k hs_base option \<Rightarrow>
    'k option option \<times> 'k hs_base option" where
  "dwarf_tdelete compar key root =
     (case root of
        None \<Rightarrow> (None, None)
      | Some head \<Rightarrow> (case fst (tsearch_inner compar key head [] want_delete) of
          None \<Rightarrow> (None, Some head)
        | Some r \<Rightarrow> (case remove_entry r head of (res, head') \<Rightarrow> (res, Some head'))))"

text \<open>The keys \<open>action\<close> is called with, in order.\<close>

definition dwarf_twalk :: "'k hs_base option \<Rightarrow> 'k option list" where
  "dwarf_twalk root =
     (case root of None \<Rightarrow> [] | Some head \<Rightarrow> concat (map carried_keys (hs_hashtab head)))"

text \<open>The keys \<open>free_node\<close> is called with, and what is left of the record count.\<close>

definition tdestroy_keys :: "'k ts_entry \<Rightarrow> 'k option list" where
  "tdestroy_keys p = (if keyptr p \<noteq> None \<and> entryused p then [keyptr p] else []) @ chain p"

definition dwarf_tdestroy_inner :: "'k hs_base \<Rightarrow> 'k option list \<times> nat" where
  "dwarf_tdestroy_inner h =
     (let freed = concat (map tdestroy_keys (hs_hashtab h))
      in (freed, hs_record_count h - length freed))"

definition dwarf_tdestroy :: "'k hs_base option \<Rightarrow> 'k option list" where
  "dwarf_tdestroy root = (case root of None \<Rightarrow> [] | Some head \<Rightarrow> fst (dwarf_tdestroy_inner head))"

subsection \<open>Well-formed tables\<close>

definition slot_keys :: "'k ts_entry \<Rightarrow> 'k option list" where
  "slot_keys s = (if entryused s then keyptr s # chain s else [])"

definition table_keys :: "'k hs_base \<Rightarrow> 'k option list" where
  "table_keys head = concat (map slot_keys (hs_hashtab head))"

definition elems :: "'k hs_base \<Rightarrow> 'k set" where
  "elems head = {k. Some k \<in> set (table_keys head)}"

definition slot_ok :: "'k compar \<Rightarrow> ('k option \<Rightarrow> nat) \<Rightarrow> nat \<Rightarrow> nat \<Rightarrow> 'k ts_entry \<Rightarrow> bool" where
  "slot_ok compar hashf n i s \<longleftrightarrow>
     (\<not> entryused s \<longrightarrow> s = empty_entry) \<and>
     (\<forall>k \<in> set (slot_keys s). k \<noteq> None \<and> hashf k mod n = i) \<and>
     sorted_wrt (\<lambda>a b. compar a b \<noteq> 0) (slot_keys s)"

definition table_inv :: "'k compar \<Rightarrow> ('k option \<Rightarrow> nat) \<Rightarrow> 'k hs_base \<Rightarrow> bool" where
  "table_inv compar hashf h \<longleftrightarrow>
     hs_hashfunc h = Some hashf \<and> hs_tablesize_entry_index h < 20 \<and>
     hs_tablesize h = primes ! hs_tablesize_entry_index h \<and>
     length (hs_hashtab h) = hs_tablesize h \<and>
     (\<forall>i < hs_tablesize h. slot_ok compar hashf (hs_tablesize h) i (hs_hashtab h ! i)) \<and>
     hs_record_count h = length (table_keys h)"

lemma primes_pos: "i < 20 \<Longrightarrow> 0 < primes ! i"
proof -
  assume "i < 20"
  moreover have "\<forall>x \<in> set (butlast primes). 0 < x" "length (butlast primes) = 20"
    by (simp_all add: primes_def)
  ultimately show ?thesis by (metis nth_butlast nth_mem)
qed

lemma length_primes [simp]: "length primes = 21"
  by (simp add: primes_def)

lemma prime_20 [simp]: "primes ! 20 = 0"
  by (simp add: primes_def)

lemma slot_keys_empty [simp]: "slot_keys empty_entry = []" "entryused empty_entry = False"
  "carried_keys empty_entry = []" "tdestroy_keys empty_entry = []"
  by (simp_all add: slot_keys_def empty_entry_def carried_keys_def tdestroy_keys_def)

lemma slot_ok_carried:
  "slot_ok compar hashf n i s \<Longrightarrow> carried_keys s = slot_keys s \<and> tdestroy_keys s = slot_keys s"
  by (cases "entryused s")
    (auto simp: slot_ok_def carried_keys_def slot_keys_def tdestroy_keys_def empty_entry_def)

lemma concat_update:
  assumes "i < length xs"
  shows "concat (map f (xs[i := x])) =
    concat (map f (take i xs)) @ f x @ concat (map f (drop (Suc i) xs))"
  using assms by (simp add: upd_conv_take_nth_drop)

lemma concat_at:
  assumes "i < length xs"
  shows "concat (map f xs) = concat (map f (take i xs)) @ f (xs ! i) @ concat (map f (drop (Suc i) xs))"
  using assms concat_update [of i xs f "xs ! i"] by simp

lemma table_keys_carried:
  assumes "table_inv compar hashf h"
  shows "concat (map carried_keys (hs_hashtab h)) = table_keys h"
    and "concat (map tdestroy_keys (hs_hashtab h)) = table_keys h"
proof -
  have "map carried_keys (hs_hashtab h) = map slot_keys (hs_hashtab h)"
    "map tdestroy_keys (hs_hashtab h) = map slot_keys (hs_hashtab h)"
    using assms
    by (auto simp: table_inv_def in_set_conv_nth simp del: map_eq_conv intro!: map_cong
        dest!: slot_ok_carried)
  then show "concat (map carried_keys (hs_hashtab h)) = table_keys h"
    "concat (map tdestroy_keys (hs_hashtab h)) = table_keys h"
    by (simp_all only: table_keys_def)
qed

lemma chain_find_Some:
  "chain_find compar key cs = Some j \<Longrightarrow> j < length cs \<and> compar key (cs ! j) = 0"
  by (induction cs arbitrary: j) (auto split: if_splits)

lemma chain_find_None: "chain_find compar key cs = None \<longleftrightarrow> (\<forall>c \<in> set cs. compar key c \<noteq> 0)"
  by (induction cs) auto

lemma set_slot_simps [simp]:
  "hs_tablesize (set_slot i s h) = hs_tablesize h"
  "hs_tablesize_entry_index (set_slot i s h) = hs_tablesize_entry_index h"
  "hs_allowed_fill (set_slot i s h) = hs_allowed_fill h"
  "hs_record_count (set_slot i s h) = hs_record_count h"
  "hs_hashfunc (set_slot i s h) = hs_hashfunc h"
  "hs_hashtab (set_slot i s h) = (hs_hashtab h)[i := s]"
  by (simp_all add: set_slot_def)

lemma count_simps [simp]:
  "hs_tablesize (count_record h) = hs_tablesize h"
  "hs_tablesize_entry_index (count_record h) = hs_tablesize_entry_index h"
  "hs_hashfunc (count_record h) = hs_hashfunc h" "hs_hashtab (count_record h) = hs_hashtab h"
  "hs_record_count (count_record h) = hs_record_count h + 1"
  "hs_tablesize (uncount_record h) = hs_tablesize h"
  "hs_tablesize_entry_index (uncount_record h) = hs_tablesize_entry_index h"
  "hs_hashfunc (uncount_record h) = hs_hashfunc h" "hs_hashtab (uncount_record h) = hs_hashtab h"
  "hs_record_count (uncount_record h) = hs_record_count h - 1"
  by (simp_all add: count_record_def uncount_record_def)

lemma elems_cong: "hs_hashtab h = hs_hashtab h' \<Longrightarrow> elems h = elems h'"
  by (simp add: elems_def table_keys_def)

lemma elems_count [simp]: "elems (count_record h) = elems h" "elems (uncount_record h) = elems h"
  by (rule elems_cong, simp)+

lemma inv_slot:
  "table_inv compar hashf h \<Longrightarrow> i < hs_tablesize h \<Longrightarrow> slot_ok compar hashf (hs_tablesize h) i (hs_hashtab h ! i)"
  unfolding table_inv_def by blast

lemma inv_index: "table_inv compar hashf h \<Longrightarrow> hashf k mod hs_tablesize h < hs_tablesize h"
  using primes_pos by (simp add: table_inv_def)

lemma inv_length: "table_inv compar hashf h \<Longrightarrow> length (hs_hashtab h) = hs_tablesize h"
  by (simp add: table_inv_def)

lemma elems_slot:
  assumes "table_inv compar hashf h"
  shows "x \<in> elems h \<longleftrightarrow> Some x \<in> set (slot_keys (hs_hashtab h ! (hashf (Some x) mod hs_tablesize h)))"
proof
  assume "x \<in> elems h"
  then obtain s where "s \<in> set (hs_hashtab h)" "Some x \<in> set (slot_keys s)"
    by (auto simp: elems_def table_keys_def)
  then obtain i where "i < hs_tablesize h" "Some x \<in> set (slot_keys (hs_hashtab h ! i))"
    using inv_length [OF assms] by (metis in_set_conv_nth)
  moreover from this have "hashf (Some x) mod hs_tablesize h = i"
    using inv_slot [OF assms] by (auto simp: slot_ok_def)
  ultimately show "Some x \<in> set (slot_keys (hs_hashtab h ! (hashf (Some x) mod hs_tablesize h)))"
    by simp
next
  assume "Some x \<in> set (slot_keys (hs_hashtab h ! (hashf (Some x) mod hs_tablesize h)))"
  then show "x \<in> elems h"
    using inv_index [OF assms] inv_length [OF assms] by (auto simp: elems_def table_keys_def)
qed

lemma inv_set_slot:
  assumes inv: "table_inv compar hashf h" and i: "i < hs_tablesize h"
    and s: "slot_ok compar hashf (hs_tablesize h) i s"
    and h': "hs_hashtab h' = (hs_hashtab h)[i := s]" "hs_tablesize h' = hs_tablesize h"
      "hs_tablesize_entry_index h' = hs_tablesize_entry_index h" "hs_hashfunc h' = hs_hashfunc h"
    and c: "hs_record_count h' + length (slot_keys (hs_hashtab h ! i)) =
      hs_record_count h + length (slot_keys s)"
  shows "table_inv compar hashf h'"
    and "x \<in> elems h' \<longleftrightarrow>
      (if hashf (Some x) mod hs_tablesize h = i then Some x \<in> set (slot_keys s) else x \<in> elems h)"
proof -
  have len: "i < length (hs_hashtab h)" using i inv by (simp add: table_inv_def)
  have "length (table_keys h') + length (slot_keys (hs_hashtab h ! i)) =
      length (table_keys h) + length (slot_keys s)"
    unfolding table_keys_def h'(1) concat_update [OF len]
    by (subst concat_at [OF len]) simp
  then show inv': "table_inv compar hashf h'"
    using inv i s h' c by (auto simp: table_inv_def nth_list_update)
  show "x \<in> elems h' \<longleftrightarrow>
      (if hashf (Some x) mod hs_tablesize h = i then Some x \<in> set (slot_keys s) else x \<in> elems h)"
    using elems_slot [OF inv', of x] elems_slot [OF inv, of x] h' len by auto
qed

lemma irrefl_sorted_distinct:
  "sorted_wrt P xs \<Longrightarrow> \<forall>x \<in> set xs. \<not> P x x \<Longrightarrow> distinct xs"
  by (induction xs) auto

lemma distinct_concat_indexed:
  assumes "\<And>i. i < length xs \<Longrightarrow> distinct (f (xs ! i)) \<and> (\<forall>k \<in> set (f (xs ! i)). g k = i)"
  shows "distinct (concat (map f xs))"
  using assms
proof (induction xs rule: rev_induct)
  case Nil
  then show ?case by simp
next
  case (snoc x xs)
  have less: "distinct (f (xs ! i)) \<and> (\<forall>k \<in> set (f (xs ! i)). g k = i)" if "i < length xs" for i
    using snoc.prems [of i] that by (simp add: nth_append)
  have "g k < length xs" if "k \<in> set (concat (map f xs))" for k
    using that less by (auto simp: in_set_conv_nth [of _ xs])
  moreover have "distinct (f x)" "\<forall>k \<in> set (f x). g k = length xs"
    using snoc.prems [of "length xs"] by auto
  ultimately show ?case using snoc.IH [OF less] by fastforce
qed

subsection \<open>The contract of the keys\<close>

text \<open>
  What the table relies on: the comparison is an equivalence on (non-null) keys and equal
  keys hash alike.
\<close>

locale tsearch_keys =
  fixes compar :: "'k compar" and hashf :: "'k option \<Rightarrow> nat"
  assumes compar_refl: "compar (Some a) (Some a) = 0"
    and compar_sym: "compar (Some a) (Some b) = 0 \<Longrightarrow> compar (Some b) (Some a) = 0"
    and compar_trans: "compar (Some a) (Some b) = 0 \<Longrightarrow> compar (Some b) (Some c) = 0 \<Longrightarrow>
      compar (Some a) (Some c) = 0"
    and hash_same: "compar (Some a) (Some b) = 0 \<Longrightarrow> hashf (Some a) = hashf (Some b)"
begin

lemma found_in_slot:
  assumes inv: "table_inv compar hashf h"
  shows "(\<exists>x \<in> elems h. compar (Some k) (Some x) = 0) \<longleftrightarrow>
    (\<exists>c \<in> set (slot_keys (hs_hashtab h ! (hashf (Some k) mod hs_tablesize h))). compar (Some k) c = 0)"
    (is "?l \<longleftrightarrow> ?r")
proof
  assume ?l
  then show ?r using elems_slot [OF inv] hash_same by metis
next
  assume ?r
  then obtain c where c: "c \<in> set (slot_keys (hs_hashtab h ! (hashf (Some k) mod hs_tablesize h)))"
    "compar (Some k) c = 0" by auto
  moreover have "c \<noteq> None"
    using c(1) inv_slot [OF inv inv_index [OF inv]] by (auto simp: slot_ok_def)
  ultimately show ?l using elems_slot [OF inv] hash_same by (metis not_Some_eq)
qed

definition finds :: "'k hs_base \<Rightarrow> 'k \<Rightarrow> entry_ref option \<Rightarrow> bool" where
  "finds h k r = (case r of
     None \<Rightarrow> \<forall>x \<in> elems h. compar (Some k) (Some x) \<noteq> 0
   | Some ref \<Rightarrow> \<exists>x \<in> elems h. compar (Some k) (Some x) = 0 \<and> key_at h ref = Some x)"

lemma slot_find:
  assumes inv: "table_inv compar hashf h" and key: "keyhash = hashf (Some k)"
    and res: "tsearch_slot compar (Some k) keyhash h m only_find = (r, ins, h', m')"
  shows "finds h k r \<and> \<not> ins \<and> h' = h \<and> m' = m"
proof -
  let ?i = "hashf (Some k) mod hs_tablesize h"
  let ?s = "hs_hashtab h ! ?i"
  note f = found_in_slot [OF inv, of k]
  have ok: "slot_ok compar hashf (hs_tablesize h) ?i ?s" by (rule inv_slot [OF inv inv_index [OF inv]])
  have el: "x \<in> elems h" if "c \<in> set (slot_keys ?s)" "c = Some x" for c x
    using that ok elems_slot [OF inv, of x] by (auto simp: slot_ok_def)
  consider "\<not> entryused ?s" | "entryused ?s" "compar (Some k) (keyptr ?s) = 0"
    | j where "entryused ?s" "compar (Some k) (keyptr ?s) \<noteq> 0" "chain_find compar (Some k) (chain ?s) = Some j"
    | "entryused ?s" "compar (Some k) (keyptr ?s) \<noteq> 0" "chain_find compar (Some k) (chain ?s) = None"
    by (cases "chain_find compar (Some k) (chain ?s)") auto
  then show ?thesis
  proof cases
    case 1
    then show ?thesis using res f key by (auto simp: tsearch_slot_def Let_def finds_def slot_keys_def)
  next
    case 2
    then have "keyptr ?s \<in> set (slot_keys ?s)" by (simp add: slot_keys_def)
    moreover from this obtain x where "keyptr ?s = Some x" using ok by (auto simp: slot_ok_def)
    ultimately show ?thesis
      using res 2 key el by (auto simp: tsearch_slot_def Let_def finds_def key_at_def)
  next
    case 3
    then have j: "j < length (chain ?s)" "compar (Some k) (chain ?s ! j) = 0"
      by (auto dest: chain_find_Some)
    then have "chain ?s ! j \<in> set (slot_keys ?s)" using 3 by (simp add: slot_keys_def)
    moreover from this obtain x where "chain ?s ! j = Some x" using ok by (auto simp: slot_ok_def)
    ultimately show ?thesis
      using res 3 j key el by (auto simp: tsearch_slot_def Let_def finds_def key_at_def)
  next
    case 4
    then have "r = None \<and> \<not> ins \<and> h' = h \<and> m' = m"
      using res key by (auto simp: tsearch_slot_def Let_def)
    moreover have "\<forall>x \<in> elems h. compar (Some k) (Some x) \<noteq> 0"
      using f 4 by (auto simp: slot_keys_def chain_find_None)
    ultimately show ?thesis by (simp add: finds_def)
  qed
qed

definition inserts :: "'k hs_base \<Rightarrow> 'k \<Rightarrow> allocs \<Rightarrow>
    entry_ref option \<times> bool \<times> 'k hs_base \<times> allocs \<Rightarrow> bool" where
  "inserts h k m res = (case res of (r, ins, h', m') \<Rightarrow>
     table_inv compar hashf h' \<and> (m = [] \<longrightarrow> m' = [] \<and> r \<noteq> None) \<and>
     (if ins then (\<forall>x \<in> elems h. compar (Some k) (Some x) \<noteq> 0) \<and> elems h' = insert k (elems h)
        \<and> (\<exists>ref. r = Some ref \<and> key_at h' ref = Some k)
      else elems h' = elems h \<and> (r \<noteq> None \<longrightarrow> finds h' k r) \<and>
        (r = None \<longrightarrow> (\<forall>x \<in> elems h. compar (Some k) (Some x) \<noteq> 0))))"

lemma new_slot_ok:
  assumes inv: "table_inv compar hashf h"
    and new: "\<forall>x \<in> elems h. compar (Some k) (Some x) \<noteq> 0"
    and i: "i = hashf (Some k) mod hs_tablesize h" and s: "s = hs_hashtab h ! i"
  shows "\<not> entryused s \<Longrightarrow> slot_ok compar hashf (hs_tablesize h) i \<lparr>keyptr = Some k, entryused = True, chain = []\<rparr>"
    and "entryused s \<Longrightarrow> slot_ok compar hashf (hs_tablesize h) i (s\<lparr>chain := Some k # chain s\<rparr>)"
proof -
  show "slot_ok compar hashf (hs_tablesize h) i \<lparr>keyptr = Some k, entryused = True, chain = []\<rparr>"
    by (simp add: slot_ok_def slot_keys_def i)
  assume u: "entryused s"
  have ok: "slot_ok compar hashf (hs_tablesize h) i s"
    unfolding s i by (rule inv_slot [OF inv inv_index [OF inv]])
  have no: "\<forall>c \<in> set (slot_keys s). compar (Some k) c \<noteq> 0"
    using new found_in_slot [OF inv, of k] by (auto simp: s i)
  obtain y where y: "keyptr s = Some y" using ok u by (auto simp: slot_ok_def slot_keys_def)
  have "compar (Some y) (Some k) \<noteq> 0"
    using no y u compar_sym by (auto simp: slot_keys_def)
  then show "slot_ok compar hashf (hs_tablesize h) i (s\<lparr>chain := Some k # chain s\<rparr>)"
    using ok u no y i by (auto simp: slot_ok_def slot_keys_def)
qed

lemma slot_insert:
  assumes inv: "table_inv compar hashf h" and key: "keyhash = hashf (Some k)"
  shows "inserts h k m (tsearch_slot compar (Some k) keyhash h m want_insert)"
proof (cases "\<exists>x \<in> elems h. compar (Some k) (Some x) = 0")
  case True
  obtain r ins h' m' where
    r: "tsearch_slot compar (Some k) keyhash h m only_find = (r, ins, h', m')" by (cases rule: prod_cases4)
  have f: "finds h k r" "r \<noteq> None" using slot_find [OF inv key r] True by (auto simp: finds_def split: option.splits)
  have "tsearch_slot compar (Some k) keyhash h m want_insert = (r, False, h, m)"
    using r f(2) by (auto simp: tsearch_slot_def Let_def split: if_splits option.splits)
  then show ?thesis using inv f True by (auto simp: inserts_def)
next
  case False
  let ?i = "hashf (Some k) mod hs_tablesize h"
  let ?s = "hs_hashtab h ! ?i"
  have i: "?i < hs_tablesize h" by (rule inv_index [OF inv])
  have len: "?i < length (hs_hashtab h)" using inv_length [OF inv] i by simp
  have new: "\<forall>x \<in> elems h. compar (Some k) (Some x) \<noteq> 0" using False by auto
  have no: "\<forall>c \<in> set (slot_keys ?s). compar (Some k) c \<noteq> 0"
    using False found_in_slot [OF inv, of k] by auto
  show ?thesis
  proof (cases "entryused ?s")
    case u: False
    let ?h = "count_record (set_slot ?i \<lparr>keyptr = Some k, entryused = True, chain = []\<rparr> h)"
    note upd = inv_set_slot [OF inv i new_slot_ok(1) [OF inv new refl refl u], of ?h]
    have sk: "slot_keys ?s = []" using u by (simp add: slot_keys_def)
    have inv': "table_inv compar hashf ?h" by (rule upd(1)) (simp_all add: sk, simp add: slot_keys_def)
    have "x \<in> elems ?h \<longleftrightarrow> (if hashf (Some x) mod hs_tablesize h = ?i then x = k else x \<in> elems h)" for x
      by (subst upd(2)) (simp_all add: sk, simp_all add: slot_keys_def)
    moreover have "hashf (Some x) mod hs_tablesize h = ?i \<Longrightarrow> x \<notin> elems h" for x
      using elems_slot [OF inv, of x] sk by auto
    ultimately have "elems ?h = insert k (elems h)" by (auto split: if_splits)
    then show ?thesis
      using u inv' new key len by (auto simp: tsearch_slot_def Let_def inserts_def key_at_def)
  next
    case u: True
    let ?h = "count_record (set_slot ?i (?s\<lparr>chain := Some k # chain ?s\<rparr>) h)"
    note upd = inv_set_slot [OF inv i new_slot_ok(2) [OF inv new refl refl u], of ?h]
    have sk: "slot_keys (?s\<lparr>chain := Some k # chain ?s\<rparr>) = keyptr ?s # Some k # chain ?s"
      "slot_keys ?s = keyptr ?s # chain ?s"
      using u by (simp_all add: slot_keys_def)
    have inv': "table_inv compar hashf ?h" by (rule upd(1)) (simp_all add: sk)
    have "x \<in> elems ?h \<longleftrightarrow> (if hashf (Some x) mod hs_tablesize h = ?i
        then x = k \<or> Some x \<in> set (slot_keys ?s) else x \<in> elems h)" for x
      by (subst upd(2)) (auto simp: sk)
    moreover have "hashf (Some x) mod hs_tablesize h = ?i \<Longrightarrow> x \<in> elems h \<longleftrightarrow> Some x \<in> set (slot_keys ?s)" for x
      using elems_slot [OF inv, of x] by auto
    ultimately have "elems ?h = insert k (elems h)" by (auto split: if_splits)
    moreover have "compar (Some k) (keyptr ?s) \<noteq> 0" "chain_find compar (Some k) (chain ?s) = None"
      using no sk by (auto simp: chain_find_None)
    ultimately show ?thesis
      using u inv inv' new key len
      by (cases m) (auto simp: tsearch_slot_def Let_def inserts_def key_at_def split: prod.splits bool.splits)
  qed
qed

lemma resize_fill_elems:
  assumes ins: "\<And>k h m. table_inv compar hashf h \<Longrightarrow> inserts h k m (rec k h m)"
    and insf: "\<And>k h m. ins (Some k) h m = snd (rec k h m)"
  shows "table_inv compar hashf h \<Longrightarrow> None \<notin> set ks \<Longrightarrow>
    (case resize_fill ins ks h m of (res, m') \<Rightarrow>
      (m = [] \<longrightarrow> m' = []) \<and>
      (\<forall>h'. res = Some h' \<longrightarrow> table_inv compar hashf h' \<and> elems h' = elems h \<union> {k. Some k \<in> set ks}))"
proof (induction ks arbitrary: h m)
  case Nil
  then show ?case by simp
next
  case (Cons k' ks)
  then obtain k where k: "k' = Some k" by (cases k') auto
  obtain r i h1 m1 where r: "rec k h m = (r, i, h1, m1)" by (cases rule: prod_cases4)
  note sp = ins [OF Cons.prems(1), of k m, unfolded r inserts_def prod.case]
  show ?case
  proof (cases i)
    case True
    then have "table_inv compar hashf h1" "elems h1 = insert k (elems h)" "m = [] \<longrightarrow> m1 = []"
      using sp by auto
    then show ?thesis
      using Cons.IH [of h1 m1] Cons.prems k r True by (auto simp: insf split: prod.splits)
  next
    case False
    then show ?thesis using k r sp by (simp add: insf)
  qed
qed

lemma inv_keys:
  assumes "table_inv compar hashf h"
  shows "None \<notin> set (table_keys h)"
  using assms
  by (fastforce simp: table_inv_def table_keys_def in_set_conv_nth [of _ "hs_hashtab h"] slot_ok_def)

lemma resize_table_elems:
  assumes ins: "\<And>k h m. table_inv compar hashf h \<Longrightarrow> inserts h k m (rec k h m)"
    and insf: "\<And>k h m. ins (Some k) h m = snd (rec k h m)"
    and inv: "table_inv compar hashf h"
    and res: "resize_table ins h m = (h', m')"
  shows "table_inv compar hashf h' \<and> elems h' = elems h \<and> (m = [] \<longrightarrow> m' = [])"
proof -
  let ?ix = "Suc (hs_tablesize_entry_index h)"
  let ?p = "primes ! ?ix"
  let ?new = "h\<lparr>hs_tablesize := ?p, hs_tablesize_entry_index := ?ix,
      hs_allowed_fill := calculate_allowed_fill allowed_fill_percent ?p, hs_record_count := 0,
      hs_hashtab := replicate ?p empty_entry\<rparr>"
  let ?ks = "concat (map carried_keys (hs_hashtab h))"
  have ks: "?ks = table_keys h" by (rule table_keys_carried [OF inv])
  have al: "fst (alloc m) \<or> m \<noteq> []" "m = [] \<longrightarrow> snd (alloc m) = []" by (cases m; simp)+
  show ?thesis
  proof (cases "?p = 0 \<or> calculate_allowed_fill allowed_fill_percent ?p < ?p div 2 \<or> \<not> fst (alloc m)")
    case True
    then show ?thesis
      using res inv al
      by (cases "alloc m") (auto simp: resize_table_def Let_def split: if_splits)
  next
    case False
    have "hs_tablesize_entry_index h < 20" using inv by (simp add: table_inv_def)
    moreover have "hs_tablesize_entry_index h \<noteq> 19"
    proof
      assume "hs_tablesize_entry_index h = 19"
      then have "?p = 0" by simp
      then show False using False by blast
    qed
    ultimately have ix: "?ix < 20" by simp
    have keys0: "table_keys ?new = []" by (simp add: table_keys_def map_replicate_const)
    then have inv0: "table_inv compar hashf ?new"
      using inv ix by (simp add: table_inv_def slot_ok_def)
    have e0: "elems ?new = {}" by (simp add: elems_def keys0)
    obtain r m2 where f: "resize_fill ins ?ks ?new (snd (alloc m)) = (r, m2)" by (cases rule: prod.exhaust)
    have res': "(h', m') = (case r of None \<Rightarrow> (h, m2) | Some g \<Rightarrow> (g, m2))"
      using res False f by (cases "alloc m") (auto simp: resize_table_def Let_def)
    have "None \<notin> set ?ks" using inv_keys [OF inv] ks by simp
    note fill = resize_fill_elems [OF ins insf inv0 this, of "snd (alloc m)", unfolded f prod.case]
    show ?thesis
    proof (cases r)
      case None
      then show ?thesis using res' fill inv al by auto
    next
      case (Some g)
      then show ?thesis using res' fill al e0 ks by (auto simp: elems_def)
    qed
  qed
qed

lemma inserts_same:
  assumes "table_inv compar hashf h1 \<and> elems h1 = elems h \<and> (m = [] \<longrightarrow> m1 = [])"
    and "inserts h1 k m1 res1" and "res = res1"
  shows "inserts h k m res"
  using assms unfolding inserts_def by (cases res1) simp

lemma level_insert:
  "table_inv compar hashf h \<Longrightarrow> inserts h k m (tsearch_level n compar (Some k) h m want_insert)"
proof (induction n arbitrary: h k m)
  case 0
  then have "hs_hashfunc h = Some hashf" by (simp add: table_inv_def)
  then show ?case using slot_insert [OF 0 refl] by (simp add: tsearch_level.simps)
next
  case (Suc n)
  then have hf: "hs_hashfunc h = Some hashf" by (simp add: table_inv_def)
  show ?case
  proof (cases "hs_allowed_fill h < hs_record_count h")
    case False
    then show ?thesis using slot_insert [OF Suc.prems refl] hf by (simp add: tsearch_level.simps)
  next
    case True
    let ?rec = "\<lambda>k h m. tsearch_level n compar (Some k) h m want_insert"
    let ?ins = "\<lambda>k h m. snd (tsearch_level n compar k h m want_insert)"
    obtain h1 m1 where r: "resize_table ?ins h m = (h1, m1)" by (cases rule: prod.exhaust)
    have "table_inv compar hashf h1 \<and> elems h1 = elems h \<and> (m = [] \<longrightarrow> m1 = [])"
      by (rule resize_table_elems [where rec = ?rec, OF Suc.IH _ Suc.prems r]) (auto split: prod.splits)
    moreover from this have "inserts h1 k m1 (tsearch_slot compar (Some k) (hashf (Some k)) h1 m1 want_insert)"
      using slot_insert by blast
    moreover have "tsearch_level (Suc n) compar (Some k) h m want_insert =
        tsearch_slot compar (Some k) (hashf (Some k)) h1 m1 want_insert"
      by (subst tsearch_level.simps) (simp add: hf True r)
    ultimately show ?thesis by (rule inserts_same)
  qed
qed

lemma tsearch_refines:
  assumes "table_inv compar hashf h"
  shows "\<exists>h' m' r. dwarf_tsearch compar (Some k) (Some h) m = (r, Some h', m')
    \<and> table_inv compar hashf h'
    \<and> (m = [] \<longrightarrow> m' = [] \<and> r \<noteq> None)
    \<and> (case r of
         None \<Rightarrow> elems h' = elems h \<and> (\<forall>x \<in> elems h. compar (Some k) (Some x) \<noteq> 0)
       | Some p \<Rightarrow> (\<exists>x \<in> elems h'. p = Some x \<and> compar (Some k) (Some x) = 0)
           \<and> elems h' = (if \<exists>x \<in> elems h. compar (Some k) (Some x) = 0 then elems h
                else insert k (elems h)))"
proof -
  obtain r i h' m' where
    t: "tsearch_inner compar (Some k) h m want_insert = (r, i, h', m')" by (cases rule: prod_cases4)
  have sp: "inserts h k m (r, i, h', m')"
    using level_insert [OF assms, of k m "length primes"] t by (simp add: tsearch_inner_def)
  have d: "dwarf_tsearch compar (Some k) (Some h) m = (map_option (key_at h') r, Some h', m')"
    by (simp add: dwarf_tsearch_def t)
  show ?thesis
  proof (cases i)
    case True
    then show ?thesis
      using sp d compar_refl by (fastforce simp: inserts_def)
  next
    case False
    then show ?thesis
      using sp d by (cases r) (fastforce simp: inserts_def finds_def)+
  qed
qed

lemma find_only:
  assumes "table_inv compar hashf h" and "intent \<noteq> want_insert"
  shows "fst (tsearch_inner compar (Some k) h [] intent) =
    fst (tsearch_slot compar (Some k) (hashf (Some k)) h [] only_find)"
proof -
  have "hs_hashfunc h = Some hashf" using assms(1) by (simp add: table_inv_def)
  moreover have "tsearch_slot compar (Some k) x h [] intent = tsearch_slot compar (Some k) x h [] only_find" for x
    using assms(2) by (simp add: tsearch_slot_def Let_def)
  ultimately show ?thesis
    unfolding tsearch_inner_def
    by (subst tsearch_level.simps) (simp add: assms(2))
qed

lemma tfind_refines:
  assumes "table_inv compar hashf h"
  shows "case dwarf_tfind compar (Some k) (Some h) of
      None \<Rightarrow> \<forall>x \<in> elems h. compar (Some k) (Some x) \<noteq> 0
    | Some p \<Rightarrow> \<exists>x \<in> elems h. p = Some x \<and> compar (Some k) (Some x) = 0"
proof -
  obtain r i h' m' where
    t: "tsearch_slot compar (Some k) (hashf (Some k)) h [] only_find = (r, i, h', m')"
    by (cases rule: prod_cases4)
  then have "dwarf_tfind compar (Some k) (Some h) = map_option (key_at h) r"
    using find_only [OF assms, of only_find k] by (simp add: dwarf_tfind_def)
  then show ?thesis
    using slot_find [OF assms refl t] by (cases r) (auto simp: finds_def)
qed

lemma slot_place:
  assumes "tsearch_slot compar (Some k) keyhash h m only_find = (Some (Entry_ref i j), ins, h', m')"
  shows "i = keyhash mod hs_tablesize h \<and> entryused (hs_hashtab h ! i) \<and>
    j < length (slot_keys (hs_hashtab h ! i)) \<and>
    key_at h (Entry_ref i j) = slot_keys (hs_hashtab h ! i) ! j"
  using assms
  by (auto simp: tsearch_slot_def Let_def key_at_def slot_keys_def split: if_splits option.splits
      dest: chain_find_Some)

lemma sorted_wrt_remove:
  "sorted_wrt P xs \<Longrightarrow> sorted_wrt P (take j xs @ drop (Suc j) xs)"
proof (induction xs arbitrary: j)
  case Nil
  then show ?case by simp
next
  case (Cons x xs)
  then show ?case
    by (cases j) (auto dest: in_set_takeD in_set_dropD)
qed

lemma remove_entry_slot:
  assumes ok: "slot_ok compar hashf n i s" and s: "s = hs_hashtab h ! i"
    and used: "entryused s" and j: "j < length (slot_keys s)"
    and res: "remove_entry (Entry_ref i j) h = (p, h')"
  shows "\<exists>s'. h' = set_slot i s' (uncount_record h) \<and> slot_ok compar hashf n i s' \<and>
    slot_keys s' = take j (slot_keys s) @ drop (Suc j) (slot_keys s)"
proof -
  define ks where "ks = take j (slot_keys s) @ drop (Suc j) (slot_keys s)"
  have ks: "sorted_wrt (\<lambda>a b. compar a b \<noteq> 0) ks" "set ks \<subseteq> set (slot_keys s)"
    using ok by (auto simp: ks_def slot_ok_def intro: sorted_wrt_remove dest: in_set_takeD in_set_dropD)
  obtain s' where s': "h' = set_slot i s' (uncount_record h)" "slot_keys s' = ks"
      "\<not> entryused s' \<longrightarrow> s' = empty_entry"
    using res used j
    by (cases j; cases "chain s")
      (auto simp: remove_entry_def Let_def s [symmetric] slot_keys_def ks_def split: if_splits)
  then have "slot_ok compar hashf n i s'"
    using ok ks by (auto simp: slot_ok_def)
  then show ?thesis using s' ks_def by blast
qed

lemma removed_keys:
  assumes ok: "slot_ok compar hashf n i s" and j: "j < length (slot_keys s)"
    and k: "slot_keys s ! j = Some y" "compar (Some k) (Some y) = 0"
  shows "Some x \<in> set (take j (slot_keys s) @ drop (Suc j) (slot_keys s)) \<longleftrightarrow>
    Some x \<in> set (slot_keys s) \<and> compar (Some k) (Some x) \<noteq> 0"
proof -
  let ?ks = "slot_keys s"
  have split: "?ks = take j ?ks @ Some y # drop (Suc j) ?ks"
    using j k(1) id_take_nth_drop [OF j] by simp
  have "sorted_wrt (\<lambda>a b. compar a b \<noteq> 0) (take j ?ks @ Some y # drop (Suc j) ?ks)"
    using ok split by (simp add: slot_ok_def)
  then have "compar (Some x) (Some y) \<noteq> 0" if "Some x \<in> set (take j ?ks)" for x
    using that by (auto simp: sorted_wrt_append)
  moreover have "compar (Some y) (Some x) \<noteq> 0" if "Some x \<in> set (drop (Suc j) ?ks)" for x
    using \<open>sorted_wrt _ (take j ?ks @ _)\<close> that by (auto simp: sorted_wrt_append)
  ultimately have "compar (Some k) (Some x) \<noteq> 0"
    if "Some x \<in> set (take j ?ks @ drop (Suc j) ?ks)" for x
    using that k(2) compar_sym compar_trans by (metis Un_iff set_append)
  moreover have "set ?ks = insert (Some y) (set (take j ?ks @ drop (Suc j) ?ks))"
    by (subst (1) split) auto
  ultimately show ?thesis using k(2) by auto
qed

lemma tdelete_refines:
  assumes inv: "table_inv compar hashf h"
  shows "\<exists>h' p. dwarf_tdelete compar (Some k) (Some h) = (p, Some h') \<and> table_inv compar hashf h' \<and>
    elems h' = {x \<in> elems h. compar (Some k) (Some x) \<noteq> 0}"
proof -
  obtain r ii h1 m1 where
    t: "tsearch_slot compar (Some k) (hashf (Some k)) h [] only_find = (r, ii, h1, m1)"
    by (cases rule: prod_cases4)
  have f: "finds h k r" using slot_find [OF inv refl t] by simp
  have e: "fst (tsearch_inner compar (Some k) h [] want_delete) = r"
    using find_only [OF inv, of want_delete k] t by simp
  show ?thesis
  proof (cases r)
    case None
    then show ?thesis using f e inv by (auto simp: dwarf_tdelete_def finds_def)
  next
    case (Some ref)
    then obtain i j where r: "r = Some (Entry_ref i j)" by (cases ref) auto
    let ?s = "hs_hashtab h ! i"
    note pl = slot_place [OF t [unfolded r]]
    have i: "i < hs_tablesize h" using pl inv_index [OF inv] by simp
    note ok = inv_slot [OF inv i]
    obtain p h' where rm: "remove_entry (Entry_ref i j) h = (p, h')" by (cases rule: prod.exhaust)
    have us: "entryused ?s" and jl: "j < length (slot_keys ?s)" using pl by auto
    from remove_entry_slot [OF ok refl us jl rm] obtain s' where
      s': "h' = set_slot i s' (uncount_record h)" "slot_ok compar hashf (hs_tablesize h) i s'"
        "slot_keys s' = take j (slot_keys ?s) @ drop (Suc j) (slot_keys ?s)" by blast
    obtain y where y: "y \<in> elems h" "compar (Some k) (Some y) = 0" "slot_keys ?s ! j = Some y"
      using f r pl by (auto simp: finds_def)
    have "0 < hs_record_count h"
      using inv y(1) by (auto simp: table_inv_def elems_def)
    moreover have "length (slot_keys s') + 1 = length (slot_keys ?s)"
      using jl unfolding s'(3) by simp
    ultimately have c: "hs_record_count h' + length (slot_keys ?s) = hs_record_count h + length (slot_keys s')"
      using s'(1) by simp
    note upd = inv_set_slot [OF inv i s'(2) _ _ _ _ c]
    have inv': "table_inv compar hashf h'" by (rule upd(1)) (simp_all add: s'(1))
    have "x \<in> elems h' \<longleftrightarrow> x \<in> elems h \<and> compar (Some k) (Some x) \<noteq> 0" for x
    proof -
      have x: "x \<in> elems h' \<longleftrightarrow> (if hashf (Some x) mod hs_tablesize h = i
          then Some x \<in> set (slot_keys s') else x \<in> elems h)"
        by (rule upd(2)) (simp_all add: s'(1))
      have "compar (Some k) (Some x) = 0 \<Longrightarrow> hashf (Some x) mod hs_tablesize h = i"
        using pl hash_same by metis
      then show ?thesis
        using x removed_keys [OF ok _ y(3) y(2), of x] pl s'(3) elems_slot [OF inv, of x] by auto
    qed
    then have "elems h' = {x \<in> elems h. compar (Some k) (Some x) \<noteq> 0}" by auto
    then show ?thesis using e r rm inv' by (auto simp: dwarf_tdelete_def)
  qed
qed

lemma distinct_table_keys:
  assumes inv: "table_inv compar hashf h"
  shows "distinct (table_keys h)"
  unfolding table_keys_def
proof (rule distinct_concat_indexed [where g = "\<lambda>k. hashf k mod hs_tablesize h"])
  fix i
  assume "i < length (hs_hashtab h)"
  then have ok: "slot_ok compar hashf (hs_tablesize h) i (hs_hashtab h ! i)"
    using inv_slot [OF inv] inv_length [OF inv] by simp
  then have "distinct (slot_keys (hs_hashtab h ! i))"
    using compar_refl by (intro irrefl_sorted_distinct) (auto simp: slot_ok_def)
  then show "distinct (slot_keys (hs_hashtab h ! i)) \<and>
      (\<forall>k \<in> set (slot_keys (hs_hashtab h ! i)). hashf k mod hs_tablesize h = i)"
    using ok by (simp add: slot_ok_def)
qed

lemma elems_unique:
  assumes inv: "table_inv compar hashf h" and "x \<in> elems h" "y \<in> elems h"
    and "compar (Some x) (Some y) = 0"
  shows "x = y"
proof -
  let ?i = "hashf (Some x) mod hs_tablesize h"
  let ?ks = "slot_keys (hs_hashtab h ! ?i)"
  have mem: "Some x \<in> set ?ks" "Some y \<in> set ?ks"
    using elems_slot [OF inv] assms hash_same by metis+
  have srt: "sorted_wrt (\<lambda>a b. compar a b \<noteq> 0) ?ks"
    using inv_slot [OF inv inv_index [OF inv]] by (simp add: slot_ok_def)
  obtain i j where ij: "i < length ?ks" "?ks ! i = Some x" "j < length ?ks" "?ks ! j = Some y"
    using mem by (auto simp: in_set_conv_nth)
  have "\<not> i < j" using sorted_wrt_nth_less [OF srt, of i j] ij assms(4) by auto
  moreover have "\<not> j < i"
    using sorted_wrt_nth_less [OF srt, of j i] ij compar_sym [OF assms(4)] by auto
  ultimately show ?thesis using ij by simp
qed

lemma twalk_visits:
  assumes "table_inv compar hashf h"
  shows "distinct (dwarf_twalk (Some h)) \<and> set (dwarf_twalk (Some h)) = Some ` elems h"
  using distinct_table_keys [OF assms] table_keys_carried(1) [OF assms] inv_keys [OF assms]
  by (auto simp: dwarf_twalk_def elems_def image_iff) (metis not_Some_eq)

lemma tdestroy_frees:
  assumes "table_inv compar hashf h"
  shows "distinct (dwarf_tdestroy (Some h)) \<and> set (dwarf_tdestroy (Some h)) = Some ` elems h \<and>
    snd (dwarf_tdestroy_inner h) = 0"
  using distinct_table_keys [OF assms] table_keys_carried(2) [OF assms] inv_keys [OF assms] assms
  by (auto simp: dwarf_tdestroy_def dwarf_tdestroy_inner_def Let_def elems_def image_iff table_inv_def)
    (metis not_Some_eq)

end

lemma pick_prime_spec:
  "pick_prime size_estimate ps k = Some (p, j) \<Longrightarrow>
   k \<le> j \<and> j - k < length ps \<and> p = ps ! (j - k) \<and> p \<noteq> 0 \<and> (size_estimate \<noteq> 0 \<longrightarrow> size_estimate \<le> p)"
proof (induction ps arbitrary: k)
  case Nil
  then show ?case by simp
next
  case (Cons q ps)
  then show ?case
    by (fastforce simp: nth_Cons' Suc_diff_le split: if_splits)
qed

lemma initialize_spec:
  assumes "dwarf_initialize_search_hash None (Some hashf) size_estimate mem = (Some h, root, mem')"
  shows "table_inv compar hashf h \<and> elems h = {} \<and> root = Some h \<and>
    (size_estimate \<noteq> 0 \<longrightarrow> size_estimate \<le> hs_tablesize h)"
proof -
  obtain p j where p: "pick_prime size_estimate primes 0 = Some (p, j)"
    and h: "h = \<lparr>hs_tablesize = p, hs_tablesize_entry_index = j,
      hs_allowed_fill = calculate_allowed_fill allowed_fill_percent p, hs_record_count = 0,
      hs_hashtab = replicate p empty_entry, hs_hashfunc = Some hashf\<rparr>" "root = Some h"
    using assms
    by (auto simp: dwarf_initialize_search_hash_def Let_def split: prod.splits bool.splits
        option.splits if_splits)
  from pick_prime_spec [OF p] have j: "j < 21" "p = primes ! j" "p \<noteq> 0"
    "size_estimate \<noteq> 0 \<longrightarrow> size_estimate \<le> p" by auto
  have "j \<noteq> 20" using j by (metis prime_20)
  moreover have "table_keys h = []" by (simp add: table_keys_def h(1) map_replicate_const)
  ultimately show ?thesis
    using j h by (simp add: table_inv_def slot_ok_def elems_def)
qed

lemma pick_prime_exists:
  "0 \<notin> set ps \<Longrightarrow> p \<noteq> 0 \<Longrightarrow> size_estimate \<le> p \<Longrightarrow>
   pick_prime size_estimate (ps @ p # rest) k \<noteq> None"
  by (induction ps arbitrary: k) auto

lemma fill_enough: "p \<in> set (butlast primes) \<Longrightarrow> \<not> calculate_allowed_fill allowed_fill_percent p < p div 2"
  by (auto simp: primes_def calculate_allowed_fill_def allowed_fill_percent_def)

lemma initialize_succeeds:
  assumes "size_estimate \<le> 800000573"
  shows "\<exists>h. dwarf_initialize_search_hash None hashf size_estimate [] = (Some h, Some h, [])"
proof -
  have "primes = take 19 primes @ 800000573 # [0]" "0 \<notin> set (take 19 primes)"
    by (simp_all add: primes_def)
  then have "pick_prime size_estimate primes 0 \<noteq> None"
    using pick_prime_exists [of "take 19 primes" 800000573 size_estimate "[0]" 0] assms by simp
  then obtain p j where p: "pick_prime size_estimate primes 0 = Some (p, j)" by auto
  from pick_prime_spec [OF this] have "j < 21" "p = primes ! j" "p \<noteq> 0" by auto
  moreover from this have "j \<noteq> 20" by (metis prime_20)
  ultimately have "j < length (butlast primes)" "p = butlast primes ! j"
    by (simp_all add: nth_butlast)
  then have "p \<in> set (butlast primes)" by simp
  then have "\<not> calculate_allowed_fill allowed_fill_percent p < p div 2" by (rule fill_enough)
  then show ?thesis using p by (simp add: dwarf_initialize_search_hash_def Let_def)
qed

subsection \<open>The bound of the recursion is enough\<close>

definition index_between :: "nat \<Rightarrow> 'k hs_base \<Rightarrow> bool" where
  "index_between a h \<longleftrightarrow> a \<le> hs_tablesize_entry_index h \<and> hs_tablesize_entry_index h < 20"

lemma slot_index: "index_between a h \<Longrightarrow>
    index_between a (fst (snd (snd (tsearch_slot compar key kh h m intent))))"
  by (auto simp: tsearch_slot_def Let_def index_between_def split: option.split prod.split bool.split)

lemma fill_index:
  assumes "\<And>k h m. index_between a h \<Longrightarrow> index_between a (fst (snd (ins k h m)))"
  shows "index_between a h \<Longrightarrow> resize_fill ins ks h m = (Some h', m') \<Longrightarrow> index_between a h'"
proof (induction ks arbitrary: h m)
  case Nil
  then show ?case by simp
next
  case (Cons k ks)
  then show ?case using assms [OF Cons.prems(1), of k m] by (auto split: prod.splits if_splits)
qed

lemma fill_cong:
  assumes "\<And>k h m. index_between a h \<Longrightarrow> index_between a (fst (snd (ins k h m)))"
    and "\<And>k h m. index_between a h \<Longrightarrow> ins k h m = ins' k h m"
  shows "index_between a h \<Longrightarrow> resize_fill ins ks h m = resize_fill ins' ks h m"
proof (induction ks arbitrary: h m)
  case Nil
  then show ?case by simp
next
  case (Cons k ks)
  then show ?case
    using assms(1) [OF Cons.prems, of k m] assms(2) [OF Cons.prems, of k m]
    by (auto split: prod.splits)
qed

lemma next_prime_index: "hs_tablesize_entry_index h < 20 \<Longrightarrow>
    primes ! (hs_tablesize_entry_index h + 1) \<noteq> 0 \<Longrightarrow> hs_tablesize_entry_index h + 1 < 20"
  using prime_20 by (cases "hs_tablesize_entry_index h = 19") auto

lemma resize_index:
  assumes "\<And>k h m. index_between a h \<Longrightarrow> index_between a (fst (snd (ins k h m)))"
    and "index_between a h"
  shows "index_between a (fst (resize_table ins h m))"
proof -
  define new where "new = h\<lparr>hs_tablesize := primes ! (hs_tablesize_entry_index h + 1),
    hs_tablesize_entry_index := hs_tablesize_entry_index h + 1,
    hs_allowed_fill := calculate_allowed_fill allowed_fill_percent (primes ! (hs_tablesize_entry_index h + 1)),
    hs_record_count := 0,
    hs_hashtab := replicate (primes ! (hs_tablesize_entry_index h + 1)) empty_entry\<rparr>"
  obtain ok m1 where al: "alloc m = (ok, m1)" by (cases rule: prod.exhaust)
  obtain r m2 where f: "resize_fill ins (concat (map carried_keys (hs_hashtab h))) new m1 = (r, m2)"
    by (cases rule: prod.exhaust)
  show ?thesis
  proof (cases "primes ! (hs_tablesize_entry_index h + 1) = 0 \<or> \<not> ok \<or> r = None")
    case True
    then have "fst (resize_table ins h m) = h"
      unfolding resize_table_def Let_def new_def [symmetric] by (cases ok; cases r) (auto simp: al f)
    then show ?thesis using assms(2) by simp
  next
    case False
    then obtain g where g: "r = Some g" "ok" by auto
    have "index_between a new"
      using next_prime_index [of h] False assms(2) by (auto simp: index_between_def new_def)
    from fill_index [where h = new, OF assms(1) this f [unfolded g]] have "index_between a g" .
    moreover have "fst (resize_table ins h m) = g \<or> fst (resize_table ins h m) = h"
      unfolding resize_table_def Let_def new_def [symmetric] using False g by (simp add: al f)
    ultimately show ?thesis using assms(2) by auto
  qed
qed

lemma level_index: "index_between a h \<Longrightarrow>
    index_between a (fst (snd (snd (tsearch_level n compar k h m intent))))"
proof (induction n arbitrary: h k m intent)
  case 0
  then show ?case by (simp add: tsearch_level.simps slot_index split: option.split)
next
  case (Suc n)
  let ?ins = "\<lambda>k h m. snd (tsearch_level n compar k h m want_insert)"
  have "index_between a (fst (resize_table ?ins h m))"
    by (rule resize_index [OF Suc.IH Suc.prems])
  then show ?case
    using Suc.prems by (subst tsearch_level.simps) (auto simp: slot_index split: option.split prod.split)
qed

lemma level_enough:
  "index_between (19 - n) h \<Longrightarrow>
   tsearch_level (Suc n) compar k h m intent = tsearch_level n compar k h m intent"
proof (induction n arbitrary: h k m intent)
  case 0
  then have "hs_tablesize_entry_index h = 19" by (simp add: index_between_def)
  then have "resize_table ins h m = (h, m)" for ins by (simp add: resize_table_def)
  then show ?case by (simp add: tsearch_level.simps [of "Suc 0"] tsearch_level.simps [of 0] split: option.split)
next
  case (Suc n)
  let ?ins = "\<lambda>n k h m. snd (tsearch_level n compar k h m want_insert)"
  let ?a = "hs_tablesize_entry_index h + 1"
  have ix: "hs_tablesize_entry_index h < 20" "18 - n \<le> hs_tablesize_entry_index h"
    using Suc.prems by (auto simp: index_between_def)
  have rt: "resize_table (?ins (Suc n)) h m = resize_table (?ins n) h m"
  proof (cases "primes ! ?a = 0")
    case True
    then show ?thesis by (simp add: resize_table_def)
  next
    case False
    define new where "new = h\<lparr>hs_tablesize := primes ! ?a, hs_tablesize_entry_index := ?a,
      hs_allowed_fill := calculate_allowed_fill allowed_fill_percent (primes ! ?a),
      hs_record_count := 0, hs_hashtab := replicate (primes ! ?a) empty_entry\<rparr>"
    have new: "index_between ?a new"
      using next_prime_index [OF ix(1) False] by (simp add: index_between_def new_def)
    have eq: "?ins (Suc n) k g m = ?ins n k g m" if "index_between ?a g" for k g m
    proof -
      have "index_between (19 - n) g" using that ix(2) by (auto simp: index_between_def)
      then show ?thesis using Suc.IH by simp
    qed
    have fc: "resize_fill (?ins (Suc n)) ks new m = resize_fill (?ins n) ks new m" for ks m
      by (rule fill_cong [OF level_index eq new])
    then show ?thesis
      unfolding resize_table_def Let_def new_def [symmetric] by (simp only: fc)
  qed
  show ?case
    by (simp only: tsearch_level.simps [of "Suc n"] tsearch_level.simps [of "Suc (Suc n)"])
      (auto simp: rt split: option.split)
qed

text \<open>So no deeper bound changes \<open>_tsearch_inner\<close> on a table whose index is a prime's.\<close>

lemma tsearch_inner_bound:
  assumes "hs_tablesize_entry_index h < 20"
  shows "tsearch_level (length primes + n) compar k h m intent = tsearch_inner compar k h m intent"
proof (induction n)
  case 0
  then show ?case by (simp add: tsearch_inner_def)
next
  case (Suc n)
  then show ?case
    using level_enough [of "length primes + n" h compar k m intent] assms
    by (simp add: index_between_def)
qed

subsection \<open>A null key\<close>

text \<open>
  growing the table loses a null key that heads a chain: \<open>resize_table\<close> and
  \<open>dwarf_twalk\<close> test \<open>keyptr\<close> where the table marks used slots with \<open>entryused\<close>
  precisely so that a null key is not taken for an empty slot.
\<close>

theorem null_key_lost_on_resize:
  assumes "hs_tablesize_entry_index h < 19" and "i < n"
    and "hs_hashtab h = (replicate n empty_entry)[i := \<lparr>keyptr = None, entryused = True, chain = []\<rparr>]"
  shows "table_keys h = [None] \<and> table_keys (fst (resize_table ins h [])) = []
    \<and> hs_tablesize_entry_index (fst (resize_table ins h [])) = hs_tablesize_entry_index h + 1
    \<and> dwarf_twalk (Some h) = []"
proof -
  let ?s = "\<lparr>keyptr = None, entryused = True, chain = []\<rparr> :: 'a ts_entry"
  have c: "concat (map f (hs_hashtab h)) = f ?s" if "f empty_entry = []" for f :: "'a ts_entry \<Rightarrow> 'b list"
    using assms(2) that
    by (simp add: assms(3) concat_update map_replicate_const)
  have none: "carried_keys ?s = []" "slot_keys ?s = [None]"
    by (simp_all add: carried_keys_def slot_keys_def)
  have p: "primes ! Suc (hs_tablesize_entry_index h) \<in> set (butlast primes)"
  proof -
    have "Suc (hs_tablesize_entry_index h) < length (butlast primes)" using assms(1) by simp
    then show ?thesis by (metis nth_butlast nth_mem)
  qed
  have "primes ! Suc (hs_tablesize_entry_index h) \<noteq> 0"
    using primes_pos [of "Suc (hs_tablesize_entry_index h)"] assms(1) by simp
  then show ?thesis
    using fill_enough [OF p] c [of slot_keys] c [of carried_keys] none
    by (simp add: table_keys_def resize_table_def Let_def dwarf_twalk_def map_replicate_const
        del: concat_eq_Nil_conv)
qed

definition null_table :: "nat hs_base" where
  "null_table = \<lparr>hs_tablesize = 2, hs_tablesize_entry_index = 0, hs_allowed_fill = 0,
     hs_record_count = 1,
     hs_hashtab = [empty_entry, \<lparr>keyptr = None, entryused = True, chain = []\<rparr>],
     hs_hashfunc = Some (\<lambda>_. 1)\<rparr>"

theorem null_key_lost_on_resize_witness:
  "table_keys (fst (resize_table (\<lambda>k h m. (True, h, m)) null_table [])) = []"
  using null_key_lost_on_resize [of null_table 1 2 "\<lambda>k h m. (True, h, m)"]
  by (simp add: null_table_def numeral_2_eq_2)

end
