(* ===== verification/Tied.thy ===== *)
theory Tied
  imports Tsearch_Hash
begin

text \<open>
  Finding a unit of the tied object file by its signature: \<open>dwarf_tied.c\<close>. The signatures
  met so far are kept in a search table; the units of the file are read one after the other
  by \<open>_dwarf_next_cu_header_internal\<close> (\<open>dwarf_die_deliv.c\<close>).
\<close>

subsection \<open>Units and entries\<close>

record signed_unit =
  cc_signature :: "byte list"
  cc_signature_present :: bool
  cc_number :: nat \<comment> \<open>which unit it is\<close>

record tied_entry =
  dt_key :: "byte list"
  dt_context :: "signed_unit option"

definition dwarf_tied_make_entry :: "byte list \<Rightarrow> signed_unit \<Rightarrow> allocs \<Rightarrow> tied_entry option \<times> allocs" where
  "dwarf_tied_make_entry key val mem =
     (case alloc mem of
        (False, mem') \<Rightarrow> (None, mem')
      | (True, mem') \<Rightarrow> (Some \<lparr>dt_key = key, dt_context = Some val\<rparr>, mem'))"

text \<open>
  \<open>hashv\<close> is a 64-bit little-endian word filled from the 8 bytes of the signature. The
  table only holds entries \<open>_dwarf_tied_make_entry\<close> returned: no null key is hashed or
  compared, and the value for it is immaterial.
\<close>

definition sig_word :: "byte list \<Rightarrow> nat" where
  "sig_word sig = horner_sum unat 256 (map (\<lambda>i. sig ! i) [0..<8])"

definition dwarf_tied_data_hashfunc :: "tied_entry option \<Rightarrow> nat" where
  "dwarf_tied_data_hashfunc keyp = (case keyp of None \<Rightarrow> 0 | Some enp \<Rightarrow> sig_word (dt_key enp))"

text \<open>The bytes are compared as (signed) \<open>char\<close>s, from the first of the 8 on.\<close>

fun compare_chars :: "byte list \<Rightarrow> byte list \<Rightarrow> nat list \<Rightarrow> int" where
  "compare_chars l r [] = 0"
| "compare_chars l r (i # is) =
     (if sint (l ! i) < sint (r ! i) then -1
      else if sint (r ! i) < sint (l ! i) then 1
      else compare_chars l r is)"

definition dwarf_tied_compare_function :: "tied_entry option \<Rightarrow> tied_entry option \<Rightarrow> int" where
  "dwarf_tied_compare_function l r =
     (case (l, r) of
        (Some lp, Some rp) \<Rightarrow> compare_chars (dt_key lp) (dt_key rp) [0..<8]
      | _ \<Rightarrow> 0)"

subsection \<open>Reading units\<close>

text \<open>
  The reader of the tied file's \<open>.debug_info\<close>: its units (\<open>None\<close>: a header that cannot be
  read) and the position of the next one. At the end the position is reset; a failure
  leaves it where it was. The result is the return code, \<open>has_signature\<close>, the reader and
  the unit that is current then.
\<close>

datatype dw_res = DW_OK | DW_NO_ENTRY | DW_ERROR

record reader =
  rd_units :: "signed_unit option list"
  rd_pos :: nat

definition dwarf_next_cu_header_internal :: "reader \<Rightarrow> dw_res \<times> bool \<times> reader" where
  "dwarf_next_cu_header_internal rd =
     (if length (rd_units rd) \<le> rd_pos rd then (DW_NO_ENTRY, False, rd\<lparr>rd_pos := 0\<rparr>)
      else case rd_units rd ! rd_pos rd of
          None \<Rightarrow> (DW_ERROR, False, rd)
        | Some cu \<Rightarrow> (DW_OK, cc_signature_present cu, rd\<lparr>rd_pos := rd_pos rd + 1\<rparr>))"

definition current_unit :: "reader \<Rightarrow> signed_unit option" where
  "current_unit rd = (if rd_pos rd = 0 then None else rd_units rd ! (rd_pos rd - 1))"

type_synonym tied_table = "tied_entry hs_base option"

text \<open>The loop need not end: its value is then \<open>None\<close>.\<close>

partial_function (option) dwarf_loop_reading_debug_info_for_cu ::
    "reader \<Rightarrow> tied_table \<Rightarrow> allocs \<Rightarrow> (dw_res \<times> reader \<times> tied_table \<times> allocs) option" where
  "dwarf_loop_reading_debug_info_for_cu rd tied mem =
     (case dwarf_next_cu_header_internal rd of
        (sres, has_signature, rd') \<Rightarrow>
          if sres = DW_NO_ENTRY then Some (DW_OK, rd', tied, mem)
          else if has_signature then
            (case current_unit rd' of
               None \<Rightarrow> None
             | Some latestcontext \<Rightarrow>
                 (case dwarf_tied_make_entry (cc_signature latestcontext) latestcontext mem of
                    (None, mem1) \<Rightarrow> Some (DW_NO_ENTRY, rd', tied, mem1)
                  | (Some entry, mem1) \<Rightarrow>
                      (case dwarf_tsearch dwarf_tied_compare_function (Some entry) tied mem1 of
                         (None, tied', mem2) \<Rightarrow> Some (DW_NO_ENTRY, rd', tied', mem2)
                       | (Some retent, tied', mem2) \<Rightarrow> Some (DW_OK, rd', tied', mem2))))
          else dwarf_loop_reading_debug_info_for_cu rd' tied mem)"

record tied_data =
  td_tied_search :: tied_table
  td_reader :: reader
  td_mem :: allocs

definition tied_lookup :: "byte list \<Rightarrow> tied_table \<Rightarrow> signed_unit option option" where
  "tied_lookup sig tied =
     (case dwarf_tfind dwarf_tied_compare_function (Some \<lparr>dt_key = sig, dt_context = None\<rparr>) tied of
        None \<Rightarrow> None
      | Some None \<Rightarrow> None
      | Some (Some e2) \<Rightarrow> Some (dt_context e2))"

text \<open>The result is the return code, \<open>*context_out\<close> if it is set, and the tied data.\<close>

definition dwarf_search_for_signature ::
    "tied_data \<Rightarrow> byte list \<Rightarrow> (dw_res \<times> signed_unit option \<times> tied_data) option" where
  "dwarf_search_for_signature td sig =
     (let (tied, mem) = (case td_tied_search td of
          Some h \<Rightarrow> (Some h, td_mem td)
        | None \<Rightarrow> snd (dwarf_initialize_search_hash None (Some dwarf_tied_data_hashfunc) 0 (td_mem td)));
          td1 = td\<lparr>td_tied_search := tied, td_mem := mem\<rparr>
      in if tied = None then Some (DW_NO_ENTRY, None, td1)
         else case tied_lookup sig tied of
             Some ctx \<Rightarrow> Some (DW_OK, ctx, td1)
           | None \<Rightarrow>
               (case dwarf_loop_reading_debug_info_for_cu (td_reader td) tied mem of
                  None \<Rightarrow> None
                | Some (res, rd', tied', mem') \<Rightarrow>
                    let td2 = td\<lparr>td_tied_search := tied', td_reader := rd', td_mem := mem'\<rparr> in
                    if res = DW_ERROR then Some (DW_ERROR, None, td2)
                    else case tied_lookup sig tied' of
                        Some ctx \<Rightarrow> Some (DW_OK, ctx, td2)
                      | None \<Rightarrow> Some (DW_NO_ENTRY, None, td2)))"

subsection \<open>The comparison and the hash fit together\<close>

lemma compare_chars_0: "compare_chars l r is = 0 \<longleftrightarrow> (\<forall>i \<in> set is. l ! i = r ! i)"
  by (induction "is") (auto simp: signed_word_eqI)

definition sig_eq :: "byte list \<Rightarrow> byte list \<Rightarrow> bool" where
  "sig_eq l r \<longleftrightarrow> (\<forall>i < 8. l ! i = r ! i)"

lemma compare_tied [simp]:
  "dwarf_tied_compare_function (Some a) (Some b) = 0 \<longleftrightarrow> sig_eq (dt_key a) (dt_key b)"
  by (auto simp: dwarf_tied_compare_function_def compare_chars_0 sig_eq_def)

lemma sig_word_cong: "sig_eq l r \<Longrightarrow> sig_word l = sig_word r"
  unfolding sig_word_def sig_eq_def by (intro arg_cong [where f = "horner_sum _ _"] map_cong) auto

interpretation tied: tsearch_keys dwarf_tied_compare_function dwarf_tied_data_hashfunc
proof
  fix a b c :: tied_entry
  show "dwarf_tied_compare_function (Some a) (Some a) = 0" by (simp add: sig_eq_def)
  show "dwarf_tied_compare_function (Some b) (Some a) = 0"
    if "dwarf_tied_compare_function (Some a) (Some b) = 0"
    using that by (simp add: sig_eq_def)
  show "dwarf_tied_compare_function (Some a) (Some c) = 0"
    if "dwarf_tied_compare_function (Some a) (Some b) = 0"
      and "dwarf_tied_compare_function (Some b) (Some c) = 0"
    using that by (simp add: sig_eq_def)
  show "dwarf_tied_data_hashfunc (Some a) = dwarf_tied_data_hashfunc (Some b)"
    if "dwarf_tied_compare_function (Some a) (Some b) = 0"
    using that by (simp add: dwarf_tied_data_hashfunc_def sig_word_cong)
qed

abbreviation tied_inv :: "tied_entry hs_base \<Rightarrow> bool" where
  "tied_inv \<equiv> table_inv dwarf_tied_compare_function dwarf_tied_data_hashfunc"

lemma tied_lookup_iff:
  assumes "tied_inv h"
  shows "tied_lookup s (Some h) = Some c \<longleftrightarrow> (\<exists>e \<in> elems h. sig_eq s (dt_key e) \<and> dt_context e = c)"
proof -
  let ?k = "\<lparr>dt_key = s, dt_context = None\<rparr>"
  note f = tied.tfind_refines [OF assms, of ?k]
  show ?thesis
  proof (cases "dwarf_tfind dwarf_tied_compare_function (Some ?k) (Some h)")
    case None
    then show ?thesis using f by (auto simp: tied_lookup_def)
  next
    case (Some p)
    with f obtain x where x: "x \<in> elems h" "p = Some x" "sig_eq s (dt_key x)" by auto
    have "e = x" if "e \<in> elems h" "sig_eq s (dt_key e)" for e
      using tied.elems_unique [OF assms that(1) x(1)] that(2) x(3) by (simp add: sig_eq_def)
    moreover have "tied_lookup s (Some h) = Some (dt_context x)"
      using Some x(2) by (simp add: tied_lookup_def)
    ultimately show ?thesis using x by (metis option.inject)
  qed
qed

lemma tied_lookup_None:
  assumes "tied_inv h"
  shows "tied_lookup s (Some h) = None \<longleftrightarrow> (\<forall>e \<in> elems h. \<not> sig_eq s (dt_key e))"
  using tied_lookup_iff [OF assms, of s] by (metis not_Some_eq)

lemma tied_lookup_cong:
  assumes "tied_inv h" "tied_inv h'"
    and "\<And>e. sig_eq s (dt_key e) \<Longrightarrow> e \<in> elems h' \<longleftrightarrow> e \<in> elems h"
  shows "tied_lookup s (Some h') = tied_lookup s (Some h)"
  by (rule option_ext) (use assms(3) in \<open>auto simp: tied_lookup_iff assms(1,2)\<close>)

lemma sig_eq_same: "sig_eq s t \<Longrightarrow> sig_eq s u \<longleftrightarrow> sig_eq t u"
  by (auto simp: sig_eq_def)

lemma sig_eq_refl [simp]: "sig_eq s s"
  by (simp add: sig_eq_def)

definition fresh_table :: "tied_entry hs_base" where
  "fresh_table = the (fst (dwarf_initialize_search_hash None (Some dwarf_tied_data_hashfunc) 0 []))"

lemma fresh_table:
  "dwarf_initialize_search_hash None (Some dwarf_tied_data_hashfunc) 0 [] =
     (Some fresh_table, Some fresh_table, [])"
  "tied_inv fresh_table" "elems fresh_table = {}"
proof -
  obtain h where h: "dwarf_initialize_search_hash None (Some dwarf_tied_data_hashfunc) 0 [] = (Some h, Some h, [])"
    using initialize_succeeds [of 0 "Some dwarf_tied_data_hashfunc"] by auto
  then show 1: "dwarf_initialize_search_hash None (Some dwarf_tied_data_hashfunc) 0 [] =
     (Some fresh_table, Some fresh_table, [])" by (simp add: fresh_table_def)
  show "tied_inv fresh_table" "elems fresh_table = {}"
    using initialize_spec [OF 1, of dwarf_tied_compare_function] by simp_all
qed

definition demo_entry :: "byte \<Rightarrow> tied_entry" where
  "demo_entry b = \<lparr>dt_key = replicate 8 b, dt_context = None\<rparr>"

text \<open>
  C10: the search table is a map from signatures: with memory to allocate,
  \<open>dwarf_tsearch\<close> always succeeds, keeps the table well-formed whatever it has to resize,
  makes the new entry's signature find the entry if it was absent, and changes no other
  lookup.
\<close>

theorem tsearch_is_map_insert:
  assumes "tied_inv h"
  shows "\<exists>r h'. dwarf_tsearch dwarf_tied_compare_function (Some e) (Some h) [] = (Some r, Some h', [])
    \<and> tied_inv h'
    \<and> (\<forall>s. tied_lookup s (Some h') =
         (if sig_eq s (dt_key e) \<and> tied_lookup s (Some h) = None then Some (dt_context e)
          else tied_lookup s (Some h)))"
proof -
  from tied.tsearch_refines [OF assms, of e "[]"] obtain r h' where
    t: "dwarf_tsearch dwarf_tied_compare_function (Some e) (Some h) [] = (Some r, Some h', [])"
    and inv: "tied_inv h'"
    and el: "elems h' = (if \<exists>x \<in> elems h. sig_eq (dt_key e) (dt_key x) then elems h
        else insert e (elems h))"
    by (auto split: option.splits)
  have "tied_lookup s (Some h') =
      (if sig_eq s (dt_key e) \<and> tied_lookup s (Some h) = None then Some (dt_context e)
       else tied_lookup s (Some h))" for s
  proof (cases "\<exists>x \<in> elems h. sig_eq (dt_key e) (dt_key x)")
    case True
    then have "tied_lookup s (Some h) \<noteq> None" if that: "sig_eq s (dt_key e)"
      by (simp add: tied_lookup_None [OF assms] sig_eq_same [OF that])
    moreover have "tied_lookup s (Some h') = tied_lookup s (Some h)"
      using True el by (intro tied_lookup_cong [OF assms inv]) simp
    ultimately show ?thesis by auto
  next
    case False
    have el': "elems h' = insert e (elems h)" using el False by simp
    show ?thesis
    proof (cases "sig_eq s (dt_key e)")
      case True
      then have "tied_lookup s (Some h) = None"
        using False by (simp add: tied_lookup_None [OF assms] sig_eq_same [OF True])
      moreover have "tied_lookup s (Some h') = Some (dt_context e)"
        using True el' by (auto simp: tied_lookup_iff [OF inv])
      ultimately show ?thesis using True by simp
    next
      case False
      then have "tied_lookup s (Some h') = tied_lookup s (Some h)"
        using el' by (intro tied_lookup_cong [OF assms inv]) auto
      then show ?thesis using False by simp
    qed
  qed
  then show ?thesis using t inv by blast
qed

theorem tsearch_is_map_insert_witness:
  "\<exists>r h'. dwarf_tsearch dwarf_tied_compare_function (Some (demo_entry 1)) (Some fresh_table) [] =
     (Some r, Some h', []) \<and> tied_lookup (replicate 8 1) (Some h') = Some None"
proof -
  have "tied_lookup (replicate 8 1) (Some fresh_table) = None"
    by (simp add: tied_lookup_None fresh_table)
  then show ?thesis
    using tsearch_is_map_insert [OF fresh_table(2), of "demo_entry 1"]
    by (auto simp: demo_entry_def)
qed

text \<open>
  C17: \<open>dwarf_tdelete\<close> removes exactly the entry with the key's signature, if there is one,
  from whichever place of whichever chain it is in, and keeps the table well-formed.
\<close>

theorem tdelete_is_map_remove:
  assumes "tied_inv h"
  shows "\<exists>p h'. dwarf_tdelete dwarf_tied_compare_function (Some e) (Some h) = (p, Some h')
    \<and> tied_inv h'
    \<and> (\<forall>s. tied_lookup s (Some h') = (if sig_eq s (dt_key e) then None else tied_lookup s (Some h)))"
proof -
  from tied.tdelete_refines [OF assms, of e] obtain p h' where
    t: "dwarf_tdelete dwarf_tied_compare_function (Some e) (Some h) = (p, Some h')" and inv: "tied_inv h'"
    and el: "elems h' = {x \<in> elems h. \<not> sig_eq (dt_key e) (dt_key x)}"
    by auto
  have "tied_lookup s (Some h') = (if sig_eq s (dt_key e) then None else tied_lookup s (Some h))" for s
  proof (cases "sig_eq s (dt_key e)")
    case True
    then have "tied_lookup s (Some h') = None"
      using el by (simp add: tied_lookup_None [OF inv] sig_eq_same [OF True])
    then show ?thesis using True by simp
  next
    case False
    have "tied_lookup s (Some h') = tied_lookup s (Some h)"
    proof (rule tied_lookup_cong [OF assms inv])
      fix x :: tied_entry
      assume "sig_eq s (dt_key x)"
      then have "\<not> sig_eq (dt_key e) (dt_key x)"
        using False sig_eq_same [of s "dt_key x" "dt_key e"] sig_eq_same [of "dt_key e" "dt_key x" "dt_key e"]
        by auto
      then show "x \<in> elems h' \<longleftrightarrow> x \<in> elems h" using el by simp
    qed
    then show ?thesis using False by simp
  qed
  then show ?thesis using t inv by blast
qed

theorem tdelete_is_map_remove_witness:
  "\<exists>p h'. dwarf_tdelete dwarf_tied_compare_function (Some (demo_entry 1)) (Some fresh_table) = (p, Some h')
    \<and> tied_lookup (replicate 8 1) (Some h') = None"
  using tdelete_is_map_remove [OF fresh_table(2), of "demo_entry 1"]
  by (fastforce simp: demo_entry_def)

text \<open>
  \<open>dwarf_twalk\<close> and \<open>dwarf_tdestroy\<close> call their callback exactly once for every entry,
  whatever operations filled the table, and destruction brings the record count to 0.
\<close>

theorem walk_and_destroy_once:
  assumes "tied_inv h"
  shows "distinct (dwarf_twalk (Some h)) \<and> set (dwarf_twalk (Some h)) = Some ` elems h
    \<and> dwarf_tdestroy (Some h) = dwarf_twalk (Some h) \<and> snd (dwarf_tdestroy_inner h) = 0"
  using tied.twalk_visits [OF assms] tied.tdestroy_frees [OF assms] table_keys_carried [OF assms]
  by (simp add: dwarf_tdestroy_def dwarf_tdestroy_inner_def Let_def dwarf_twalk_def)

theorem walk_and_destroy_once_witness:
  "set (dwarf_twalk (Some fresh_table)) = {} \<and> dwarf_tdestroy (Some fresh_table) = []"
  using walk_and_destroy_once [OF fresh_table(2)] fresh_table(3) by simp

subsection \<open>Searching for a signature\<close>

definition entry_of :: "signed_unit \<Rightarrow> tied_entry" where
  "entry_of cu = \<lparr>dt_key = cc_signature cu, dt_context = Some cu\<rparr>"

text \<open>A file whose units all have (different) signatures.\<close>

definition signed_units :: "signed_unit list \<Rightarrow> bool" where
  "signed_units cus \<longleftrightarrow> (\<forall>cu \<in> set cus. cc_signature_present cu) \<and>
     sorted_wrt (\<lambda>a b. \<not> sig_eq (cc_signature a) (cc_signature b)) cus"

lemma signed_units_nth:
  assumes "signed_units cus" and "i < length cus" and "j < length cus" and "i \<noteq> j"
  shows "\<not> sig_eq (cc_signature (cus ! i)) (cc_signature (cus ! j))"
proof (cases "i < j")
  case True
  then show ?thesis using assms by (auto simp: signed_units_def sorted_wrt_iff_nth_less)
next
  case False
  then have "\<not> sig_eq (cc_signature (cus ! j)) (cc_signature (cus ! i))"
    using assms by (auto simp: signed_units_def sorted_wrt_iff_nth_less)
  then show ?thesis by (auto simp: sig_eq_def)
qed

text \<open>The table after the first \<open>n\<close> units have been read.\<close>

definition read_so_far :: "signed_unit list \<Rightarrow> nat \<Rightarrow> tied_data \<Rightarrow> bool" where
  "read_so_far cus n td \<longleftrightarrow> td_reader td = \<lparr>rd_units = map Some cus, rd_pos = n\<rparr> \<and> td_mem td = [] \<and>
     (\<exists>h. (td_tied_search td = Some h \<or> (td_tied_search td = None \<and> h = fresh_table)) \<and> tied_inv h \<and>
       elems h = entry_of ` set (take n cus))"

lemma loop_one_unit:
  assumes s: "signed_units cus" and n: "n < length cus" and inv: "tied_inv h"
    and el: "elems h = entry_of ` set (take n cus)"
  shows "\<exists>h'. dwarf_loop_reading_debug_info_for_cu \<lparr>rd_units = map Some cus, rd_pos = n\<rparr> (Some h) [] =
      Some (DW_OK, \<lparr>rd_units = map Some cus, rd_pos = n + 1\<rparr>, Some h', [])
    \<and> tied_inv h' \<and> elems h' = entry_of ` set (take (n + 1) cus)"
proof -
  have p: "cc_signature_present (cus ! n)" using s n by (simp add: signed_units_def)
  have new: "\<forall>x \<in> elems h. \<not> sig_eq (cc_signature (cus ! n)) (dt_key x)"
    using signed_units_nth [OF s n] el n by (auto simp: entry_of_def in_set_conv_nth)
  from tied.tsearch_refines [OF inv, of "entry_of (cus ! n)" "[]"] obtain r h' where
    t: "dwarf_tsearch dwarf_tied_compare_function (Some (entry_of (cus ! n))) (Some h) [] = (Some r, Some h', [])"
    and inv': "tied_inv h'" and "elems h' = insert (entry_of (cus ! n)) (elems h)"
    using new by (auto simp: entry_of_def split: option.splits)
  then have "elems h' = entry_of ` set (take (n + 1) cus)"
    using el n by (simp add: take_Suc_conv_app_nth)
  moreover have "dwarf_loop_reading_debug_info_for_cu \<lparr>rd_units = map Some cus, rd_pos = n\<rparr> (Some h) [] =
      Some (DW_OK, \<lparr>rd_units = map Some cus, rd_pos = n + 1\<rparr>, Some h', [])"
    using t n p
    by (subst dwarf_loop_reading_debug_info_for_cu.simps)
      (simp add: dwarf_next_cu_header_internal_def current_unit_def dwarf_tied_make_entry_def entry_of_def)
  ultimately show ?thesis using inv' by blast
qed

lemma search_step:
  assumes s: "signed_units cus" and n: "n < length cus" and td: "read_so_far cus n td"
    and late: "\<forall>i < n. \<not> sig_eq sig (cc_signature (cus ! i))"
  shows "\<exists>td'. read_so_far cus (n + 1) td' \<and> dwarf_search_for_signature td sig =
    Some (if sig_eq sig (cc_signature (cus ! n)) then (DW_OK, Some (cus ! n), td') else (DW_NO_ENTRY, None, td'))"
proof -
  obtain h where h: "td_tied_search td = Some h \<or> (td_tied_search td = None \<and> h = fresh_table)"
    and inv: "tied_inv h" and el: "elems h = entry_of ` set (take n cus)"
    and rd: "td_reader td = \<lparr>rd_units = map Some cus, rd_pos = n\<rparr>" "td_mem td = []"
    using td by (auto simp: read_so_far_def)
  have none: "tied_lookup sig (Some h) = None"
    using late n by (auto simp: tied_lookup_None [OF inv] el entry_of_def in_set_conv_nth)
  from loop_one_unit [OF s n inv el] obtain h' where
    l: "dwarf_loop_reading_debug_info_for_cu \<lparr>rd_units = map Some cus, rd_pos = n\<rparr> (Some h) [] =
      Some (DW_OK, \<lparr>rd_units = map Some cus, rd_pos = n + 1\<rparr>, Some h', [])"
    and inv': "tied_inv h'" and el': "elems h' = entry_of ` set (take (n + 1) cus)" by blast
  have el'': "elems h' = insert (entry_of (cus ! n)) (entry_of ` set (take n cus))"
    using el' n by (simp add: take_Suc_conv_app_nth)
  have look: "tied_lookup sig (Some h') =
      (if sig_eq sig (cc_signature (cus ! n)) then Some (Some (cus ! n)) else None)"
  proof (cases "sig_eq sig (cc_signature (cus ! n))")
    case True
    then have "tied_lookup sig (Some h') = Some (Some (cus ! n))"
      by (subst tied_lookup_iff [OF inv']) (auto simp: el'' entry_of_def)
    then show ?thesis using True by simp
  next
    case False
    then have "tied_lookup sig (Some h') = None"
      using late n by (auto simp: tied_lookup_None [OF inv'] el'' entry_of_def in_set_conv_nth)
    then show ?thesis using False by simp
  qed
  let ?td' = "td\<lparr>td_tied_search := Some h', td_reader := \<lparr>rd_units = map Some cus, rd_pos = n + 1\<rparr>,
      td_mem := []\<rparr>"
  have "read_so_far cus (n + 1) ?td'"
    using inv' el' by (simp add: read_so_far_def)
  moreover have "dwarf_search_for_signature td sig = Some (if sig_eq sig (cc_signature (cus ! n))
      then (DW_OK, Some (cus ! n), ?td') else (DW_NO_ENTRY, None, ?td'))"
    using h none l look rd fresh_table(1)
    by (auto simp: dwarf_search_for_signature_def Let_def)
  ultimately show ?thesis by blast
qed

text \<open>The same search again and again, with the answers.\<close>

fun search_again :: "nat \<Rightarrow> tied_data \<Rightarrow> byte list \<Rightarrow> ((dw_res \<times> signed_unit option) list \<times> tied_data) option" where
  "search_again 0 td sig = Some ([], td)"
| "search_again (Suc n) td sig =
     (case dwarf_search_for_signature td sig of
        None \<Rightarrow> None
      | Some (res, ctx, td') \<Rightarrow>
          (case search_again n td' sig of
             None \<Rightarrow> None
           | Some (rs, td'') \<Rightarrow> Some ((res, ctx) # rs, td'')))"

lemma search_again_late:
  assumes s: "signed_units cus" and n: "n < length cus"
  shows "i \<le> n \<Longrightarrow> read_so_far cus i td \<Longrightarrow>
    \<exists>td'. search_again (Suc (n - i)) td (cc_signature (cus ! n)) =
      Some (replicate (n - i) (DW_NO_ENTRY, None) @ [(DW_OK, Some (cus ! n))], td')"
proof (induction "n - i" arbitrary: i td)
  case 0
  then have i: "i = n" by simp
  have "\<forall>i < n. \<not> sig_eq (cc_signature (cus ! n)) (cc_signature (cus ! i))"
    using signed_units_nth [OF s n] n by simp
  from search_step [OF s n _ this, of td] 0 i show ?case by auto
next
  case (Suc d)
  then have i: "i < n" "d = n - Suc i" "n - i = Suc (n - Suc i)" by auto
  then have il: "i < length cus" using n by simp
  have "\<forall>j < i. \<not> sig_eq (cc_signature (cus ! n)) (cc_signature (cus ! j))"
    using signed_units_nth [OF s n] i n by simp
  from search_step [OF s il Suc.prems(2) this] obtain td' where
    td': "read_so_far cus (Suc i) td'"
      "dwarf_search_for_signature td (cc_signature (cus ! n)) = Some (DW_NO_ENTRY, None, td')"
    using signed_units_nth [OF s n il] i by auto
  from Suc.hyps(1) [OF i(2) _ td'(1)] i obtain td'' where
    "search_again (Suc (n - Suc i)) td' (cc_signature (cus ! n)) =
      Some (replicate (n - Suc i) (DW_NO_ENTRY, None) @ [(DW_OK, Some (cus ! n))], td'')" by auto
  then show ?case using td'(2) i(3) by (simp del: search_again.simps add: search_again.simps(2) [of "Suc (n - Suc i)"])
qed

text \<open>
  C35: the search does not read the file until it meets the signature: every call reads one
  more signed unit. So on a file whose units all have signatures, the search for that of
  unit \<open>n\<close> (counted from 0) answers \<open>DW_DLV_NO_ENTRY\<close> the first \<open>n\<close> times and finds the
  unit only at the next call.
\<close>

theorem signature_found_late:
  assumes "signed_units cus" and "n < length cus"
  shows "\<exists>td'. search_again (Suc n) \<lparr>td_tied_search = None,
        td_reader = \<lparr>rd_units = map Some cus, rd_pos = 0\<rparr>, td_mem = []\<rparr> (cc_signature (cus ! n)) =
      Some (replicate n (DW_NO_ENTRY, None) @ [(DW_OK, Some (cus ! n))], td')"
  using search_again_late [OF assms, of 0] fresh_table
  by (simp add: read_so_far_def)

definition demo_units :: "signed_unit list" where
  "demo_units = [\<lparr>cc_signature = replicate 8 1, cc_signature_present = True, cc_number = 0\<rparr>,
     \<lparr>cc_signature = replicate 8 2, cc_signature_present = True, cc_number = 1\<rparr>]"

theorem signature_found_late_witness:
  "\<exists>td'. search_again 2 \<lparr>td_tied_search = None,
        td_reader = \<lparr>rd_units = map Some demo_units, rd_pos = 0\<rparr>, td_mem = []\<rparr> (replicate 8 2) =
      Some ([(DW_NO_ENTRY, None), (DW_OK, Some (demo_units ! 1))], td')"
proof -
  have "signed_units demo_units" "1 < length demo_units"
    by (auto simp: signed_units_def demo_units_def sig_eq_def intro!: exI [of _ 0])
  from signature_found_late [OF this] show ?thesis
    by (simp add: demo_units_def numeral_2_eq_2)
qed

subsection \<open>An unreadable unit\<close>

text \<open>Before the next signed unit comes one whose header cannot be read.\<close>

definition bad_header_ahead :: "reader \<Rightarrow> bool" where
  "bad_header_ahead rd \<longleftrightarrow> (\<exists>k \<ge> rd_pos rd. k < length (rd_units rd) \<and> rd_units rd ! k = None \<and>
     (\<forall>j. rd_pos rd \<le> j \<longrightarrow> j < k \<longrightarrow>
        (\<exists>cu. rd_units rd ! j = Some cu \<and> \<not> cc_signature_present cu)))"

lemma bad_header_next:
  assumes "bad_header_ahead rd"
  shows "\<exists>res rd'. dwarf_next_cu_header_internal rd = (res, False, rd') \<and> res \<noteq> DW_NO_ENTRY \<and>
    bad_header_ahead rd'"
proof -
  obtain k where k: "rd_pos rd \<le> k" "k < length (rd_units rd)" "rd_units rd ! k = None"
    "\<forall>j. rd_pos rd \<le> j \<longrightarrow> j < k \<longrightarrow> (\<exists>cu. rd_units rd ! j = Some cu \<and> \<not> cc_signature_present cu)"
    using assms by (auto simp: bad_header_ahead_def)
  show ?thesis
  proof (cases "rd_pos rd = k")
    case True
    then show ?thesis using k assms by (simp add: dwarf_next_cu_header_internal_def)
  next
    case False
    then obtain cu where "rd_units rd ! rd_pos rd = Some cu" "\<not> cc_signature_present cu"
      using k by fastforce
    moreover have "bad_header_ahead (rd\<lparr>rd_pos := rd_pos rd + 1\<rparr>)"
      using k False by (auto simp: bad_header_ahead_def intro!: exI [of _ k])
    ultimately show ?thesis using k by (simp add: dwarf_next_cu_header_internal_def)
  qed
qed

lemma loop_diverges:
  assumes "dwarf_loop_reading_debug_info_for_cu rd tied mem = Some y"
  shows "\<not> bad_header_ahead rd"
proof (rule dwarf_loop_reading_debug_info_for_cu.raw_induct
    [OF _ assms, where P = "\<lambda>rd _ _ _. \<not> bad_header_ahead rd"])
  fix f rd tied mem y
  assume ih: "\<And>rd tied mem y. f rd tied mem = Some y \<Longrightarrow> \<not> bad_header_ahead rd"
    and body: "(case dwarf_next_cu_header_internal rd of
        (sres, has_signature, rd') \<Rightarrow>
          if sres = DW_NO_ENTRY then Some (DW_OK, rd', tied, mem)
          else if has_signature then
            (case current_unit rd' of
               None \<Rightarrow> None
             | Some latestcontext \<Rightarrow>
                 (case dwarf_tied_make_entry (cc_signature latestcontext) latestcontext mem of
                    (None, mem1) \<Rightarrow> Some (DW_NO_ENTRY, rd', tied, mem1)
                  | (Some entry, mem1) \<Rightarrow>
                      (case dwarf_tsearch dwarf_tied_compare_function (Some entry) tied mem1 of
                         (None, tied', mem2) \<Rightarrow> Some (DW_NO_ENTRY, rd', tied', mem2)
                       | (Some retent, tied', mem2) \<Rightarrow> Some (DW_OK, rd', tied', mem2))))
          else f rd' tied mem) = Some y"
  show "\<not> bad_header_ahead rd"
  proof
    assume "bad_header_ahead rd"
    then obtain res rd' where "dwarf_next_cu_header_internal rd = (res, False, rd')"
      "res \<noteq> DW_NO_ENTRY" "bad_header_ahead rd'" using bad_header_next by blast
    then show False using body ih by simp
  qed
qed

text \<open>
  C36: a search that meets a unit header it cannot read never returns: the loop does not
  test for \<open>DW_DLV_ERROR\<close>, and reading again fails again.
\<close>

theorem unreadable_unit_diverges:
  assumes "bad_header_ahead rd"
  shows "dwarf_search_for_signature \<lparr>td_tied_search = None, td_reader = rd, td_mem = []\<rparr> sig = None"
proof -
  have "tied_lookup sig (Some fresh_table) = None"
    by (simp add: tied_lookup_None fresh_table)
  moreover have "dwarf_loop_reading_debug_info_for_cu rd (Some fresh_table) [] = None"
    using loop_diverges assms by (metis not_Some_eq)
  ultimately show ?thesis by (simp add: dwarf_search_for_signature_def fresh_table)
qed

theorem unreadable_unit_diverges_witness:
  "dwarf_search_for_signature \<lparr>td_tied_search = None,
     td_reader = \<lparr>rd_units = [None], rd_pos = 0\<rparr>, td_mem = []\<rparr> (replicate 8 1) = None"
  by (rule unreadable_unit_diverges) (auto simp: bad_header_ahead_def)

end
