(* ===== verification/Dwarf_String.thy ===== *)
theory Dwarf_String
  imports Prelude "HOL-Library.Monad_Syntax"
begin

text \<open>
  The growing string buffer: \<open>dwarf_string.c\<close>. A buffer is modelled with its memory: the
  list \<open>s_data\<close> is every byte of the allocation \<open>s_data\<close> points to, so an access outside it
  can be told: the result of an operation that would make one is \<open>None\<close>. Lengths are kept
  as natural numbers: no string of \<open>2 ^ 64\<close> bytes exists. Other results are the C return
  value, the buffer and the memory to come.
\<close>

subsection \<open>The buffer and its memory\<close>

record dwarfstring =
  s_data :: string
  s_literal :: bool \<comment> \<open>\<open>s_data\<close> points to the string literal \<open>""\<close>\<close>
  s_size :: nat
  s_avail :: nat
  s_malloc :: bool

type_synonym ds_result = "(bool \<times> dwarfstring \<times> allocs) option"

abbreviation NUL :: char where
  "NUL \<equiv> CHR 0x00"

definition minimumnewlen :: nat where
  "minimumnewlen = 30"

definition store :: "nat \<Rightarrow> string \<Rightarrow> dwarfstring \<Rightarrow> dwarfstring option" where
  "store pos bs g =
     (if s_literal g \<or> length (s_data g) < pos + length bs then None
      else Some (g\<lparr>s_data := take pos (s_data g) @ bs @ drop (pos + length bs) (s_data g)\<rparr>))"

definition dwarfstring_constructor :: dwarfstring where
  "dwarfstring_constructor =
     \<lparr>s_data = [NUL], s_literal = True, s_size = 0, s_avail = 0, s_malloc = False\<rparr>"

text \<open>What \<open>malloc\<close>ed memory holds before it is written is immaterial.\<close>

definition dwarfstring_resize_to :: "dwarfstring \<Rightarrow> nat \<Rightarrow> allocs \<Rightarrow> ds_result" where
  "dwarfstring_resize_to g newlen mem =
     (let lastpos = s_size g - s_avail g;
          malloclen = max (newlen + 1) minimumnewlen
      in case alloc mem of
          (False, mem') \<Rightarrow> Some (False, g, mem')
        | (True, mem') \<Rightarrow>
            if length (s_data g) < lastpos then None
            else do {
              b \<leftarrow> store 0 (take lastpos (s_data g))
                (g\<lparr>s_data := replicate malloclen CHR ''?'', s_literal := False\<rparr>);
              g' \<leftarrow> store lastpos [NUL] b;
              Some (True, g'\<lparr>s_size := newlen, s_avail := newlen - lastpos, s_malloc := True\<rparr>, mem')
            })"

definition dwarfstring_reset :: "dwarfstring \<Rightarrow> allocs \<Rightarrow> ds_result" where
  "dwarfstring_reset g mem =
     (if s_size g = 0 then Some (True, g, mem)
      else do {
        g' \<leftarrow> store 0 [NUL] (g\<lparr>s_avail := s_size g\<rparr>);
        Some (True, g', mem)
      })"

definition dwarfstring_constructor_fixed :: "nat \<Rightarrow> allocs \<Rightarrow> ds_result" where
  "dwarfstring_constructor_fixed len mem =
     (if len = 0 then Some (True, dwarfstring_constructor, mem)
      else dwarfstring_resize_to dwarfstring_constructor len mem)"

definition dwarfstring_constructor_static :: "string \<Rightarrow> nat \<Rightarrow> allocs \<Rightarrow> ds_result" where
  "dwarfstring_constructor_static space len mem =
     do {
       g \<leftarrow> store 0 [NUL] (dwarfstring_constructor\<lparr>s_data := space, s_literal := False\<rparr>);
       Some (True, g\<lparr>s_size := len, s_avail := len\<rparr>, mem)
     }"

definition dwarfstring_destructor :: "dwarfstring \<Rightarrow> dwarfstring" where
  "dwarfstring_destructor g = dwarfstring_constructor"

definition dwarfstring_append_length ::
    "string option \<Rightarrow> nat \<Rightarrow> dwarfstring \<Rightarrow> allocs \<Rightarrow> ds_result" where
  "dwarfstring_append_length str slen g mem =
     (let lastpos = s_size g - s_avail g in
      case str of
        None \<Rightarrow> Some (True, g, mem)
      | Some s \<Rightarrow>
          if slen = 0 then Some (True, g, mem)
          else do {
            (r, g1, mem1) \<leftarrow>
              (if s_avail g \<le> slen then dwarfstring_resize_to g (s_size g + slen + 2) mem
               else Some (True, g, mem));
            if \<not> r then Some (False, g1, mem1)
            else if length s < slen then None
            else do {
              g2 \<leftarrow> store lastpos (take slen s) g1;
              let g3 = g2\<lparr>s_avail := s_avail g2 - slen\<rparr>;
              g4 \<leftarrow> store (s_size g3 - s_avail g3) [NUL] g3;
              Some (True, g4, mem1)
            }
          })"

definition dwarfstring_append :: "string option \<Rightarrow> dwarfstring \<Rightarrow> allocs \<Rightarrow> ds_result" where
  "dwarfstring_append str g mem =
     (case str of
        None \<Rightarrow> Some (True, g, mem)
      | Some s \<Rightarrow> dwarfstring_append_length str (length s) g mem)"

text \<open>What \<open>dwarfstring_string\<close> points to, up to the \<open>dwarfstring_strlen\<close> bytes in use.\<close>

definition dwarfstring_strlen :: "dwarfstring \<Rightarrow> nat" where
  "dwarfstring_strlen g = s_size g - s_avail g"

definition dwarfstring_string :: "dwarfstring \<Rightarrow> string" where
  "dwarfstring_string g = take (dwarfstring_strlen g) (s_data g)"

subsection \<open>Padding\<close>

definition spacebuf :: string where
  "spacebuf = replicate 39 CHR '' ''"

definition zeros :: string where
  "zeros = replicate 40 CHR ''0''"

fun append_spaces :: "nat \<Rightarrow> dwarfstring \<Rightarrow> allocs \<Rightarrow> ds_result" where
  "append_spaces l g mem =
     (if length spacebuf < l
      then do {
        (res, g1, mem1) \<leftarrow> dwarfstring_append_length (Some spacebuf) (length spacebuf) g mem;
        if \<not> res then Some (res, g1, mem1)
        else append_spaces (l - 39) g1 mem1
      }
      else dwarfstring_append_length (Some spacebuf) l g mem)"

declare append_spaces.simps [simp del]

text \<open>\<open>res\<close> is what the loop left, 0 when it was not entered; the last append is not tested.\<close>

fun append_zeros :: "bool \<Rightarrow> nat \<Rightarrow> dwarfstring \<Rightarrow> allocs \<Rightarrow> ds_result" where
  "append_zeros res l g mem =
     (if length zeros < l
      then do {
        (res1, g1, mem1) \<leftarrow> dwarfstring_append_length (Some zeros) (length zeros) g mem;
        if \<not> res1 then Some (res1, g1, mem1)
        else append_zeros res1 (l - 40) g1 mem1
      }
      else do {
        (_, g1, mem1) \<leftarrow> dwarfstring_append_length (Some zeros) l g mem;
        Some (res, g1, mem1)
      })"

declare append_zeros.simps [simp del]

subsection \<open>Reading a format\<close>

text \<open>\<open>format + next\<close> is the list of the characters from there; the NUL ends it.\<close>

fun peek :: "string \<Rightarrow> char" where
  "peek [] = NUL"
| "peek (c # cs) = c"

definition eat :: "char \<Rightarrow> string \<Rightarrow> bool \<times> string" where
  "eat c s = (if peek s = c \<and> s \<noteq> [] then (True, tl s) else (False, s))"

definition is_digit :: "char \<Rightarrow> bool" where
  "is_digit c \<longleftrightarrow> 48 \<le> (of_char c :: nat) \<and> (of_char c :: nat) \<le> 57"

definition digit_val :: "char \<Rightarrow> nat" where
  "digit_val c = of_char c - 48"

definition dec_value :: "string \<Rightarrow> nat" where
  "dec_value = foldl (\<lambda>a c. a * 10 + digit_val c) 0"

text \<open>
  \<open>strtol(s, &endptr, 10)\<close>: the value, clamped to \<open>long\<close>, and the rest at \<open>endptr\<close>;
  \<open>None\<close> when there is no number and \<open>endptr\<close> is \<open>s\<close>.
\<close>

definition strtol :: "string \<Rightarrow> (int \<times> string) option" where
  "strtol s =
     (let s1 = dropWhile is_space s;
          (neg, s2) = (if peek s1 = CHR ''-'' then (True, tl s1)
                       else if peek s1 = CHR ''+'' then (False, tl s1) else (False, s1));
          ds = takeWhile is_digit s2
      in if ds = [] then None
         else let n = int (dec_value ds);
                  v = (if neg then max (- (2 ^ 63)) (- n) else min (2 ^ 63 - 1) n)
              in Some (v, dropWhile is_digit s2))"

text \<open>\<open>fixedlen = val\<close> converts to \<open>size_t\<close>.\<close>

definition read_width :: "string \<Rightarrow> nat \<times> string" where
  "read_width s =
     (case strtol s of
        None \<Rightarrow> (0, s)
      | Some (v, rest) \<Rightarrow> (nat (v mod 2 ^ 64), rest))"

definition dwserr :: "string \<Rightarrow> dwarfstring \<Rightarrow> allocs \<Rightarrow> ds_result" where
  "dwserr m g mem =
     do { (_, g1, mem1) \<leftarrow> dwarfstring_append_length (Some m) (length m) g mem;
          Some (False, g1, mem1) }"

definition append_ignore :: "string \<Rightarrow> dwarfstring \<Rightarrow> allocs \<Rightarrow> (dwarfstring \<times> allocs) option" where
  "append_ignore s g mem =
     do { (_, g1, mem1) \<leftarrow> dwarfstring_append_length (Some s) (length s) g mem; Some (g1, mem1) }"

subsection \<open>Formatting strings\<close>

fun append_each_space :: "nat \<Rightarrow> dwarfstring \<Rightarrow> allocs \<Rightarrow> (dwarfstring \<times> allocs) option" where
  "append_each_space 0 g mem = Some (g, mem)"
| "append_each_space (Suc k) g mem =
     do { (g1, mem1) \<leftarrow> append_ignore '' '' g mem; append_each_space k g1 mem1 }"

definition printf_s_body :: "bool \<Rightarrow> nat \<Rightarrow> string \<Rightarrow> string \<Rightarrow> dwarfstring \<Rightarrow> allocs \<Rightarrow> ds_result" where
  "printf_s_body leftjustify fixedlen s rest g mem =
     do {
       (res, early, g1, mem1) \<leftarrow>
         (if leftjustify \<and> \<not> (fixedlen \<noteq> 0 \<and> fixedlen \<le> length s) then do {
            (g2, mem2) \<leftarrow> append_ignore s g mem;
            if fixedlen \<noteq> 0 then do {
              (_, g3, mem3) \<leftarrow> append_spaces (fixedlen - length s) g2 mem2;
              Some (False, False, g3, mem3)
            } else Some (False, False, g2, mem2)
          }
          else if fixedlen \<noteq> 0 \<and> fixedlen < length s then do {
            (g2, mem2) \<leftarrow> append_ignore s g mem;
            Some (False, False, g2, mem2)
          }
          else do {
            (g2, mem2) \<leftarrow> (if fixedlen \<noteq> 0 then append_each_space (fixedlen - length s) g mem
                           else Some (g, mem));
            (r, g3, mem3) \<leftarrow> dwarfstring_append_length (Some s) (length s) g2 mem2;
            Some (r, \<not> r, g3, mem3)
          });
       if early then Some (res, g1, mem1)
       else if rest = [] then Some (True, g1, mem1)
       else dwarfstring_append_length (Some rest) (length rest) g1 mem1
     }"

definition dwarfstring_append_printf_s ::
    "string option \<Rightarrow> string option \<Rightarrow> dwarfstring \<Rightarrow> allocs \<Rightarrow> ds_result" where
  "dwarfstring_append_printf_s format s g mem =
     (case s of
        None \<Rightarrow> dwserr ''<DWARFSTRINGERR: null string pointer to dwarfstring_append_printf_s>'' g mem
      | Some str \<Rightarrow>
        (case format of
           None \<Rightarrow> dwserr ''<DWARFSTRINGERR: null format pointer to dwarfstring_append_printf_s>'' g mem
         | Some fmt \<Rightarrow>
           do {
             let prefix = takeWhile (\<lambda>c. c \<noteq> CHR ''%'') fmt;
             let rest = dropWhile (\<lambda>c. c \<noteq> CHR ''%'') fmt;
             (g1, mem1) \<leftarrow> (if prefix = [] then Some (g, mem) else append_ignore prefix g mem);
             if rest = [] then
               dwserr ''<DWARFSTRINGERR: no percent passed to dwarfstring_append_printf_s>'' g1 mem1
             else let next = tl rest in
             if next = [] \<or> peek next = CHR '' '' then
               dwserr ''<DWARFSTRINGERR: empty percent  to dwarfstring_append_printf_s>'' g1 mem1
             else
               let (leftjustify, next1) = eat CHR ''-'' next;
                   (fixedlen, next2) = read_width next1
               in if peek next2 \<noteq> CHR ''s'' then
                    dwserr ''<DWARFSTRINGERR: no percent-s to dwarfstring_append_printf_s>'' g1 mem1
                  else printf_s_body leftjustify fixedlen str (tl next2) g1 mem1
           }))"

subsection \<open>Formatting integers\<close>

definition dtable :: string where
  "dtable = ''0123456789''"

definition xtable :: string where
  "xtable = ''0123456789abcdef''"

definition Xtable :: string where
  "Xtable = ''0123456789ABCDEF''"

definition v64m :: string where
  "v64m = ''-9223372036854775808''"

text \<open>
  The loop that fills \<open>digbuf\<close> from its end; the result is the string \<open>digptr\<close> points to
  when it ends, \<open>acc\<close> what is there already.
\<close>

function digit_loop :: "nat \<Rightarrow> string \<Rightarrow> nat \<Rightarrow> string \<Rightarrow> string" where
  "digit_loop divisor ctable remaining acc =
     (let acc' = ctable ! (remaining mod divisor) # acc;
          remaining' = remaining div divisor
      in if remaining' = 0 \<or> divisor < 2 then acc' else digit_loop divisor ctable remaining' acc')"
  by pat_completeness auto
termination
proof (relation "measure (\<lambda>(_, _, remaining, _). remaining)")
  fix divisor :: nat and ctable :: string and remaining :: nat and acc acc' :: string and remaining'
  assume "acc' = ctable ! (remaining mod divisor) # acc" "remaining' = remaining div divisor"
    and "\<not> (remaining' = 0 \<or> divisor < 2)"
  then show "((divisor, ctable, remaining', acc'), divisor, ctable, remaining, acc)
      \<in> measure (\<lambda>(_, _, remaining, _). remaining)"
    by (cases "remaining = 0") (auto intro: div_less_dividend)
qed simp

declare digit_loop.simps [simp del]

text \<open>The directive after the percent sign: flags, width, length modifiers and conversions.\<close>

record directive =
  d_minus :: nat
  d_plus :: nat
  d_zero :: bool
  d_width :: nat
  d_l :: nat
  d_u :: nat
  d_d :: nat
  d_x :: nat
  d_X :: nat
  d_rest :: string

definition read_conversions :: "string \<Rightarrow> directive \<Rightarrow> directive" where
  "read_conversions s0 d =
     (let (l1, s1) = eat CHR ''l'' s0;
          (l2, s2) = eat CHR ''l'' s1;
          (l3, s3) = eat CHR ''l'' s2;
          (u, s4) = eat CHR ''u'' s3;
          (dd, s5) = eat CHR ''d'' s4;
          (x, s6) = eat CHR ''x'' s5;
          (X, s7) = eat CHR ''X'' s6
      in d\<lparr>d_l := of_bool l1 + of_bool l2 + of_bool l3, d_u := of_bool u, d_d := of_bool dd,
           d_x := of_bool x, d_X := of_bool X, d_rest := s7\<rparr>)"

definition no_directive :: directive where
  "no_directive = \<lparr>d_minus = 0, d_plus = 0, d_zero = False, d_width = 0, d_l = 0, d_u = 0,
     d_d = 0, d_x = 0, d_X = 0, d_rest = []\<rparr>"

definition read_directive_i :: "string \<Rightarrow> directive" where
  "read_directive_i next =
     (let (m1, s1) = eat CHR ''-'' next;
          (p, s2) = eat CHR ''+'' s1;
          (m2, s3) = eat CHR ''-'' s2;
          (z, s4) = eat CHR ''0'' s3;
          (w, s5) = read_width s4
      in read_conversions s5 (no_directive\<lparr>d_minus := of_bool m1 + of_bool m2, d_plus := of_bool p,
           d_zero := z, d_width := w\<rparr>))"

definition read_directive_u :: "string \<Rightarrow> directive" where
  "read_directive_u next =
     (let (z, s1) = eat CHR ''0'' next;
          (w, s2) = read_width s1
      in read_conversions s2 (no_directive\<lparr>d_zero := z, d_width := w\<rparr>))"

definition i_digits :: "u64 \<Rightarrow> bool \<Rightarrow> string" where
  "i_digits v showplus =
     (if sint v < 0 then
        if NOT v = 0x7fffffffffffffff then v64m
        else CHR ''-'' # digit_loop 10 dtable (unat (- v)) []
      else
        let ds = digit_loop 10 dtable (unat v) [] in if showplus then CHR ''+'' # ds else ds)"

definition printf_i_body :: "directive \<Rightarrow> string \<Rightarrow> dwarfstring \<Rightarrow> allocs \<Rightarrow> ds_result" where
  "printf_i_body d digs g mem =
     do {
       (res, g1, mem1) \<leftarrow>
         (if 0 < d_width d then
            if d_width d \<le> length digs then do {
              (g2, mem2) \<leftarrow> append_ignore digs g mem;
              Some (True, g2, mem2)
            }
            else let prefixcount = d_width d - length digs in
              if \<not> d_zero d then do {
                (_, g2, mem2) \<leftarrow> append_spaces prefixcount g mem;
                (g3, mem3) \<leftarrow> append_ignore digs g2 mem2;
                Some (True, g3, mem3)
              }
              else if peek digs = CHR ''-'' \<or> peek digs = CHR ''+'' then do {
                (g2, mem2) \<leftarrow> append_ignore [peek digs] g mem;
                (_, g3, mem3) \<leftarrow> append_zeros False prefixcount g2 mem2;
                (g4, mem4) \<leftarrow> append_ignore (tl digs) g3 mem3;
                Some (True, g4, mem4)
              }
              else do {
                (_, g2, mem2) \<leftarrow> append_zeros False prefixcount g mem;
                (g3, mem3) \<leftarrow> append_ignore digs g2 mem2;
                Some (True, g3, mem3)
              }
          else dwarfstring_append_length (Some digs) (length digs) g mem);
       if d_rest d \<noteq> [] then dwarfstring_append_length (Some (d_rest d)) (length (d_rest d)) g1 mem1
       else Some (res, g1, mem1)
     }"

definition dwarfstring_append_printf_i ::
    "string option \<Rightarrow> u64 \<Rightarrow> dwarfstring \<Rightarrow> allocs \<Rightarrow> ds_result" where
  "dwarfstring_append_printf_i format v g mem =
     (case format of
        None \<Rightarrow> dwserr ''<DWARFSTRINGERR: null format pointer to dwarfstring_append_printf_i>'' g mem
      | Some fmt \<Rightarrow>
        do {
          let prefix = takeWhile (\<lambda>c. c \<noteq> CHR ''%'') fmt;
          let rest = dropWhile (\<lambda>c. c \<noteq> CHR ''%'') fmt;
          (g1, mem1) \<leftarrow> append_ignore prefix g mem;
          if rest = [] then
            dwserr ''<DWARFSTRINGERR: no percent passed to dwarfstring_append_printf_i>'' g1 mem1
          else let next = tl rest in
          if next = [] \<or> peek next = CHR '' '' then
            dwserr ''<DWARFSTRINGERR: empty percent  to dwarfstring_append_printf_i>'' g1 mem1
          else
            let d = read_directive_i next in
            if peek (d_rest d) = CHR ''s'' then
              dwserr ''<DWARFSTRINGERR: format percent s passed to dwarfstring_append_printf_i>'' g1 mem1
            else if d_x d \<noteq> 0 \<or> d_X d \<noteq> 0 then
              dwserr ''<DWARFSTRINGERR: format %x or %X passed to dwarfstring_append_printf_i>'' g1 mem1
            else if d_d d = 0 \<or> 2 < d_l d \<or> 1 < d_X d + d_x d + d_d d + d_u d then
              dwserr ''<DWARFSTRINGERR: format has too many percent x/d/u/l passed to dwarfstring_append_printf_i>'' g1 mem1
            else if d_plus d \<noteq> 0 \<and> d_minus d \<noteq> 0 then
              dwserr ''<DWARFSTRINGERR: format disallowed. +- passed to dwarfstring_append_printf_i>'' g1 mem1
            else printf_i_body d (i_digits v (d_plus d \<noteq> 0)) g1 mem1
        })"

definition u_digits :: "directive \<Rightarrow> u64 \<Rightarrow> string" where
  "u_digits d v =
     (if d_u d \<noteq> 0 then digit_loop 10 dtable (unat v) []
      else digit_loop 16 (if d_x d \<noteq> 0 then xtable else Xtable) (unat v) [])"

definition printf_u_body :: "directive \<Rightarrow> string \<Rightarrow> dwarfstring \<Rightarrow> allocs \<Rightarrow> ds_result" where
  "printf_u_body d digs g mem =
     do {
       (g1, mem1) \<leftarrow>
         (if d_width d \<le> length digs then append_ignore digs g mem
          else if \<not> d_zero d then do {
            (_, g2, mem2) \<leftarrow> append_spaces (d_width d - length digs) g mem;
            append_ignore digs g2 mem2
          }
          else do {
            (_, g2, mem2) \<leftarrow> append_zeros False (d_width d - length digs) g mem;
            append_ignore digs g2 mem2
          });
       (g2, mem2) \<leftarrow> (if d_rest d \<noteq> [] then append_ignore (d_rest d) g1 mem1 else Some (g1, mem1));
       Some (False, g2, mem2)
     }"

definition dwarfstring_append_printf_u ::
    "string option \<Rightarrow> u64 \<Rightarrow> dwarfstring \<Rightarrow> allocs \<Rightarrow> ds_result" where
  "dwarfstring_append_printf_u format v g mem =
     (case format of
        None \<Rightarrow> dwserr ''<DWARFSTRINGERR: null format pointer to dwarfstring_append_printf_u>'' g mem
      | Some fmt \<Rightarrow>
        do {
          let prefix = takeWhile (\<lambda>c. c \<noteq> CHR ''%'') fmt;
          let rest = dropWhile (\<lambda>c. c \<noteq> CHR ''%'') fmt;
          (g1, mem1) \<leftarrow> append_ignore prefix g mem;
          if rest = [] then
            dwserr ''<DWARFSTRINGERR: no percent passed to dwarfstring_append_printf_u>'' g1 mem1
          else let next = tl rest in
          if next = [] \<or> peek next = CHR '' '' then
            dwserr ''<DWARFSTRINGERR: empty percent  to dwarfstring_append_printf_u>'' g1 mem1
          else if peek next = CHR ''-'' then
            dwserr ''<DWARFSTRINGERR: format - passed to dwarfstring_append_printf_u cannot be handled>'' g1 mem1
          else
            let d = read_directive_u next in
            if peek (d_rest d) = CHR ''s'' then
              dwserr ''<DWARFSTRINGERR: format percent-s passed to dwarfstring_append_printf_u cannot be handled>'' g1 mem1
            else if 1 < d_X d + d_x d + d_d d + d_u d then
              dwserr ''<DWARFSTRINGERR: format  percent -x X d u repeats to dwarfstring_append_printf_u cannot be handled>'' g1 mem1
            else if d_X d + d_x d + d_d d + d_u d = 0 then
              dwserr ''<DWARFSTRINGERR: format percent x X d u missing to dwarfstring_append_printf_u cannot be handled>'' g1 mem1
            else if 2 < d_l d then
              dwserr ''<DWARFSTRINGERR: format percent lll to dwarfstring_append_printf_u cannot be handled>'' g1 mem1
            else if 0 < d_d d then
              dwserr ''<DWARFSTRINGERR: format  percent-d to dwarfstring_append_printf_u cannot be handled>'' g1 mem1
            else printf_u_body d (u_digits d v) g1 mem1
        })"

subsection \<open>The buffer's invariant and the rules of the operations\<close>

definition ds_ok :: "dwarfstring \<Rightarrow> bool" where
  "ds_ok g \<longleftrightarrow> s_avail g \<le> s_size g \<and> dwarfstring_strlen g < length (s_data g)
     \<and> s_data g ! dwarfstring_strlen g = NUL
     \<and> (if s_literal g then s_size g = 0 else s_size g \<le> length (s_data g))"

text \<open>
  \<open>extends\<close>: no access outside the buffer, the buffer stays well-formed and what it held
  is still at its front. \<open>writes\<close>: with memory to allocate, exactly \<open>t\<close> is appended and
  the result is \<open>b\<close>.
\<close>

definition extends :: "dwarfstring \<Rightarrow> ds_result \<Rightarrow> bool" where
  "extends g res \<longleftrightarrow> (\<exists>r g' mem'. res = Some (r, g', mem') \<and> ds_ok g' \<and>
     (\<exists>t. dwarfstring_string g' = dwarfstring_string g @ t))"

definition writes :: "dwarfstring \<Rightarrow> string \<Rightarrow> bool \<Rightarrow> ds_result \<Rightarrow> bool" where
  "writes g t b res \<longleftrightarrow> (\<exists>g'. res = Some (b, g', []) \<and> ds_ok g' \<and>
     dwarfstring_string g' = dwarfstring_string g @ t)"

definition extends2 :: "dwarfstring \<Rightarrow> (dwarfstring \<times> allocs) option \<Rightarrow> bool" where
  "extends2 g res \<longleftrightarrow> extends g (map_option (Pair True) res)"

definition writes2 :: "dwarfstring \<Rightarrow> string \<Rightarrow> (dwarfstring \<times> allocs) option \<Rightarrow> bool" where
  "writes2 g t res \<longleftrightarrow> writes g t True (map_option (Pair True) res)"

named_theorems ds_rules

lemma extends_Some [ds_rules]: "ds_ok g \<Longrightarrow> extends g (Some (r, g, mem))"
  and extends2_Some [ds_rules]: "ds_ok g \<Longrightarrow> extends2 g (Some (g, mem))"
  by (auto simp: extends_def extends2_def)

lemma extends_bind [ds_rules]:
  "extends g X \<Longrightarrow> (\<And>r g' mem'. ds_ok g' \<Longrightarrow> extends g' (f (r, g', mem'))) \<Longrightarrow> extends g (X \<bind> f)"
  by (fastforce simp: extends_def)

lemma extends2_bind [ds_rules]:
  "extends g X \<Longrightarrow> (\<And>r g' mem'. ds_ok g' \<Longrightarrow> extends2 g' (f (r, g', mem'))) \<Longrightarrow> extends2 g (X \<bind> f)"
  by (fastforce simp: extends_def extends2_def)

lemma extends_bind2 [ds_rules]:
  "extends2 g X \<Longrightarrow> (\<And>g' mem'. ds_ok g' \<Longrightarrow> extends g' (f (g', mem'))) \<Longrightarrow> extends g (X \<bind> f)"
  by (fastforce simp: extends_def extends2_def)

lemma extends2_bind2 [ds_rules]:
  "extends2 g X \<Longrightarrow> (\<And>g' mem'. ds_ok g' \<Longrightarrow> extends2 g' (f (g', mem'))) \<Longrightarrow> extends2 g (X \<bind> f)"
  by (fastforce simp: extends_def extends2_def)

lemma writes_Some: "ds_ok g \<Longrightarrow> writes g [] b (Some (b, g, []))"
  and writes2_Some: "ds_ok g \<Longrightarrow> writes2 g [] (Some (g, []))"
  by (auto simp: writes_def writes2_def)

lemma writes_bind:
  "writes g t b X \<Longrightarrow> (\<And>g'. ds_ok g' \<Longrightarrow> writes g' u b' (f (b, g', []))) \<Longrightarrow>
   writes g (t @ u) b' (X \<bind> f)"
  by (fastforce simp: writes_def)

lemma writes2_bind:
  "writes g t b X \<Longrightarrow> (\<And>g'. ds_ok g' \<Longrightarrow> writes2 g' u (f (b, g', []))) \<Longrightarrow>
   writes2 g (t @ u) (X \<bind> f)"
  by (fastforce simp: writes_def writes2_def)

lemma writes_bind2:
  "writes2 g t X \<Longrightarrow> (\<And>g'. ds_ok g' \<Longrightarrow> writes g' u b' (f (g', []))) \<Longrightarrow>
   writes g (t @ u) b' (X \<bind> f)"
  by (fastforce simp: writes_def writes2_def)

lemma writes2_bind2:
  "writes2 g t X \<Longrightarrow> (\<And>g'. ds_ok g' \<Longrightarrow> writes2 g' u (f (g', []))) \<Longrightarrow>
   writes2 g (t @ u) (X \<bind> f)"
  by (fastforce simp: writes_def writes2_def)

lemma ds_ok_constructor [simp]: "ds_ok dwarfstring_constructor"
  and constructor_empty [simp]: "dwarfstring_string dwarfstring_constructor = []"
  by (simp_all add: ds_ok_def dwarfstring_constructor_def dwarfstring_strlen_def dwarfstring_string_def)

lemma resize_ok:
  assumes "ds_ok g" and "s_size g < newlen" and "dwarfstring_resize_to g newlen mem = res"
  shows "\<exists>r g' mem'. res = Some (r, g', mem') \<and>
    (if r then s_size g' = newlen \<and> s_avail g' = newlen - dwarfstring_strlen g \<and> \<not> s_literal g'
       \<and> newlen < length (s_data g') \<and> take (dwarfstring_strlen g) (s_data g') = dwarfstring_string g
       \<and> s_data g' ! dwarfstring_strlen g = NUL
     else g' = g) \<and> (mem = [] \<longrightarrow> r \<and> mem' = [])"
proof -
  have l: "dwarfstring_strlen g < length (s_data g)" "dwarfstring_strlen g \<le> s_size g"
    using assms(1) by (auto simp: ds_ok_def dwarfstring_strlen_def)
  obtain ok m where al: "alloc mem = (ok, m)" by (cases rule: prod.exhaust)
  have m: "mem = [] \<longrightarrow> ok \<and> m = []" using al by auto
  show ?thesis
  proof (cases ok)
    case False
    then show ?thesis using assms(3) al m by (auto simp: dwarfstring_resize_to_def Let_def)
  next
    case True
    have "dwarfstring_strlen g \<le> newlen + 1" using l assms(2) by simp
    then show ?thesis
      using assms(2,3) al True m l
      by (auto simp: dwarfstring_resize_to_def Let_def store_def dwarfstring_strlen_def [symmetric]
          dwarfstring_string_def min_def max_def nth_append)
  qed
qed

lemma append_length_ok:
  assumes ok: "ds_ok g" and len: "slen \<le> length s"
    and res: "dwarfstring_append_length (Some s) slen g mem = res"
  shows "\<exists>r g' mem'. res = Some (r, g', mem') \<and> ds_ok g' \<and> (mem = [] \<longrightarrow> r \<and> mem' = []) \<and>
    dwarfstring_string g' = (if r then dwarfstring_string g @ take slen s else dwarfstring_string g)"
proof (cases "slen = 0")
  case True
  then show ?thesis using res ok by (auto simp: dwarfstring_append_length_def)
next
  case False
  let ?lp = "dwarfstring_strlen g"
  obtain r g1 mem1 where
    g1: "(if s_avail g \<le> slen then dwarfstring_resize_to g (s_size g + slen + 2) mem
      else Some (True, g, mem)) = Some (r, g1, mem1)"
    and one: "if r then \<not> s_literal g1 \<and> s_size g1 \<le> length (s_data g1) \<and> ?lp = s_size g1 - s_avail g1
       \<and> s_avail g1 \<le> s_size g1 \<and> slen < s_avail g1 \<and> take ?lp (s_data g1) = dwarfstring_string g
     else g1 = g" and m: "mem = [] \<longrightarrow> r \<and> mem1 = []"
  proof (cases "s_avail g \<le> slen")
    case True
    from resize_ok [OF ok _ refl, of "s_size g + slen + 2" mem] obtain r g1 mem1 where
      "dwarfstring_resize_to g (s_size g + slen + 2) mem = Some (r, g1, mem1)"
      "if r then s_size g1 = s_size g + slen + 2 \<and> s_avail g1 = s_size g + slen + 2 - ?lp \<and> \<not> s_literal g1
        \<and> s_size g + slen + 2 < length (s_data g1) \<and> take ?lp (s_data g1) = dwarfstring_string g
        else g1 = g" "mem = [] \<longrightarrow> r \<and> mem1 = []"
      by (auto split: if_splits)
    moreover have "?lp \<le> s_size g" by (simp add: dwarfstring_strlen_def)
    ultimately show ?thesis
      using True that [of r g1 mem1] by (auto split: if_splits)
  next
    case False
    moreover from this have "\<not> s_literal g" using ok by (auto simp: ds_ok_def split: if_splits)
    ultimately show ?thesis
      using that [of True g mem] ok
      by (auto simp: ds_ok_def dwarfstring_strlen_def dwarfstring_string_def)
  qed
  show ?thesis
  proof (cases r)
    case False
    then show ?thesis
      using res g1 one m \<open>slen \<noteq> 0\<close> ok by (auto simp: dwarfstring_append_length_def Let_def)
  next
    case True
    then have o: "\<not> s_literal g1" "s_size g1 \<le> length (s_data g1)" "?lp = s_size g1 - s_avail g1"
      "s_avail g1 \<le> s_size g1" "slen < s_avail g1" "take ?lp (s_data g1) = dwarfstring_string g"
      using one by auto
    let ?d = "take ?lp (s_data g1) @ take slen s @ drop (?lp + slen) (s_data g1)"
    let ?d' = "take (?lp + slen) ?d @ [NUL] @ drop (?lp + slen + 1) ?d"
    let ?g4 = "g1\<lparr>s_data := ?d', s_avail := s_avail g1 - slen\<rparr>"
    have le: "?lp + slen < length (s_data g1)" using o by linarith
    have sum: "s_size g1 - (s_avail g1 - slen) = ?lp + slen" using o by linarith
    have lts: "length (take slen s) = slen" using len by simp
    have st1: "store ?lp (take slen s) g1 = Some (g1\<lparr>s_data := ?d\<rparr>)"
      using o(1) le unfolding store_def lts by simp
    have "length ?d = length (s_data g1)" using le len by simp
    then have st2: "store (?lp + slen) [NUL] (g1\<lparr>s_data := ?d, s_avail := s_avail g1 - slen\<rparr>) = Some ?g4"
      using o(1) le by (simp add: store_def del: append_assoc length_append take_append drop_append)
    have sl: "dwarfstring_strlen (g1\<lparr>s_data := ?d, s_avail := s_avail g1 - slen\<rparr>) = ?lp + slen"
      using sum by (simp add: dwarfstring_strlen_def)
    have r: "res = Some (True, ?g4, mem1)"
      using res len \<open>slen \<noteq> 0\<close>
      unfolding dwarfstring_append_length_def Let_def dwarfstring_strlen_def [symmetric]
      by (simp add: g1 True st1 st2 sl del: append_assoc take_append drop_append)
    have "length (take ?lp (s_data g1)) = ?lp" "length (take slen s) = slen" using le len by auto
    then have tk: "take (?lp + slen) ?d = dwarfstring_string g @ take slen s"
      using o(6) by simp
    have lenA: "length (take (?lp + slen) ?d) = ?lp + slen" using le lts by simp
    then have tk': "take (?lp + slen) ?d' = take (?lp + slen) ?d" by (metis append_eq_conv_conj)
    have slg: "dwarfstring_strlen ?g4 = ?lp + slen" using sum by (simp add: dwarfstring_strlen_def)
    have sd: "s_data ?g4 = ?d'" by simp
    have "dwarfstring_string ?g4 = take (dwarfstring_strlen ?g4) (s_data ?g4)"
      by (rule dwarfstring_string_def)
    also have "\<dots> = take (?lp + slen) ?d'" by (simp only: slg sd)
    also note tk'
    also note tk
    finally have "dwarfstring_string ?g4 = dwarfstring_string g @ take slen s" .
    moreover have "ds_ok ?g4"
    proof -
      define D where "D = ?d'"
      have "length D = length (s_data g1)" using le lts by (simp add: D_def)
      moreover have "D ! (?lp + slen) = NUL" using lenA unfolding D_def by (metis nth_append_length append_Cons)
      ultimately have "ds_ok (g1\<lparr>s_data := D, s_avail := s_avail g1 - slen\<rparr>)"
        using o(1,2,4,5) le sum by (simp add: ds_ok_def dwarfstring_strlen_def)
      then show ?thesis by (simp only: D_def)
    qed
    ultimately show ?thesis using r m True by auto
  qed
qed

lemma extends_append_length [ds_rules]:
  "ds_ok g \<Longrightarrow> slen \<le> length s \<Longrightarrow> extends g (dwarfstring_append_length (Some s) slen g mem)"
  using append_length_ok [OF _ _ refl, of g slen s mem] by (auto simp: extends_def split: if_splits)

lemma writes_append_length:
  "ds_ok g \<Longrightarrow> slen \<le> length s \<Longrightarrow>
   writes g (take slen s) True (dwarfstring_append_length (Some s) slen g [])"
  using append_length_ok [OF _ _ refl, of g slen s "[]"] by (auto simp: writes_def split: if_splits)

lemma writes_append_all:
  "ds_ok g \<Longrightarrow> writes g s True (dwarfstring_append_length (Some s) (length s) g [])"
  using writes_append_length [of g "length s" s] by simp

lemma extends_if [ds_rules]:
  "(b \<Longrightarrow> extends g X) \<Longrightarrow> (\<not> b \<Longrightarrow> extends g Y) \<Longrightarrow> extends g (if b then X else Y)"
  "(b \<Longrightarrow> extends2 g X2) \<Longrightarrow> (\<not> b \<Longrightarrow> extends2 g Y2) \<Longrightarrow> extends2 g (if b then X2 else Y2)"
  by auto

lemma extends_spaces [ds_rules]: "ds_ok g \<Longrightarrow> extends g (append_spaces l g mem)"
proof (induction l arbitrary: g mem rule: less_induct)
  case (less l)
  have "extends g' (append_spaces (l - 39) g' mem')" if "ds_ok g'" "length spacebuf < l" for g' mem'
    using less.IH [of "l - 39"] that by (simp add: spacebuf_def)
  then show ?case
    unfolding append_spaces.simps [of l]
    by (intro extends_if extends_bind) (auto intro!: extends_append_length extends_Some less.prems
        split: prod.split)
qed

lemma extends_zeros [ds_rules]: "ds_ok g \<Longrightarrow> extends g (append_zeros b l g mem)"
proof (induction l arbitrary: b g mem rule: less_induct)
  case (less l)
  have "extends g' (append_zeros b (l - 40) g' mem')" if "ds_ok g'" "length zeros < l" for g' mem' b
    using less.IH [of "l - 40"] that by (simp add: zeros_def)
  then show ?case
    unfolding append_zeros.simps [of b l]
    by (intro extends_if extends_bind) (auto intro!: extends_append_length extends_Some less.prems
        split: prod.split)
qed

lemma extends2_ignore [ds_rules]: "ds_ok g \<Longrightarrow> extends2 g (append_ignore s g mem)"
  unfolding append_ignore_def by (rule extends2_bind) (auto intro: ds_rules)

lemma extends_dwserr [ds_rules]: "ds_ok g \<Longrightarrow> extends g (dwserr m g mem)"
  unfolding dwserr_def by (rule extends_bind) (auto intro: ds_rules)

lemma extends2_each_space [ds_rules]: "ds_ok g \<Longrightarrow> extends2 g (append_each_space k g mem)"
  by (induction k arbitrary: g mem) (auto intro!: extends2_Some extends2_bind2 extends2_ignore)

text \<open>The four-part result inside \<open>dwarfstring_append_printf_s\<close>.\<close>

definition extends4 :: "dwarfstring \<Rightarrow> (bool \<times> bool \<times> dwarfstring \<times> allocs) option \<Rightarrow> bool" where
  "extends4 g X \<longleftrightarrow> extends g (map_option (\<lambda>(r, e, g', m). (r, g', m)) X)"

lemma extends4_rules [ds_rules]:
  "ds_ok g \<Longrightarrow> extends4 g (Some (r, e, g, mem))"
  "extends g X \<Longrightarrow> (\<And>r g' mem'. ds_ok g' \<Longrightarrow> extends4 g' (f (r, g', mem'))) \<Longrightarrow> extends4 g (X \<bind> f)"
  "extends2 g X2 \<Longrightarrow> (\<And>g' mem'. ds_ok g' \<Longrightarrow> extends4 g' (f2 (g', mem'))) \<Longrightarrow> extends4 g (X2 \<bind> f2)"
  "(b \<Longrightarrow> extends4 g Y) \<Longrightarrow> (\<not> b \<Longrightarrow> extends4 g Z) \<Longrightarrow> extends4 g (if b then Y else Z)"
  by (fastforce simp: extends_def extends2_def extends4_def)+

lemma extends_bind4 [ds_rules]:
  "extends4 g X \<Longrightarrow> (\<And>r e g' mem'. ds_ok g' \<Longrightarrow> extends g' (f (r, e, g', mem'))) \<Longrightarrow> extends g (X \<bind> f)"
  by (fastforce simp: extends_def extends4_def)

lemma extends_case [ds_rules]:
  "(\<And>a b. extends g (f a b)) \<Longrightarrow> extends g (case x of (a, b) \<Rightarrow> f a b)"
  by (cases x) simp

lemma extends_s_body [ds_rules]: "ds_ok g \<Longrightarrow> extends g (printf_s_body l w s rest g mem)"
  unfolding printf_s_body_def by (auto intro!: ds_rules)

lemma extends_i_body [ds_rules]: "ds_ok g \<Longrightarrow> extends g (printf_i_body d digs g mem)"
  unfolding printf_i_body_def Let_def by (auto intro!: ds_rules)

lemma extends_u_body [ds_rules]: "ds_ok g \<Longrightarrow> extends g (printf_u_body d digs g mem)"
  unfolding printf_u_body_def by (auto intro!: ds_rules)

lemma writes_pad_spaces: "ds_ok g \<Longrightarrow> writes g (replicate l CHR '' '') True (append_spaces l g [])"
proof (induction l arbitrary: g rule: less_induct)
  case (less l)
  show ?case
  proof (cases "length spacebuf < l")
    case True
    have rest: "writes g' (replicate (l - 39) CHR '' '') True (append_spaces (l - 39) g' [])"
      if "ds_ok g'" for g' using less that True by (simp add: spacebuf_def)
    have "replicate l CHR '' '' = spacebuf @ replicate (l - 39) CHR '' ''"
      using True by (simp add: spacebuf_def replicate_add [symmetric])
    then show ?thesis
      unfolding append_spaces.simps [of l] if_P [OF True]
      using writes_bind [OF writes_append_all [OF less.prems, of spacebuf],
          where u = "replicate (l - 39) CHR '' ''" and b' = True
            and f = "\<lambda>(res, g1, mem1). if \<not> res then Some (res, g1, mem1) else append_spaces (l - 39) g1 mem1"]
        rest by simp
  next
    case False
    then have "take l spacebuf = replicate l CHR '' ''" by (simp add: spacebuf_def)
    then show ?thesis
      unfolding append_spaces.simps [of l] if_not_P [OF False]
      using writes_append_length [OF less.prems, of l spacebuf] False by simp
  qed
qed

lemma writes_pad_zeros:
  "ds_ok g \<Longrightarrow> \<exists>b'. writes g (replicate l CHR ''0'') b' (append_zeros b l g [])"
proof (induction l arbitrary: g b rule: less_induct)
  case (less l)
  show ?case
  proof (cases "length zeros < l")
    case True
    have rest: "\<exists>b'. writes g' (replicate (l - 40) CHR ''0'') b' (append_zeros True (l - 40) g' [])"
      if "ds_ok g'" for g' using less that True by (simp add: zeros_def)
    obtain g1 where g1: "dwarfstring_append_length (Some zeros) (length zeros) g [] = Some (True, g1, [])"
      "ds_ok g1" "dwarfstring_string g1 = dwarfstring_string g @ zeros"
      using writes_append_all [OF less.prems, of zeros] by (auto simp: writes_def)
    obtain b' where "writes g1 (replicate (l - 40) CHR ''0'') b' (append_zeros True (l - 40) g1 [])"
      using rest g1(2) by blast
    moreover have "replicate l CHR ''0'' = zeros @ replicate (l - 40) CHR ''0''"
      using True by (simp add: zeros_def replicate_add [symmetric])
    ultimately show ?thesis
      unfolding append_zeros.simps [of b l] if_P [OF True]
      using g1 by (auto simp: writes_def)
  next
    case False
    then have "take l zeros = replicate l CHR ''0''" by (simp add: zeros_def)
    then show ?thesis
      unfolding append_zeros.simps [of b l] if_not_P [OF False]
      using writes_append_length [OF less.prems, of l zeros] False by (auto simp: writes_def)
  qed
qed

lemma writes2_ignore: "ds_ok g \<Longrightarrow> writes2 g s (append_ignore s g [])"
  using writes_append_all [of g s] by (auto simp: append_ignore_def writes_def writes2_def)

lemma writes2_each_space:
  "ds_ok g \<Longrightarrow> writes2 g (replicate k CHR '' '') (append_each_space k g [])"
proof (induction k arbitrary: g)
  case 0
  then show ?case by (simp add: writes2_Some)
next
  case (Suc k)
  have "writes2 g ('' '' @ replicate k CHR '' '') (append_each_space (Suc k) g [])"
    unfolding append_each_space.simps
    by (rule writes2_bind2 [OF writes2_ignore [OF Suc.prems]]) (simp add: Suc.IH)
  then show ?case by simp
qed

text \<open>
  C8: whatever the format, the value, the buffer's state and the failures of \<open>malloc\<close>, none
  of the formatting functions reads or writes outside the buffer (nor writes to the literal
  it starts with), each returns, leaves a well-formed NUL-terminated buffer, and what the
  buffer held is still the beginning of what it holds.
\<close>

theorem printf_memory_safe:
  assumes "ds_ok g"
  shows "extends g (dwarfstring_append_printf_s format s g mem) \<and>
    extends g (dwarfstring_append_printf_i format v g mem) \<and>
    extends g (dwarfstring_append_printf_u format v g mem)"
proof (intro conjI)
  show "extends g (dwarfstring_append_printf_s format s g mem)"
    using assms
    by (cases s; cases format) (auto simp: dwarfstring_append_printf_s_def Let_def intro!: ds_rules)
  show "extends g (dwarfstring_append_printf_i format v g mem)"
    using assms
    by (cases format) (auto simp: dwarfstring_append_printf_i_def Let_def intro!: ds_rules)
  show "extends g (dwarfstring_append_printf_u format v g mem)"
    using assms
    by (cases format) (auto simp: dwarfstring_append_printf_u_def Let_def intro!: ds_rules)
qed

theorem printf_memory_safe_witness:
  "extends dwarfstring_constructor
     (dwarfstring_append_printf_s (Some ''%-9s'') (Some ''x'') dwarfstring_constructor [False])"
  using printf_memory_safe [OF ds_ok_constructor] by blast

subsection \<open>Digits\<close>

lemma digit_loop_acc: "digit_loop b tbl n acc = digit_loop b tbl n [] @ acc"
proof (induction n arbitrary: acc rule: less_induct)
  case (less n)
  show ?case
  proof (cases "n div b = 0 \<or> b < 2")
    case True
    then show ?thesis by (simp add: digit_loop.simps [of b tbl n])
  next
    case False
    then have "n div b < n" by (cases "n = 0") (auto intro: div_less_dividend)
    from less.IH [OF this, of "tbl ! (n mod b) # acc"] less.IH [OF this, of "[tbl ! (n mod b)]"]
    show ?thesis
      using False by (simp add: digit_loop.simps [of b tbl n])
  qed
qed

lemma digit_loop_step:
  "1 < b \<Longrightarrow> digit_loop b tbl n [] =
    (if n < b then [tbl ! n] else digit_loop b tbl (n div b) [] @ [tbl ! (n mod b)])"
  by (subst digit_loop.simps) (auto simp: Let_def div_eq_0_iff intro: digit_loop_acc)

lemma digit_list:
  assumes "1 < b"
  shows "\<exists>ds. digit_loop b tbl n [] = map ((!) tbl) ds \<and> ds \<noteq> [] \<and> (\<forall>d \<in> set ds. d < b)
    \<and> foldl (\<lambda>a d. a * b + d) 0 ds = n \<and> (n \<noteq> 0 \<longrightarrow> hd ds \<noteq> 0)
    \<and> (b ^ (length ds - 1) \<le> n \<or> n = 0 \<and> length ds = 1)"
proof (induction n rule: less_induct)
  case (less n)
  show ?case
  proof (cases "n < b")
    case True
    then show ?thesis
      using assms by (intro exI [of _ "[n]"]) (auto simp: digit_loop_step)
  next
    case False
    then have n: "n div b < n" "n div b \<noteq> 0" using assms by (auto simp: div_eq_0_iff)
    from less.IH [OF n(1)] n(2) obtain ds where ds: "digit_loop b tbl (n div b) [] = map ((!) tbl) ds" "ds \<noteq> []"
      "\<forall>d \<in> set ds. d < b" "foldl (\<lambda>a d. a * b + d) 0 ds = n div b" "hd ds \<noteq> 0"
      "b ^ (length ds - 1) \<le> n div b" by auto
    have "b ^ length ds = b ^ (length ds - 1) * b"
      using ds(2) by (cases ds) auto
    also have "\<dots> \<le> n div b * b" using ds(6) by simp
    also have "\<dots> \<le> n" by simp
    finally show ?thesis
      using False assms ds by (intro exI [of _ "ds @ [n mod b]"]) (simp add: digit_loop_step)
  qed
qed

text \<open>
  the digits the formatting loops produce are the number's digits in the base: each below
  the base, the number their value, no leading zero, and few enough for \<open>digbuf\<close>.
\<close>

theorem digits_exact:
  assumes "1 < b" and "b \<le> length tbl" and "distinct tbl"
  shows "\<exists>ds. digit_loop b tbl n [] = map ((!) tbl) ds \<and> foldl (\<lambda>a d. a * b + d) 0 ds = n
    \<and> (\<forall>d \<in> set ds. d < b) \<and> (hd (digit_loop b tbl n []) = tbl ! 0 \<longrightarrow> n = 0)
    \<and> b ^ (length (digit_loop b tbl n []) - 1) \<le> max n 1"
proof -
  obtain ds where ds: "digit_loop b tbl n [] = map ((!) tbl) ds" "ds \<noteq> []" "\<forall>d \<in> set ds. d < b"
    "foldl (\<lambda>a d. a * b + d) 0 ds = n" "n \<noteq> 0 \<longrightarrow> hd ds \<noteq> 0"
    "b ^ (length ds - 1) \<le> n \<or> n = 0 \<and> length ds = 1"
    using digit_list [OF assms(1), of tbl n] by blast
  have "hd ds < b" using ds(2,3) by simp
  then have "hd ds < length tbl" "0 < length tbl" using assms by linarith+
  then have "tbl ! hd ds = tbl ! 0 \<longleftrightarrow> hd ds = 0"
    using assms(3) by (simp add: nth_eq_iff_index_eq)
  then show ?thesis
    using ds by (intro exI [of _ ds]) (auto simp: hd_map)
qed

theorem digits_exact_witness:
  "\<exists>ds. digit_loop 16 xtable 255 [] = map ((!) xtable) ds \<and> foldl (\<lambda>a d. a * 16 + d) 0 ds = 255"
  using digits_exact [of 16 xtable 255] by (auto simp: xtable_def)

lemma foldl_map_digits: "\<forall>d \<in> set ds. d < 10 \<Longrightarrow>
    foldl (\<lambda>a c. a * 10 + digit_val c) a (map ((!) dtable) ds) = foldl (\<lambda>a d. a * 10 + d) a ds"
proof (induction ds arbitrary: a)
  case Nil
  then show ?case by simp
next
  case (Cons d ds)
  have "d \<in> {0,1,2,3,4,5,6,7,8,9}" using Cons.prems by auto
  then have "digit_val (dtable ! d) = d" by (auto simp: digit_val_def dtable_def)
  then show ?case using Cons by simp
qed

lemma dtable_digit: "d < 10 \<Longrightarrow> is_digit (dtable ! d)" "d < 10 \<Longrightarrow> dtable ! d = CHR ''0'' \<longleftrightarrow> d = 0"
proof -
  assume "d < 10"
  then have "d \<in> {0,1,2,3,4,5,6,7,8,9}" by auto
  then show "is_digit (dtable ! d)" "dtable ! d = CHR ''0'' \<longleftrightarrow> d = 0"
    by (auto simp: is_digit_def dtable_def)
qed

lemma decimal:
  shows "dec_value (digit_loop 10 dtable n []) = n" "\<forall>c \<in> set (digit_loop 10 dtable n []). is_digit c"
    "digit_loop 10 dtable n [] \<noteq> []" "n \<noteq> 0 \<Longrightarrow> hd (digit_loop 10 dtable n []) \<noteq> CHR ''0''"
proof -
  obtain ds where ds: "digit_loop 10 dtable n [] = map ((!) dtable) ds" "ds \<noteq> []"
    "\<forall>d \<in> set ds. d < 10" "foldl (\<lambda>a d. a * 10 + d) 0 ds = n" "n \<noteq> 0 \<longrightarrow> hd ds \<noteq> 0"
    using digit_list [of 10 dtable n] by auto
  show "dec_value (digit_loop 10 dtable n []) = n"
    using ds by (simp add: dec_value_def foldl_map_digits)
  show "\<forall>c \<in> set (digit_loop 10 dtable n []). is_digit c" "digit_loop 10 dtable n [] \<noteq> []"
    using ds dtable_digit by auto
  show "hd (digit_loop 10 dtable n []) \<noteq> CHR ''0''" if "n \<noteq> 0"
    using ds that dtable_digit(2) by (simp add: hd_map)
qed

subsection \<open>Reading directives\<close>

definition starts_in :: "string \<Rightarrow> string \<Rightarrow> bool" where
  "starts_in cs s \<longleftrightarrow> s \<noteq> [] \<and> hd s \<in> set cs"

lemma digit_not_special: "is_digit c \<Longrightarrow> \<not> is_space c \<and> c \<noteq> CHR ''-'' \<and> c \<noteq> CHR ''+'' \<and> c \<noteq> CHR ''l''
    \<and> c \<noteq> CHR ''%'' \<and> c \<noteq> CHR '' ''"
  by (auto simp: is_digit_def is_space_def Let_def)

lemma strtol_digits:
  assumes "n < 2 ^ 63" and "rest = [] \<or> \<not> is_digit (hd rest)"
  shows "strtol (digit_loop 10 dtable n [] @ rest) = Some (int n, rest)"
    and "strtol (CHR ''-'' # digit_loop 10 dtable n [] @ rest) = Some (- int n, rest)"
    and "strtol (CHR ''+'' # digit_loop 10 dtable n [] @ rest) = Some (int n, rest)"
proof -
  obtain d ds where d: "digit_loop 10 dtable n [] = d # ds"
    using decimal(3) [of n] by (cases "digit_loop 10 dtable n []") auto
  have dig: "is_digit d" "\<forall>c \<in> set ds. is_digit c" "dec_value (d # ds) = n"
    using decimal(1,2) [of n] d by auto
  have tw: "takeWhile is_digit (d # ds @ rest) = d # ds" "dropWhile is_digit (d # ds @ rest) = rest"
    using dig assms(2) by (cases rest; auto simp: takeWhile_append dropWhile_append)+
  have n: "int n < 2 ^ 63" using assms(1) zless_nat_eq_int_zless [of n "2 ^ 63"] by (simp add: nat_power_eq)
  have sp: "\<not> is_space CHR ''-''" "\<not> is_space CHR ''+''" by (simp_all add: is_space_def)
  show "strtol (digit_loop 10 dtable n [] @ rest) = Some (int n, rest)"
    using digit_not_special [OF dig(1)] tw n dig(3) by (simp add: strtol_def d)
  show "strtol (CHR ''-'' # digit_loop 10 dtable n [] @ rest) = Some (- int n, rest)"
    using tw n dig(3) sp by (simp add: strtol_def d)
  show "strtol (CHR ''+'' # digit_loop 10 dtable n [] @ rest) = Some (int n, rest)"
    using tw n dig(3) sp by (simp add: strtol_def d)
qed

lemma read_width_digits:
  assumes "n < 2 ^ 63" and "rest = [] \<or> \<not> is_digit (hd rest)"
  shows "read_width (digit_loop 10 dtable n [] @ rest) = (n, rest)"
proof -
  have "int n < 2 ^ 63" using assms(1) zless_nat_eq_int_zless [of n "2 ^ 63"] by (simp add: nat_power_eq)
  then have "int n mod 2 ^ 64 = int n" by (intro mod_pos_pos_trivial) auto
  then show ?thesis
    by (simp add: read_width_def strtol_digits [OF assms])
qed

lemma read_width_none:
  assumes "s = [] \<or> (\<not> is_digit (hd s) \<and> \<not> is_space (hd s) \<and> hd s \<noteq> CHR ''-'' \<and> hd s \<noteq> CHR ''+'')"
  shows "read_width s = (0, s)"
  using assms by (cases s) (auto simp: read_width_def strtol_def)

text \<open>The text of a width: nothing for 0.\<close>

definition width_text :: "nat \<Rightarrow> string" where
  "width_text w = (if w = 0 then [] else digit_loop 10 dtable w [])"

lemma width_head:
  "width_text w = [] \<and> w = 0 \<or> (\<exists>c cs. width_text w = c # cs \<and> is_digit c \<and> c \<noteq> CHR ''0'')"
  using decimal(2,3,4) [of w]
  by (cases "digit_loop 10 dtable w []") (auto simp: width_text_def)

lemma read_width_text:
  assumes "w < 2 ^ 63" and "s = [] \<or> (\<not> is_digit (hd s) \<and> \<not> is_space (hd s) \<and> hd s \<noteq> CHR ''-'' \<and> hd s \<noteq> CHR ''+'')"
  shows "read_width (width_text w @ s) = (w, s)"
  using read_width_digits [OF assms(1)] read_width_none assms(2) by (auto simp: width_text_def)

lemma eat_simps [simp]:
  "eat c [] = (False, [])" "eat c (d # s) = (if d = c then (True, s) else (False, d # s))"
  by (simp_all add: eat_def)

lemma read_conversions_text:
  assumes "l \<le> 2" and "c \<in> set ''udxX''" and "\<not> starts_in ''udxX'' suf"
  shows "read_conversions (replicate l CHR ''l'' @ c # suf) d =
    d\<lparr>d_l := l, d_u := of_bool (c = CHR ''u''), d_d := of_bool (c = CHR ''d''),
      d_x := of_bool (c = CHR ''x''), d_X := of_bool (c = CHR ''X''), d_rest := suf\<rparr>"
proof -
  have suf: "eat e suf = (False, suf)" if "e \<in> set ''udxX''" for e
    using assms(3) that by (cases suf) (auto simp: starts_in_def)
  note sufs = suf [of "CHR ''u''", simplified] suf [of "CHR ''d''", simplified]
    suf [of "CHR ''x''", simplified] suf [of "CHR ''X''", simplified]
  have c: "c = CHR ''u'' \<or> c = CHR ''d'' \<or> c = CHR ''x'' \<or> c = CHR ''X''" using assms(2) by auto
  have l: "l = 0 \<or> l = 1 \<or> l = 2" using assms(1) by auto
  show ?thesis
    using l c by (elim disjE) (simp_all add: read_conversions_def sufs numeral_2_eq_2)
qed

lemma conversions_head:
  assumes "c \<in> set ''udxX''"
  shows "\<not> is_digit (hd (replicate l CHR ''l'' @ c # suf)) \<and> \<not> is_space (hd (replicate l CHR ''l'' @ c # suf))
    \<and> hd (replicate l CHR ''l'' @ c # suf) \<notin> set ''-+0 %''"
  using assms by (cases l) (auto simp: is_digit_def is_space_def)

lemma format_split:
  "CHR ''%'' \<notin> set pre \<Longrightarrow>
   takeWhile (\<lambda>c. c \<noteq> CHR ''%'') (pre @ CHR ''%'' # next) = pre \<and>
   dropWhile (\<lambda>c. c \<noteq> CHR ''%'') (pre @ CHR ''%'' # next) = CHR ''%'' # next"
  by (induction pre) auto

definition flag :: "bool \<Rightarrow> char \<Rightarrow> string" where
  "flag b c = (if b then [c] else [])"

lemma eat_flag: "s = [] \<or> hd s \<noteq> c \<Longrightarrow> eat c (flag b c @ s) = (b, s)"
  by (cases s) (auto simp: flag_def)

definition u_tail :: "nat \<Rightarrow> nat \<Rightarrow> char \<Rightarrow> string \<Rightarrow> string" where
  "u_tail w l c suf = width_text w @ replicate l CHR ''l'' @ c # suf"

lemma u_tail_read:
  assumes "w < 2 ^ 63" and "l \<le> 2" and "c \<in> set ''udxX''" and "\<not> starts_in ''udxX'' suf"
  shows "read_width (u_tail w l c suf) = (w, replicate l CHR ''l'' @ c # suf)"
    and "u_tail w l c suf \<noteq> []"
    and "hd (u_tail w l c suf) \<notin> set ''-+0 %''"
proof -
  note h = conversions_head [OF assms(3), of l suf]
  show "read_width (u_tail w l c suf) = (w, replicate l CHR ''l'' @ c # suf)"
    unfolding u_tail_def by (rule read_width_text [OF assms(1)]) (use h in auto)
  show "u_tail w l c suf \<noteq> []" by (simp add: u_tail_def)
  show "hd (u_tail w l c suf) \<notin> set ''-+0 %''"
    using h width_head [of w] digit_not_special by (auto simp: u_tail_def)
qed

definition pad_left :: "bool \<Rightarrow> nat \<Rightarrow> string \<Rightarrow> string" where
  "pad_left z w ds =
     (if w \<le> length ds then ds
      else replicate (w - length ds) (if z then CHR ''0'' else CHR '' '') @ ds)"

lemma writes_u_body:
  assumes "ds_ok g"
  shows "writes g (pad_left (d_zero d) (d_width d) digs @ d_rest d) False (printf_u_body d digs g [])"
proof -
  have tail: "writes2 g' (d_rest d) (if d_rest d \<noteq> [] then append_ignore (d_rest d) g' [] else Some (g', []))"
    if "ds_ok g'" for g'
    using that writes2_ignore [of g' "d_rest d"] writes2_Some [of g'] by auto
  obtain b where zeros: "writes g (replicate (d_width d - length digs) CHR ''0'') b
      (append_zeros False (d_width d - length digs) g [])" using writes_pad_zeros [OF assms] by blast
  have head: "writes2 g (pad_left (d_zero d) (d_width d) digs)
     (if d_width d \<le> length digs then append_ignore digs g []
      else if \<not> d_zero d then do {
        (_, g2, mem2) \<leftarrow> append_spaces (d_width d - length digs) g [];
        append_ignore digs g2 mem2
      }
      else do {
        (_, g2, mem2) \<leftarrow> append_zeros False (d_width d - length digs) g [];
        append_ignore digs g2 mem2
      })"
    using assms
    by (auto simp: pad_left_def intro!: writes2_ignore writes2_bind [OF writes_pad_spaces]
        writes2_bind [OF zeros])
  have "writes g (pad_left (d_zero d) (d_width d) digs @ d_rest d @ []) False (printf_u_body d digs g [])"
    unfolding printf_u_body_def
  proof (rule writes_bind2 [OF head], goal_cases)
    case (1 g')
    show ?case
      unfolding prod.case by (rule writes_bind2 [OF tail [OF 1]]) (simp add: writes_Some)
  qed
  then show ?thesis by simp
qed

text \<open>
  an unsigned directive (zero flag, width, one of \<open>u\<close>, \<open>x\<close>, \<open>X\<close> with up to two \<open>l\<close>s)
  appends the text before it, the digits padded on the left to the width, and the text
  after it. The function returns FALSE even so, although the file promises TRUE.
\<close>

theorem printf_u_text:
  assumes ok: "ds_ok g" and pre: "CHR ''%'' \<notin> set pre" and w: "w < 2 ^ 63" and l: "l \<le> 2"
    and c: "c \<in> set ''uxX''" and suf: "\<not> starts_in ''udxXs'' suf"
  shows "writes g (pre @ pad_left z w (digit_loop (if c = CHR ''u'' then 10 else 16)
        (if c = CHR ''u'' then dtable else if c = CHR ''x'' then xtable else Xtable) (unat v) []) @ suf) False
    (dwarfstring_append_printf_u
       (Some (pre @ ''%'' @ flag z CHR ''0'' @ width_text w @ replicate l CHR ''l'' @ c # suf)) v g [])"
proof -
  have c': "c \<in> set ''udxX''" and suf': "\<not> starts_in ''udxX'' suf"
    using c suf by (auto simp: starts_in_def)
  note t = u_tail_read [OF w l c' suf']
  let ?next = "flag z CHR ''0'' @ u_tail w l c suf"
  define d where "d = no_directive\<lparr>d_zero := z, d_width := w, d_l := l, d_u := of_bool (c = CHR ''u''),
      d_d := of_bool (c = CHR ''d''), d_x := of_bool (c = CHR ''x''),
      d_X := of_bool (c = CHR ''X''), d_rest := suf\<rparr>"
  have read: "read_directive_u ?next = d"
    using t eat_flag [of "u_tail w l c suf" "CHR ''0''" z] read_conversions_text [OF l c' suf']
    by (simp add: read_directive_u_def d_def)
  have d: "d_rest d = suf" "d_l d = l" "d_d d = 0" "d_X d + d_x d + d_d d + d_u d = 1"
    "d_zero d = z" "d_width d = w" "d_u d = of_bool (c = CHR ''u'')" "d_x d = of_bool (c = CHR ''x'')"
    using c by (auto simp: d_def no_directive_def)
  have nx: "?next \<noteq> []" "peek ?next \<noteq> CHR '' ''" "peek ?next \<noteq> CHR ''-''"
    using t(2,3) by (cases "u_tail w l c suf"; auto simp: flag_def)+
  have s: "peek suf \<noteq> CHR ''s''" using suf by (cases suf) (auto simp: starts_in_def)
  have body: "writes g' (pad_left z w (u_digits d v) @ suf) False (printf_u_body d (u_digits d v) g' [])"
    if "ds_ok g'" for g' using writes_u_body [OF that, of d "u_digits d v"] d by simp
  have "writes g (pre @ pad_left z w (u_digits d v) @ suf) False
      (dwarfstring_append_printf_u (Some (pre @ CHR ''%'' # ?next)) v g [])"
    unfolding dwarfstring_append_printf_u_def option.case Let_def
      conjunct1 [OF format_split [OF pre]] conjunct2 [OF format_split [OF pre]]
  proof (rule writes_bind2 [OF writes2_ignore [OF ok]], goal_cases)
    case (1 g')
    then show ?case
      using body [OF 1] s l nx t(2) d(1-4) by (simp add: read)
  qed
  moreover have "u_digits d v = digit_loop (if c = CHR ''u'' then 10 else 16)
        (if c = CHR ''u'' then dtable else if c = CHR ''x'' then xtable else Xtable) (unat v) []"
    using c d by (auto simp: u_digits_def)
  ultimately show ?thesis by (simp add: u_tail_def)
qed

theorem printf_u_text_witness:
  "writes dwarfstring_constructor ''a00001fz'' False
     (dwarfstring_append_printf_u (Some ''a%06llxz'') 31 dwarfstring_constructor [])"
proof -
  have w: "width_text 6 = ''6''" "digit_loop 16 xtable 31 [] = ''1f''"
    by (simp_all add: width_text_def digit_loop.simps dtable_def xtable_def)
  have "writes dwarfstring_constructor (''a'' @ pad_left True 6 (digit_loop (if CHR ''x'' = CHR ''u'' then 10 else 16)
        (if CHR ''x'' = CHR ''u'' then dtable else if CHR ''x'' = CHR ''x'' then xtable else Xtable)
        (unat (31 :: u64)) []) @ ''z'') False
    (dwarfstring_append_printf_u
       (Some (''a'' @ ''%'' @ flag True CHR ''0'' @ width_text 6 @ replicate 2 CHR ''l'' @ CHR ''x'' # ''z''))
         31 dwarfstring_constructor [])"
    by (rule printf_u_text) (simp_all add: starts_in_def)
  moreover have "replicate 2 CHR ''l'' = ''ll''" "replicate (6 - 2) CHR ''0'' = ''0000''"
    by (simp_all add: numeral_eq_Suc)
  ultimately show ?thesis using w by (simp add: pad_left_def flag_def)
qed

definition pad_signed :: "bool \<Rightarrow> nat \<Rightarrow> string \<Rightarrow> string" where
  "pad_signed z w t =
     (if w \<le> length t then t
      else if \<not> z then replicate (w - length t) CHR '' '' @ t
      else if starts_in ''-+'' t then hd t # replicate (w - length t) CHR ''0'' @ tl t
      else replicate (w - length t) CHR ''0'' @ t)"

lemma length_pad_signed: "length (pad_signed z w t) = max w (length t)"
  by (cases t) (auto simp: pad_signed_def starts_in_def)

lemma writes_i_body:
  assumes ok: "ds_ok g"
  shows "writes g (pad_signed (d_zero d) (d_width d) digs @ d_rest d) True (printf_i_body d digs g [])"
proof -
  let ?n = "d_width d - length digs"
  have tail: "writes g' (d_rest d) True (if d_rest d \<noteq> [] then dwarfstring_append_length (Some (d_rest d))
      (length (d_rest d)) g' [] else Some (True, g', []))" if "ds_ok g'" for g'
    using that writes_append_all [of g' "d_rest d"] writes_Some [of g'] by auto
  have sign: "peek digs = CHR ''-'' \<or> peek digs = CHR ''+'' \<longleftrightarrow> starts_in ''-+'' digs"
    by (cases digs) (auto simp: starts_in_def)
  have ign: "writes g' (t @ []) True (append_ignore t g' [] \<bind> (\<lambda>(g2, mem2). Some (True, g2, mem2)))"
    if "ds_ok g'" for g' t
    by (rule writes_bind2 [OF writes2_ignore [OF that]]) (simp add: writes_Some)
  obtain b where z: "writes g (replicate ?n CHR ''0'') b (append_zeros False ?n g [])"
    using writes_pad_zeros [OF ok] by blast
  have zs: "\<exists>b. writes g' (replicate ?n CHR ''0'') b (append_zeros False ?n g' [])" if "ds_ok g'" for g'
    using writes_pad_zeros [OF that] by blast
  have signed: "writes g' ((replicate ?n CHR ''0'' @ (tl digs @ []))) True
      (append_zeros False ?n g' [] \<bind> (\<lambda>(uu, g3, mem3). append_ignore (tl digs) g3 mem3 \<bind>
         (\<lambda>(g4, mem4). Some (True, g4, mem4))))" if g': "ds_ok g'" for g'
  proof -
    obtain b' where "writes g' (replicate ?n CHR ''0'') b' (append_zeros False ?n g' [])"
      using zs [OF g'] by blast
    from writes_bind [OF this] show ?thesis using ign by simp
  qed
  have head: "writes g (pad_signed (d_zero d) (d_width d) digs) True
      (if 0 < d_width d then
            if d_width d \<le> length digs then do {
              (g2, mem2) \<leftarrow> append_ignore digs g [];
              Some (True, g2, mem2)
            }
            else let prefixcount = ?n in
              if \<not> d_zero d then do {
                (_, g2, mem2) \<leftarrow> append_spaces prefixcount g [];
                (g3, mem3) \<leftarrow> append_ignore digs g2 mem2;
                Some (True, g3, mem3)
              }
              else if peek digs = CHR ''-'' \<or> peek digs = CHR ''+'' then do {
                (g2, mem2) \<leftarrow> append_ignore [peek digs] g [];
                (_, g3, mem3) \<leftarrow> append_zeros False prefixcount g2 mem2;
                (g4, mem4) \<leftarrow> append_ignore (tl digs) g3 mem3;
                Some (True, g4, mem4)
              }
              else do {
                (_, g2, mem2) \<leftarrow> append_zeros False prefixcount g [];
                (g3, mem3) \<leftarrow> append_ignore digs g2 mem2;
                Some (True, g3, mem3)
              }
          else dwarfstring_append_length (Some digs) (length digs) g [])"
  proof -
    consider "d_width d \<le> length digs" | "length digs < d_width d" "\<not> d_zero d"
      | "length digs < d_width d" "d_zero d" "starts_in ''-+'' digs"
      | "length digs < d_width d" "d_zero d" "\<not> starts_in ''-+'' digs" by fastforce
    then show ?thesis
    proof cases
      case 1
      then show ?thesis
        using ign [OF ok, of digs] writes_append_all [OF ok, of digs] by (auto simp: pad_signed_def)
    next
      case 2
      then show ?thesis
        using writes_bind [OF writes_pad_spaces [OF ok, of ?n], where u = "digs @ []"] ign
        by (simp add: pad_signed_def)
    next
      case 3
      then have pk: "append_ignore [peek digs] = append_ignore [hd digs]"
        by (cases digs) (auto simp: starts_in_def)
      show ?thesis
        using 3 writes_bind2 [OF writes2_ignore [OF ok, of "[hd digs]"],
            where u = "replicate ?n CHR ''0'' @ tl digs @ []"] signed
        by (simp add: pad_signed_def sign pk)
    next
      case 4
      then show ?thesis
        using writes_bind [OF z, where u = "digs @ []"] ign by (simp add: pad_signed_def sign)
    qed
  qed
  show ?thesis
    unfolding printf_i_body_def
    by (rule writes_bind [OF head]) (simp add: tail)
qed

text \<open>The text of a signed number reads back as the number, for the most negative one too.\<close>

lemma less_2_63: "int n < 2 ^ 63 \<Longrightarrow> n < 2 ^ 63"
  by simp

lemma strtol_i_digits: "strtol (i_digits v p) = Some (sint v, [])"
proof (cases "sint v < 0")
  case neg: True
  show ?thesis
  proof (cases "NOT v = 0x7fffffffffffffff")
    case True
    then have "NOT (NOT v) = NOT 0x7fffffffffffffff" by (rule arg_cong)
    then have "v = NOT 0x7fffffffffffffff" by simp
    then have "sint v = - 9223372036854775808" by simp
    moreover have "strtol v64m = Some (- 9223372036854775808, [])"
      by (simp add: strtol_def v64m_def is_digit_def is_space_def dec_value_def digit_val_def)
    ultimately show ?thesis using neg True by (simp add: i_digits_def)
  next
    case False
    have "sint v \<noteq> - (2 ^ 63)"
    proof
      assume "sint v = - (2 ^ 63)"
      from sint_min [OF this] show False using False by simp
    qed
    then have "int (unat (- v)) < 2 ^ 63"
      using sint_lower [of v] unat_minus_negative [OF neg] by linarith
    then have "unat (- v) < 2 ^ 63" by (rule less_2_63)
    from strtol_digits(2) [OF this, of "[]"] show ?thesis
      using neg False unat_minus_negative [OF neg] by (simp add: i_digits_def)
  qed
next
  case False
  have n: "int (unat v) = sint v" using False sint_not_negative by simp
  then have "int (unat v) < 2 ^ 63" using sint_upper [of v] by linarith
  then have "unat v < 2 ^ 63" by (rule less_2_63)
  from strtol_digits(1,3) [OF this, of "[]"] show ?thesis
    unfolding i_digits_def if_not_P [OF False] Let_def using n by simp
qed

text \<open>
  a signed directive (a plus or a minus flag, zero flag, width, \<open>d\<close> with up to two
  \<open>l\<close>s) appends the text before it, a text of at least the width that \<open>strtol\<close> reads back
  as the number, the most negative one included, and the text after it. The minus flag is
  accepted and changes nothing: the padding stays on the left.
\<close>

theorem printf_i_text:
  assumes ok: "ds_ok g" and pre: "CHR ''%'' \<notin> set pre" and w: "w < 2 ^ 63" and l: "l \<le> 2"
    and suf: "\<not> starts_in ''udxXs'' suf" and pm: "\<not> (p \<and> m)"
  shows "\<exists>t. writes g (pre @ pad_signed z w t @ suf) True
      (dwarfstring_append_printf_i (Some (pre @ ''%'' @ flag m CHR ''-'' @ flag p CHR ''+'' @
          flag z CHR ''0'' @ width_text w @ replicate l CHR ''l'' @ CHR ''d'' # suf)) v g [])
    \<and> strtol t = Some (sint v, []) \<and> length (pad_signed z w t) = max w (length t)
    \<and> (p \<longrightarrow> hd t \<in> set ''-+'')"
proof -
  have c': "CHR ''d'' \<in> set ''udxX''" and suf': "\<not> starts_in ''udxX'' suf"
    using suf by (auto simp: starts_in_def)
  note t = u_tail_read [OF w l c' suf']
  let ?tl = "u_tail w l CHR ''d'' suf"
  let ?next = "flag m CHR ''-'' @ flag p CHR ''+'' @ flag z CHR ''0'' @ ?tl"
  let ?t = "i_digits v p"
  define d where "d = no_directive\<lparr>d_minus := of_bool m, d_plus := of_bool p, d_zero := z,
      d_width := w, d_l := l, d_u := 0, d_d := 1, d_x := 0, d_X := 0, d_rest := suf\<rparr>"
  have tlh: "hd ?tl \<noteq> CHR ''-''" "hd ?tl \<noteq> CHR ''+''" "hd ?tl \<noteq> CHR ''0''" "hd ?tl \<noteq> CHR '' ''" using t(3) by auto
  obtain x xs where tl: "?tl = x # xs" using t(2) by (cases ?tl) auto
  have read: "read_directive_i ?next = d"
    using t(1) tlh read_conversions_text [OF l c' suf'] tl pm
    by (cases m; cases p; cases z) (simp_all add: read_directive_i_def d_def flag_def no_directive_def)
  have d: "d_rest d = suf" "d_l d = l" "d_d d = 1" "d_u d = 0" "d_x d = 0" "d_X d = 0"
    "d_zero d = z" "d_width d = w" "(d_plus d \<noteq> 0) = p" "\<not> (d_plus d \<noteq> 0 \<and> d_minus d \<noteq> 0)"
    using pm by (auto simp: d_def no_directive_def)
  have nx: "?next \<noteq> []" "peek ?next \<noteq> CHR '' ''"
    using tl tlh by (cases m; cases p; cases z; simp add: flag_def)+
  have s: "peek suf \<noteq> CHR ''s''" using suf by (cases suf) (auto simp: starts_in_def)
  have body: "writes g' (pad_signed z w ?t @ suf) True (printf_i_body d ?t g' [])"
    if "ds_ok g'" for g' using writes_i_body [OF that, of d ?t] d by simp
  have "writes g (pre @ pad_signed z w ?t @ suf) True
      (dwarfstring_append_printf_i (Some (pre @ CHR ''%'' # ?next)) v g [])"
    unfolding dwarfstring_append_printf_i_def option.case Let_def
      conjunct1 [OF format_split [OF pre]] conjunct2 [OF format_split [OF pre]]
  proof (rule writes_bind2 [OF writes2_ignore [OF ok]], goal_cases)
    case (1 g')
    then show ?case
      using body [OF 1] s l nx d pm t(2) by (auto simp: read)
  qed
  moreover have "length (pad_signed z w ?t) = max w (length ?t)"
    by (rule length_pad_signed)
  moreover have "p \<longrightarrow> hd ?t \<in> set ''-+''" by (auto simp: i_digits_def Let_def v64m_def)
  ultimately show ?thesis
    using strtol_i_digits [of v p] by (intro exI [of _ ?t]) (simp add: u_tail_def)
qed

theorem printf_i_text_witness:
  "\<exists>t. writes dwarfstring_constructor (pad_signed False 5 t) True
     (dwarfstring_append_printf_i (Some ''%-5d'') (- 7) dwarfstring_constructor []) \<and>
   strtol t = Some (- 7, [])"
proof -
  have w: "width_text 5 = ''5''" by (simp add: width_text_def digit_loop.simps dtable_def)
  show ?thesis
    using printf_i_text [of dwarfstring_constructor "[]" 5 0 "[]" False True False "- 7"]
    by (auto simp: w flag_def starts_in_def)
qed

text \<open>What \<open>%s\<close> should append: the string, padded on the chosen side to the width.\<close>

definition pad_string :: "bool \<Rightarrow> nat \<Rightarrow> string \<Rightarrow> string" where
  "pad_string left w s =
     (let blanks = replicate (w - length s) CHR '' '' in if left then s @ blanks else blanks @ s)"

lemma writes_s_body:
  assumes ok: "ds_ok g"
  shows "writes g (pad_string left w s @ rest) True (printf_s_body left w s rest g [])"
proof -
  have tail: "writes g' rest True (if rest = [] then Some (True, g', []) else
      dwarfstring_append_length (Some rest) (length rest) g' [])" if "ds_ok g'" for g'
    using that writes_append_all [of g' rest] writes_Some [of g'] by auto
  let ?inner = "if left \<and> \<not> (w \<noteq> 0 \<and> w \<le> length s) then do {
            (g2, mem2) \<leftarrow> append_ignore s g [];
            if w \<noteq> 0 then do {
              (_, g3, mem3) \<leftarrow> append_spaces (w - length s) g2 mem2;
              Some (False, False, g3, mem3)
            } else Some (False, False, g2, mem2)
          }
          else if w \<noteq> 0 \<and> w < length s then do {
            (g2, mem2) \<leftarrow> append_ignore s g [];
            Some (False, False, g2, mem2)
          }
          else do {
            (g2, mem2) \<leftarrow> (if w \<noteq> 0 then append_each_space (w - length s) g []
                           else Some (g, []));
            (r, g3, mem3) \<leftarrow> dwarfstring_append_length (Some s) (length s) g2 mem2;
            Some (r, \<not> r, g3, mem3)
          }"
  have "\<exists>b g'. ?inner = Some (b, False, g', []) \<and> ds_ok g' \<and>
      dwarfstring_string g' = dwarfstring_string g @ pad_string left w s"
  proof -
    obtain g2 where g2: "append_ignore s g [] = Some (g2, [])" "ds_ok g2"
      "dwarfstring_string g2 = dwarfstring_string g @ s"
      using writes2_ignore [OF ok, of s] by (auto simp: writes2_def writes_def)
    obtain g3 where g3: "append_spaces (w - length s) g2 [] = Some (True, g3, [])" "ds_ok g3"
      "dwarfstring_string g3 = dwarfstring_string g2 @ replicate (w - length s) CHR '' ''"
      using writes_pad_spaces [OF g2(2), of "w - length s"] by (auto simp: writes_def)
    obtain g4 where g4: "append_each_space (w - length s) g [] = Some (g4, [])" "ds_ok g4"
      "dwarfstring_string g4 = dwarfstring_string g @ replicate (w - length s) CHR '' ''"
      using writes2_each_space [OF ok, of "w - length s"] by (auto simp: writes2_def writes_def)
    obtain g5 where g5: "dwarfstring_append_length (Some s) (length s) g4 [] = Some (True, g5, [])" "ds_ok g5"
      "dwarfstring_string g5 = dwarfstring_string g4 @ s"
      using writes_append_all [OF g4(2), of s] by (auto simp: writes_def)
    obtain g6 where g6: "dwarfstring_append_length (Some s) (length s) g [] = Some (True, g6, [])" "ds_ok g6"
      "dwarfstring_string g6 = dwarfstring_string g @ s"
      using writes_append_all [OF ok, of s] by (auto simp: writes_def)
    consider "left" "w = 0" | "left" "length s < w" | "w \<noteq> 0" "w < length s" | "w \<noteq> 0" "w = length s"
      | "\<not> left" "w = 0" | "\<not> left" "length s < w" by linarith
    then show ?thesis
      by cases (use g2 g3 g4 g5 g6 in \<open>auto simp: pad_string_def Let_def\<close>)
  qed
  then obtain b g' where i: "?inner = Some (b, False, g', [])" "ds_ok g'"
    "dwarfstring_string g' = dwarfstring_string g @ pad_string left w s" by blast
  show ?thesis
    unfolding printf_s_body_def i(1)
    using tail [OF i(2)] i(3) by (auto simp: writes_def)
qed

text \<open>
  \<open>%s\<close>, with an optional minus flag and width, appends the text before it, the whole
  string padded with blanks to the width on the left (on the right after the minus flag), and the
  text after it, and reports TRUE.
\<close>

theorem printf_s_text:
  assumes ok: "ds_ok g" and pre: "CHR ''%'' \<notin> set pre" and w: "w < 2 ^ 63"
  shows "writes g (pre @ pad_string left w s @ suf) True
    (dwarfstring_append_printf_s
       (Some (pre @ ''%'' @ flag left CHR ''-'' @ width_text w @ ''s'' @ suf)) (Some s) g [])"
proof -
  let ?tl = "width_text w @ CHR ''s'' # suf"
  let ?next = "flag left CHR ''-'' @ ?tl"
  have rw: "read_width ?tl = (w, CHR ''s'' # suf)"
    by (rule read_width_text [OF w]) (simp add: is_digit_def is_space_def)
  have hd: "hd ?tl \<noteq> CHR ''-''" "hd ?tl \<noteq> CHR '' ''" "?tl \<noteq> []"
    using width_head [of w] digit_not_special by auto
  have e: "eat CHR ''-'' ?next = (left, ?tl)" using hd by (intro eat_flag) auto
  have nx: "?next \<noteq> []" "peek ?next \<noteq> CHR '' ''"
    using hd by (cases ?tl; cases left; simp add: flag_def)+
  have pre': "writes2 g pre (if pre = [] then Some (g, []) else append_ignore pre g [])"
    using writes2_ignore [OF ok, of pre] writes2_Some [OF ok] by auto
  have "writes g (pre @ pad_string left w s @ suf) True
    (dwarfstring_append_printf_s (Some (pre @ CHR ''%'' # ?next)) (Some s) g [])"
    unfolding dwarfstring_append_printf_s_def option.case Let_def
      conjunct1 [OF format_split [OF pre]] conjunct2 [OF format_split [OF pre]]
  proof (rule writes_bind2 [OF pre'], goal_cases)
    case (1 g')
    then show ?case
      using writes_s_body [OF 1, of left w s suf] nx e rw hd(3) by auto
  qed
  then show ?thesis by simp
qed

theorem printf_s_text_witness:
  "writes dwarfstring_constructor ''[ab   ]'' True
     (dwarfstring_append_printf_s (Some ''[%-5s]'') (Some ''ab'') dwarfstring_constructor [])"
proof -
  have w: "width_text 5 = ''5''" by (simp add: width_text_def digit_loop.simps dtable_def)
  have p: "pad_string True 5 ''ab'' = ''ab   ''"
    by (simp add: pad_string_def eval_nat_numeral)
  have "writes dwarfstring_constructor (''['' @ pad_string True 5 ''ab'' @ '']'') True
     (dwarfstring_append_printf_s
       (Some (''['' @ ''%'' @ flag True CHR ''-'' @ width_text 5 @ ''s'' @ '']'')) (Some ''ab'')
       dwarfstring_constructor [])"
    by (rule printf_s_text) simp_all
  then show ?thesis unfolding p w by (simp add: flag_def)
qed

subsection \<open>The other operations\<close>

lemma constructors_ok:
  "space \<noteq> [] \<Longrightarrow> len \<le> length space \<Longrightarrow> \<exists>g. dwarfstring_constructor_static space len mem = Some (True, g, mem)
     \<and> ds_ok g \<and> dwarfstring_string g = []"
  "dwarfstring_constructor_fixed len [] = Some (r, g, mem') \<Longrightarrow> ds_ok g \<and> dwarfstring_string g = [] \<and> r"
proof -
  show "\<exists>g. dwarfstring_constructor_static space len mem = Some (True, g, mem)
     \<and> ds_ok g \<and> dwarfstring_string g = []" if "space \<noteq> []" "len \<le> length space"
    using that by (cases space) (auto simp: dwarfstring_constructor_static_def store_def ds_ok_def
        dwarfstring_strlen_def dwarfstring_string_def)
  show "ds_ok g \<and> dwarfstring_string g = [] \<and> r"
    if "dwarfstring_constructor_fixed len [] = Some (r, g, mem')"
  proof (cases "len = 0")
    case True
    then show ?thesis using that by (auto simp: dwarfstring_constructor_fixed_def)
  next
    case False
    from resize_ok [OF ds_ok_constructor _ refl, of len "[]"] that False show ?thesis
      by (auto simp: dwarfstring_constructor_fixed_def ds_ok_def dwarfstring_constructor_def
          dwarfstring_strlen_def dwarfstring_string_def)
  qed
qed

lemma reset_ok: "ds_ok g \<Longrightarrow> \<exists>g'. dwarfstring_reset g mem = Some (True, g', mem) \<and> ds_ok g' \<and>
    (s_size g \<noteq> 0 \<longrightarrow> dwarfstring_string g' = [])"
  by (auto simp: dwarfstring_reset_def ds_ok_def store_def dwarfstring_strlen_def dwarfstring_string_def
      split: if_splits)

lemma append_text: "ds_ok g \<Longrightarrow> writes g s True (dwarfstring_append (Some s) g [])"
  by (simp add: dwarfstring_append_def writes_append_all)

end
