(* ===== verification/Launcher.thy ===== *)
theory Launcher
  imports Prelude
begin

text \<open>
  The launcher of the kit: \<open>launcher_u.c\<close>, \<open>os_specific_l.c\<close> and \<open>utils.c\<close>. It finds the
  kit's directory, sets the library paths the injector and the tool need, keeps the
  application's own settings aside, and runs \<open>pinbin\<close> with the command line.
  What the operating system answers is a parameter (\<open>host\<close>); \<open>is_directory_file\<close> is a function
  of the C runtime that is not in the repository.
\<close>

subsection \<open>Stopping, the host and the environment\<close>

datatype stop = Abort | Exit nat | Memory_error

type_synonym 'a launch = "stop + 'a"

fun sum_bind :: "'e + 'a \<Rightarrow> ('a \<Rightarrow> 'e + 'b) \<Rightarrow> 'e + 'b" where
  "sum_bind (Inl e) f = Inl e"
| "sum_bind (Inr x) f = f x"

datatype cpu_arch = ARCH_IA32 | ARCH_INTEL64 | ARCH_INVALID | ARCH_ERROR

record host =
  proc_self_exe :: "string option option"
    \<comment> \<open>\<open>None\<close>: no \<open>/proc/self/exe\<close>; \<open>Some None\<close>: \<open>readlink\<close> fails; else the link\<close>
  readable_file :: "string \<Rightarrow> bool" \<comment> \<open>\<open>access(fn, R_OK) != -1\<close>\<close>
  is_directory_file :: "string \<Rightarrow> bool"
  resolved_path :: "string \<Rightarrow> string option" \<comment> \<open>\<open>realpath\<close>\<close>
  host_arch :: cpu_arch
  setenv_result :: "string \<Rightarrow> int"

type_synonym environment = "string \<Rightarrow> string option"

definition PATH_MAX :: nat where
  "PATH_MAX = 4096"

definition PATH_MAX_SIZE :: nat where
  "PATH_MAX_SIZE = 4096"

subsection \<open>\<open>utils.c\<close>\<close>

definition get_strlen :: "string \<Rightarrow> nat launch" where
  "get_strlen str =
     (let len = min (length str) PATH_MAX_SIZE in if 0 < len then Inr len else Inl Abort)"

definition opt_strlen :: "string option \<Rightarrow> nat launch" where
  "opt_strlen s = (case s of None \<Rightarrow> Inr 0 | Some str \<Rightarrow> get_strlen str)"

definition opt_string :: "string option \<Rightarrow> string" where
  "opt_string s = (case s of None \<Rightarrow> [] | Some str \<Rightarrow> str)"

text \<open>
  \<open>n\<close> bytes are allocated, and \<open>strcpy\<close> and \<open>strcat\<close> write the whole strings and a NUL.
\<close>

definition appendPath :: "string option \<Rightarrow> string option \<Rightarrow> string option \<Rightarrow> string launch" where
  "appendPath s1 s2 s3 =
     sum_bind (opt_strlen s1) (\<lambda>n1.
     sum_bind (opt_strlen s2) (\<lambda>n2.
     sum_bind (opt_strlen s3) (\<lambda>n3.
       let n = 1 + n1 + n2 + n3; p = opt_string s1 @ opt_string s2 @ opt_string s3
       in if n < length p + 1 then Inl Memory_error else Inr p)))"

definition check_retval :: "int \<Rightarrow> unit launch" where
  "check_retval retval = (if retval \<noteq> 0 then Inl (Exit 1) else Inr ())"

definition check_file_exists :: "host \<Rightarrow> string \<Rightarrow> bool" where
  "check_file_exists h fn = readable_file h fn"

definition check_file :: "host \<Rightarrow> string \<Rightarrow> unit launch" where
  "check_file h fn = (if \<not> check_file_exists h fn then Inl (Exit 1) else Inr ())"

definition check_not_directory :: "host \<Rightarrow> string \<Rightarrow> bool" where
  "check_not_directory h fn = is_directory_file h fn"

definition check_file_in_dir :: "host \<Rightarrow> string \<Rightarrow> string \<Rightarrow> bool launch" where
  "check_file_in_dir h fn dir =
     sum_bind (appendPath (Some dir) (Some ''/'') (Some fn)) (\<lambda>buff.
       Inr (check_file_exists h buff \<and> check_not_directory h buff))"

text \<open>The directories between the separators; the loop of \<open>search_in_path\<close> goes through them.\<close>

fun split_dirs :: "string \<Rightarrow> string list" where
  "split_dirs [] = [[]]"
| "split_dirs (c # cs) =
     (if c = CHR '':'' then [] # split_dirs cs
      else case split_dirs cs of [] \<Rightarrow> [[c]] | d # ds \<Rightarrow> (c # d) # ds)"

fun search_dirs :: "host \<Rightarrow> string \<Rightarrow> string list \<Rightarrow> string option launch" where
  "search_dirs h exename [] = Inr None"
| "search_dirs h exename (dir # dirs) =
     sum_bind (check_file_in_dir h exename dir) (\<lambda>found.
       if found then Inr (Some dir) else search_dirs h exename dirs)"

definition search_in_path :: "host \<Rightarrow> environment \<Rightarrow> string \<Rightarrow> string option launch" where
  "search_in_path h env exename =
     (case env ''PATH'' of
        None \<Rightarrow> Inl Abort
      | Some syspath \<Rightarrow>
          sum_bind (get_strlen syspath) (\<lambda>_.
          sum_bind (get_strlen exename) (\<lambda>_.
            search_dirs h exename (split_dirs syspath))))"

definition find_base_path :: "host \<Rightarrow> environment \<Rightarrow> string \<Rightarrow> string launch" where
  "find_base_path h env filename =
     (if CHR ''/'' \<in> set filename
      then Inr (rev (tl (dropWhile (\<lambda>c. c \<noteq> CHR ''/'') (rev filename))))
      else sum_bind (search_in_path h env filename) (\<lambda>x.
        case x of Some dir \<Rightarrow> Inr dir | None \<Rightarrow> Inr filename))"

subsection \<open>\<open>os_specific_l.c\<close>\<close>

text \<open>The result is cached in a static variable; the host does not change.\<close>

definition IsHostArch64Bit :: "host \<Rightarrow> bool" where
  "IsHostArch64Bit h = (host_arch h \<noteq> ARCH_IA32)"

definition setenv_checked :: "host \<Rightarrow> string \<Rightarrow> string \<Rightarrow> environment \<Rightarrow> environment launch" where
  "setenv_checked h name val env =
     sum_bind (check_retval (setenv_result h name)) (\<lambda>_. Inr (env(name \<mapsto> val)))"

definition keep_for_app :: "host \<Rightarrow> string \<Rightarrow> string \<Rightarrow> environment \<Rightarrow> environment launch" where
  "keep_for_app h name app_name env =
     (case env name of
        None \<Rightarrow> Inr env
      | Some val \<Rightarrow>
          sum_bind (setenv_checked h app_name val env) (\<lambda>env1. Inr (env1(name := None))))"

definition update_environment :: "host \<Rightarrow> string \<Rightarrow> environment \<Rightarrow> environment launch" where
  "update_environment h base_path env =
     sum_bind (appendPath (Some base_path) (Some ''/'') (Some ''ia32'')) (\<lambda>base_path32.
     sum_bind (appendPath (Some base_path) (Some ''/'') (Some ''intel64'')) (\<lambda>base_path64.
     sum_bind (appendPath (Some base_path) (Some ''/'') (Some ''extras'')) (\<lambda>extras_path.
     sum_bind (appendPath (Some extras_path) (Some ''/'') (Some ''xed-ia32'')) (\<lambda>xed32.
     sum_bind (appendPath (Some extras_path) (Some ''/'') (Some ''xed-intel64'')) (\<lambda>xed64.
     sum_bind (appendPath (Some xed32) (Some ''/'') (Some ''lib'')) (\<lambda>xed_runtime_libs32.
     sum_bind (appendPath (Some xed64) (Some ''/'') (Some ''lib'')) (\<lambda>xed_runtime_libs64.
     sum_bind (appendPath (Some base_path32) (Some ''/'') (Some ''runtime'')) (\<lambda>pin_runtime_libs32.
     sum_bind (appendPath (Some base_path64) (Some ''/'') (Some ''runtime'')) (\<lambda>pin_runtime_libs64.
     sum_bind (appendPath (Some base_path32) (Some ''/'') (Some ''lib'')) (\<lambda>libs32.
     sum_bind (appendPath (Some base_path64) (Some ''/'') (Some ''lib'')) (\<lambda>libs64.
     sum_bind (appendPath (Some pin_runtime_libs32) (Some ''/'') (Some ''pincrt'')) (\<lambda>pincrt_libs32.
     sum_bind (appendPath (Some pin_runtime_libs64) (Some ''/'') (Some ''pincrt'')) (\<lambda>pincrt_libs64.
     sum_bind (appendPath (Some xed_runtime_libs32) (Some '':'') (env ''PIN_VM32_LD_LIBRARY_PATH'')) (\<lambda>pin32_xed.
     sum_bind (appendPath (Some xed_runtime_libs64) (Some '':'') (env ''PIN_VM64_LD_LIBRARY_PATH'')) (\<lambda>pin64_xed.
     sum_bind (appendPath (Some libs32) (Some '':'') (Some pin32_xed)) (\<lambda>pin32_extlibs.
     sum_bind (appendPath (Some libs64) (Some '':'') (Some pin64_xed)) (\<lambda>pin64_extlibs.
     sum_bind (appendPath (Some pincrt_libs32) (Some '':'') (Some pin32_extlibs)) (\<lambda>pin32_path.
     sum_bind (appendPath (Some pincrt_libs64) (Some '':'') (Some pin64_extlibs)) (\<lambda>pin64_path.
     sum_bind (setenv_checked h ''PIN_VM32_LD_LIBRARY_PATH'' pin32_path env) (\<lambda>env1.
     sum_bind (setenv_checked h ''PIN_VM64_LD_LIBRARY_PATH'' pin64_path env1) (\<lambda>env2.
     sum_bind (appendPath (Some xed_runtime_libs32) (Some '':'') (env2 ''PIN_INJECTOR32_LD_LIBRARY_PATH'')) (\<lambda>inj32_xed.
     sum_bind (appendPath (Some xed_runtime_libs64) (Some '':'') (env2 ''PIN_INJECTOR64_LD_LIBRARY_PATH'')) (\<lambda>inj64_xed.
     sum_bind (appendPath (Some pincrt_libs32) (Some '':'') (Some inj32_xed)) (\<lambda>injector_32.
     sum_bind (appendPath (Some pincrt_libs64) (Some '':'') (Some inj64_xed)) (\<lambda>injector_64.
     sum_bind (setenv_checked h ''PIN_INJECTOR32_LD_LIBRARY_PATH'' injector_32 env2) (\<lambda>env3.
     sum_bind (setenv_checked h ''PIN_INJECTOR64_LD_LIBRARY_PATH'' injector_64 env3) (\<lambda>env4.
     sum_bind (setenv_checked h ''PIN_LD_RESTORE_REQUIRED'' ''t'' env4) (\<lambda>env5.
     sum_bind (case env5 ''LD_LIBRARY_PATH'' of
          None \<Rightarrow> Inr env5
        | Some ld_library_path \<Rightarrow> setenv_checked h ''PIN_APP_LD_LIBRARY_PATH'' ld_library_path env5) (\<lambda>env6.
     sum_bind (setenv_checked h ''LD_LIBRARY_PATH''
          (if IsHostArch64Bit h then injector_64 else injector_32) env6) (\<lambda>env7.
     sum_bind (keep_for_app h ''LD_ASSUME_KERNEL'' ''PIN_APP_LD_ASSUME_KERNEL'' env7) (\<lambda>env8.
     sum_bind (keep_for_app h ''LD_BIND_NOW'' ''PIN_APP_LD_BIND_NOW'' env8) (\<lambda>env9.
       keep_for_app h ''LD_PRELOAD'' ''PIN_APP_LD_PRELOAD'' env9))))))))))))))))))))))))))))))))"

definition find_driver_name :: "host \<Rightarrow> string \<Rightarrow> string launch" where
  "find_driver_name h argv0 =
     (case proc_self_exe h of
        None \<Rightarrow>
          (let len = min (length argv0) PATH_MAX in
           if 0 < len \<and> len < PATH_MAX then Inr argv0 else Inl Abort)
      | Some None \<Rightarrow> Inl (Exit 1)
      | Some (Some link) \<Rightarrow>
          (let chars = min (length link) PATH_MAX in
           if PATH_MAX \<le> chars then Inl Memory_error else Inr (take chars link)))"

text \<open>
  The array has room for \<open>size\<close> pointers; \<open>None\<close> is the null pointer at its end. \<open>user_argv\<close>
  has the length \<open>user_argc\<close>, \<open>argv\<close> the length \<open>argc\<close>.
\<close>

definition build_child_argv :: "host \<Rightarrow> string \<Rightarrow> string list \<Rightarrow> string list \<Rightarrow> string option list launch" where
  "build_child_argv h base_path argv user_argv =
     sum_bind (appendPath (Some base_path) (Some ''/'') (Some ''ia32/bin/pinbin'')) (\<lambda>s1.
     sum_bind (find_driver_name h s1) (\<lambda>_.
     sum_bind (appendPath (Some base_path) (Some ''/'') (Some ''intel64/bin/pinbin'')) (\<lambda>s2.
     sum_bind (find_driver_name h s2) (\<lambda>_.
     sum_bind (appendPath (Some base_path) (Some ''/'') (Some ''intel64/bin/pinbin'')) (\<lambda>pinbin64.
     sum_bind (appendPath (Some base_path) (Some ''/'') (Some ''ia32/bin/pinbin'')) (\<lambda>pinbin32.
       let size = length argv + length user_argv + 4;
           child_argv = map Some ((if IsHostArch64Bit h then [pinbin64, ''-p32'', pinbin32]
                                   else [pinbin32, ''-p64'', pinbin64]) @ user_argv @ drop 1 argv) @ [None]
       in if size < length child_argv then Inl Memory_error else Inr child_argv))))))"

subsection \<open>\<open>launcher_u.c\<close>\<close>

definition build_user_argv :: "string list" where
  "build_user_argv = []"

definition update_environment_common :: "host \<Rightarrow> string \<Rightarrow> environment \<Rightarrow> environment launch" where
  "update_environment_common h base_path env =
     sum_bind (case resolved_path h base_path of
         None \<Rightarrow> Inr env
       | Some buf \<Rightarrow>
           if PATH_MAX < length buf + length ''/extras/crt/tzdata'' + 1 then Inl Memory_error
           else Inr (if setenv_result h ''PIN_CRT_TZDATA'' = 0
                     then env(''PIN_CRT_TZDATA'' \<mapsto> buf @ ''/extras/crt/tzdata'') else env))
       (update_environment h base_path)"

text \<open>What \<open>execv\<close> is called with: the path, the arguments and the environment.\<close>

definition launcher_main :: "host \<Rightarrow> environment \<Rightarrow> string list \<Rightarrow>
    (string option \<times> string option list \<times> environment) launch" where
  "launcher_main h env orig_argv =
     (case orig_argv of
        [] \<Rightarrow> Inl Abort
      | argv0 # _ \<Rightarrow>
          sum_bind (find_driver_name h argv0) (\<lambda>driver_name.
          sum_bind (find_base_path h env driver_name) (\<lambda>base_path.
          sum_bind (update_environment_common h base_path env) (\<lambda>env1.
          sum_bind (build_child_argv h base_path orig_argv build_user_argv) (\<lambda>child_argv.
            Inr (hd child_argv, child_argv, env1))))))"

subsection \<open>Joining paths\<close>

lemma opt_strlen_value:
  "opt_strlen s = (if s = Some [] then Inl Abort else Inr (min (length (opt_string s)) 4096))"
  by (cases s) (auto simp: opt_strlen_def opt_string_def get_strlen_def PATH_MAX_SIZE_def Let_def)

lemma sum_bind_assoc: "sum_bind (sum_bind r f) g = sum_bind r (\<lambda>x. sum_bind (f x) g)"
  by (cases r) simp_all

lemma appendPath_value:
  "appendPath s1 s2 s3 =
     (if s1 = Some [] \<or> s2 = Some [] \<or> s3 = Some [] then Inl Abort
      else if 4096 < length (opt_string s1) \<or> 4096 < length (opt_string s2)
              \<or> 4096 < length (opt_string s3) then Inl Memory_error
      else Inr (opt_string s1 @ opt_string s2 @ opt_string s3))"
  by (auto simp: appendPath_def opt_strlen_value Let_def)

text \<open>
  \<open>appendPath\<close> on every input: an empty component aborts the launcher, components of at most
  4096 characters are concatenated, and a longer one is counted as 4096 characters by
  \<open>get_strlen\<close> but copied whole, past the end of the allocated block.
\<close>

theorem appendPath_exact:
  "appendPath s1 s2 s3 =
     (if s1 = Some [] \<or> s2 = Some [] \<or> s3 = Some [] then Inl Abort
      else if 4096 < length (opt_string s1) \<or> 4096 < length (opt_string s2)
              \<or> 4096 < length (opt_string s3) then Inl Memory_error
      else Inr (opt_string s1 @ opt_string s2 @ opt_string s3))"
  by (rule appendPath_value)

lemma appendPath_ok [simp]:
  "s1 \<noteq> [] \<Longrightarrow> length s1 \<le> 4096 \<Longrightarrow> s2 \<noteq> [] \<Longrightarrow> length s2 \<le> 4096 \<Longrightarrow> s3 \<noteq> [] \<Longrightarrow> length s3 \<le> 4096
   \<Longrightarrow> appendPath (Some s1) (Some s2) (Some s3) = Inr (s1 @ s2 @ s3)"
  by (auto simp: appendPath_value opt_string_def)

subsection \<open>The search through \<open>PATH\<close>\<close>

lemma split_dirs_nonempty [simp]: "split_dirs s \<noteq> []"
  by (induction s) (auto split: list.splits)

lemma split_dirs_no_separator: "d \<in> set (split_dirs s) \<Longrightarrow> CHR '':'' \<notin> set d"
  by (induction s arbitrary: d) (auto split: list.splits if_splits)

fun join_dirs :: "string list \<Rightarrow> string" where
  "join_dirs [] = []"
| "join_dirs [d] = d"
| "join_dirs (d # e # ds) = d @ CHR '':'' # join_dirs (e # ds)"

lemma join_split_dirs: "join_dirs (split_dirs s) = s"
proof (induction s)
  case (Cons c s)
  then show ?case
    by (cases "split_dirs s" rule: join_dirs.cases) auto
qed simp

lemma split_dirs_no_colon: "CHR '':'' \<notin> set d \<Longrightarrow> split_dirs d = [d]"
  by (induction d) auto

lemma split_dirs_append: "CHR '':'' \<notin> set d \<Longrightarrow> split_dirs (d @ CHR '':'' # s) = d # split_dirs s"
  by (induction d) (auto split: list.splits)

lemma split_join_dirs:
  "ds \<noteq> [] \<Longrightarrow> \<forall>d \<in> set ds. CHR '':'' \<notin> set d \<Longrightarrow> split_dirs (join_dirs ds) = ds"
  by (induction ds rule: join_dirs.induct) (auto simp: split_dirs_no_colon split_dirs_append)

lemma check_file_in_dir_value:
  "dir \<noteq> [] \<Longrightarrow> length dir \<le> 4096 \<Longrightarrow> fn \<noteq> [] \<Longrightarrow> length fn \<le> 4096
   \<Longrightarrow> check_file_in_dir h fn dir =
       Inr (readable_file h (dir @ ''/'' @ fn) \<and> is_directory_file h (dir @ ''/'' @ fn))"
  by (simp add: check_file_in_dir_def check_file_exists_def check_not_directory_def)

definition in_dir :: "host \<Rightarrow> string \<Rightarrow> string \<Rightarrow> bool" where
  "in_dir h fn d = (readable_file h (d @ CHR ''/'' # fn) \<and> is_directory_file h (d @ CHR ''/'' # fn))"

lemma check_file_in_dir_in_dir:
  "fn \<noteq> [] \<Longrightarrow> length fn \<le> 4096 \<Longrightarrow> length dir \<le> 4096 \<Longrightarrow>
   check_file_in_dir h fn dir = (if dir = [] then Inl Abort else Inr (in_dir h fn dir))"
  by (simp add: check_file_in_dir_value in_dir_def)
     (simp add: check_file_in_dir_def appendPath_value)

lemma search_dirs_value:
  assumes fn: "fn \<noteq> []" "length fn \<le> 4096"
      and dirs: "\<forall>d \<in> set ds. length d \<le> 4096"
  shows "search_dirs h fn ds =
     (case List.find (\<lambda>d. d = [] \<or> in_dir h fn d) ds of
        None \<Rightarrow> Inr None
      | Some d \<Rightarrow> if d = [] then Inl Abort else Inr (Some d))"
  using dirs by (induction ds) (simp_all add: check_file_in_dir_in_dir fn)

lemma join_dirs_empty: "ds \<noteq> [] \<Longrightarrow> join_dirs ds = [] \<Longrightarrow> ds = [[]]"
  by (cases ds rule: join_dirs.cases) auto

text \<open>
  \<open>search_in_path\<close> returns the first directory of \<open>PATH\<close> that has the executable with the
  required properties, and no directory when none has it; an empty component that comes before
  it (which for the shell means the current directory) aborts the launcher.
\<close>

theorem search_in_path_first:
  assumes path: "env ''PATH'' = Some (join_dirs ds)" "ds \<noteq> []"
      and dirs: "\<forall>d \<in> set ds. length d \<le> 4096 \<and> CHR '':'' \<notin> set d"
      and exe: "exename \<noteq> []" "length exename \<le> 4096"
  shows "search_in_path h env exename =
     (case List.find (\<lambda>d. d = [] \<or> (readable_file h (d @ CHR ''/'' # exename)
                                   \<and> is_directory_file h (d @ CHR ''/'' # exename))) ds of
        None \<Rightarrow> Inr None
      | Some d \<Rightarrow> if d = [] then Inl Abort else Inr (Some d))"
proof (cases "join_dirs ds = []")
  case True
  then have "ds = [[]]" using path(2) join_dirs_empty by blast
  then show ?thesis using path by (simp add: search_in_path_def get_strlen_def)
next
  case False
  have "search_in_path h env exename = search_dirs h exename (split_dirs (join_dirs ds))"
    using False path exe by (simp add: search_in_path_def get_strlen_def PATH_MAX_SIZE_def Let_def)
  also have "split_dirs (join_dirs ds) = ds" using path dirs by (simp add: split_join_dirs)
  finally show ?thesis using dirs exe by (simp add: search_dirs_value in_dir_def)
qed

theorem search_in_path_first_witness:
  "search_in_path
     \<lparr>proc_self_exe = None, readable_file = (\<lambda>f. f = ''/opt/pin''), is_directory_file = (\<lambda>f. True),
      resolved_path = (\<lambda>p. None), host_arch = ARCH_INTEL64, setenv_result = (\<lambda>v. 0)\<rparr>
     [''PATH'' \<mapsto> ''/bin:/opt:'']  ''pin'' = Inr (Some ''/opt'')"
  by (subst search_in_path_first [where ds = "[''/bin'', ''/opt'', []]"]) simp_all

subsection \<open>The driver\<close>

lemma find_driver_name_link:
  "proc_self_exe h = Some (Some link) \<Longrightarrow>
   find_driver_name h a = (if length link < 4096 then Inr link else Inl Memory_error)"
  by (auto simp: find_driver_name_def PATH_MAX_def Let_def)

lemma find_base_path_dir:
  "CHR ''/'' \<notin> set name \<Longrightarrow> find_base_path h env (dir @ CHR ''/'' # name) = Inr dir"
proof -
  assume "CHR ''/'' \<notin> set name"
  then have "dropWhile (\<lambda>c. c \<noteq> CHR ''/'') (rev name) = []" by (auto simp: dropWhile_eq_Nil_conv)
  then show ?thesis by (simp add: find_base_path_def dropWhile_append3 del: dropWhile_eq_Nil_conv)
qed

subsection \<open>The environment\<close>

definition colon_list :: "string list \<Rightarrow> string option \<Rightarrow> string" where
  "colon_list dirs old = concat (map (\<lambda>d. d @ '':'') dirs) @ opt_string old"

definition environment_with :: "string \<Rightarrow> string \<Rightarrow> string \<Rightarrow> string \<Rightarrow> string \<Rightarrow> environment \<Rightarrow> environment" where
  "environment_with vm32 vm64 inj32 inj64 ld env v =
     (if v = ''PIN_VM32_LD_LIBRARY_PATH'' then Some vm32
      else if v = ''PIN_VM64_LD_LIBRARY_PATH'' then Some vm64
      else if v = ''PIN_INJECTOR32_LD_LIBRARY_PATH'' then Some inj32
      else if v = ''PIN_INJECTOR64_LD_LIBRARY_PATH'' then Some inj64
      else if v = ''LD_LIBRARY_PATH'' then Some ld
      else if v = ''PIN_LD_RESTORE_REQUIRED'' then Some ''t''
      else if v \<in> {''LD_ASSUME_KERNEL'', ''LD_BIND_NOW'', ''LD_PRELOAD''} then None
      else if v \<in> {''PIN_APP_LD_LIBRARY_PATH'', ''PIN_APP_LD_ASSUME_KERNEL'',
                    ''PIN_APP_LD_BIND_NOW'', ''PIN_APP_LD_PRELOAD''} \<and> env (drop 8 v) \<noteq> None
      then env (drop 8 v)
      else env v)"

definition pin_environment :: "host \<Rightarrow> string \<Rightarrow> environment \<Rightarrow> environment" where
  "pin_environment h base env =
     (let crt32 = base @ ''/ia32/runtime/pincrt''; crt64 = base @ ''/intel64/runtime/pincrt'';
          xed32 = base @ ''/extras/xed-ia32/lib''; xed64 = base @ ''/extras/xed-intel64/lib'';
          inj32 = colon_list [crt32, xed32] (env ''PIN_INJECTOR32_LD_LIBRARY_PATH'');
          inj64 = colon_list [crt64, xed64] (env ''PIN_INJECTOR64_LD_LIBRARY_PATH'')
      in environment_with
           (colon_list [crt32, base @ ''/ia32/lib'', xed32] (env ''PIN_VM32_LD_LIBRARY_PATH''))
           (colon_list [crt64, base @ ''/intel64/lib'', xed64] (env ''PIN_VM64_LD_LIBRARY_PATH''))
           inj32 inj64 (if host_arch h = ARCH_IA32 then inj32 else inj64) env)"

definition short_value :: "string \<Rightarrow> string option \<Rightarrow> bool" where
  "short_value base old \<longleftrightarrow> old \<noteq> Some [] \<and> 2 * length base + length (opt_string old) \<le> 4000"

lemma appendPath_old [simp]:
  "s1 \<noteq> [] \<Longrightarrow> length s1 \<le> 4096 \<Longrightarrow> old \<noteq> Some [] \<Longrightarrow> length (opt_string old) \<le> 4096
   \<Longrightarrow> appendPath (Some s1) (Some '':'') old = Inr (s1 @ '':'' @ opt_string old)"
  by (auto simp: appendPath_value opt_string_def)

lemma setenv_checked_ok [simp]:
  "setenv_result h name = 0 \<Longrightarrow> setenv_checked h name val env = Inr (env(name \<mapsto> val))"
  by (simp add: setenv_checked_def check_retval_def)

lemma keep_for_app_ok:
  "setenv_result h app = 0 \<Longrightarrow> keep_for_app h name app env =
     Inr (case env name of None \<Rightarrow> env | Some x \<Rightarrow> env(app \<mapsto> x, name := None))"
  by (auto simp: keep_for_app_def split: option.splits)

lemma sum_bind_weak_cong: "r = r' \<Longrightarrow> sum_bind r f = sum_bind r' f"
  by simp

definition kept :: "string \<Rightarrow> string \<Rightarrow> environment \<Rightarrow> environment" where
  "kept name app env v =
     (if v = name then None else if v = app \<and> env name \<noteq> None then env name else env v)"

lemma keep_for_app_kept:
  "setenv_result h app = 0 \<Longrightarrow> name \<noteq> app \<Longrightarrow> keep_for_app h name app env = Inr (kept name app env)"
  by (auto simp: keep_for_app_def kept_def fun_eq_iff split: option.splits)

definition copied :: "string \<Rightarrow> string \<Rightarrow> environment \<Rightarrow> environment" where
  "copied name app env v = (if v = app \<and> env name \<noteq> None then env name else env v)"

lemma copied_ok:
  "setenv_result h app = 0 \<Longrightarrow> env name = old \<Longrightarrow>
   (case old of None \<Rightarrow> Inr env | Some x \<Rightarrow> setenv_checked h app x env) = Inr (copied name app env)"
  by (auto simp: copied_def fun_eq_iff split: option.splits)

lemma update_environment_steps:
  assumes base: "base \<noteq> []"
      and setenv: "\<And>v. setenv_result h v = 0"
      and short: "short_value base (env ''PIN_VM32_LD_LIBRARY_PATH'')"
                 "short_value base (env ''PIN_VM64_LD_LIBRARY_PATH'')"
                 "short_value base (env ''PIN_INJECTOR32_LD_LIBRARY_PATH'')"
                 "short_value base (env ''PIN_INJECTOR64_LD_LIBRARY_PATH'')"
  defines "crt32 \<equiv> base @ ''/ia32/runtime/pincrt''" and "crt64 \<equiv> base @ ''/intel64/runtime/pincrt''"
      and "xed32 \<equiv> base @ ''/extras/xed-ia32/lib''" and "xed64 \<equiv> base @ ''/extras/xed-intel64/lib''"
  defines "inj32 \<equiv> colon_list [crt32, xed32] (env ''PIN_INJECTOR32_LD_LIBRARY_PATH'')"
      and "inj64 \<equiv> colon_list [crt64, xed64] (env ''PIN_INJECTOR64_LD_LIBRARY_PATH'')"
  shows "update_environment h base env =
     Inr (kept ''LD_PRELOAD'' ''PIN_APP_LD_PRELOAD''
       (kept ''LD_BIND_NOW'' ''PIN_APP_LD_BIND_NOW''
       (kept ''LD_ASSUME_KERNEL'' ''PIN_APP_LD_ASSUME_KERNEL''
       ((copied ''LD_LIBRARY_PATH'' ''PIN_APP_LD_LIBRARY_PATH''
          (env(''PIN_VM32_LD_LIBRARY_PATH'' \<mapsto>
                 colon_list [crt32, base @ ''/ia32/lib'', xed32] (env ''PIN_VM32_LD_LIBRARY_PATH''),
               ''PIN_VM64_LD_LIBRARY_PATH'' \<mapsto>
                 colon_list [crt64, base @ ''/intel64/lib'', xed64] (env ''PIN_VM64_LD_LIBRARY_PATH''),
               ''PIN_INJECTOR32_LD_LIBRARY_PATH'' \<mapsto> inj32,
               ''PIN_INJECTOR64_LD_LIBRARY_PATH'' \<mapsto> inj64,
               ''PIN_LD_RESTORE_REQUIRED'' \<mapsto> ''t'')))
         (''LD_LIBRARY_PATH'' \<mapsto> if host_arch h = ARCH_IA32 then inj32 else inj64)))))"
  unfolding inj32_def inj64_def crt32_def crt64_def xed32_def xed64_def colon_list_def
  using base setenv short [unfolded short_value_def]
  by (simp add: update_environment_def IsHostArch64Bit_def keep_for_app_kept
      copied_ok [where name = "''LD_LIBRARY_PATH''" and app = "''PIN_APP_LD_LIBRARY_PATH''"]
        cong: sum_bind_weak_cong if_weak_cong option.case_cong_weak)

lemma environment_steps:
  "kept ''LD_PRELOAD'' ''PIN_APP_LD_PRELOAD''
    (kept ''LD_BIND_NOW'' ''PIN_APP_LD_BIND_NOW''
    (kept ''LD_ASSUME_KERNEL'' ''PIN_APP_LD_ASSUME_KERNEL''
    ((copied ''LD_LIBRARY_PATH'' ''PIN_APP_LD_LIBRARY_PATH''
       (env(''PIN_VM32_LD_LIBRARY_PATH'' \<mapsto> a, ''PIN_VM64_LD_LIBRARY_PATH'' \<mapsto> b,
            ''PIN_INJECTOR32_LD_LIBRARY_PATH'' \<mapsto> c, ''PIN_INJECTOR64_LD_LIBRARY_PATH'' \<mapsto> d,
            ''PIN_LD_RESTORE_REQUIRED'' \<mapsto> ''t'')))
      (''LD_LIBRARY_PATH'' \<mapsto> e)))) = environment_with a b c d e env"
proof
  fix v
  let ?names = "{''PIN_VM32_LD_LIBRARY_PATH'', ''PIN_VM64_LD_LIBRARY_PATH'',
    ''PIN_INJECTOR32_LD_LIBRARY_PATH'', ''PIN_INJECTOR64_LD_LIBRARY_PATH'', ''LD_LIBRARY_PATH'',
    ''PIN_LD_RESTORE_REQUIRED'', ''LD_ASSUME_KERNEL'', ''LD_BIND_NOW'', ''LD_PRELOAD'',
    ''PIN_APP_LD_LIBRARY_PATH'', ''PIN_APP_LD_ASSUME_KERNEL'', ''PIN_APP_LD_BIND_NOW'',
    ''PIN_APP_LD_PRELOAD''}"
  show "kept ''LD_PRELOAD'' ''PIN_APP_LD_PRELOAD''
    (kept ''LD_BIND_NOW'' ''PIN_APP_LD_BIND_NOW''
    (kept ''LD_ASSUME_KERNEL'' ''PIN_APP_LD_ASSUME_KERNEL''
    ((copied ''LD_LIBRARY_PATH'' ''PIN_APP_LD_LIBRARY_PATH''
       (env(''PIN_VM32_LD_LIBRARY_PATH'' \<mapsto> a, ''PIN_VM64_LD_LIBRARY_PATH'' \<mapsto> b,
            ''PIN_INJECTOR32_LD_LIBRARY_PATH'' \<mapsto> c, ''PIN_INJECTOR64_LD_LIBRARY_PATH'' \<mapsto> d,
            ''PIN_LD_RESTORE_REQUIRED'' \<mapsto> ''t'')))
      (''LD_LIBRARY_PATH'' \<mapsto> e)))) v = environment_with a b c d e env v"
  proof (cases "v \<in> ?names")
    case True
    then show ?thesis
      by (elim insertE emptyE; hypsubst; simp add: kept_def copied_def environment_with_def)
  next
    case False
    then show ?thesis by (simp add: kept_def copied_def environment_with_def)
  qed
qed

lemma update_environment_value:
  assumes base: "base \<noteq> []"
      and setenv: "\<And>v. setenv_result h v = 0"
      and short: "short_value base (env ''PIN_VM32_LD_LIBRARY_PATH'')"
                 "short_value base (env ''PIN_VM64_LD_LIBRARY_PATH'')"
                 "short_value base (env ''PIN_INJECTOR32_LD_LIBRARY_PATH'')"
                 "short_value base (env ''PIN_INJECTOR64_LD_LIBRARY_PATH'')"
  shows "update_environment h base env = Inr (pin_environment h base env)"
  unfolding update_environment_steps [OF assms] environment_steps pin_environment_def Let_def ..

lemma build_child_argv_value:
  assumes "proc_self_exe h = Some (Some link)" "length link < 4096" "base \<noteq> []" "length base \<le> 4000"
  shows "build_child_argv h base (a # args) [] =
    Inr (map Some
         ((if host_arch h = ARCH_IA32
           then [base @ ''/ia32/bin/pinbin'', ''-p64'', base @ ''/intel64/bin/pinbin'']
           else [base @ ''/intel64/bin/pinbin'', ''-p32'', base @ ''/ia32/bin/pinbin'']) @ args) @ [None])"
  using assms by (simp add: build_child_argv_def find_driver_name_link IsHostArch64Bit_def)

text \<open>
  C11: A launcher started from the kit's directory runs the \<open>pinbin\<close> of the host's architecture.
  The arguments are the name of that \<open>pinbin\<close>, the option that names the one of the other
  architecture, and the user's arguments, unchanged, in order and in the room that was
  allocated. The environment is the user's, in which the library paths of the virtual machine
  and of the injector are put before the old values, \<open>LD_LIBRARY_PATH\<close> is the injector's, the
  application's own \<open>LD_\<close> variables are kept under \<open>PIN_APP_\<close> names and the last three of
  them removed, and nothing else is changed.
\<close>

theorem launcher_runs_pinbin:
  assumes link: "proc_self_exe h = Some (Some (base @ CHR ''/'' # name))" "CHR ''/'' \<notin> set name"
                "length (base @ CHR ''/'' # name) < 4096"
      and base: "base \<noteq> []"
      and real: "resolved_path h base = Some r" "length r \<le> 4000"
      and setenv: "\<And>v. setenv_result h v = 0"
      and short: "short_value base (env ''PIN_VM32_LD_LIBRARY_PATH'')"
                 "short_value base (env ''PIN_VM64_LD_LIBRARY_PATH'')"
                 "short_value base (env ''PIN_INJECTOR32_LD_LIBRARY_PATH'')"
                 "short_value base (env ''PIN_INJECTOR64_LD_LIBRARY_PATH'')"
  shows "launcher_main h env (argv0 # args) =
    (let pinbin32 = base @ ''/ia32/bin/pinbin''; pinbin64 = base @ ''/intel64/bin/pinbin'';
         child = (if host_arch h = ARCH_IA32 then [pinbin32, ''-p64'', pinbin64]
                  else [pinbin64, ''-p32'', pinbin32]) @ args
     in Inr (Some (hd child), map Some child @ [None],
             pin_environment h base (env(''PIN_CRT_TZDATA'' \<mapsto> r @ ''/extras/crt/tzdata''))))"
proof -
  let ?env = "env(''PIN_CRT_TZDATA'' \<mapsto> r @ ''/extras/crt/tzdata'')"
  have len: "length base \<le> 4000" using short by (simp add: short_value_def)
  have "update_environment_common h base env = update_environment h base ?env"
    using real setenv by (simp add: update_environment_common_def PATH_MAX_def)
  also have "\<dots> = Inr (pin_environment h base ?env)"
    by (rule update_environment_value) (use base setenv short in simp_all)
  finally have e: "update_environment_common h base env = Inr (pin_environment h base ?env)" .
  show ?thesis
    using e find_driver_name_link [OF link(1)] find_base_path_dir [OF link(2)] link(3)
      build_child_argv_value [OF link(1) link(3) base len]
    by (simp add: launcher_main_def build_user_argv_def Let_def del: append.simps)
qed

theorem launcher_runs_pinbin_witness:
  "\<exists>env1. launcher_main
       \<lparr>proc_self_exe = Some (Some ''/pin/pin''), readable_file = (\<lambda>f. True), is_directory_file = (\<lambda>f. True),
        resolved_path = (\<lambda>p. Some ''/pin''), host_arch = ARCH_INTEL64, setenv_result = (\<lambda>v. 0)\<rparr>
       [''LD_PRELOAD'' \<mapsto> ''x.so''] [''pin'', ''-t'', ''tool.so''] =
     Inr (Some ''/pin/intel64/bin/pinbin'',
          [Some ''/pin/intel64/bin/pinbin'', Some ''-p32'', Some ''/pin/ia32/bin/pinbin'',
           Some ''-t'', Some ''tool.so'', None], env1)
     \<and> env1 ''PIN_APP_LD_PRELOAD'' = Some ''x.so'' \<and> env1 ''LD_PRELOAD'' = None
     \<and> env1 ''LD_LIBRARY_PATH'' =
         Some ''/pin/intel64/runtime/pincrt:/pin/extras/xed-intel64/lib:''"
  apply (subst launcher_runs_pinbin [where base = "''/pin''" and name = "''pin''" and r = "''/pin''"])
  apply (simp_all add: short_value_def opt_string_def Let_def)
  apply (simp add: pin_environment_def environment_with_def colon_list_def opt_string_def Let_def)
  done

end
