(* ===== verification/Harmless.thy ===== *)
theory Harmless
  imports Prelude
begin

text \<open>
  Harmless errors (\<open>dwarf_harmless.c\<close>): the messages about producer bugs that do not make a
  file unusable, kept in a circular list of buffers, and the bounded string copy
  \<open>dwarf_safe_strcpy.c\<close> they are stored with. A result \<open>None\<close> is an access outside the memory
  the code owns (or a list walk that never meets its end).
\<close>

subsection \<open>\<open>_dwarf_safe_strcpy\<close>\<close>

text \<open>
  \<open>s\<close> is the memory at \<open>in_s\<close> and \<open>out\<close> the memory at \<open>out\<close>; the loop reads \<open>*cpi\<close> before
  it compares \<open>cpi\<close> with \<open>cpiend\<close>.
\<close>

function copy_loop :: "byte list \<Rightarrow> nat \<Rightarrow> byte list \<Rightarrow> nat \<Rightarrow> nat \<Rightarrow> byte list option" where
  "copy_loop out cpo s cpi cpiend =
     (if length s \<le> cpi then None
      else if s ! cpi \<noteq> 0 \<and> cpi < cpiend
      then if cpo < length out then copy_loop (out[cpo := s ! cpi]) (cpo + 1) s (cpi + 1) cpiend else None
      else if cpo < length out then Some (out[cpo := 0]) else None)"
  by pat_completeness auto
termination by (relation "measure (\<lambda>(out, cpo, s, cpi, cpiend). length s - cpi)") auto

declare copy_loop.simps [simp del]

definition dwarf_safe_strcpy :: "byte list \<Rightarrow> nat \<Rightarrow> byte list \<Rightarrow> nat \<Rightarrow> byte list option" where
  "dwarf_safe_strcpy out outlen in_s inlen =
     (let full_inlen = (inlen + 1) mod 2 ^ 64 in
      if outlen \<le> full_inlen
      then if outlen = 0 then Some out else copy_loop out 0 in_s 0 (outlen - 1)
      else copy_loop out 0 in_s 0 inlen)"

definition c_string :: "byte list \<Rightarrow> byte list" where
  "c_string b = takeWhile (\<lambda>x. x \<noteq> 0) b"

definition c_strlen :: "byte list \<Rightarrow> nat option" where
  "c_strlen b = (if 0 \<in> set b then Some (length (c_string b)) else None)"

subsection \<open>The circular list\<close>

definition DW_HARMLESS_ERROR_MSG_STRING_SIZE :: nat where
  "DW_HARMLESS_ERROR_MSG_STRING_SIZE = 300"

record harmless =
  dh_maxcount :: nat
  dh_first :: nat
  dh_next_to_use :: nat
  dh_errs_count :: nat
  dh_errors :: "byte list option list option"

fun init_slots :: "nat \<Rightarrow> allocs \<Rightarrow> byte list option list \<times> allocs" where
  "init_slots 0 mem = ([], mem)"
| "init_slots (Suc n) mem =
     (let (ok, mem1) = alloc mem; (rest, mem2) = init_slots n mem1
      in ((if ok then Some (replicate DW_HARMLESS_ERROR_MSG_STRING_SIZE 0) else None) # rest, mem2))"

definition dwarf_harmless_init :: "nat \<Rightarrow> allocs \<Rightarrow> harmless \<times> allocs" where
  "dwarf_harmless_init size1 mem =
     (let h = \<lparr>dh_maxcount = (size1 + 1) mod 2 ^ 32, dh_first = 0, dh_next_to_use = 0,
               dh_errs_count = 0, dh_errors = None\<rparr>;
          (ok, mem1) = alloc mem
      in if \<not> ok then (h\<lparr>dh_maxcount := 0\<rparr>, mem1)
         else let (slots, mem2) = init_slots (dh_maxcount h) mem1
              in (h\<lparr>dh_errors := Some slots\<rparr>, mem2))"

definition dwarf_harmless_cleanout :: "harmless \<Rightarrow> harmless" where
  "dwarf_harmless_cleanout h =
     (case dh_errors h of None \<Rightarrow> h | Some _ \<Rightarrow> h\<lparr>dh_errors := None, dh_maxcount := 0\<rparr>)"

definition dwarf_insert_harmless_error :: "byte list \<Rightarrow> harmless \<Rightarrow> harmless option" where
  "dwarf_insert_harmless_error newerror h =
     (let cur = dh_next_to_use h in
      case dh_errors h of
        None \<Rightarrow> Some (h\<lparr>dh_errs_count := (dh_errs_count h + 1) mod 2 ^ 32\<rparr>)
      | Some slots \<Rightarrow>
          if length slots \<le> cur then None
          else case (slots ! cur, c_strlen newerror) of
            (Some msgspace, Some len) \<Rightarrow>
              (case dwarf_safe_strcpy msgspace DW_HARMLESS_ERROR_MSG_STRING_SIZE newerror len of
                 None \<Rightarrow> None
               | Some msg \<Rightarrow>
                   let next1 = ((cur + 1) mod 2 ^ 32) mod dh_maxcount h;
                       h1 = h\<lparr>dh_errors := Some (slots[cur := Some msg]),
                              dh_errs_count := (dh_errs_count h + 1) mod 2 ^ 32,
                              dh_next_to_use := next1\<rparr>
                   in Some (if next1 = dh_first h
                            then h1\<lparr>dh_first := ((dh_first h + 1) mod 2 ^ 32) mod dh_maxcount h\<rparr>
                            else h1))
          | _ \<Rightarrow> None)"

text \<open>The pointers written to the caller's array are shown with the memory they point to.\<close>

function fetch_loop ::
    "harmless \<Rightarrow> byte list option list \<Rightarrow> nat \<Rightarrow> byte list option list \<Rightarrow> nat \<Rightarrow> nat
     \<Rightarrow> (byte list option list \<times> nat) option" where
  "fetch_loop h slots count1 arr i cur =
     (if cur = dh_next_to_use h \<or> count1 \<le> i then Some (arr, i)
      else if cur < length slots \<and> i < length arr
      then fetch_loop h slots count1 (arr[i := slots ! cur]) (i + 1)
             (((cur + 1) mod 2 ^ 32) mod dh_maxcount h)
      else None)"
  by pat_completeness auto
termination by (relation "measure (\<lambda>(h, slots, count1, arr, i, cur). count1 - i)") auto

declare fetch_loop.simps [simp del]

definition fetch_messages ::
    "harmless \<Rightarrow> byte list option list \<Rightarrow> nat \<Rightarrow> byte list option list \<Rightarrow> byte list option list option" where
  "fetch_messages h slots count1 arr =
     (if count1 = 0 then Some arr
      else if length arr < count1 then None
      else let arr1 = arr[count1 - 1 := None] in
           if dh_next_to_use h = dh_first h then Some arr1
           else case fetch_loop h slots (count1 - 1) arr1 0 (dh_first h) of
                  None \<Rightarrow> None
                | Some (arr2, i) \<Rightarrow> Some (arr2[i := None]))"

definition dwarf_get_harmless_error_list ::
    "nat \<Rightarrow> byte list option list \<Rightarrow> harmless
     \<Rightarrow> ((unit, nat) dlv \<times> byte list option list \<times> harmless) option" where
  "dwarf_get_harmless_error_list count1 errmsg_ptrs_array h =
     (case dh_errors h of
        None \<Rightarrow> Some (DW_DLV_NO_ENTRY, errmsg_ptrs_array, h\<lparr>dh_errs_count := 0\<rparr>)
      | Some slots \<Rightarrow>
          if dh_errs_count h = 0 then Some (DW_DLV_NO_ENTRY, errmsg_ptrs_array, h)
          else case fetch_messages h slots count1 errmsg_ptrs_array of
                 None \<Rightarrow> None
               | Some arr \<Rightarrow>
                   Some (DW_DLV_OK (dh_errs_count h), arr,
                         h\<lparr>dh_next_to_use := 0, dh_first := 0, dh_errs_count := 0\<rparr>))"

text \<open>
  The walk over the old list takes at most \<open>dh_maxcount\<close> steps if it ends at all, which is the
  fuel it starts with.
\<close>

fun reinsert :: "nat \<Rightarrow> harmless \<Rightarrow> byte list option list \<Rightarrow> nat \<Rightarrow> harmless \<Rightarrow> harmless option" where
  "reinsert fuel oldarray slots i h =
     (if i = dh_next_to_use oldarray then Some h
      else case fuel of
        0 \<Rightarrow> None
      | Suc fuel1 \<Rightarrow>
          if length slots \<le> i then None
          else case slots ! i of
            None \<Rightarrow> None
          | Some msg \<Rightarrow>
              (case dwarf_insert_harmless_error msg h of
                 None \<Rightarrow> None
               | Some h1 \<Rightarrow>
                   reinsert fuel1 oldarray slots (((i + 1) mod 2 ^ 32) mod dh_maxcount oldarray) h1))"

declare reinsert.simps [simp del]

definition dwarf_set_harmless_error_list_size ::
    "nat \<Rightarrow> allocs \<Rightarrow> harmless \<Rightarrow> (nat \<times> harmless \<times> allocs) option" where
  "dwarf_set_harmless_error_list_size maxcount1 mem h =
     (let prevcount = dh_maxcount h;
          result = (prevcount + 2 ^ 32 - 1) mod 2 ^ 32;
          maxcount2 = (maxcount1 + 1) mod 2 ^ 32
      in if maxcount1 = 0 \<or> maxcount2 = dh_maxcount h then Some (result, h, mem)
         else let oldarray = h;
                  (h1, mem1) = dwarf_harmless_init ((maxcount2 + 2 ^ 32 - 1) mod 2 ^ 32) mem
              in if dh_next_to_use oldarray = dh_first oldarray then Some (result, h1, mem1)
                 else case dh_errors oldarray of
                   None \<Rightarrow> None
                 | Some slots \<Rightarrow>
                     (case reinsert prevcount oldarray slots (dh_first oldarray) h1 of
                        None \<Rightarrow> None
                      | Some h2 \<Rightarrow>
                          Some (result,
                                if dh_errs_count h2 < dh_errs_count oldarray
                                then h2\<lparr>dh_errs_count := dh_errs_count oldarray\<rparr> else h2,
                                mem1)))"

subsection \<open>The copy\<close>

lemma c_string_no_nul [simp]: "0 \<notin> set (c_string b)"
  by (auto simp: c_string_def dest: set_takeWhileD)

lemma c_string_terminated [simp]: "0 \<notin> set s \<Longrightarrow> c_string (s @ 0 # rest) = s"
  by (simp add: c_string_def takeWhile_append)

lemma c_strlen_terminated [simp]: "0 \<notin> set s \<Longrightarrow> c_strlen (s @ 0 # rest) = Some (length s)"
  by (simp add: c_strlen_def)

lemma c_string_split: "0 \<in> set b \<Longrightarrow> \<exists>rest. b = c_string b @ 0 # rest"
proof (induction b)
  case (Cons a b)
  then show ?case by (cases "a = 0") (auto simp: c_string_def)
qed simp

lemma copy_loop_value:
  assumes "cpi \<le> length s" "0 \<notin> set s" "cpi \<le> cpiend" "cpo + (min (length s) cpiend - cpi) < length out"
  shows "copy_loop out cpo (s @ 0 # rest) cpi cpiend =
    (let new = drop cpi (take cpiend s)
     in Some (take cpo out @ new @ 0 # drop (cpo + length new + 1) out))"
  using assms
proof (induction "length s - cpi" arbitrary: out cpo cpi)
  case 0
  then show ?case
    by (subst copy_loop.simps) (simp add: Let_def nth_append upd_conv_take_nth_drop)
next
  case (Suc n)
  then have c: "cpi < length s" by simp
  then have nz: "s ! cpi \<noteq> 0" using Suc.prems(2) nth_mem by metis
  show ?case
  proof (cases "cpi < cpiend")
    case True
    have IH: "copy_loop (out[cpo := s ! cpi]) (cpo + 1) (s @ 0 # rest) (cpi + 1) cpiend =
      (let new = drop (cpi + 1) (take cpiend s)
       in Some (take (cpo + 1) (out[cpo := s ! cpi]) @ new @
                0 # drop (cpo + 1 + length new + 1) (out[cpo := s ! cpi])))"
      using Suc.hyps(2) Suc.prems c True by (intro Suc.hyps(1)) auto
    have d: "drop cpi (take cpiend s) = s ! cpi # drop (cpi + 1) (take cpiend s)"
      using c True by (simp add: Cons_nth_drop_Suc [symmetric])
    have o: "cpo < length out" using Suc.prems by simp
    show ?thesis
      using IH c nz True o
      by (subst copy_loop.simps) (simp add: nth_append d Let_def take_Suc_conv_app_nth del: drop_take)
  next
    case False
    then show ?thesis
      using Suc.prems c nz
      by (subst copy_loop.simps) (simp add: nth_append Let_def upd_conv_take_nth_drop)
  qed
qed

lemma safe_strcpy_value:
  assumes "0 \<notin> set s" "0 < outlen" "outlen \<le> length out" "length s < 2 ^ 64 - 1"
  shows "dwarf_safe_strcpy out outlen (s @ 0 # rest) (length s) =
    Some (take (outlen - 1) s @ 0 # drop (min (length s) (outlen - 1) + 1) out)"
proof -
  have m: "(length s + 1) mod 2 ^ 64 = length s + 1" using assms by simp
  show ?thesis
    using assms copy_loop_value [of 0 s _ 0 out rest]
    by (simp add: dwarf_safe_strcpy_def m Let_def)
qed

subsection \<open>The log of messages\<close>

text \<open>
  The contract of a bounded log: of everything that is put in, the last \<open>N\<close> entries are kept.
\<close>

definition last_of :: "nat \<Rightarrow> 'a list \<Rightarrow> 'a list" where
  "last_of n xs = drop (length xs - n) xs"

lemma last_of_last_of [simp]: "last_of n (last_of n xs @ ys) = last_of n (xs @ ys)"
  by (cases "length xs \<le> n") (auto simp: last_of_def add.commute)

lemma length_last_of [simp]: "length (last_of n xs) = min n (length xs)"
  by (simp add: last_of_def)

lemma last_of_all: "length xs \<le> n \<Longrightarrow> last_of n xs = xs"
  by (simp add: last_of_def)

lemma last_of_Nil [simp]: "last_of n [] = []"
  by (simp add: last_of_def)

fun insert_all :: "('m \<Rightarrow> 's \<Rightarrow> 's option) \<Rightarrow> 'm list \<Rightarrow> 's \<Rightarrow> 's option" where
  "insert_all ins [] s = Some s"
| "insert_all ins (m # ms) s = (case ins m s of None \<Rightarrow> None | Some s1 \<Rightarrow> insert_all ins ms s1)"

locale bounded_log =
  fixes holds :: "nat \<Rightarrow> 's \<Rightarrow> 'e list \<Rightarrow> bool"
    and put :: "'m \<Rightarrow> 's \<Rightarrow> 's option"
    and entry :: "'m \<Rightarrow> 'e"
    and good :: "'m \<Rightarrow> bool"
    and counter :: "'s \<Rightarrow> nat"
  assumes put_keeps_last:
    "holds n s es \<Longrightarrow> good m \<Longrightarrow> \<exists>s'. put m s = Some s' \<and> holds n s' (last_of n (es @ [entry m]))
       \<and> counter s' = (counter s + 1) mod 2 ^ 32"
begin

lemma put_all:
  assumes "holds n s es" "\<forall>m \<in> set ms. good m"
  shows "\<exists>s'. insert_all put ms s = Some s' \<and> (ms \<noteq> [] \<longrightarrow> holds n s' (last_of n (es @ map entry ms)))
     \<and> (ms = [] \<longrightarrow> s' = s)"
  using assms
proof (induction ms arbitrary: s es)
  case (Cons m ms)
  obtain s1 where s1: "put m s = Some s1" "holds n s1 (last_of n (es @ [entry m]))"
    using put_keeps_last Cons.prems by (meson list.set_intros(1))
  then obtain s2 where s2: "insert_all put ms s1 = Some s2"
      "ms \<noteq> [] \<longrightarrow> holds n s2 (last_of n (last_of n (es @ [entry m]) @ map entry ms))"
      "ms = [] \<longrightarrow> s2 = s1"
    using Cons.IH [OF s1(2)] Cons.prems by auto
  then show ?case using s1 by (cases "ms = []") auto
qed simp

lemma put_all_counter:
  assumes "holds n s es" "\<forall>m \<in> set ms. good m" "insert_all put ms s = Some s'" "counter s < 2 ^ 32"
  shows "counter s' = (counter s + length ms) mod 2 ^ 32"
  using assms
proof (induction ms arbitrary: s es)
  case (Cons m ms)
  obtain s1 where s1: "put m s = Some s1" "holds n s1 (last_of n (es @ [entry m]))"
      "counter s1 = (counter s + 1) mod 2 ^ 32"
    using put_keeps_last Cons.prems by (meson list.set_intros(1))
  then have "counter s' = (counter s1 + length ms) mod 2 ^ 32"
    using Cons.IH [OF s1(2)] Cons.prems by simp
  then show ?case using s1(3) by (simp add: mod_simps)
qed simp

lemma put_all_holds:
  assumes "holds n s es" "last_of n es = es" "\<forall>m \<in> set ms. good m"
  shows "\<exists>s'. insert_all put ms s = Some s' \<and> holds n s' (last_of n (es @ map entry ms))"
  using put_all [OF assms(1,3)] assms by (cases "ms = []") auto

end

subsection \<open>The circular list is a bounded log\<close>

definition good_slot :: "byte list option \<Rightarrow> bool" where
  "good_slot sl \<longleftrightarrow> (\<exists>b. sl = Some b \<and> length b = 300 \<and> 0 \<in> set b)"

definition slot_message :: "byte list option \<Rightarrow> byte list" where
  "slot_message sl = (case sl of None \<Rightarrow> [] | Some b \<Rightarrow> c_string b)"

definition ring :: "nat \<Rightarrow> harmless \<Rightarrow> byte list list \<Rightarrow> bool" where
  "ring n h es \<longleftrightarrow> dh_maxcount h = n + 1 \<and> n + 1 < 2 ^ 32 \<and> dh_first h < n + 1 \<and> length es \<le> n
     \<and> dh_next_to_use h = (dh_first h + length es) mod (n + 1)
     \<and> (\<exists>slots. dh_errors h = Some slots \<and> length slots = n + 1 \<and> (\<forall>sl \<in> set slots. good_slot sl)
          \<and> (\<forall>k < length es. slot_message (slots ! ((dh_first h + k) mod (n + 1))) = es ! k))"

definition good_message :: "byte list \<Rightarrow> bool" where
  "good_message m \<longleftrightarrow> 0 \<in> set m \<and> length m < 2 ^ 64 - 1"

definition stored :: "byte list \<Rightarrow> byte list" where
  "stored m = take 299 (c_string m)"

lemma ring_step: "0 < M \<Longrightarrow> M < 2 ^ 32 \<Longrightarrow> ((k mod M + 1) mod 2 ^ 32) mod M = (k + 1) mod (M :: nat)"
proof -
  assume "0 < M" "M < 2 ^ 32"
  then have "k mod M + 1 < 2 ^ 32" using mod_less_divisor [of M k] by linarith
  then show ?thesis by (simp add: mod_simps)
qed

lemma ring_index_inj:
  assumes "(f + k) mod M = (f + l) mod M" "k < M" "l < M"
  shows "k = (l :: nat)"
  using assms
proof (induction k l rule: linorder_wlog)
  case (le k l)
  then have "M dvd l - k" by (metis add_le_cancel_left diff_add_inverse mod_eq_dvd_iff_nat diff_diff_left)
  then show ?case using le by (metis dvd_imp_le le_antisym less_imp_diff_less not_le zero_less_diff)
qed simp

lemma store_message:
  assumes "good_slot (Some b)" "good_message m"
  shows "\<exists>b'. c_strlen m = Some (length (c_string m))
     \<and> dwarf_safe_strcpy b 300 m (length (c_string m)) = Some b'
     \<and> good_slot (Some b') \<and> c_string b' = stored m"
proof -
  obtain rest where m: "m = c_string m @ 0 # rest"
    using assms c_string_split unfolding good_message_def by blast
  have l: "length (c_string m) < 2 ^ 64 - 1"
    using assms(2) length_takeWhile_le [of "\<lambda>x. x \<noteq> 0" m] unfolding good_message_def c_string_def by linarith
  have b: "length b = 300" using assms(1) by (simp add: good_slot_def)
  let ?b = "take 299 (c_string m) @ 0 # drop (min (length (c_string m)) 299 + 1) b"
  have "dwarf_safe_strcpy b 300 (c_string m @ 0 # rest) (length (c_string m)) = Some ?b"
    using safe_strcpy_value [of "c_string m" 300 b rest] l b by simp
  moreover have "c_strlen m = Some (length (c_string m))"
    using assms(2) by (simp add: c_strlen_def good_message_def)
  moreover have "c_string ?b = stored m"
    unfolding stored_def by (rule c_string_terminated) (meson c_string_no_nul in_set_takeD)
  ultimately show ?thesis using b m unfolding good_slot_def by auto
qed

lemma ring_insert:
  assumes r: "ring n h es" and g: "good_message m"
  shows "\<exists>h'. dwarf_insert_harmless_error m h = Some h' \<and> ring n h' (last_of n (es @ [stored m]))
     \<and> dh_errs_count h' = (dh_errs_count h + 1) mod 2 ^ 32"
proof -
  define f where "f = dh_first h"
  define L where "L = length es"
  from r obtain slots where s: "dh_errors h = Some slots" "length slots = n + 1"
      "\<forall>sl \<in> set slots. good_slot sl" "\<forall>k < L. slot_message (slots ! ((f + k) mod (n + 1))) = es ! k"
    unfolding ring_def f_def L_def by blast
  from r have bounds: "dh_maxcount h = n + 1" "n + 1 < 2 ^ 32" "f < n + 1" "L \<le> n"
      "dh_next_to_use h = (f + L) mod (n + 1)"
    unfolding ring_def f_def L_def by auto
  define cur where "cur = (f + L) mod (n + 1)"
  have cur: "cur < n + 1" by (simp add: cur_def)
  have nx: "dh_next_to_use h = cur" using bounds by (simp add: cur_def)
  have "good_slot (slots ! cur)" using s cur by simp
  then obtain b where b: "slots ! cur = Some b" "good_slot (Some b)" by (auto simp: good_slot_def)
  obtain b' where b': "c_strlen m = Some (length (c_string m))"
      "dwarf_safe_strcpy b 300 m (length (c_string m)) = Some b'" "good_slot (Some b')" "c_string b' = stored m"
    using store_message [OF b(2) g] by blast
  define slots' where "slots' = slots[cur := Some b']"
  define next' where "next' = (f + (L + 1)) mod (n + 1)"
  have w: "((cur + 1) mod 2 ^ 32) mod (n + 1) = next'"
    using ring_step [of "n + 1" "f + L", OF _ bounds(2)] by (simp add: cur_def next'_def)
  have wf: "((f + 1) mod 2 ^ 32) mod (n + 1) = (f + 1) mod (n + 1)" using bounds by simp
  define h1 where "h1 = h\<lparr>dh_errors := Some slots', dh_errs_count := (dh_errs_count h + 1) mod 2 ^ 32,
    dh_next_to_use := next'\<rparr>"
  have ins: "dwarf_insert_harmless_error m h =
      Some (if next' = f then h1\<lparr>dh_first := (f + 1) mod (n + 1)\<rparr> else h1)"
    using s(1,2) b(1) b'(1,2) cur w wf bounds(1) nx f_def
    by (simp add: dwarf_insert_harmless_error_def Let_def h1_def slots'_def
        DW_HARMLESS_ERROR_MSG_STRING_SIZE_def)
  have good: "length slots' = n + 1" "\<forall>sl \<in> set slots'. good_slot sl"
    using s b' by (auto simp: slots'_def dest: set_update_subset_insert [THEN subsetD])
  have new: "slot_message (slots' ! cur) = stored m"
    using cur s b' by (simp add: slots'_def slot_message_def)
  have old: "slot_message (slots' ! ((f + k) mod (n + 1))) = es ! k" if "k < L" for k
  proof -
    have "(f + k) mod (n + 1) \<noteq> cur"
      using ring_index_inj [of f k "n + 1" L] that bounds by (auto simp: cur_def)
    then show ?thesis using s that by (simp add: slots'_def)
  qed
  show ?thesis
  proof (cases "L = n")
    case True
    have nf: "next' = f" unfolding next'_def True mod_add_self2 using bounds by simp
    have wrap: "Suc (f + n) mod Suc n = f" using nf True by (simp add: next'_def)
    define f' where "f' = (f + 1) mod (n + 1)"
    have idx: "(f' + k) mod (n + 1) = (f + (k + 1)) mod (n + 1)" for k
      by (simp add: f'_def mod_simps)
    have es': "last_of n (es @ [stored m]) = drop 1 (es @ [stored m])"
      using True by (simp add: last_of_def L_def)
    have msgs: "slot_message (slots' ! ((f' + k) mod (n + 1))) = last_of n (es @ [stored m]) ! k"
      if "k < n" for k
    proof (cases "k + 1 < L")
      case T: True
      then show ?thesis using old [of "k + 1"] unfolding idx es' L_def by (auto simp: nth_append)
    next
      case False
      then have "k + 1 = L" using that True by simp
      then show ?thesis using new unfolding idx es' cur_def L_def by (auto simp: nth_append)
    qed
    have "ring n (h1\<lparr>dh_first := f'\<rparr>) (last_of n (es @ [stored m]))"
      unfolding ring_def using bounds good msgs True nf wrap
      by (auto simp: h1_def f'_def L_def mod_simps)
    then show ?thesis using ins nf by (simp add: f'_def h1_def)
  next
    case False
    then have nf: "next' \<noteq> f"
      using ring_index_inj [of f "L + 1" "n + 1" 0] bounds by (auto simp: next'_def)
    have es': "last_of n (es @ [stored m]) = es @ [stored m]"
      using False bounds by (intro last_of_all) (simp add: L_def)
    have msgs: "slot_message (slots' ! ((f + k) mod (n + 1))) = (es @ [stored m]) ! k" if "k < L + 1" for k
      using that old [of k] new by (cases "k = L") (auto simp: nth_append L_def cur_def)
    have "ring n h1 (es @ [stored m])"
      unfolding ring_def using bounds good msgs False
      by (auto simp: h1_def L_def next'_def f_def)
    then show ?thesis using ins nf es' by (simp add: h1_def)
  qed
qed

interpretation harmless: bounded_log ring dwarf_insert_harmless_error stored good_message dh_errs_count
  by unfold_locales (rule ring_insert)

subsection \<open>Making, reading and resizing the list\<close>

definition all_succeed :: "nat \<Rightarrow> allocs \<Rightarrow> bool" where
  "all_succeed n mem \<longleftrightarrow> (\<forall>b \<in> set (take n mem). b)"

lemma init_slots_succeed:
  "all_succeed n mem \<Longrightarrow>
   fst (init_slots n mem) = replicate n (Some (replicate DW_HARMLESS_ERROR_MSG_STRING_SIZE 0))"
proof (induction n arbitrary: mem)
  case (Suc n)
  have ok: "fst (alloc mem)" "all_succeed n (snd (alloc mem))"
    using Suc.prems by (cases mem; simp add: all_succeed_def)+
  then show ?case using Suc.IH [OF ok(2)] by (simp add: case_prod_unfold Let_def)
qed simp

lemma init_ring:
  assumes "all_succeed (n + 2) mem" "n + 1 < 2 ^ 32"
  shows "ring n (fst (dwarf_harmless_init n mem)) [] \<and> dh_errs_count (fst (dwarf_harmless_init n mem)) = 0"
proof -
  have ok: "fst (alloc mem)" "all_succeed (n + 1) (snd (alloc mem))"
    using assms(1) by (cases mem; simp add: all_succeed_def)+
  have "good_slot (Some (replicate DW_HARMLESS_ERROR_MSG_STRING_SIZE 0))"
    by (simp add: good_slot_def DW_HARMLESS_ERROR_MSG_STRING_SIZE_def)
  then show ?thesis
    using ok assms(2) init_slots_succeed [of "n + 1" "snd (alloc mem)"]
    by (auto simp: dwarf_harmless_init_def ring_def Let_def split: prod.splits)
qed

definition shown :: "byte list option list \<Rightarrow> byte list list" where
  "shown arr = map slot_message (takeWhile (\<lambda>p. p \<noteq> None) arr)"

lemma fetch_loop_ring:
  assumes r: "ring n h es" and sl: "dh_errors h = Some slots"
      and i: "i \<le> length es" "i \<le> c" "c \<le> length arr"
  shows "\<exists>arr'. fetch_loop h slots c arr i ((dh_first h + i) mod (n + 1)) = Some (arr', min c (length es))
     \<and> length arr' = length arr \<and> take i arr' = take i arr
     \<and> (\<forall>k. i \<le> k \<and> k < min c (length es) \<longrightarrow> (\<exists>b. arr' ! k = Some b \<and> c_string b = es ! k))"
  using i
proof (induction "c - i" arbitrary: i arr)
  case 0
  then show ?case by (subst fetch_loop.simps) auto
next
  case (Suc d)
  define f where "f = dh_first h"
  have b: "dh_maxcount h = n + 1" "n + 1 < 2 ^ 32" "length es \<le> n" "length slots = n + 1"
      "dh_next_to_use h = (f + length es) mod (n + 1)"
      "\<forall>sl \<in> set slots. good_slot sl" "\<forall>k < length es. slot_message (slots ! ((f + k) mod (n + 1))) = es ! k"
    using r sl by (auto simp: ring_def f_def)
  show ?case
  proof (cases "i = length es")
    case True
    then show ?thesis using Suc.prems b by (subst fetch_loop.simps) (auto simp: f_def [symmetric])
  next
    case False
    then have i: "i < length es" using Suc.prems by simp
    define cur where "cur = (f + i) mod (n + 1)"
    have cur: "cur < length slots" "cur \<noteq> dh_next_to_use h"
      using b i ring_index_inj [of f i "n + 1" "length es"] by (auto simp: cur_def)
    have nxt: "((cur + 1) mod 2 ^ 32) mod dh_maxcount h = (f + (i + 1)) mod (n + 1)"
      using ring_step [of "n + 1" "f + i"] b by (simp add: cur_def)
    obtain bb where bb: "slots ! cur = Some bb" "c_string bb = es ! i"
      using b cur i unfolding cur_def good_slot_def slot_message_def
      by (metis nth_mem option.simps(5))
    have d: "d = c - (i + 1)" "i + 1 \<le> length es" "i + 1 \<le> c" "c \<le> length (arr[i := slots ! cur])"
      using Suc.hyps(2) Suc.prems i by auto
    obtain arr' where arr': "fetch_loop h slots c (arr[i := slots ! cur]) (i + 1) ((f + (i + 1)) mod (n + 1)) =
          Some (arr', min c (length es))" "length arr' = length arr"
        "take (i + 1) arr' = take (i + 1) (arr[i := slots ! cur])"
        "\<forall>k. i + 1 \<le> k \<and> k < min c (length es) \<longrightarrow> (\<exists>b. arr' ! k = Some b \<and> c_string b = es ! k)"
      using Suc.hyps(1) [OF d] unfolding f_def length_list_update by blast
    have at: "arr' ! i = Some bb"
      using arg_cong [OF arr'(3), of "\<lambda>l. l ! i"] Suc.hyps(2) Suc.prems bb arr'(2) by simp
    have step: "fetch_loop h slots c arr i cur = Some (arr', min c (length es))"
      using arr'(1) cur nxt d(3) Suc.prems by (subst fetch_loop.simps) simp
    have "take i arr' = take i arr"
      using arg_cong [OF arr'(3), of "take i"] by simp
    moreover have "\<exists>b. arr' ! k = Some b \<and> c_string b = es ! k" if "i \<le> k" "k < min c (length es)" for k
      using that at bb arr'(4) by (cases "k = i") auto
    ultimately show ?thesis using step arr'(2) by (auto simp: cur_def f_def)
  qed
qed

lemma shown_prefix:
  assumes "m < length arr" "\<forall>k < m. \<exists>b. arr ! k = Some b \<and> c_string b = es ! k" "m \<le> length es"
  shows "shown (arr[m := None]) = take m es"
proof -
  have "takeWhile (\<lambda>p. p \<noteq> None) (arr[m := None]) = take m (arr[m := None])"
    using assms by (intro takeWhile_eq_take_P_nth) auto
  then show ?thesis
    using assms by (auto simp: shown_def slot_message_def list_eq_iff_nth_eq)
qed

lemma get_ring:
  assumes r: "ring n h es" and c: "0 < count1" "count1 = length arr" and e: "dh_errs_count h \<noteq> 0" "0 < length es"
  shows "\<exists>arr' h'. dwarf_get_harmless_error_list count1 arr h = Some (DW_DLV_OK (dh_errs_count h), arr', h')
     \<and> shown arr' = take (count1 - 1) es \<and> ring n h' [] \<and> dh_errs_count h' = 0"
proof -
  obtain slots where sl: "dh_errors h = Some slots" "length slots = n + 1" "\<forall>sl \<in> set slots. good_slot sl"
    using r by (auto simp: ring_def)
  define arr1 where "arr1 = arr[count1 - 1 := None]"
  have n: "dh_next_to_use h \<noteq> dh_first h"
    using r e ring_index_inj [of "dh_first h" "length es" "n + 1" 0] by (auto simp: ring_def)
  define m where "m = min (count1 - 1) (length es)"
  obtain arr2 where f: "fetch_loop h slots (count1 - 1) arr1 0 (dh_first h) = Some (arr2, m)"
      "length arr2 = length arr" "\<forall>k < m. \<exists>b. arr2 ! k = Some b \<and> c_string b = es ! k"
    using fetch_loop_ring [OF r sl(1), of 0 "count1 - 1" arr1] c r
    by (auto simp: arr1_def ring_def m_def)
  have "fetch_messages h slots count1 arr = Some (arr2[m := None])"
    using c n f by (simp add: fetch_messages_def Let_def arr1_def)
  moreover have "shown (arr2[m := None]) = take m es"
  proof (rule shown_prefix)
    show "m < length arr2" using c f(2) unfolding m_def by linarith
  qed (use f in \<open>auto simp: m_def\<close>)
  moreover have "take m es = take (count1 - 1) es" by (simp add: m_def min_def)
  moreover have "ring n (h\<lparr>dh_next_to_use := 0, dh_first := 0, dh_errs_count := 0\<rparr>) []"
    using r by (auto simp: ring_def)
  ultimately show ?thesis using e sl(1) by (simp add: dwarf_get_harmless_error_list_def)
qed

text \<open>
  C26: A fresh list of \<open>n\<close> slots that is given any number of messages answers the next request
  with the number of messages given and the last \<open>n\<close> of them in order, each cut to 299 bytes,
  as many as fit in the caller's array before its terminating null pointer; the request empties
  the list. No call accesses memory outside the buffers.
\<close>

theorem harmless_keeps_last:
  assumes "all_succeed (n + 2) mem" "0 < n" "n + 1 < 2 ^ 32"
      and "ms \<noteq> []" "length ms < 2 ^ 32" "\<forall>m \<in> set ms. good_message m" "0 < length arr"
  shows "\<exists>h1 arr' h2.
     insert_all dwarf_insert_harmless_error ms (fst (dwarf_harmless_init n mem)) = Some h1
     \<and> dwarf_get_harmless_error_list (length arr) arr h1 = Some (DW_DLV_OK (length ms), arr', h2)
     \<and> shown arr' = take (length arr - 1) (last_of n (map stored ms))
     \<and> dwarf_get_harmless_error_list (length arr) arr h2 = Some (DW_DLV_NO_ENTRY, arr, h2)"
proof -
  let ?h = "fst (dwarf_harmless_init n mem)"
  have i: "ring n ?h []" "dh_errs_count ?h = 0" using init_ring assms by blast+
  obtain h1 where h1: "insert_all dwarf_insert_harmless_error ms ?h = Some h1"
      "ring n h1 (last_of n (map stored ms))"
    using harmless.put_all_holds [OF i(1) _ assms(6)] by auto
  have c: "dh_errs_count h1 = length ms"
    using harmless.put_all_counter [OF i(1) assms(6) h1(1)] i(2) assms(5) by simp
  obtain arr' h2 where g: "dwarf_get_harmless_error_list (length arr) arr h1 =
        Some (DW_DLV_OK (dh_errs_count h1), arr', h2)"
      "shown arr' = take (length arr - 1) (last_of n (map stored ms))" "ring n h2 []" "dh_errs_count h2 = 0"
    using get_ring [OF h1(2) assms(7) refl] c assms(2,4) by auto
  have "dwarf_get_harmless_error_list (length arr) arr h2 = Some (DW_DLV_NO_ENTRY, arr, h2)"
    using g(3,4) by (auto simp: dwarf_get_harmless_error_list_def ring_def)
  then show ?thesis using h1(1) g(1,2) c by auto
qed

theorem harmless_keeps_last_witness:
  "\<exists>h1 arr' h2.
     insert_all dwarf_insert_harmless_error [[65, 0], [66, 0], [67, 0]] (fst (dwarf_harmless_init 2 [])) = Some h1
     \<and> dwarf_get_harmless_error_list 4 (replicate 4 None) h1 = Some (DW_DLV_OK 3, arr', h2)
     \<and> shown arr' = [[66], [67]]
     \<and> dwarf_get_harmless_error_list 4 (replicate 4 None) h2 =
         Some (DW_DLV_NO_ENTRY, replicate 4 None, h2)"
  using harmless_keeps_last [of 2 "[]" "[[65, 0], [66, 0], [67, 0]]" "replicate 4 None"]
  by (simp add: all_succeed_def good_message_def last_of_def stored_def c_string_def numeral_3_eq_3
      del: insert_all.simps)

lemma stored_slot:
  "good_slot (Some b) \<Longrightarrow> stored b = c_string b \<and> good_message b"
proof -
  assume g: "good_slot (Some b)"
  then obtain rest where "b = c_string b @ 0 # rest" using c_string_split by (auto simp: good_slot_def)
  then have "length b = length (c_string b) + 1 + length rest" by (metis length_append length_Cons add.assoc add.commute plus_1_eq_Suc)
  then show ?thesis using g by (simp add: good_slot_def stored_def good_message_def)
qed

text \<open>The messages that are put in again, with the memory that holds them.\<close>

definition old_buffers :: "nat \<Rightarrow> harmless \<Rightarrow> byte list option list \<Rightarrow> nat \<Rightarrow> nat \<Rightarrow> byte list list" where
  "old_buffers n h slots i len = map (\<lambda>k. the (slots ! ((dh_first h + k) mod (n + 1)))) [i..<len]"

lemma reinsert_ring:
  assumes r: "ring n h es" and sl: "dh_errors h = Some slots"
      and i: "i \<le> length es" "length es - i \<le> fuel"
  shows "reinsert fuel h slots ((dh_first h + i) mod (n + 1)) h1 =
     insert_all dwarf_insert_harmless_error (old_buffers n h slots i (length es)) h1"
  using i
proof (induction fuel arbitrary: i h1)
  case 0
  then have "i = length es" by simp
  then show ?case using r by (subst reinsert.simps) (simp add: ring_def old_buffers_def)
next
  case (Suc fuel)
  define f where "f = dh_first h"
  have b: "dh_maxcount h = n + 1" "n + 1 < 2 ^ 32" "length es \<le> n" "length slots = n + 1"
      "dh_next_to_use h = (f + length es) mod (n + 1)" "\<forall>sl \<in> set slots. good_slot sl"
    using r sl by (auto simp: ring_def f_def)
  show ?case
  proof (cases "i = length es")
    case True
    then show ?thesis using b by (subst reinsert.simps) (simp add: f_def old_buffers_def)
  next
    case False
    then have i: "i < length es" using Suc.prems by simp
    define cur where "cur = (f + i) mod (n + 1)"
    have cur: "cur < length slots" "cur \<noteq> dh_next_to_use h"
      using b i ring_index_inj [of f i "n + 1" "length es"] by (auto simp: cur_def)
    have nxt: "((cur + 1) mod 2 ^ 32) mod dh_maxcount h = (f + (i + 1)) mod (n + 1)"
      using ring_step [of "n + 1" "f + i"] b by (simp add: cur_def)
    obtain bb where bb: "slots ! cur = Some bb" using b cur by (metis good_slot_def nth_mem)
    have bufs: "old_buffers n h slots i (length es) = bb # old_buffers n h slots (i + 1) (length es)"
      using i bb by (simp add: old_buffers_def upt_conv_Cons cur_def f_def)
    show ?thesis
      unfolding bufs f_def [symmetric] cur_def [symmetric]
      using cur bb nxt Suc.IH [of "i + 1"] Suc.prems i
      by (subst reinsert.simps) (simp add: f_def split: option.split)
  qed
qed

lemma old_buffers_ring:
  assumes "ring n h es" "dh_errors h = Some slots"
  shows "map stored (old_buffers n h slots 0 (length es)) = es
     \<and> (\<forall>m \<in> set (old_buffers n h slots 0 (length es)). good_message m)"
proof -
  have "\<exists>b. slots ! ((dh_first h + k) mod (n + 1)) = Some b \<and> good_slot (Some b) \<and> c_string b = es ! k"
    if "k < length es" for k
  proof -
    have "(dh_first h + k) mod (n + 1) < length slots" using assms by (auto simp: ring_def)
    then have "good_slot (slots ! ((dh_first h + k) mod (n + 1)))" using assms by (auto simp: ring_def)
    moreover have "slot_message (slots ! ((dh_first h + k) mod (n + 1))) = es ! k"
      using assms that by (auto simp: ring_def)
    ultimately show ?thesis by (auto simp: good_slot_def slot_message_def)
  qed
  then have *: "\<exists>b. slots ! ((dh_first h + k) mod (n + 1)) = Some b \<and> stored b = es ! k \<and> good_message b"
    if "k < length es" for k
    using that stored_slot by fastforce
  have **: "stored (the (slots ! ((dh_first h + k) mod (n + 1)))) = es ! k"
      "good_message (the (slots ! ((dh_first h + k) mod (n + 1))))" if "k < length es" for k
    using * [OF that] by auto
  have "map stored (old_buffers n h slots 0 (length es)) = es"
    by (rule nth_equalityI) (use **(1) in \<open>simp_all add: old_buffers_def\<close>)
  moreover have "good_message m" if "m \<in> set (old_buffers n h slots 0 (length es))" for m
    using that **(2) unfolding old_buffers_def by (auto simp only: set_map set_upt atLeastLessThan_iff)
  ultimately show ?thesis by blast
qed

lemma set_size_unfold:
  assumes r: "ring n h es" "es \<noteq> []" "dh_errors h = Some slots" and k: "0 < k" "k \<noteq> n" "k + 1 < 2 ^ 32"
  shows "dwarf_set_harmless_error_list_size k mem h =
    (case insert_all dwarf_insert_harmless_error (old_buffers n h slots 0 (length es))
            (fst (dwarf_harmless_init k mem)) of
       None \<Rightarrow> None
     | Some h2 \<Rightarrow> Some (n, if dh_errs_count h2 < dh_errs_count h
                          then h2\<lparr>dh_errs_count := dh_errs_count h\<rparr> else h2,
                        snd (dwarf_harmless_init k mem)))"
proof -
  have b: "dh_maxcount h = n + 1" "n + 1 < 2 ^ 32" "dh_first h < n + 1" "length es \<le> n" "length slots = n + 1"
    using r by (auto simp: ring_def)
  have ne: "dh_next_to_use h \<noteq> dh_first h"
    using r ring_index_inj [of "dh_first h" "length es" "n + 1" 0] by (auto simp: ring_def)
  have "reinsert (n + 1) h slots (dh_first h) h1 =
      insert_all dwarf_insert_harmless_error (old_buffers n h slots 0 (length es)) h1" for h1
    using reinsert_ring [OF r(1,3), of 0 "n + 1" h1] b by simp
  moreover have res: "(dh_maxcount h + 2 ^ 32 - 1) mod 2 ^ 32 = n" "((k + 1) mod 2 ^ 32 + 2 ^ 32 - 1) mod 2 ^ 32 = k"
    using b k by simp_all
  ultimately show ?thesis
    using b k ne r(3)
    unfolding dwarf_set_harmless_error_list_size_def Let_def res
    by (simp add: case_prod_unfold)
qed

text \<open>
  Changing the size of the list keeps the newest messages that fit into the new one, in
  order and unchanged, and the count of all messages, including those already dropped; the
  result is the old size.
\<close>

theorem resize_keeps_newest:
  assumes r: "ring n h es" "es \<noteq> []" and k: "0 < k" "k \<noteq> n" "k + 1 < 2 ^ 32"
      and mem: "all_succeed (k + 2) mem"
      and c: "length es \<le> dh_errs_count h"
  shows "\<exists>h' mem'. dwarf_set_harmless_error_list_size k mem h = Some (n, h', mem')
     \<and> ring k h' (last_of k es) \<and> dh_errs_count h' = dh_errs_count h"
proof -
  obtain slots where sl: "dh_errors h = Some slots" using r(1) by (auto simp: ring_def)
  note bufs = old_buffers_ring [OF r(1) sl]
  let ?h = "fst (dwarf_harmless_init k mem)" and ?ms = "old_buffers n h slots 0 (length es)"
  have i: "ring k ?h []" "dh_errs_count ?h = 0" using init_ring mem k(3) by blast+
  obtain h2 where h2: "insert_all dwarf_insert_harmless_error ?ms ?h = Some h2" "ring k h2 (last_of k es)"
    using harmless.put_all_holds [OF i(1), of ?ms] bufs by auto
  have n: "length ?ms = length es" "length es < 2 ^ 32" using r(1) by (auto simp: old_buffers_def ring_def)
  have "dh_errs_count h2 = length es"
    using harmless.put_all_counter [OF i(1) _ h2(1)] bufs i(2) n by simp
  moreover have "ring k (h2\<lparr>dh_errs_count := dh_errs_count h\<rparr>) (last_of k es)"
    using h2(2) by (auto simp: ring_def)
  ultimately show ?thesis
    using h2 c by (auto simp: set_size_unfold [OF r sl k])
qed

lemma example_ring:
  "ring 1 \<lparr>dh_maxcount = 2, dh_first = 1, dh_next_to_use = 0, dh_errs_count = 5,
           dh_errors = Some [Some (replicate 300 0), Some (65 # replicate 299 0)]\<rparr> [[65]]"
  by (auto simp: ring_def good_slot_def slot_message_def c_string_def nth_append)

theorem resize_keeps_newest_witness:
  "\<exists>h' mem'. dwarf_set_harmless_error_list_size 3 []
       \<lparr>dh_maxcount = 2, dh_first = 1, dh_next_to_use = 0, dh_errs_count = 5,
        dh_errors = Some [Some (replicate 300 0), Some (65 # replicate 299 0)]\<rparr> = Some (1, h', mem')
     \<and> ring 3 h' [[65]] \<and> dh_errs_count h' = 5"
  using resize_keeps_newest [OF example_ring, of 3 "[]"] by (simp add: all_succeed_def last_of_def)

lemma insert_all_no_list:
  "dh_errors h = None \<Longrightarrow> \<exists>c. insert_all dwarf_insert_harmless_error ms h = Some (h\<lparr>dh_errs_count := c\<rparr>)"
proof (induction ms arbitrary: h)
  case Nil
  have "insert_all dwarf_insert_harmless_error [] h = Some (h\<lparr>dh_errs_count := dh_errs_count h\<rparr>)" by simp
  then show ?case by blast
next
  case (Cons m ms)
  from Cons.prems obtain c where "insert_all dwarf_insert_harmless_error ms
      (h\<lparr>dh_errs_count := (dh_errs_count h + 1) mod 2 ^ 32\<rparr>) = Some (h\<lparr>dh_errs_count := c\<rparr>)"
    using Cons.IH [of "h\<lparr>dh_errs_count := (dh_errs_count h + 1) mod 2 ^ 32\<rparr>"] by auto
  moreover have "dwarf_insert_harmless_error m h = Some (h\<lparr>dh_errs_count := (dh_errs_count h + 1) mod 2 ^ 32\<rparr>)"
    using Cons.prems by (simp add: dwarf_insert_harmless_error_def)
  ultimately have "insert_all dwarf_insert_harmless_error (m # ms) h = Some (h\<lparr>dh_errs_count := c\<rparr>)"
    by simp
  then show ?case by blast
qed

text \<open>
  When memory runs out the list does not degrade as promised. If the new list cannot be
  allocated, resizing drops the old one with all its messages. If only the buffer of a slot
  cannot be allocated, the list is made with a null slot and the insertion that reaches it
  writes through the null pointer.
\<close>

theorem harmless_out_of_memory:
  assumes "ring n h es" "es \<noteq> []" "0 < k" "k \<noteq> n" "k + 1 < 2 ^ 32"
  shows "(\<exists>h'. dwarf_set_harmless_error_list_size k (False # mem) h = Some (n, h', mem)
            \<and> dwarf_get_harmless_error_list c arr h' = Some (DW_DLV_NO_ENTRY, arr, h'\<lparr>dh_errs_count := 0\<rparr>))
     \<and> dwarf_insert_harmless_error m (fst (dwarf_harmless_init k (True # False # mem))) = None"
proof -
  obtain slots where sl: "dh_errors h = Some slots" using assms(1) by (auto simp: ring_def)
  have f: "dh_errors (fst (dwarf_harmless_init k (False # mem))) = None"
      "snd (dwarf_harmless_init k (False # mem)) = mem"
    by (simp_all add: dwarf_harmless_init_def)
  obtain c' where "insert_all dwarf_insert_harmless_error (old_buffers n h slots 0 (length es))
      (fst (dwarf_harmless_init k (False # mem))) = Some ((fst (dwarf_harmless_init k (False # mem)))\<lparr>dh_errs_count := c'\<rparr>)"
    using insert_all_no_list [OF f(1)] by blast
  then have "\<exists>h'. dwarf_set_harmless_error_list_size k (False # mem) h = Some (n, h', mem)
      \<and> dwarf_get_harmless_error_list c arr h' = Some (DW_DLV_NO_ENTRY, arr, h'\<lparr>dh_errs_count := 0\<rparr>)"
    using f by (auto simp: set_size_unfold [OF assms(1,2) sl assms(3-5)] dwarf_get_harmless_error_list_def)
  moreover have "dwarf_insert_harmless_error m (fst (dwarf_harmless_init k (True # False # mem))) = None"
    using assms(5)
    by (auto simp: dwarf_harmless_init_def dwarf_insert_harmless_error_def Let_def case_prod_unfold)
  ultimately show ?thesis by blast
qed

theorem harmless_out_of_memory_witness:
  "(\<exists>h'. dwarf_set_harmless_error_list_size 3 [False]
       \<lparr>dh_maxcount = 2, dh_first = 1, dh_next_to_use = 0, dh_errs_count = 5,
        dh_errors = Some [Some (replicate 300 0), Some (65 # replicate 299 0)]\<rparr> = Some (1, h', [])
     \<and> dwarf_get_harmless_error_list 2 [None, None] h' =
         Some (DW_DLV_NO_ENTRY, [None, None], h'\<lparr>dh_errs_count := 0\<rparr>))
     \<and> dwarf_insert_harmless_error [66, 0] (fst (dwarf_harmless_init 3 [True, False])) = None"
  using harmless_out_of_memory [OF example_ring, of 3 "[]" 2 "[None, None]" "[66, 0]"] by simp

end
