(* ===== verification/Crc32.thy ===== *)
theory Crc32
  imports Prelude
begin

text \<open>
  The CRC of the debug link: the table and the byte loop of \<open>dwarf_crc.c\<close>, and the reading of
  the whole object file in blocks of 1000 bytes of \<open>dwarf_crc32.c\<close>. What the file system
  answers (\<open>lseek\<close>, \<open>read\<close>) is a parameter.
\<close>

subsection \<open>\<open>dwarf_crc.c\<close>\<close>

text \<open>The table, in eight parts of eight lines of the source.\<close>

definition crc_lines_0 :: "u32 list" where
  "crc_lines_0 =
    [0x00000000, 0x77073096, 0xee0e612c, 0x990951ba,
     0x076dc419, 0x706af48f, 0xe963a535, 0x9e6495a3,
     0x0edb8832, 0x79dcb8a4, 0xe0d5e91e, 0x97d2d988,
     0x09b64c2b, 0x7eb17cbd, 0xe7b82d07, 0x90bf1d91,
     0x1db71064, 0x6ab020f2, 0xf3b97148, 0x84be41de,
     0x1adad47d, 0x6ddde4eb, 0xf4d4b551, 0x83d385c7,
     0x136c9856, 0x646ba8c0, 0xfd62f97a, 0x8a65c9ec,
     0x14015c4f, 0x63066cd9, 0xfa0f3d63, 0x8d080df5]"

definition crc_lines_1 :: "u32 list" where
  "crc_lines_1 =
    [0x3b6e20c8, 0x4c69105e, 0xd56041e4, 0xa2677172,
     0x3c03e4d1, 0x4b04d447, 0xd20d85fd, 0xa50ab56b,
     0x35b5a8fa, 0x42b2986c, 0xdbbbc9d6, 0xacbcf940,
     0x32d86ce3, 0x45df5c75, 0xdcd60dcf, 0xabd13d59,
     0x26d930ac, 0x51de003a, 0xc8d75180, 0xbfd06116,
     0x21b4f4b5, 0x56b3c423, 0xcfba9599, 0xb8bda50f,
     0x2802b89e, 0x5f058808, 0xc60cd9b2, 0xb10be924,
     0x2f6f7c87, 0x58684c11, 0xc1611dab, 0xb6662d3d]"

definition crc_lines_2 :: "u32 list" where
  "crc_lines_2 =
    [0x76dc4190, 0x01db7106, 0x98d220bc, 0xefd5102a,
     0x71b18589, 0x06b6b51f, 0x9fbfe4a5, 0xe8b8d433,
     0x7807c9a2, 0x0f00f934, 0x9609a88e, 0xe10e9818,
     0x7f6a0dbb, 0x086d3d2d, 0x91646c97, 0xe6635c01,
     0x6b6b51f4, 0x1c6c6162, 0x856530d8, 0xf262004e,
     0x6c0695ed, 0x1b01a57b, 0x8208f4c1, 0xf50fc457,
     0x65b0d9c6, 0x12b7e950, 0x8bbeb8ea, 0xfcb9887c,
     0x62dd1ddf, 0x15da2d49, 0x8cd37cf3, 0xfbd44c65]"

definition crc_lines_3 :: "u32 list" where
  "crc_lines_3 =
    [0x4db26158, 0x3ab551ce, 0xa3bc0074, 0xd4bb30e2,
     0x4adfa541, 0x3dd895d7, 0xa4d1c46d, 0xd3d6f4fb,
     0x4369e96a, 0x346ed9fc, 0xad678846, 0xda60b8d0,
     0x44042d73, 0x33031de5, 0xaa0a4c5f, 0xdd0d7cc9,
     0x5005713c, 0x270241aa, 0xbe0b1010, 0xc90c2086,
     0x5768b525, 0x206f85b3, 0xb966d409, 0xce61e49f,
     0x5edef90e, 0x29d9c998, 0xb0d09822, 0xc7d7a8b4,
     0x59b33d17, 0x2eb40d81, 0xb7bd5c3b, 0xc0ba6cad]"

definition crc_lines_4 :: "u32 list" where
  "crc_lines_4 =
    [0xedb88320, 0x9abfb3b6, 0x03b6e20c, 0x74b1d29a,
     0xead54739, 0x9dd277af, 0x04db2615, 0x73dc1683,
     0xe3630b12, 0x94643b84, 0x0d6d6a3e, 0x7a6a5aa8,
     0xe40ecf0b, 0x9309ff9d, 0x0a00ae27, 0x7d079eb1,
     0xf00f9344, 0x8708a3d2, 0x1e01f268, 0x6906c2fe,
     0xf762575d, 0x806567cb, 0x196c3671, 0x6e6b06e7,
     0xfed41b76, 0x89d32be0, 0x10da7a5a, 0x67dd4acc,
     0xf9b9df6f, 0x8ebeeff9, 0x17b7be43, 0x60b08ed5]"

definition crc_lines_5 :: "u32 list" where
  "crc_lines_5 =
    [0xd6d6a3e8, 0xa1d1937e, 0x38d8c2c4, 0x4fdff252,
     0xd1bb67f1, 0xa6bc5767, 0x3fb506dd, 0x48b2364b,
     0xd80d2bda, 0xaf0a1b4c, 0x36034af6, 0x41047a60,
     0xdf60efc3, 0xa867df55, 0x316e8eef, 0x4669be79,
     0xcb61b38c, 0xbc66831a, 0x256fd2a0, 0x5268e236,
     0xcc0c7795, 0xbb0b4703, 0x220216b9, 0x5505262f,
     0xc5ba3bbe, 0xb2bd0b28, 0x2bb45a92, 0x5cb36a04,
     0xc2d7ffa7, 0xb5d0cf31, 0x2cd99e8b, 0x5bdeae1d]"

definition crc_lines_6 :: "u32 list" where
  "crc_lines_6 =
    [0x9b64c2b0, 0xec63f226, 0x756aa39c, 0x026d930a,
     0x9c0906a9, 0xeb0e363f, 0x72076785, 0x05005713,
     0x95bf4a82, 0xe2b87a14, 0x7bb12bae, 0x0cb61b38,
     0x92d28e9b, 0xe5d5be0d, 0x7cdcefb7, 0x0bdbdf21,
     0x86d3d2d4, 0xf1d4e242, 0x68ddb3f8, 0x1fda836e,
     0x81be16cd, 0xf6b9265b, 0x6fb077e1, 0x18b74777,
     0x88085ae6, 0xff0f6a70, 0x66063bca, 0x11010b5c,
     0x8f659eff, 0xf862ae69, 0x616bffd3, 0x166ccf45]"

definition crc_lines_7 :: "u32 list" where
  "crc_lines_7 =
    [0xa00ae278, 0xd70dd2ee, 0x4e048354, 0x3903b3c2,
     0xa7672661, 0xd06016f7, 0x4969474d, 0x3e6e77db,
     0xaed16a4a, 0xd9d65adc, 0x40df0b66, 0x37d83bf0,
     0xa9bcae53, 0xdebb9ec5, 0x47b2cf7f, 0x30b5ffe9,
     0xbdbdf21c, 0xcabac28a, 0x53b39330, 0x24b4a3a6,
     0xbad03605, 0xcdd70693, 0x54de5729, 0x23d967bf,
     0xb3667a2e, 0xc4614ab8, 0x5d681b02, 0x2a6f2b94,
     0xb40bbe37, 0xc30c8ea1, 0x5a05df1b, 0x2d02ef8d]"

definition crc32_table :: "u32 list" where
  "crc32_table = crc_lines_0 @ crc_lines_1 @ crc_lines_2 @ crc_lines_3
     @ crc_lines_4 @ crc_lines_5 @ crc_lines_6 @ crc_lines_7"

text \<open>\<open>None\<close>: the loop reads past the end of the buffer.\<close>

definition crc_step :: "u32 \<Rightarrow> byte \<Rightarrow> u32" where
  "crc_step crc b = crc32_table ! unat ((crc XOR ucast b) AND 0xff) XOR drop_bit 8 crc"

definition dwarf_basic_crc32 :: "byte list \<Rightarrow> nat \<Rightarrow> u32 \<Rightarrow> u32 option" where
  "dwarf_basic_crc32 buf len crc =
     (if length buf < len then None else Some (NOT (foldl crc_step (NOT crc) (take len buf))))"

subsection \<open>\<open>dwarf_crc32.c\<close>\<close>

datatype crc_error = DW_DLE_DBG_NULL | DW_DLE_SEEK_ERROR | DW_DLE_ALLOC_FAIL | DW_DLE_READ_ERROR

record crc_dbg =
  de_owns_fd :: bool
  de_fd :: int
  de_filesize :: u64

text \<open>
  \<open>sys_read pos n\<close> is what \<open>read\<close> of \<open>n\<close> bytes puts into the buffer when the file offset is
  \<open>pos\<close>; its length is what \<open>read\<close> returns (\<open>None\<close> for -1).
\<close>

record file_calls =
  seek_end :: int
  seek_set :: int
  malloc_ok :: bool
  sys_read :: "nat \<Rightarrow> nat \<Rightarrow> byte list option"

text \<open>
  The loop at file offset \<open>pos\<close>, with \<open>size_left\<close>, \<open>readlenu\<close> and \<open>init\<close>. \<open>None\<close> is a read
  past the buffer.
\<close>

function crc_loop :: "file_calls \<Rightarrow> nat \<Rightarrow> nat \<Rightarrow> nat \<Rightarrow> u32 \<Rightarrow> (crc_error, u32) dlv option" where
  "crc_loop io pos size_left readlenu init =
     (if size_left = 0 \<or> readlenu = 0 then Some (DW_DLV_OK init)
      else let readlen = (if size_left < readlenu then size_left else readlenu) in
           case sys_read io pos readlen of
             None \<Rightarrow> Some (DW_DLV_ERROR DW_DLE_READ_ERROR)
           | Some readbuf \<Rightarrow>
               if length readbuf \<noteq> readlen then Some (DW_DLV_ERROR DW_DLE_READ_ERROR)
               else case dwarf_basic_crc32 readbuf readlen init of
                 None \<Rightarrow> None
               | Some tcrc \<Rightarrow> crc_loop io (pos + readlen) (size_left - readlen) readlen tcrc)"
  by pat_completeness auto
termination
  by (relation "measure (\<lambda>(io, pos, size_left, readlenu, init). size_left)") auto

declare crc_loop.simps [simp del]

text \<open>The four bytes \<open>memcpy\<close> takes from an \<open>unsigned int\<close> on the little-endian host.\<close>

definition crc_bytes :: "u32 \<Rightarrow> byte list" where
  "crc_bytes w = map (\<lambda>i. ucast (drop_bit (8 * i) w)) [0..<4]"

definition dwarf_crc32 :: "crc_dbg option \<Rightarrow> bool \<Rightarrow> file_calls \<Rightarrow> (crc_error, byte list) dlv option" where
  "dwarf_crc32 dbg crcbuf_given io =
     (case dbg of
        None \<Rightarrow> Some (DW_DLV_ERROR DW_DLE_DBG_NULL)
      | Some d \<Rightarrow>
          if \<not> crcbuf_given then Some DW_DLV_NO_ENTRY
          else if \<not> de_owns_fd d then Some DW_DLV_NO_ENTRY
          else if de_fd d < 0 then Some DW_DLV_NO_ENTRY
          else let fsize = (if de_filesize d \<noteq> 0 then sint (de_filesize d) else seek_end io) in
               if de_filesize d = 0 \<and> fsize = -1 then Some (DW_DLV_ERROR DW_DLE_SEEK_ERROR)
               else if fsize \<le> 500 then Some DW_DLV_NO_ENTRY
               else if seek_set io < 0 then Some (DW_DLV_ERROR DW_DLE_SEEK_ERROR)
               else if \<not> malloc_ok io then Some (DW_DLV_ERROR DW_DLE_ALLOC_FAIL)
               else case crc_loop io 0 (nat fsize) 1000 0 of
                 None \<Rightarrow> None
               | Some r \<Rightarrow> Some (dlv_bind r (\<lambda>tcrc. DW_DLV_OK (crc_bytes tcrc))))"

subsection \<open>The bit-serial register\<close>

text \<open>
  The reference: the shift register of the reflected polynomial \<open>0xedb88320\<close>, which takes in
  the message bit by bit.
\<close>

definition crc_poly :: u32 where
  "crc_poly = 0xedb88320"

definition crc_bit :: "u32 \<Rightarrow> u32" where
  "crc_bit r = (if bit r 0 then drop_bit 1 r XOR crc_poly else drop_bit 1 r)"

fun crc_bits :: "nat \<Rightarrow> u32 \<Rightarrow> u32" where
  "crc_bits 0 r = r"
| "crc_bits (Suc n) r = crc_bits n (crc_bit r)"

definition crc_register :: "u32 \<Rightarrow> byte list \<Rightarrow> u32" where
  "crc_register r bytes = foldl (\<lambda>r b. crc_bits 8 (r XOR ucast b)) r bytes"

lemma crc_bit_xor: "crc_bit (x XOR y) = crc_bit x XOR crc_bit y"
  by (rule bit_word_eqI) (auto simp: crc_bit_def bit_simps)

lemma crc_bits_xor: "crc_bits n (x XOR y) = crc_bits n x XOR crc_bits n y"
  by (induction n arbitrary: x y) (simp_all add: crc_bit_xor)

lemma crc_bits_shift: "(\<And>i. i < n \<Longrightarrow> \<not> bit r i) \<Longrightarrow> crc_bits n r = drop_bit n r"
proof (induction n arbitrary: r)
  case (Suc n)
  have "crc_bit r = drop_bit 1 r" using Suc.prems [of 0] by (simp add: crc_bit_def)
  moreover have "\<not> bit (drop_bit 1 r) i" if "i < n" for i using Suc.prems [of "i + 1"] that by (simp add: bit_simps)
  ultimately show ?case using Suc.IH [of "drop_bit 1 r"] by (simp add: drop_bit_Suc drop_bit_half)
qed simp

lemma crc_bits_add: "crc_bits (m + n) r = crc_bits n (crc_bits m r)"
  by (induction m arbitrary: r) simp_all

lemma crc_bits_8:
  "crc_bits 8 r = crc_bit (crc_bit (crc_bit (crc_bit (crc_bit (crc_bit (crc_bit (crc_bit r)))))))"
  by (simp add: eval_nat_numeral)

definition register_row :: "nat \<Rightarrow> nat \<Rightarrow> u32 list" where
  "register_row i j = map (\<lambda>k. crc_bits 8 (word_of_nat k)) [i..<j]"

lemma register_row_append: "i \<le> j \<Longrightarrow> j \<le> k \<Longrightarrow> register_row i j @ register_row j k = register_row i k"
  using upt_add_eq_append [of i j "k - j"] by (simp add: register_row_def flip: map_append)

lemma register_row_explicit:
  "map word_of_nat [i..<j] = xs \<Longrightarrow> register_row i j = map (crc_bits 8) xs"
  by (auto simp: register_row_def)

lemma crc_lines_0_register: "crc_lines_0 = register_row 0 32"
proof -
  have "map word_of_nat [0..<32] = [0, 1, 2, 3, 4, 5, 6, 7, 8, 9, 10, 11, 12, 13, 14, 15, 16, 17, 18, 19, 20, 
      21, 22, 23, 24, 25, 26, 27, 28, 29, 30, 31 :: u32]" by (simp add: upt_rec)
  then show ?thesis unfolding crc_lines_0_def
    by (simp add: register_row_explicit crc_bits_8 crc_bit_def crc_poly_def)
qed

lemma crc_lines_1_register: "crc_lines_1 = register_row 32 64"
proof -
  have "map word_of_nat [32..<64] = [32, 33, 34, 35, 36, 37, 38, 39, 40, 41, 42, 43, 44, 45, 46, 47, 48, 49, 
      50, 51, 52, 53, 54, 55, 56, 57, 58, 59, 60, 61, 62, 63 :: u32]" by (simp add: upt_rec)
  then show ?thesis unfolding crc_lines_1_def
    by (simp add: register_row_explicit crc_bits_8 crc_bit_def crc_poly_def)
qed

lemma crc_lines_2_register: "crc_lines_2 = register_row 64 96"
proof -
  have "map word_of_nat [64..<96] = [64, 65, 66, 67, 68, 69, 70, 71, 72, 73, 74, 75, 76, 77, 78, 79, 80, 81, 
      82, 83, 84, 85, 86, 87, 88, 89, 90, 91, 92, 93, 94, 95 :: u32]" by (simp add: upt_rec)
  then show ?thesis unfolding crc_lines_2_def
    by (simp add: register_row_explicit crc_bits_8 crc_bit_def crc_poly_def)
qed

lemma crc_lines_3_register: "crc_lines_3 = register_row 96 128"
proof -
  have "map word_of_nat [96..<128] = [96, 97, 98, 99, 100, 101, 102, 103, 104, 105, 106, 107, 108, 109, 110, 111, 
      112, 113, 114, 115, 116, 117, 118, 119, 120, 121, 122, 123, 124, 125, 126, 
      127 :: u32]" by (simp add: upt_rec)
  then show ?thesis unfolding crc_lines_3_def
    by (simp add: register_row_explicit crc_bits_8 crc_bit_def crc_poly_def)
qed

lemma crc_lines_4_register: "crc_lines_4 = register_row 128 160"
proof -
  have "map word_of_nat [128..<160] = [128, 129, 130, 131, 132, 133, 134, 135, 136, 137, 138, 139, 140, 141, 142, 
      143, 144, 145, 146, 147, 148, 149, 150, 151, 152, 153, 154, 155, 156, 157, 
      158, 159 :: u32]" by (simp add: upt_rec)
  then show ?thesis unfolding crc_lines_4_def
    by (simp add: register_row_explicit crc_bits_8 crc_bit_def crc_poly_def)
qed

lemma crc_lines_5_register: "crc_lines_5 = register_row 160 192"
proof -
  have "map word_of_nat [160..<192] = [160, 161, 162, 163, 164, 165, 166, 167, 168, 169, 170, 171, 172, 173, 174, 
      175, 176, 177, 178, 179, 180, 181, 182, 183, 184, 185, 186, 187, 188, 189, 
      190, 191 :: u32]" by (simp add: upt_rec)
  then show ?thesis unfolding crc_lines_5_def
    by (simp add: register_row_explicit crc_bits_8 crc_bit_def crc_poly_def)
qed

lemma crc_lines_6_register: "crc_lines_6 = register_row 192 224"
proof -
  have "map word_of_nat [192..<224] = [192, 193, 194, 195, 196, 197, 198, 199, 200, 201, 202, 203, 204, 205, 206, 
      207, 208, 209, 210, 211, 212, 213, 214, 215, 216, 217, 218, 219, 220, 221, 
      222, 223 :: u32]" by (simp add: upt_rec)
  then show ?thesis unfolding crc_lines_6_def
    by (simp add: register_row_explicit crc_bits_8 crc_bit_def crc_poly_def)
qed

lemma crc_lines_7_register: "crc_lines_7 = register_row 224 256"
proof -
  have "map word_of_nat [224..<256] = [224, 225, 226, 227, 228, 229, 230, 231, 232, 233, 234, 235, 236, 237, 238, 
      239, 240, 241, 242, 243, 244, 245, 246, 247, 248, 249, 250, 251, 252, 253, 
      254, 255 :: u32]" by (simp add: upt_rec)
  then show ?thesis unfolding crc_lines_7_def
    by (simp add: register_row_explicit crc_bits_8 crc_bit_def crc_poly_def)
qed

lemma crc32_table_register: "crc32_table = register_row 0 256"
  by (simp add: crc32_table_def crc_lines_0_register crc_lines_1_register crc_lines_2_register
      crc_lines_3_register crc_lines_4_register crc_lines_5_register crc_lines_6_register
      crc_lines_7_register register_row_append)

lemma crc32_table_nth: "i < 256 \<Longrightarrow> crc32_table ! i = crc_bits 8 (word_of_nat i)"
  by (simp add: crc32_table_register register_row_def)

lemma and_255: "r AND 0xff = take_bit 8 (r :: u32)"
  by (simp add: take_bit_eq_mask mask_eq_exp_minus_1)

lemma crc_step_register: "crc_step crc b = crc_bits 8 (crc XOR ucast b)"
proof -
  define r where "r = crc XOR (ucast b :: u32)"
  have split: "r = (r AND 0xff) XOR push_bit 8 (drop_bit 8 r)"
    by (rule bit_word_eqI) (auto simp: bit_simps and_255)
  have "drop_bit 8 crc = drop_bit 8 r"
    by (rule bit_word_eqI) (auto simp: r_def bit_simps dest: bit_imp_le_length)
  moreover have "crc_bits 8 (push_bit 8 (drop_bit 8 r)) = drop_bit 8 r"
  proof -
    have "crc_bits 8 (push_bit 8 (drop_bit 8 r)) = drop_bit 8 (push_bit 8 (drop_bit 8 r))"
      by (rule crc_bits_shift) (simp add: bit_simps)
    also have "\<dots> = drop_bit 8 r" by (rule bit_word_eqI) (auto simp: bit_simps dest: bit_imp_le_length)
    finally show ?thesis .
  qed
  moreover have "crc32_table ! unat (r AND 0xff) = crc_bits 8 (r AND 0xff)"
  proof -
    have "unat (r AND 0xff) < 256"
      using word_and_le1 [of r "0xff"] by (simp add: word_le_nat_alt)
    then show ?thesis by (simp add: crc32_table_nth)
  qed
  ultimately have "crc_step crc b = crc_bits 8 (r AND 0xff) XOR crc_bits 8 (push_bit 8 (drop_bit 8 r))"
    by (simp add: crc_step_def r_def)
  then show ?thesis using split by (simp add: r_def flip: crc_bits_xor)
qed

lemma basic_crc32_register:
  "dwarf_basic_crc32 buf len crc =
     (if length buf < len then None else Some (NOT (crc_register (NOT crc) (take len buf))))"
  by (simp add: dwarf_basic_crc32_def crc_register_def crc_step_register [abs_def])

subsection \<open>What the register detects\<close>

lemma xor_cancel: "x XOR z = y XOR z \<Longrightarrow> x = (y :: u32)"
proof -
  assume a: "x XOR z = y XOR z"
  have "bit x n = bit y n" for n
  proof -
    have "bit (x XOR z) n = bit (y XOR z) n" using a by (rule arg_cong)
    then show ?thesis unfolding bit_xor_iff by blast
  qed
  then show "x = y" by (simp add: bit_eq_iff)
qed

lemma crc_bit_inj: "crc_bit x = crc_bit y \<Longrightarrow> x = y"
proof -
  assume e: "crc_bit x = crc_bit y"
  have top: "bit (crc_bit z) 31 = bit z 0" for z
    by (auto simp: crc_bit_def crc_poly_def bit_simps dest: bit_imp_le_length)
  have b0: "bit x 0 = bit y 0" using e top by metis
  then have d: "drop_bit 1 x = drop_bit 1 y"
    using e by (cases "bit x 0") (auto simp: crc_bit_def dest: xor_cancel)
  show "x = y"
  proof (rule bit_word_eqI)
    fix n assume n: "n < LENGTH(32)"
    show "bit x n = bit y n"
    proof (cases n)
      case (Suc m)
      then show ?thesis using arg_cong [OF d, of "\<lambda>w. bit w m"] by (simp add: bit_simps)
    qed (use b0 in simp)
  qed
qed

lemma crc_bits_inj: "crc_bits n x = crc_bits n y \<Longrightarrow> x = y"
  by (induction n arbitrary: x y) (auto dest: crc_bit_inj)

lemma crc_register_inj: "crc_register x bs = crc_register y bs \<Longrightarrow> x = y"
proof (induction bs arbitrary: x y)
  case (Cons b bs)
  then have "crc_bits 8 (x XOR ucast b) = crc_bits 8 (y XOR ucast b)"
    by (simp add: crc_register_def)
  then have "x XOR ucast b = y XOR ucast b" by (rule crc_bits_inj)
  then show ?case by (rule xor_cancel)
qed (simp add: crc_register_def)

lemma crc_register_append: "crc_register r (xs @ ys) = crc_register (crc_register r xs) ys"
  by (simp add: crc_register_def)

fun le_word :: "byte list \<Rightarrow> u32" where
  "le_word [] = 0"
| "le_word (b # bs) = ucast b XOR push_bit 8 (le_word bs)"

lemma le_word_bits: "8 * length bs \<le> n \<Longrightarrow> \<not> bit (le_word bs) n"
  by (induction bs arbitrary: n) (auto simp: bit_simps dest: bit_imp_le_length)

lemma crc_register_word:
  "length bs \<le> 4 \<Longrightarrow> crc_register r bs = crc_bits (8 * length bs) (r XOR le_word bs)"
proof (induction bs arbitrary: r)
  case (Cons b bs)
  have "crc_bits 8 (push_bit 8 (le_word bs)) = drop_bit 8 (push_bit 8 (le_word bs))"
    by (rule crc_bits_shift) (simp add: bit_simps)
  also have "\<dots> = le_word bs"
  proof (rule bit_word_eqI)
    fix n assume "n < LENGTH(32)"
    then show "bit (drop_bit 8 (push_bit 8 (le_word bs))) n = bit (le_word bs) n"
      using le_word_bits [of bs n] Cons.prems by (cases "n < 24") (auto simp: bit_simps)
  qed
  finally have w: "crc_bits 8 (push_bit 8 (le_word bs)) = le_word bs" .
  have "crc_register r (b # bs) = crc_register (crc_bits 8 (r XOR ucast b)) bs"
    by (simp add: crc_register_def)
  also have "\<dots> = crc_bits (8 * length bs) (crc_bits 8 (r XOR ucast b) XOR crc_bits 8 (push_bit 8 (le_word bs)))"
    using Cons.IH Cons.prems w by simp
  also have "\<dots> = crc_bits (8 * length (b # bs)) (r XOR le_word (b # bs))"
    by (simp add: xor.assoc crc_bits_add flip: crc_bits_xor)
  finally show ?case .
qed (simp add: crc_register_def)

lemma le_word_inj: "length as = length bs \<Longrightarrow> length as \<le> 4 \<Longrightarrow> le_word as = le_word bs \<Longrightarrow> as = bs"
proof (induction as bs rule: list_induct2)
  case (Cons a as b bs)
  have at: "bit (ucast a XOR push_bit 8 (le_word as) :: u32) n = bit (ucast b XOR push_bit 8 (le_word bs)) n" for n
    using Cons.prems by simp
  have "a = b"
  proof (rule bit_word_eqI)
    fix n assume "n < LENGTH(8)"
    then show "bit a n = bit b n" using at [of n] by (simp add: bit_simps)
  qed
  moreover have "le_word as = le_word bs"
  proof (rule bit_word_eqI)
    fix n assume "n < LENGTH(32)"
    show "bit (le_word as) n = bit (le_word bs) n"
    proof (cases "n < 24")
      case True
      then show ?thesis using at [of "n + 8"]
        by (auto simp: bit_simps dest: bit_imp_le_length)
    next
      case False
      then show ?thesis using le_word_bits [of as n] le_word_bits [of bs n] Cons by simp
    qed
  qed
  ultimately show ?case using Cons by simp
qed simp

text \<open>
  C14: The table-driven loop is the bit-serial shift register of the reflected polynomial
  \<open>0xedb88320\<close>: for every buffer and start value it computes what taking in the message bit by
  bit computes, with the register complemented before and after; a length beyond the buffer is
  read outside it.
\<close>

theorem table_is_register:
  "dwarf_basic_crc32 buf len crc =
     (if length buf < len then None else Some (NOT (crc_register (NOT crc) (take len buf))))"
  by (rule basic_crc32_register)

text \<open>
  C34: Every change of a file that lies within four consecutive bytes changes its CRC.
\<close>

theorem burst_detected:
  assumes "length old = length new" "length old \<le> 4" "old \<noteq> new"
  shows "dwarf_basic_crc32 (before @ old @ after) (length (before @ old @ after)) crc
    \<noteq> dwarf_basic_crc32 (before @ new @ after) (length (before @ new @ after)) crc"
proof
  let ?r = "crc_register (NOT crc) before"
  assume "dwarf_basic_crc32 (before @ old @ after) (length (before @ old @ after)) crc
    = dwarf_basic_crc32 (before @ new @ after) (length (before @ new @ after)) crc"
  then have "crc_register (crc_register ?r old) after = crc_register (crc_register ?r new) after"
    by (simp add: basic_crc32_register crc_register_append)
  then have "crc_bits (8 * length old) (?r XOR le_word old) = crc_bits (8 * length old) (?r XOR le_word new)"
    using assms by (auto simp: crc_register_word dest: crc_register_inj)
  then have "le_word old XOR ?r = le_word new XOR ?r"
    by (auto simp: xor.commute dest: crc_bits_inj)
  then have "le_word old = le_word new" by (rule xor_cancel)
  then show False using le_word_inj assms by blast
qed

theorem burst_detected_witness:
  "dwarf_basic_crc32 ([1, 2] @ [3] @ [4]) (length ([1 :: byte, 2] @ [3] @ [4])) 0
    \<noteq> dwarf_basic_crc32 ([1, 2] @ [5] @ [4]) (length ([1 :: byte, 2] @ [5] @ [4])) 0"
  by (rule burst_detected) simp_all

subsection \<open>The file\<close>

lemma basic_crc32_append:
  "dwarf_basic_crc32 (xs @ ys) (length xs + length ys) crc =
     Option.bind (dwarf_basic_crc32 xs (length xs) crc) (dwarf_basic_crc32 ys (length ys))"
  by (simp add: basic_crc32_register crc_register_append)

text \<open>A regular file: \<open>read\<close> returns what there is, and less only at the end of the file.\<close>

definition regular_file :: "byte list \<Rightarrow> file_calls \<Rightarrow> bool" where
  "regular_file content io \<longleftrightarrow> (\<forall>pos n. sys_read io pos n = Some (take n (drop pos content)))"

lemma crc_loop_file:
  assumes "regular_file content io" "0 < readlenu"
  shows "crc_loop io pos size_left readlenu init =
    Some (if size_left \<noteq> 0 \<and> length content < pos + size_left then DW_DLV_ERROR DW_DLE_READ_ERROR
          else DW_DLV_OK (NOT (crc_register (NOT init) (take size_left (drop pos content)))))"
  using assms
proof (induction io pos size_left readlenu init rule: crc_loop.induct)
  case (1 io pos size_left readlenu init)
  show ?case
  proof (cases "size_left = 0")
    case True
    then show ?thesis by (subst crc_loop.simps) (simp add: crc_register_def)
  next
    case False
    define readlen where "readlen = min size_left readlenu"
    have rl: "(if size_left < readlenu then size_left else readlenu) = readlen" "0 < readlen" "readlen \<le> size_left"
      using False 1(3) by (auto simp: readlen_def)
    define buf where "buf = take readlen (drop pos content)"
    have rd: "sys_read io pos readlen = Some buf" using 1(2) by (simp add: regular_file_def buf_def)
    show ?thesis
    proof (cases "length buf = readlen")
      case short: False
      then have "length content < pos + size_left" using rl(3) by (auto simp: buf_def)
      then show ?thesis using False rl rd short 1(3) by (subst crc_loop.simps) (simp add: Let_def)
    next
      case True
      define t where "t = NOT (crc_register (NOT init) buf)"
      have b: "dwarf_basic_crc32 buf readlen init = Some t"
        using True by (simp add: basic_crc32_register t_def)
      have IH: "crc_loop io (pos + readlen) (size_left - readlen) readlen t =
        Some (if size_left - readlen \<noteq> 0 \<and> length content < pos + readlen + (size_left - readlen)
              then DW_DLV_ERROR DW_DLE_READ_ERROR
              else DW_DLV_OK (NOT (crc_register (NOT t) (take (size_left - readlen) (drop (pos + readlen) content)))))"
        using 1(1) [of readlen buf t] False 1(2,3) rl rd True b by simp
      have le: "pos + readlen \<le> length content" using True rl(2) by (auto simp: buf_def)
      have "take size_left (drop pos content) = buf @ take (size_left - readlen) (drop (pos + readlen) content)"
        using take_add [of readlen "size_left - readlen" "drop pos content"] rl(3) by (simp add: buf_def add.commute)
      then have "NOT (crc_register (NOT t) (take (size_left - readlen) (drop (pos + readlen) content)))
          = NOT (crc_register (NOT init) (take size_left (drop pos content)))"
        by (simp add: t_def crc_register_append)
      moreover have "crc_loop io pos size_left readlenu init = crc_loop io (pos + readlen) (size_left - readlen) readlen t"
        using False 1(3) rl rd True b by (subst crc_loop.simps) (simp add: Let_def)
      ultimately show ?thesis using IH le rl(3) False by (auto simp: not_less)
    qed
  qed
qed

text \<open>
  C15: \<open>dwarf_crc32\<close> on a regular file, whatever its size: the four bytes it stores are, least
  significant first, the CRC of the recorded size's worth of the file from its start, the same
  as one call on the whole contents; a file that has become shorter than the recorded size is a
  read error, and one of at most 500 bytes has no entry.
\<close>

theorem crc32_of_file:
  assumes "regular_file content io" "de_owns_fd d" "0 \<le> de_fd d" "0 \<le> seek_set io" "malloc_ok io"
      and "fsize = (if de_filesize d \<noteq> 0 then sint (de_filesize d) else seek_end io)" "fsize \<noteq> -1"
  shows "dwarf_crc32 (Some d) True io =
    Some (if fsize \<le> 500 then DW_DLV_NO_ENTRY
          else if int (length content) < fsize then DW_DLV_ERROR DW_DLE_READ_ERROR
          else DW_DLV_OK (crc_bytes (the (dwarf_basic_crc32 content (nat fsize) 0))))"
proof -
  have loop: "crc_loop io 0 (nat fsize) 1000 0 =
    Some (if nat fsize \<noteq> 0 \<and> length content < 0 + nat fsize then DW_DLV_ERROR DW_DLE_READ_ERROR
          else DW_DLV_OK (NOT (crc_register (NOT 0) (take (nat fsize) (drop 0 content)))))"
    by (rule crc_loop_file [OF assms(1)]) simp
  show ?thesis
  proof (cases "fsize \<le> 500")
    case True
    then show ?thesis using assms by (auto simp: dwarf_crc32_def Let_def)
  next
    case False
    have "length content < nat fsize \<longleftrightarrow> int (length content) < fsize" by linarith
    then show ?thesis
      using False assms loop by (auto simp: dwarf_crc32_def Let_def basic_crc32_register)
  qed
qed

theorem crc32_of_file_witness:
  "dwarf_crc32 (Some \<lparr>de_owns_fd = True, de_fd = 3, de_filesize = 600\<rparr>) True
     \<lparr>seek_end = 600, seek_set = 0, malloc_ok = True,
      sys_read = (\<lambda>pos n. Some (take n (drop pos (replicate 550 7))))\<rparr>
   = Some (DW_DLV_ERROR DW_DLE_READ_ERROR)"
  by (subst crc32_of_file [where content = "replicate 550 7" and fsize = 600])
    (simp_all add: regular_file_def)

end
