(* ===== verification/Secname.thy ===== *)
theory Secname
  imports Prelude
begin

text \<open>
  Which sections of an object file are passed over without a look at their contents
  (\<open>dwarf_secname_ck.c\<close>): a binary search by prefix through a table of names.
\<close>

subsection \<open>The code\<close>

definition first_char :: "string \<Rightarrow> int" where
  "first_char s = (case s of [] \<Rightarrow> 0 | c # _ \<Rightarrow> of_char c)"

text \<open>\<open>strncmp\<close> of the C library, on NUL-free strings.\<close>

fun strncmp :: "string \<Rightarrow> string \<Rightarrow> nat \<Rightarrow> int" where
  "strncmp a b 0 = 0"
| "strncmp a b (Suc n) =
     (if first_char a \<noteq> first_char b then first_char a - first_char b
      else if first_char a = 0 then 0 else strncmp (tl a) (tl b) n)"

definition dwarf_startswith :: "string \<Rightarrow> string \<Rightarrow> bool" where
  "dwarf_startswith input ckfor = (strncmp input ckfor (length ckfor) = 0)"

definition dwarf_startswithx :: "string \<Rightarrow> string \<Rightarrow> int" where
  "dwarf_startswithx input ckfor = strncmp input ckfor (length ckfor)"

definition nonsec :: "string list" where
  "nonsec =
    [''.bss'',
     ''.comment'',
     ''.data'',
     ''.fini_array'',
     ''.fini'',
     ''.got'',
     ''.init'',
     ''.interp'',
     ''.jcr'',
     ''.plt'',
     ''.rel.data'',
     ''.rel.got'',
     ''.rel.plt'',
     ''.rel.text'',
     ''.rela.data'',
     ''.rela.got'',
     ''.rela.plt'',
     ''.rela.text'',
     ''.sbss'',
     ''.text'']"

text \<open>\<open>l\<close> and \<open>h\<close> are signed; both are at least -1, so the division rounds as in C.\<close>

function ignore_loop :: "string \<Rightarrow> int \<Rightarrow> int \<Rightarrow> bool" where
  "ignore_loop scn_name l h =
     (if l \<le> h
      then let m = (l + h) div 2;
               res = dwarf_startswithx scn_name (nonsec ! nat m)
           in if res < 0 then ignore_loop scn_name l (m - 1)
              else if res > 0 then ignore_loop scn_name (m + 1) h
              else True
      else False)"
  by pat_completeness auto
termination by (relation "measure (\<lambda>(s, l, h). nat (h + 1 - l))") auto

declare ignore_loop.simps [simp del]

definition dwarf_ignorethissection :: "string \<Rightarrow> bool" where
  "dwarf_ignorethissection scn_name = ignore_loop scn_name 0 (int (length nonsec) - 1)"

subsection \<open>Prefixes\<close>

lemma first_char_Cons [simp]: "first_char (c # s) = of_char c"
  by (simp add: first_char_def)

lemma first_char_Nil [simp]: "first_char [] = 0"
  by (simp add: first_char_def)

lemma of_char_zero: "(of_char c :: int) = 0 \<longleftrightarrow> c = CHR 0x00"
proof -
  have "(of_char (CHR 0x00) :: int) = 0" by simp
  then show ?thesis by (metis of_char_eq_iff)
qed

lemma strncmp_prefix:
  "CHR 0x00 \<notin> set p \<Longrightarrow> strncmp s p (length p) = 0 \<longleftrightarrow> (\<exists>r. s = p @ r)"
proof (induction p arbitrary: s)
  case (Cons c p)
  have nz: "(of_char c :: int) \<noteq> 0" using Cons.prems by (auto simp: of_char_zero)
  show ?case
  proof (cases s)
    case Nil
    then show ?thesis using nz by simp
  next
    case (Cons d t)
    then show ?thesis using Cons.IH [of t] Cons.prems nz by auto
  qed
qed simp

lemma startswithx_prefix:
  "CHR 0x00 \<notin> set p \<Longrightarrow> dwarf_startswithx s p = 0 \<longleftrightarrow> (\<exists>r. s = p @ r)"
  by (simp add: dwarf_startswithx_def strncmp_prefix)

lemma nonsec_no_nul: "p \<in> set nonsec \<Longrightarrow> CHR 0x00 \<notin> set p"
  by (auto simp: nonsec_def)

lemma ignore_loop_sound:
  "ignore_loop s l h \<Longrightarrow> 0 \<le> l \<Longrightarrow> h < int (length nonsec) \<Longrightarrow> \<exists>p \<in> set nonsec. \<exists>r. s = p @ r"
proof (induction s l h rule: ignore_loop.induct)
  case (1 s l h)
  define m where "m = (l + h) div 2"
  define res where "res = dwarf_startswithx s (nonsec ! nat m)"
  have lh: "l \<le> h" using 1(3) by (subst (asm) ignore_loop.simps) (simp split: if_splits)
  then have m: "l \<le> m" "m \<le> h" by (simp_all add: m_def)
  have step: "ignore_loop s l h =
      (if res < 0 then ignore_loop s l (m - 1) else if res > 0 then ignore_loop s (m + 1) h else True)"
    using lh by (subst ignore_loop.simps) (simp add: Let_def m_def res_def)
  consider "res < 0" | "res > 0" | "res = 0" by linarith
  then show ?case
  proof cases
    case 1
    then show ?thesis using "1.IH"(1) [OF lh m_def res_def] "1.prems" step m by simp
  next
    case 2
    then show ?thesis using "1.IH"(2) [OF lh m_def res_def] "1.prems" step m by simp
  next
    case 3
    have "nonsec ! nat m \<in> set nonsec" using m "1.prems" by (intro nth_mem) linarith
    then show ?thesis using 3 nonsec_no_nul startswithx_prefix unfolding res_def by blast
  qed
qed

text \<open>
  Every name is met by the search: on the way to it, each name that is compared first sends the
  search to the right side.
\<close>

lemma names_found: "p \<in> set nonsec \<Longrightarrow> ignore_loop (p @ r) 0 19"
  apply (simp only: nonsec_def list.set, elim insertE emptyE)
  apply (simp_all add: nonsec_def Let_def dwarf_startswithx_def
      ignore_loop.simps [of _ 0 "numeral _"] ignore_loop.simps [of _ "numeral _" "numeral _"]
      ignore_loop.simps [of _ 1 "numeral _"] ignore_loop.simps [of _ 0 1]
      ignore_loop.simps [of _ 0 0] ignore_loop.simps [of _ 1 1])
  done

text \<open>
  C32: The binary search by prefix is the plain one: a section is passed over exactly when its
  name starts with one of the names of the table, although the table is not in the order of
  \<open>strncmp\<close> (\<open>.fini_array\<close> stands before its own prefix \<open>.fini\<close>) and the comparison is not an
  order.
\<close>

theorem ignorethissection_is_prefix:
  "dwarf_ignorethissection scn_name \<longleftrightarrow> (\<exists>p. p \<in> set nonsec \<and> dwarf_startswith scn_name p)"
proof
  assume "dwarf_ignorethissection scn_name"
  then obtain p r where "p \<in> set nonsec" "scn_name = p @ r"
    using ignore_loop_sound [of scn_name 0 "int (length nonsec) - 1"]
    by (auto simp: dwarf_ignorethissection_def)
  then show "\<exists>p. p \<in> set nonsec \<and> dwarf_startswith scn_name p"
    using strncmp_prefix [OF nonsec_no_nul] by (auto simp: dwarf_startswith_def)
next
  assume "\<exists>p. p \<in> set nonsec \<and> dwarf_startswith scn_name p"
  then obtain p r where "p \<in> set nonsec" "scn_name = p @ r"
    using strncmp_prefix [OF nonsec_no_nul] by (auto simp: dwarf_startswith_def)
  moreover have "int (length nonsec) - 1 = 19" by (simp add: nonsec_def)
  ultimately show "dwarf_ignorethissection scn_name"
    unfolding dwarf_ignorethissection_def by (simp add: names_found)
qed

end
