(* ===== verification/Uri.thy ===== *)
theory Uri
  imports Prelude
begin

text \<open>
  The sanitised printing of names in \<open>dwarfdump\<close> (\<open>dd_uri.c\<close>): every byte that is not known to
  be harmless is written as \<open>%xx\<close>, and the inverse translation of what the user types. Strings
  are NUL-free byte lists; the output buffer is the list of bytes appended to it.
\<close>

subsection \<open>The code\<close>

text \<open>The table, in two halves of 128 lines of the source.\<close>

definition ctype_low :: "nat list" where
  "ctype_low =
    [0, 0, 0, 0, 0, 0, 0, 0, 0, 0, 0, 0, 0, 0, 0, 0,
     0, 0, 0, 0, 0, 0, 0, 0, 0, 0, 0, 0, 0, 0, 0, 0,
     1, 1, 0, 1, 1, 0, 1, 0, 1, 1, 1, 1, 1, 1, 1, 1,
     1, 1, 1, 1, 1, 1, 1, 1, 1, 1, 1, 0, 1, 1, 1, 1,
     1, 1, 1, 1, 1, 1, 1, 1, 1, 1, 1, 1, 1, 1, 1, 1,
     1, 1, 1, 1, 1, 1, 1, 1, 1, 1, 1, 1, 1, 1, 1, 1,
     0, 1, 1, 1, 1, 1, 1, 1, 1, 1, 1, 1, 1, 1, 1, 1,
     1, 1, 1, 1, 1, 1, 1, 1, 1, 1, 1, 1, 1, 1, 1, 0]"

definition ctype_high :: "nat list" where
  "ctype_high =
    [1, 1, 1, 1, 1, 1, 1, 1, 1, 1, 1, 1, 1, 1, 1, 1,
     1, 1, 1, 1, 1, 1, 1, 1, 1, 1, 1, 1, 1, 1, 1, 1,
     0, 1, 1, 1, 1, 1, 1, 1, 1, 1, 1, 1, 1, 1, 1, 1,
     1, 1, 1, 1, 1, 1, 1, 1, 1, 1, 1, 1, 1, 1, 1, 1,
     1, 1, 1, 1, 1, 1, 1, 1, 1, 1, 1, 1, 1, 1, 1, 1,
     1, 1, 1, 1, 1, 1, 1, 1, 1, 1, 1, 1, 1, 1, 1, 1,
     1, 1, 1, 1, 1, 1, 1, 1, 1, 1, 1, 1, 1, 1, 1, 1,
     1, 1, 1, 1, 1, 1, 1, 1, 1, 1, 1, 1, 1, 1, 1, 0]"

definition dwarfdump_ctype_table :: "nat list" where
  "dwarfdump_ctype_table = ctype_low @ ctype_high"

text \<open>What \<open>%02x\<close> prints for a byte.\<close>

definition hex_digit :: "nat \<Rightarrow> byte" where
  "hex_digit n = (if n < 10 then of_nat (48 + n) else of_nat (87 + n))"

definition hex_02x :: "byte \<Rightarrow> byte list" where
  "hex_02x c = [hex_digit (unat c div 16), hex_digit (unat c mod 16)]"

fun translate_to_uri :: "byte list \<Rightarrow> byte list" where
  "translate_to_uri [] = []"
| "translate_to_uri (c # cs) =
     (if dwarfdump_ctype_table ! unat c \<noteq> 0 then [c] else 37 # hex_02x c) @ translate_to_uri cs"

text \<open>The second component counts the errors reported (\<open>gf_count_major_errors\<close>).\<close>

definition hexdig :: "byte \<Rightarrow> byte \<times> nat" where
  "hexdig c =
     (if 48 \<le> c \<and> c \<le> 57 then (c - 48, 0)
      else if 97 \<le> c \<and> c \<le> 102 then ((c - 97) + 10, 0)
      else if 65 \<le> c \<and> c \<le> 70 then ((c - 65) + 10, 0)
      else (0, 1))"

definition tohex :: "byte \<Rightarrow> byte \<Rightarrow> byte \<times> nat" where
  "tohex c1 c2 =
     (let (d1, e1) = hexdig c1; (d2, e2) = hexdig c2 in (push_bit 4 d1 OR d2, e1 + e2))"

text \<open>\<open>cp\<close> is the rest of the string; reading at its end gives the NUL.\<close>

definition hexpairtochar :: "byte list \<Rightarrow> nat \<times> byte \<times> nat" where
  "hexpairtochar cp =
     (case cp of
        [] \<Rightarrow> (0, 37, 1)
      | c # rest \<Rightarrow>
          (case rest of
             [] \<Rightarrow> (1, c, 1)
           | c2 # _ \<Rightarrow> (case tohex c c2 of (ochar, e) \<Rightarrow> (2, ochar, e))))"

text \<open>\<open>esb_append\<close> of the two bytes \<open>c\<close>, NUL.\<close>

definition char_appended :: "byte \<Rightarrow> byte list" where
  "char_appended c = (if c = 0 then [] else [c])"

function translate_from_uri :: "byte list \<Rightarrow> byte list \<times> nat" where
  "translate_from_uri cp =
     (case cp of
        [] \<Rightarrow> ([], 0)
      | c # rest \<Rightarrow>
          if c = 37
          then if rest \<noteq> [] \<and> hd rest = 37
               then (case translate_from_uri (tl rest) of (out, e) \<Rightarrow> (c # out, e))
               else (case hexpairtochar rest of
                       (increment, ochar, e1) \<Rightarrow>
                         (case translate_from_uri (drop increment rest) of
                            (out, e) \<Rightarrow> (char_appended ochar @ out, e1 + e)))
          else (case translate_from_uri rest of (out, e) \<Rightarrow> (c # out, e)))"
  by pat_completeness auto
termination by (relation "measure length") auto

declare translate_from_uri.simps [simp del]

lemma translate_from_uri_Nil [simp]: "translate_from_uri [] = ([], 0)"
  by (simp add: translate_from_uri.simps)

lemma translate_from_uri_plain [simp]:
  "c \<noteq> 37 \<Longrightarrow> translate_from_uri (c # cs) = (c # fst (translate_from_uri cs), snd (translate_from_uri cs))"
  by (simp add: translate_from_uri.simps [of "c # cs"] split: prod.split)

lemma translate_from_uri_escape:
  "c1 \<noteq> 37 \<Longrightarrow> tohex c1 c2 = (d, e) \<Longrightarrow>
   translate_from_uri (37 # c1 # c2 # cs) =
     (char_appended d @ fst (translate_from_uri cs), e + snd (translate_from_uri cs))"
  by (simp add: translate_from_uri.simps [of "37 # c1 # c2 # cs"] hexpairtochar_def split: prod.split)

subsection \<open>Hexadecimal digits\<close>

lemma hex_digit_cases:
  "n < 16 \<Longrightarrow> n \<in> {0, 1, 2, 3, 4, 5, 6, 7, 8, 9, 10, 11, 12, 13, 14, 15 :: nat}"
  by simp presburger

lemma hexdig_hex_digit: "n < 16 \<Longrightarrow> hexdig (hex_digit n) = (of_nat n, 0)"
  by (drule hex_digit_cases, elim insertE emptyE) (simp_all add: hex_digit_def hexdig_def)

lemma hex_digit_not_percent: "n < 16 \<Longrightarrow> hex_digit n \<noteq> 37"
  by (drule hex_digit_cases, elim insertE emptyE) (simp_all add: hex_digit_def)

lemma hex_digit_harmless: "n < 16 \<Longrightarrow> dwarfdump_ctype_table ! unat (hex_digit n) = 1"
  by (drule hex_digit_cases, elim insertE emptyE)
    (simp_all add: hex_digit_def dwarfdump_ctype_table_def ctype_low_def)

lemma unat_byte: "unat (c :: byte) < 256"
  using unsigned_less [of c, where 'a = nat] by simp

lemma byte_div_mod: "unat (c :: byte) div 16 < 16" "unat c mod 16 < 16"
  using unat_byte [of c] by simp_all

lemma tohex_hex_02x: "tohex (hex_digit (unat c div 16)) (hex_digit (unat c mod 16)) = (c, 0)"
proof -
  have "of_nat (unat c div 16) = drop_bit 4 c"
    by (rule word_unat_eq_iff [THEN iffD2]) (simp add: unat_drop_bit_eq drop_bit_eq_div unat_of_nat take_bit_eq_mod
        unat_div_distrib mod_less [OF le_less_trans [OF div_le_dividend unat_byte]])
  moreover have "of_nat (unat c mod 16) = take_bit 4 c"
    by (rule word_unat_eq_iff [THEN iffD2]) (simp add: take_bit_eq_mod unat_of_nat unat_mod_distrib)
  moreover have "push_bit 4 (drop_bit 4 c) OR take_bit 4 c = c"
    by (rule bit_word_eqI) (auto simp: bit_simps)
  ultimately show ?thesis by (simp add: tohex_def hexdig_hex_digit byte_div_mod)
qed

lemma percent_not_harmless: "dwarfdump_ctype_table ! unat (37 :: byte) = 0"
  by (simp add: dwarfdump_ctype_table_def ctype_low_def)

lemma table_binary: "i < 256 \<Longrightarrow> dwarfdump_ctype_table ! i = 0 \<or> dwarfdump_ctype_table ! i = 1"
proof -
  assume "i < 256"
  then have "dwarfdump_ctype_table ! i \<in> set dwarfdump_ctype_table"
    by (intro nth_mem) (simp add: dwarfdump_ctype_table_def ctype_low_def ctype_high_def)
  moreover have "\<forall>v \<in> set dwarfdump_ctype_table. v = 0 \<or> v = 1"
    by (simp add: dwarfdump_ctype_table_def ctype_low_def ctype_high_def)
  ultimately show ?thesis by blast
qed

text \<open>
  C29: What \<open>translate_to_uri\<close> writes for a NUL-free name is read back by \<open>translate_from_uri\<close>
  as that name, with no error counted; so no two names are printed alike. Every byte written is
  a harmless one or the percent sign, which starts an escape.
\<close>

theorem uri_roundtrip:
  assumes "0 \<notin> set s"
  shows "translate_from_uri (translate_to_uri s) = (s, 0)
    \<and> (\<forall>b. b \<in> set (translate_to_uri s) \<longrightarrow> b = 37 \<or> dwarfdump_ctype_table ! unat b = 1)"
  using assms
proof (induction s)
  case (Cons c cs)
  have IH: "translate_from_uri (translate_to_uri cs) = (cs, 0)"
      "\<And>b. b \<in> set (translate_to_uri cs) \<Longrightarrow> b = 37 \<or> dwarfdump_ctype_table ! unat b = 1"
    using Cons by auto
  show ?case
  proof (cases "dwarfdump_ctype_table ! unat c = 0")
    case True
    have "translate_from_uri (translate_to_uri (c # cs)) = (c # cs, 0)"
      using True IH(1) Cons.prems
      by (simp add: hex_02x_def translate_from_uri_escape [OF hex_digit_not_percent tohex_hex_02x]
          byte_div_mod char_appended_def)
    then show ?thesis using True IH(2) by (auto simp: hex_02x_def hex_digit_harmless byte_div_mod)
  next
    case False
    then have "c \<noteq> 37" using percent_not_harmless by metis
    then show ?thesis using False IH table_binary [OF unat_byte [of c]] by auto
  qed
qed simp

theorem uri_roundtrip_witness:
  "translate_from_uri (translate_to_uri [59, 98, 10]) = ([59, 98, 10], 0)"
  using uri_roundtrip [of "[59, 98, 10]"] by simp

end
