(* ===== verification/Getopt.thy ===== *)
theory Getopt
  imports Prelude
begin

text \<open>
  The command-line parser of \<open>dwarfdump\<close> (\<open>dd_getopt.c\<close>). A \<open>char *\<close> into an argument is the
  rest of that argument from there on; reading at its end gives the NUL. A result \<open>None\<close> is a
  read behind the null pointer that ends \<open>nargv\<close>.
\<close>

subsection \<open>The state and the code\<close>

record getopt =
  dwopterr :: bool
  dwoptind :: nat
  dwoptopt :: char
  dwoptreset :: bool
  dwoptarg :: "string option"
  place :: string
  reported :: nat \<comment> \<open>\<open>dd_minimal_count_global_error\<close>\<close>

record dwoption =
  opt_name :: string
  has_arg :: nat
  opt_val :: int

definition NUL_char :: char where
  "NUL_char = CHR 0x00"

definition at_place :: "string \<Rightarrow> char" where
  "at_place s = (case s of [] \<Rightarrow> NUL_char | c # _ \<Rightarrow> c)"

text \<open>The value of a (signed) \<open>char\<close> as an \<open>int\<close>.\<close>

definition char_int :: "char \<Rightarrow> int" where
  "char_int c = (let n = of_char c in if 128 \<le> n then n - 256 else n)"

definition BADCH :: int where
  "BADCH = char_int (CHR ''?'')"

definition BADARG :: int where
  "BADARG = char_int (CHR '':'')"

text \<open>\<open>strchr\<close>: the rest of the string from the first occurrence on.\<close>

definition strchr :: "string \<Rightarrow> char \<Rightarrow> string option" where
  "strchr s c = (let r = dropWhile (\<lambda>d. d \<noteq> c) s in if r = [] then None else Some r)"

text \<open>
  The result is whether the name matches, \<open>*argloc\<close> and \<open>*argerr\<close>; what the function itself
  writes to \<open>dwoptarg\<close> is always overwritten by the caller.
\<close>

definition dwoptnamematches :: "dwoption \<Rightarrow> string \<Rightarrow> bool \<times> string option \<times> bool" where
  "dwoptnamematches dwlopt iplace =
     (let before = takeWhile (\<lambda>c. c \<noteq> CHR ''='') iplace;
          eq = dropWhile (\<lambda>c. c \<noteq> CHR ''='') iplace
      in if eq \<noteq> [] \<and> length before \<noteq> length (opt_name dwlopt) then (False, None, False)
         else let namelen = (if eq = [] then 0 else length before);
                  eqarg = tl eq
              in if namelen \<noteq> 0
                 then if take namelen iplace \<noteq> take namelen (opt_name dwlopt) then (False, None, False)
                      else if has_arg dwlopt = 0 then (True, None, True)
                      else if eqarg \<noteq> [] then (True, Some eqarg, False)
                      else (True, None, False)
                 else if iplace \<noteq> opt_name dwlopt then (False, None, False)
                      else if has_arg dwlopt = 1 then (True, None, True)
                      else (True, None, False))"

text \<open>The part of \<open>dwgetopt\<close> after the option letter is in \<open>dwoptopt\<close>.\<close>

definition option_letter :: "string list \<Rightarrow> string \<Rightarrow> getopt \<Rightarrow> int \<times> getopt" where
  "option_letter nargv ostr st =
     (let nargc = length nargv; oli = strchr ostr (dwoptopt st) in
      if dwoptopt st = CHR '':'' \<or> oli = None
      then (BADCH, st\<lparr>dwoptind := (if place st = [] then dwoptind st + 1 else dwoptind st),
                      reported := (if dwopterr st \<and> at_place ostr \<noteq> CHR '':''
                                   then reported st + 1 else reported st)\<rparr>)
      else let after = tl (the oli) in
           if at_place after \<noteq> CHR '':''
           then (char_int (dwoptopt st),
                 st\<lparr>dwoptarg := None, dwoptind := (if place st = [] then dwoptind st + 1 else dwoptind st)\<rparr>)
           else let reqnextarg = (at_place (tl after) \<noteq> CHR '':'') in
                if place st \<noteq> []
                then (char_int (dwoptopt st),
                      st\<lparr>dwoptarg := Some (place st), place := [], dwoptind := dwoptind st + 1\<rparr>)
                else if reqnextarg
                then if dwoptind st + 1 < nargc
                     then (char_int (dwoptopt st),
                           st\<lparr>dwoptarg := Some (nargv ! (dwoptind st + 1)), place := [],
                              dwoptind := dwoptind st + 2\<rparr>)
                     else if at_place ostr = CHR '':''
                     then (BADARG, st\<lparr>dwoptind := dwoptind st + 1, place := []\<rparr>)
                     else (BADCH, st\<lparr>dwoptind := dwoptind st + 1, place := [],
                                     reported := (if dwopterr st then reported st + 1 else reported st)\<rparr>)
                else (char_int (dwoptopt st),
                      st\<lparr>dwoptarg := None, place := [], dwoptind := dwoptind st + 1\<rparr>))"

definition dwgetopt :: "string list \<Rightarrow> string \<Rightarrow> getopt \<Rightarrow> (int \<times> getopt) option" where
  "dwgetopt nargv ostr st =
     (let nargc = length nargv in
      if dwoptreset st \<or> place st = []
      then let st1 = st\<lparr>dwoptreset := False\<rparr> in
           if nargc < dwoptind st then None
           else if dwoptind st = nargc \<or> at_place (nargv ! dwoptind st) \<noteq> CHR ''-''
           then Some (-1, st1\<lparr>place := []\<rparr>)
           else let p = tl (nargv ! dwoptind st) in
                if p = [] then
                  (if strchr ostr (CHR ''-'') = None
                   then Some (-1, st1\<lparr>dwoptopt := NUL_char, place := []\<rparr>)
                   else Some (option_letter nargv ostr (st1\<lparr>dwoptopt := CHR ''-'', place := []\<rparr>)))
                else if hd p = CHR ''-'' \<and> tl p = []
                then Some (-1, st1\<lparr>dwoptopt := CHR ''-'', dwoptind := dwoptind st + 1, place := []\<rparr>)
                else Some (option_letter nargv ostr (st1\<lparr>dwoptopt := hd p, place := tl p\<rparr>))
      else Some (option_letter nargv ostr (st\<lparr>dwoptopt := hd (place st), place := tl (place st)\<rparr>)))"

text \<open>
  The loop over the table of long options, which ends at the entry without a name. The third
  component of the result is the new \<open>*longindex\<close>, if it is set.
\<close>

fun long_loop :: "dwoption list \<Rightarrow> nat \<Rightarrow> getopt \<Rightarrow> int \<times> getopt \<times> nat option" where
  "long_loop [] lo_num st =
     (BADCH, st\<lparr>dwoptind := dwoptind st + 1, reported := reported st + 1, place := []\<rparr>, None)"
| "long_loop (dwlopt # rest) lo_num st =
     (case dwoptnamematches dwlopt (place st) of
        (resmatch, argloc, argerr) \<Rightarrow>
          let st1 = (if resmatch then st\<lparr>dwoptarg := argloc\<rparr> else st) in
          if argerr
          then (BADCH, st1\<lparr>reported := reported st1 + 1, dwoptind := dwoptind st1 + 1, place := []\<rparr>, None)
          else if resmatch
          then (opt_val dwlopt, st1\<lparr>place := [], dwoptind := dwoptind st1 + 1\<rparr>, Some lo_num)
          else long_loop rest (lo_num + 1) st1)"

definition with_index :: "nat option \<Rightarrow> (int \<times> getopt) option \<Rightarrow> (int \<times> getopt \<times> nat option) option" where
  "with_index i r = map_option (\<lambda>(v, st). (v, st, i)) r"

definition dwgetopt_long ::
    "string list \<Rightarrow> string \<Rightarrow> dwoption list \<Rightarrow> getopt \<Rightarrow> (int \<times> getopt \<times> nat option) option" where
  "dwgetopt_long nargv ostr longopts st =
     (let nargc = length nargv in
      if dwoptreset st then Some (-1, st\<lparr>place := []\<rparr>, None)
      else if place st \<noteq> [] then with_index None (dwgetopt nargv ostr st)
      else if nargc < dwoptind st then None
      else if dwoptind st = nargc \<or> at_place (nargv ! dwoptind st) \<noteq> CHR ''-''
      then Some (-1, st\<lparr>place := []\<rparr>, None)
      else let lplace = tl (nargv ! dwoptind st) in
           if at_place lplace \<noteq> CHR ''-'' then with_index None (dwgetopt nargv ostr st)
           else if tl lplace = []
           then Some (-1, st\<lparr>dwoptind := dwoptind st + 1, place := []\<rparr>, None)
           else Some (long_loop longopts 0 (st\<lparr>place := tl lplace\<rparr>)))"

text \<open>
  The loop of the callers: \<open>while ((c = dwgetopt_long(...)) != EOF)\<close>; what each round sees, and
  the state at the end. \<open>None\<close>: a bad read, or the fuel is used up.
\<close>

fun getopt_loop ::
    "nat \<Rightarrow> string list \<Rightarrow> string \<Rightarrow> dwoption list \<Rightarrow> getopt
     \<Rightarrow> ((int \<times> string option \<times> nat option) list \<times> getopt) option" where
  "getopt_loop 0 nargv ostr longopts st = None"
| "getopt_loop (Suc fuel) nargv ostr longopts st =
     (case dwgetopt_long nargv ostr longopts st of
        None \<Rightarrow> None
      | Some (v, st1, i) \<Rightarrow>
          if v = -1 then Some ([], st1)
          else (case getopt_loop fuel nargv ostr longopts st1 of
                  None \<Rightarrow> None
                | Some (seen, st2) \<Rightarrow> Some ((v, dwoptarg st1, i) # seen, st2)))"

subsection \<open>The invariant and the progress of a round\<close>

definition getopt_ok :: "string list \<Rightarrow> getopt \<Rightarrow> bool" where
  "getopt_ok nargv st \<longleftrightarrow>
     dwoptind st \<le> length nargv \<and> (place st \<noteq> [] \<longrightarrow> dwoptind st < length nargv) \<and> \<not> dwoptreset st"

definition words_left :: "string list \<Rightarrow> nat \<Rightarrow> nat" where
  "words_left nargv i = sum_list (map (\<lambda>w. length w + 1) (drop i nargv))"

definition chars_left :: "string list \<Rightarrow> getopt \<Rightarrow> nat" where
  "chars_left nargv st =
     (if place st = [] then words_left nargv (dwoptind st)
      else length (place st) + 1 + words_left nargv (dwoptind st + 1))"

lemma words_left_step: "i < length nargv \<Longrightarrow> words_left nargv i = length (nargv ! i) + 1 + words_left nargv (i + 1)"
  by (simp add: words_left_def flip: Cons_nth_drop_Suc)

lemma words_left_antimono: "words_left nargv (i + k) \<le> words_left nargv i"
proof (induction k)
  case (Suc k)
  show ?case
  proof (cases "i + k < length nargv")
    case True
    then show ?thesis using Suc words_left_step [of "i + k" nargv] by simp
  next
    case False
    then show ?thesis by (simp add: words_left_def)
  qed
qed simp

lemma option_letter_progress:
  assumes "dwoptind st < length nargv" "\<not> dwoptreset st" "option_letter nargv ostr st = (v, st')"
  shows "getopt_ok nargv st' \<and>
    chars_left nargv st' \<le> length (place st) + 1 + words_left nargv (dwoptind st + 1)"
  using assms words_left_antimono [of nargv "dwoptind st + 1" 1]
  by (auto simp: option_letter_def getopt_ok_def chars_left_def Let_def split: if_splits)

lemma dwgetopt_progress:
  assumes ok: "getopt_ok nargv st"
  shows "\<exists>v st'. dwgetopt nargv ostr st = Some (v, st') \<and> getopt_ok nargv st'
    \<and> (v \<noteq> -1 \<longrightarrow> chars_left nargv st' < chars_left nargv st)"
proof (cases "place st")
  case Nil
  show ?thesis
  proof (cases "dwoptind st < length nargv")
    case False
    then show ?thesis using ok Nil by (auto simp: dwgetopt_def getopt_ok_def Let_def)
  next
    case True
    define w where "w = nargv ! dwoptind st"
    have left: "chars_left nargv st = length w + 1 + words_left nargv (dwoptind st + 1)"
      using Nil words_left_step [OF True] by (simp add: chars_left_def w_def)
    show ?thesis
    proof (cases w)
      case w: Nil
      then show ?thesis using ok Nil True
        by (auto simp: dwgetopt_def getopt_ok_def Let_def w_def at_place_def NUL_char_def)
    next
      case (Cons d p)
      define st1 where "st1 = st\<lparr>dwoptreset := False, dwoptopt := CHR ''-'', place := []\<rparr>"
      define st2 where "st2 = st\<lparr>dwoptreset := False, dwoptopt := hd p, place := tl p\<rparr>"
      have "getopt_ok nargv (st\<lparr>dwoptreset := False, dwoptopt := c, place := []\<rparr>)"
        "getopt_ok nargv (st\<lparr>dwoptreset := False, place := []\<rparr>)"
        "getopt_ok nargv (st\<lparr>dwoptreset := False, dwoptopt := c, dwoptind := dwoptind st + 1, place := []\<rparr>)" for c
        using True by (auto simp: getopt_ok_def)
      moreover have "dwgetopt nargv ostr st =
          (if d \<noteq> CHR ''-'' then Some (-1, st\<lparr>dwoptreset := False, place := []\<rparr>)
           else if p = [] then (if strchr ostr (CHR ''-'') = None
             then Some (-1, st\<lparr>dwoptreset := False, dwoptopt := NUL_char, place := []\<rparr>)
             else Some (option_letter nargv ostr st1))
           else if hd p = CHR ''-'' \<and> tl p = []
           then Some (-1, st\<lparr>dwoptreset := False, dwoptopt := CHR ''-'', dwoptind := dwoptind st + 1, place := []\<rparr>)
           else Some (option_letter nargv ostr st2))"
        using True Nil Cons
        by (simp add: dwgetopt_def Let_def w_def [symmetric] at_place_def st1_def st2_def)
      moreover obtain v1 s1 where o1: "option_letter nargv ostr st1 = (v1, s1)" by fastforce
      moreover obtain v2 s2 where o2: "option_letter nargv ostr st2 = (v2, s2)" by fastforce
      moreover have "getopt_ok nargv s1" "chars_left nargv s1 < chars_left nargv st"
        using option_letter_progress [OF _ _ o1] True left Cons by (auto simp: st1_def)
      moreover have "getopt_ok nargv s2" "p \<noteq> [] \<Longrightarrow> chars_left nargv s2 < chars_left nargv st"
        using option_letter_progress [OF _ _ o2] True left Cons by (auto simp: st2_def)
      ultimately show ?thesis by auto
    qed
  qed
next
  case (Cons c p)
  define st1 where "st1 = st\<lparr>dwoptopt := c, place := p\<rparr>"
  have ind: "dwoptind st < length nargv" "\<not> dwoptreset st" using ok Cons by (auto simp: getopt_ok_def)
  obtain v s where o: "option_letter nargv ostr st1 = (v, s)" by fastforce
  have "dwgetopt nargv ostr st = Some (v, s)"
    using Cons ind o by (simp add: dwgetopt_def Let_def st1_def)
  then show ?thesis
    using option_letter_progress [OF _ _ o] ind Cons by (auto simp: st1_def chars_left_def)
qed

lemma long_loop_progress:
  "long_loop longopts n st = (v, st', i) \<Longrightarrow>
   dwoptind st' = dwoptind st + 1 \<and> place st' = [] \<and> dwoptreset st' = dwoptreset st"
  by (induction longopts n st rule: long_loop.induct)
    (auto simp: Let_def split: prod.splits if_splits)

lemma dwgetopt_long_progress:
  assumes ok: "getopt_ok nargv st"
  shows "\<exists>v st' i. dwgetopt_long nargv ostr longopts st = Some (v, st', i) \<and> getopt_ok nargv st'
    \<and> (v \<noteq> -1 \<longrightarrow> chars_left nargv st' < chars_left nargv st)"
proof -
  obtain v s where g: "dwgetopt nargv ostr st = Some (v, s)" "getopt_ok nargv s"
      "v \<noteq> -1 \<longrightarrow> chars_left nargv s < chars_left nargv st"
    using dwgetopt_progress [OF ok] by blast
  have "getopt_ok nargv (st\<lparr>place := []\<rparr>)" using ok by (simp add: getopt_ok_def)
  moreover have "getopt_ok nargv (st\<lparr>dwoptind := dwoptind st + 1, place := []\<rparr>)" if "dwoptind st < length nargv"
    using ok that by (simp add: getopt_ok_def)
  moreover have "\<exists>v st' i. long_loop longopts 0 (st\<lparr>place := p\<rparr>) = (v, st', i) \<and> getopt_ok nargv st'
      \<and> (v \<noteq> -1 \<longrightarrow> chars_left nargv st' < chars_left nargv st)" if "dwoptind st < length nargv" "place st = []" for p
  proof -
    obtain v st' i where l: "long_loop longopts 0 (st\<lparr>place := p\<rparr>) = (v, st', i)" by (metis prod_cases3)
    then show ?thesis
      using long_loop_progress [OF l] that ok words_left_step [OF that(1)]
      by (auto simp: getopt_ok_def chars_left_def)
  qed
  moreover have "dwoptind st = length nargv" if "\<not> dwoptind st < length nargv"
    using ok that by (simp add: getopt_ok_def)
  moreover have "place st = []" if "\<not> dwoptind st < length nargv"
    using ok that by (auto simp: getopt_ok_def)
  ultimately show ?thesis
    using ok g
    by (cases "place st = []"; cases "dwoptind st < length nargv")
      (simp_all add: dwgetopt_long_def with_index_def Let_def getopt_ok_def [of _ st])
qed

text \<open>
  C28: The option loop of a program comes to its end on every command line: each round reads
  inside \<open>nargv\<close> and its null pointer, keeps \<open>dwoptind\<close> within it, and uses up at least one
  character, so after fewer rounds than there are characters the parser returns -1.
\<close>

theorem option_loop_ends:
  assumes "getopt_ok nargv st" "chars_left nargv st < fuel"
  shows "\<exists>seen st'. getopt_loop fuel nargv ostr longopts st = Some (seen, st') \<and> getopt_ok nargv st'
     \<and> length seen \<le> chars_left nargv st"
  using assms
proof (induction fuel arbitrary: st)
  case (Suc fuel)
  obtain v st1 i where r: "dwgetopt_long nargv ostr longopts st = Some (v, st1, i)" "getopt_ok nargv st1"
      "v \<noteq> -1 \<longrightarrow> chars_left nargv st1 < chars_left nargv st"
    using dwgetopt_long_progress [OF Suc.prems(1)] by blast
  show ?case
  proof (cases "v = -1")
    case True
    then show ?thesis using r by simp
  next
    case False
    then obtain seen st2 where "getopt_loop fuel nargv ostr longopts st1 = Some (seen, st2)"
        "getopt_ok nargv st2" "length seen \<le> chars_left nargv st1"
      using Suc.IH [OF r(2)] r(3) Suc.prems(2) by force
    then show ?thesis using False r by auto
  qed
qed simp

definition initial_getopt :: getopt where
  "initial_getopt = \<lparr>dwopterr = True, dwoptind = 1, dwoptopt = NUL_char, dwoptreset = False,
     dwoptarg = None, place = [], reported = 0\<rparr>"

theorem option_loop_ends_witness:
  "\<exists>seen st'. getopt_loop 20 [''dd'', ''-xy'', ''--'', ''z''] ''x:'' [] initial_getopt = Some (seen, st')
     \<and> getopt_ok [''dd'', ''-xy'', ''--'', ''z''] st'
     \<and> length seen \<le> chars_left [''dd'', ''-xy'', ''--'', ''z''] initial_getopt"
  by (rule option_loop_ends)
    (simp_all add: getopt_ok_def initial_getopt_def chars_left_def words_left_def)

subsection \<open>What is parsed\<close>

datatype item =
    Flags string
  | Attached string char string
  | Separate string char string
  | Long nat
  | Long_Arg nat string

fun words_of :: "dwoption list \<Rightarrow> item \<Rightarrow> string list" where
  "words_of los (Flags cs) = [CHR ''-'' # cs]"
| "words_of los (Attached cs c a) = [CHR ''-'' # cs @ c # a]"
| "words_of los (Separate cs c a) = [CHR ''-'' # cs @ [c], a]"
| "words_of los (Long k) = [CHR ''-'' # CHR ''-'' # opt_name (los ! k)]"
| "words_of los (Long_Arg k a) = [CHR ''-'' # CHR ''-'' # opt_name (los ! k) @ CHR ''='' # a]"

definition flag_seen :: "char \<Rightarrow> int \<times> string option \<times> nat option" where
  "flag_seen c = (char_int c, None, None)"

fun seen_of :: "dwoption list \<Rightarrow> item \<Rightarrow> (int \<times> string option \<times> nat option) list" where
  "seen_of los (Flags cs) = map flag_seen cs"
| "seen_of los (Attached cs c a) = map flag_seen cs @ [(char_int c, Some a, None)]"
| "seen_of los (Separate cs c a) = map flag_seen cs @ [(char_int c, Some a, None)]"
| "seen_of los (Long k) = [(opt_val (los ! k), None, Some k)]"
| "seen_of los (Long_Arg k a) = [(opt_val (los ! k), Some a, Some k)]"

definition flag_letter :: "string \<Rightarrow> char \<Rightarrow> bool" where
  "flag_letter ostr c \<longleftrightarrow> c \<noteq> CHR '':'' \<and> char_int c \<noteq> -1
     \<and> (case strchr ostr c of None \<Rightarrow> False | Some r \<Rightarrow> at_place (tl r) \<noteq> CHR '':'')"

definition arg_letter :: "string \<Rightarrow> char \<Rightarrow> bool \<Rightarrow> bool" where
  "arg_letter ostr c required \<longleftrightarrow> c \<noteq> CHR '':'' \<and> char_int c \<noteq> -1
     \<and> (case strchr ostr c of None \<Rightarrow> False
        | Some r \<Rightarrow> at_place (tl r) = CHR '':'' \<and> (required \<longrightarrow> at_place (tl (tl r)) \<noteq> CHR '':''))"

definition long_option :: "dwoption list \<Rightarrow> nat \<Rightarrow> bool" where
  "long_option los k \<longleftrightarrow> k < length los \<and> opt_name (los ! k) \<noteq> [] \<and> CHR ''='' \<notin> set (opt_name (los ! k))
     \<and> opt_val (los ! k) \<noteq> -1 \<and> (\<forall>j < k. opt_name (los ! j) \<noteq> opt_name (los ! k))"

fun valid_item :: "string \<Rightarrow> dwoption list \<Rightarrow> item \<Rightarrow> bool" where
  "valid_item ostr los (Flags cs) = (cs \<noteq> [] \<and> hd cs \<noteq> CHR ''-'' \<and> (\<forall>c \<in> set cs. flag_letter ostr c))"
| "valid_item ostr los (Attached cs c a) =
     (hd (cs @ [c]) \<noteq> CHR ''-'' \<and> (\<forall>c \<in> set cs. flag_letter ostr c) \<and> arg_letter ostr c False \<and> a \<noteq> [])"
| "valid_item ostr los (Separate cs c a) =
     (hd (cs @ [c]) \<noteq> CHR ''-'' \<and> (\<forall>c \<in> set cs. flag_letter ostr c) \<and> arg_letter ostr c True)"
| "valid_item ostr los (Long k) = (long_option los k \<and> has_arg (los ! k) \<noteq> 1)"
| "valid_item ostr los (Long_Arg k a) = (long_option los k \<and> has_arg (los ! k) \<noteq> 0 \<and> a \<noteq> [])"

text \<open>The parser is at the letters \<open>p\<close> of the word with index \<open>i\<close>.\<close>

definition in_word :: "string list \<Rightarrow> getopt \<Rightarrow> nat \<Rightarrow> string \<Rightarrow> bool" where
  "in_word nargv st i p \<longleftrightarrow> dwoptind st = i \<and> i < length nargv \<and> \<not> dwoptreset st \<and> p \<noteq> []
     \<and> (place st = p \<or> place st = [] \<and> nargv ! i = CHR ''-'' # p \<and> hd p \<noteq> CHR ''-'')"

definition between :: "getopt \<Rightarrow> nat \<Rightarrow> bool" where
  "between st i \<longleftrightarrow> dwoptind st = i \<and> place st = [] \<and> \<not> dwoptreset st"

lemma in_word_round:
  assumes "in_word nargv st i (c # p)"
  shows "dwgetopt_long nargv ostr los st =
    with_index None (Some (option_letter nargv ostr (st\<lparr>dwoptopt := c, place := p\<rparr>)))"
proof (cases "place st = []")
  case True
  have e: "st\<lparr>dwoptreset := False, dwoptopt := c, place := p\<rparr> = st\<lparr>dwoptopt := c, place := p\<rparr>"
    using assms by (simp add: in_word_def)
  have "option_letter nargv ostr (st\<lparr>dwoptreset := False, dwoptopt := c, place := p\<rparr>) =
      option_letter nargv ostr (st\<lparr>dwoptopt := c, place := p\<rparr>)" by (simp only: e)
  then show ?thesis using True assms
    by (auto simp: in_word_def dwgetopt_long_def dwgetopt_def Let_def at_place_def with_index_def)
next
  case False
  then show ?thesis using assms
    by (auto simp: in_word_def dwgetopt_long_def dwgetopt_def Let_def)
qed

lemma getopt_loop_round:
  "dwgetopt_long nargv ostr los st = Some (v, st1, i) \<Longrightarrow> v \<noteq> -1 \<Longrightarrow>
   getopt_loop (Suc fuel) nargv ostr los st =
     map_option (\<lambda>(seen, s). ((v, dwoptarg st1, i) # seen, s)) (getopt_loop fuel nargv ostr los st1)"
  by (simp split: option.split prod.split)

lemma option_letter_flag:
  "flag_letter ostr (dwoptopt st) \<Longrightarrow> option_letter nargv ostr st =
     (char_int (dwoptopt st),
      st\<lparr>dwoptarg := None, dwoptind := (if place st = [] then dwoptind st + 1 else dwoptind st)\<rparr>)"
  by (cases "strchr ostr (dwoptopt st)") (simp_all add: option_letter_def flag_letter_def Let_def)

lemma flags_parsed:
  assumes "in_word nargv st i (cs @ p)" "\<forall>c \<in> set cs. flag_letter ostr c"
  shows "\<exists>st'. reported st' = reported st \<and> (if p = [] then between st' (i + 1) else in_word nargv st' i p)
    \<and> (\<forall>fuel. getopt_loop (length cs + fuel) nargv ostr los st =
         map_option (\<lambda>(seen, s). (map flag_seen cs @ seen, s)) (getopt_loop fuel nargv ostr los st'))"
  using assms
proof (induction cs arbitrary: st)
  case Nil
  then have "p \<noteq> []" by (auto simp: in_word_def)
  moreover have "getopt_loop (length []  + fuel) nargv ostr los st =
      map_option (\<lambda>(seen, s). (map flag_seen [] @ seen, s)) (getopt_loop fuel nargv ostr los st)" for fuel
    by (simp add: option.map_id)
  moreover have "in_word nargv st i p" using Nil by simp
  ultimately show ?case by (intro exI [of _ st]) (simp add: option.map_ident)
next
  case (Cons c cs)
  define st1 where "st1 = st\<lparr>dwoptopt := c, place := cs @ p, dwoptarg := None,
    dwoptind := (if cs @ p = [] then i + 1 else i)\<rparr>"
  have ind: "dwoptind st = i" "i < length nargv" "\<not> dwoptreset st" using Cons.prems by (auto simp: in_word_def)
  have "option_letter nargv ostr (st\<lparr>dwoptopt := c, place := cs @ p\<rparr>) = (char_int c, st1)"
    using Cons.prems(2) ind
    by (subst option_letter_flag) (simp_all add: st1_def)
  then have r: "dwgetopt_long nargv ostr los st = Some (char_int c, st1, None)"
    using in_word_round [of nargv st i c "cs @ p"] Cons.prems(1) by (simp add: with_index_def)
  have loop: "getopt_loop (Suc fuel) nargv ostr los st =
      map_option (\<lambda>(seen, s). (flag_seen c # seen, s)) (getopt_loop fuel nargv ostr los st1)" for fuel
    using getopt_loop_round [OF r] Cons.prems(2) by (simp add: flag_letter_def flag_seen_def st1_def)
  show ?case
  proof (cases "cs @ p = []")
    case True
    then have "between st1 (i + 1)" "reported st1 = reported st" using ind by (simp_all add: between_def st1_def)
    moreover have "getopt_loop (length (c # cs) + fuel) nargv ostr los st =
        map_option (\<lambda>(seen, s). (map flag_seen (c # cs) @ seen, s)) (getopt_loop fuel nargv ostr los st1)" for fuel
      using loop [of fuel] True by simp
    moreover have "p = []" using True by simp
    ultimately show ?thesis by (intro exI [of _ st1]) simp
  next
    case False
    then have "in_word nargv st1 i (cs @ p)" using ind by (simp add: in_word_def st1_def)
    then obtain st' where st': "reported st' = reported st1"
        "if p = [] then between st' (i + 1) else in_word nargv st' i p"
        "\<forall>fuel. getopt_loop (length cs + fuel) nargv ostr los st1 =
          map_option (\<lambda>(seen, s). (map flag_seen cs @ seen, s)) (getopt_loop fuel nargv ostr los st')"
      using Cons.IH [of st1] Cons.prems(2) by auto
    have "getopt_loop (length (c # cs) + fuel) nargv ostr los st =
        map_option (\<lambda>(seen, s). (map flag_seen (c # cs) @ seen, s)) (getopt_loop fuel nargv ostr los st')" for fuel
      using loop [of "length cs + fuel"] st'(3)
      by (simp add: option.map_comp comp_def split_def)
    moreover have "reported st' = reported st" using st'(1) by (simp add: st1_def)
    ultimately show ?thesis using st'(2) by (intro exI [of _ st']) simp
  qed
qed

lemma between_word:
  "between st i \<Longrightarrow> i < length nargv \<Longrightarrow> nargv ! i = CHR ''-'' # p \<Longrightarrow> p \<noteq> [] \<Longrightarrow> hd p \<noteq> CHR ''-''
   \<Longrightarrow> in_word nargv st i p"
  by (simp add: between_def in_word_def)

definition after_item :: "string list \<Rightarrow> string \<Rightarrow> dwoption list \<Rightarrow> getopt \<Rightarrow> nat
    \<Rightarrow> (int \<times> string option \<times> nat option) list \<Rightarrow> bool" where
  "after_item nargv ostr los st i seen1 \<longleftrightarrow>
     (\<exists>st'. reported st' = reported st \<and> between st' i
        \<and> (\<forall>fuel. getopt_loop (length seen1 + fuel) nargv ostr los st =
             map_option (\<lambda>(seen, s). (seen1 @ seen, s)) (getopt_loop fuel nargv ostr los st')))"

lemma after_item_trans:
  assumes "reported st1 = reported st"
      and "\<And>fuel. getopt_loop (length seen1 + fuel) nargv ostr los st =
             map_option (\<lambda>(seen, s). (seen1 @ seen, s)) (getopt_loop fuel nargv ostr los st1)"
      and "after_item nargv ostr los st1 i seen2"
  shows "after_item nargv ostr los st i (seen1 @ seen2)"
proof -
  obtain st' where st': "reported st' = reported st1" "between st' i"
      "\<forall>fuel. getopt_loop (length seen2 + fuel) nargv ostr los st1 =
        map_option (\<lambda>(seen, s). (seen2 @ seen, s)) (getopt_loop fuel nargv ostr los st')"
    using assms(3) unfolding after_item_def by blast
  have "getopt_loop (length (seen1 @ seen2) + fuel) nargv ostr los st =
      map_option (\<lambda>(seen, s). ((seen1 @ seen2) @ seen, s)) (getopt_loop fuel nargv ostr los st')" for fuel
    using assms(2) [of "length seen2 + fuel"] st'(3)
    by (simp add: option.map_comp comp_def split_def add.assoc)
  then show ?thesis using st' assms(1) unfolding after_item_def by metis
qed

lemma after_round:
  assumes "dwgetopt_long nargv ostr los st = Some (v, st1, k)" "v \<noteq> -1"
      and "reported st1 = reported st" "between st1 i"
  shows "after_item nargv ostr los st i [(v, dwoptarg st1, k)]"
  unfolding after_item_def
  using getopt_loop_round [OF assms(1,2)] assms(3,4) by (intro exI [of _ st1]) simp

lemma attached_round:
  assumes "in_word nargv st i (c # a)" "arg_letter ostr c False" "a \<noteq> []"
  shows "after_item nargv ostr los st (i + 1) [(char_int c, Some a, None)]"
proof -
  define st1 where "st1 = st\<lparr>dwoptopt := c, dwoptarg := Some a, place := [], dwoptind := i + 1\<rparr>"
  have ind: "dwoptind st = i" "\<not> dwoptreset st" using assms(1) by (auto simp: in_word_def)
  have "option_letter nargv ostr (st\<lparr>dwoptopt := c, place := a\<rparr>) = (char_int c, st1)"
    using assms ind by (auto simp: option_letter_def arg_letter_def Let_def st1_def split: option.splits)
  then have "dwgetopt_long nargv ostr los st = Some (char_int c, st1, None)"
    using in_word_round [OF assms(1)] by (simp add: with_index_def)
  from after_round [OF this] show ?thesis
    using assms(2) ind by (simp add: st1_def between_def arg_letter_def)
qed

lemma separate_round:
  assumes "in_word nargv st i [c]" "arg_letter ostr c True" "i + 1 < length nargv"
  shows "after_item nargv ostr los st (i + 2) [(char_int c, Some (nargv ! (i + 1)), None)]"
proof -
  define st1 where
    "st1 = st\<lparr>dwoptopt := c, dwoptarg := Some (nargv ! (i + 1)), place := [], dwoptind := i + 2\<rparr>"
  have ind: "dwoptind st = i" "\<not> dwoptreset st" using assms(1) by (auto simp: in_word_def)
  have "option_letter nargv ostr (st\<lparr>dwoptopt := c, place := []\<rparr>) = (char_int c, st1)"
    using assms ind by (auto simp: option_letter_def arg_letter_def Let_def st1_def split: option.splits)
  then have "dwgetopt_long nargv ostr los st = Some (char_int c, st1, None)"
    using in_word_round [OF assms(1)] by (simp add: with_index_def)
  from after_round [OF this] show ?thesis
    using assms(2) ind by (simp add: st1_def between_def arg_letter_def)
qed

subsection \<open>Long options\<close>

lemma name_before:
  "CHR ''='' \<notin> set name \<Longrightarrow> takeWhile (\<lambda>c. c \<noteq> CHR ''='') (name @ CHR ''='' # a) = name
     \<and> dropWhile (\<lambda>c. c \<noteq> CHR ''='') (name @ CHR ''='' # a) = CHR ''='' # a"
  by (induction name) auto

lemma name_alone:
  "CHR ''='' \<notin> set name \<Longrightarrow> takeWhile (\<lambda>c. c \<noteq> CHR ''='') name = name
     \<and> dropWhile (\<lambda>c. c \<noteq> CHR ''='') name = []"
  by (induction name) auto

lemma matches_alone:
  "CHR ''='' \<notin> set name \<Longrightarrow> dwoptnamematches o1 name =
     (if opt_name o1 \<noteq> name then (False, None, False) else if has_arg o1 = 1 then (True, None, True)
      else (True, None, False))"
  using name_alone [of name] by (auto simp: dwoptnamematches_def Let_def)

lemma matches_arg:
  "CHR ''='' \<notin> set name \<Longrightarrow> name \<noteq> [] \<Longrightarrow> a \<noteq> [] \<Longrightarrow> dwoptnamematches o1 (name @ CHR ''='' # a) =
     (if opt_name o1 \<noteq> name then (False, None, False) else if has_arg o1 = 0 then (True, None, True)
      else (True, Some a, False))"
  using name_before [of name a] by (auto simp: dwoptnamematches_def Let_def)

lemma long_loop_at:
  assumes "\<And>o1. dwoptnamematches o1 (place st) =
      (if opt_name o1 \<noteq> name then (False, None, False) else hit o1)"
      and "k < length los" "opt_name (los ! k) = name" "\<forall>j < k. opt_name (los ! j) \<noteq> name"
      and "hit (los ! k) = (True, argloc, False)"
  shows "long_loop los n st =
      (opt_val (los ! k), st\<lparr>dwoptarg := argloc, place := [], dwoptind := dwoptind st + 1\<rparr>, Some (n + k))"
  using assms(2-)
proof (induction los arbitrary: k n)
  case (Cons o1 los)
  show ?case
  proof (cases k)
    case 0
    then show ?thesis using Cons.prems by (simp add: assms(1) Let_def)
  next
    case (Suc k1)
    then have "opt_name o1 \<noteq> name" using Cons.prems(3) by auto
    moreover have "\<forall>j < k1. opt_name (los ! j) \<noteq> name" using Cons.prems(3) Suc by auto
    ultimately show ?thesis using Cons.IH [of k1 "n + 1"] Cons.prems Suc by (simp add: assms(1))
  qed
qed simp

lemma long_round:
  assumes "between st i" "i < length nargv" "nargv ! i = CHR ''-'' # CHR ''-'' # p" "p \<noteq> []"
      and "\<And>o1. dwoptnamematches o1 p = (if opt_name o1 \<noteq> name then (False, None, False) else hit o1)"
      and "k < length los" "opt_name (los ! k) = name" "\<forall>j < k. opt_name (los ! j) \<noteq> name"
      and "hit (los ! k) = (True, argloc, False)" "opt_val (los ! k) \<noteq> -1"
  shows "after_item nargv ostr los st (i + 1) [(opt_val (los ! k), argloc, Some k)]"
proof -
  define st1 where "st1 = st\<lparr>place := [], dwoptarg := argloc, dwoptind := i + 1\<rparr>"
  have "long_loop los 0 (st\<lparr>place := p\<rparr>) = (opt_val (los ! k), st1, Some k)"
    using long_loop_at [of "st\<lparr>place := p\<rparr>" name hit, OF _ assms(6-9), of 0] assms(1,5)
    by (simp add: st1_def between_def)
  then have "dwgetopt_long nargv ostr los st = Some (opt_val (los ! k), st1, Some k)"
    using assms(1-4) by (simp add: dwgetopt_long_def between_def Let_def at_place_def)
  from after_round [OF this assms(10)] show ?thesis
    using assms(1) by (simp add: st1_def between_def)
qed

lemma letters_parsed:
  assumes "in_word nargv st i (cs @ p)" "\<forall>c \<in> set cs. flag_letter ostr c" "p \<noteq> []"
      and "\<And>st1. in_word nargv st1 i p \<Longrightarrow> after_item nargv ostr los st1 j seen"
  shows "after_item nargv ostr los st j (map flag_seen cs @ seen)"
proof -
  obtain st1 where st1: "reported st1 = reported st" "in_word nargv st1 i p"
      "\<forall>fuel. getopt_loop (length cs + fuel) nargv ostr los st =
         map_option (\<lambda>(seen, s). (map flag_seen cs @ seen, s)) (getopt_loop fuel nargv ostr los st1)"
    using flags_parsed [OF assms(1,2)] assms(3) by auto
  show ?thesis
    by (rule after_item_trans [OF st1(1) _ assms(4) [OF st1(2)]]) (simp add: st1(3))
qed

lemma item_parsed:
  assumes v: "valid_item ostr los it" and b: "between st i"
      and w: "drop i nargv = words_of los it @ rest"
  shows "after_item nargv ostr los st (i + length (words_of los it)) (seen_of los it)"
proof -
  have i: "i < length nargv" using w by (cases it; cases "i < length nargv") auto
  have word: "nargv ! i = hd (words_of los it)"
    using w i by (metis hd_append2 hd_drop_conv_nth list.distinct(1) words_of.elims)
  show ?thesis
  proof (cases it)
    case (Flags cs)
    have iw: "in_word nargv st i (cs @ [])" using b i word v Flags by (simp add: between_word)
    obtain st' where "reported st' = reported st" "between st' (i + 1)"
        "\<forall>fuel. getopt_loop (length cs + fuel) nargv ostr los st =
         map_option (\<lambda>(seen, s). (map flag_seen cs @ seen, s)) (getopt_loop fuel nargv ostr los st')"
      using flags_parsed [OF iw, of ostr los] v Flags by auto
    then show ?thesis using Flags unfolding after_item_def by (intro exI [of _ st']) simp
  next
    case (Attached cs c a)
    then have "hd (cs @ c # a) \<noteq> CHR ''-''" using v by (cases cs) auto
    then have iw: "in_word nargv st i (cs @ c # a)" using b i word Attached by (simp add: between_word)
    have "after_item nargv ostr los st (i + 1) (map flag_seen cs @ [(char_int c, Some a, None)])"
      using v Attached by (intro letters_parsed [OF iw] attached_round) auto
    then show ?thesis using Attached by simp
  next
    case (Separate cs c a)
    then have iw: "in_word nargv st i (cs @ [c])" using b i word v by (simp add: between_word)
    have len: "i + 1 < length nargv" using arg_cong [OF w, of length] Separate by simp
    have "nargv ! (i + 1) = a"
      using arg_cong [OF w, of "\<lambda>l. l ! 1"] i Separate by simp
    then have "after_item nargv ostr los st (i + 2) (map flag_seen cs @ [(char_int c, Some a, None)])"
      using v Separate len separate_round [of nargv _ i c ostr los]
      by (intro letters_parsed [OF iw]) auto
    then show ?thesis using Separate by simp
  next
    case (Long k)
    have lo: "long_option los k" "has_arg (los ! k) \<noteq> 1" using v Long by simp_all
    have "after_item nargv ostr los st (i + 1) [(opt_val (los ! k), None, Some k)]"
      by (rule long_round [OF b i _ _ matches_alone]) (use lo word Long in \<open>auto simp: long_option_def\<close>)
    then show ?thesis using Long by simp
  next
    case (Long_Arg k a)
    have lo: "long_option los k" "has_arg (los ! k) \<noteq> 0" "a \<noteq> []" using v Long_Arg by simp_all
    have "after_item nargv ostr los st (i + 1) [(opt_val (los ! k), Some a, Some k)]"
      by (rule long_round [OF b i _ _ matches_arg]) (use lo word Long_Arg in \<open>auto simp: long_option_def\<close>)
    then show ?thesis using Long_Arg by simp
  qed
qed

lemma items_parsed:
  assumes "\<forall>it \<in> set items. valid_item ostr los it" "between st i"
      and "drop i nargv = concat (map (words_of los) items) @ rest"
  shows "after_item nargv ostr los st (i + length (concat (map (words_of los) items)))
    (concat (map (seen_of los) items))"
  using assms
proof (induction items arbitrary: st i)
  case Nil
  then show ?case unfolding after_item_def
    by (intro exI [of _ st]) (simp add: option.map_ident option.map_id)
next
  case (Cons it items)
  have "after_item nargv ostr los st (i + length (words_of los it)) (seen_of los it)"
    by (rule item_parsed) (use Cons.prems in auto)
  then obtain st1 where st1: "reported st1 = reported st" "between st1 (i + length (words_of los it))"
      "\<forall>fuel. getopt_loop (length (seen_of los it) + fuel) nargv ostr los st =
        map_option (\<lambda>(seen, s). (seen_of los it @ seen, s)) (getopt_loop fuel nargv ostr los st1)"
    unfolding after_item_def by blast
  have "drop (i + length (words_of los it)) nargv = drop (length (words_of los it)) (drop i nargv)"
    by (simp add: add.commute)
  also have "\<dots> = concat (map (words_of los) items) @ rest" using Cons.prems(3) by simp
  finally have "after_item nargv ostr los st1
      (i + length (words_of los it) + length (concat (map (words_of los) items)))
      (concat (map (seen_of los) items))"
    using Cons.IH [OF _ st1(2)] Cons.prems(1) by simp
  from after_item_trans [OF st1(1) _ this] st1(3) show ?case by (simp add: add.assoc)
qed

text \<open>
  C27: The parser reads back what a command line says: for any sequence of well-formed options
  (clusters of flags, options with an attached or separate argument, long options with and
  without one) followed by operands, the loop sees exactly these options with their arguments in
  order, reports nothing, and leaves \<open>dwoptind\<close> at the first operand.
\<close>

theorem command_line_roundtrip:
  assumes valid: "\<forall>it \<in> set items. valid_item ostr los it"
      and operands: "operands = [] \<or> at_place (hd operands) \<noteq> CHR ''-''"
      and fuel: "length (concat (map (seen_of los) items)) < fuel"
  shows "\<exists>st'. getopt_loop fuel (program # concat (map (words_of los) items) @ operands) ostr los initial_getopt =
      Some (concat (map (seen_of los) items), st')
    \<and> dwoptind st' = 1 + length (concat (map (words_of los) items)) \<and> reported st' = 0"
proof -
  let ?nargv = "program # concat (map (words_of los) items) @ operands"
  let ?seen = "concat (map (seen_of los) items)" and ?i = "1 + length (concat (map (words_of los) items))"
  have "after_item ?nargv ostr los initial_getopt ?i ?seen"
    by (rule items_parsed [OF valid]) (simp_all add: between_def initial_getopt_def)
  then obtain st' where st': "reported st' = 0" "between st' ?i"
      "\<forall>fuel. getopt_loop (length ?seen + fuel) ?nargv ostr los initial_getopt =
        map_option (\<lambda>(seen, s). (?seen @ seen, s)) (getopt_loop fuel ?nargv ostr los st')"
    unfolding after_item_def by (auto simp: initial_getopt_def)
  obtain rest where rest: "fuel = length ?seen + Suc rest"
    using fuel less_imp_Suc_add by (metis add_Suc_right)
  have "dwgetopt_long ?nargv ostr los st' = Some (-1, st'\<lparr>place := []\<rparr>, None)"
    using st'(2) operands
    by (cases operands) (auto simp: dwgetopt_long_def between_def Let_def nth_append)
  then have "getopt_loop (Suc rest) ?nargv ostr los st' = Some ([], st'\<lparr>place := []\<rparr>)" by simp
  then have "getopt_loop fuel ?nargv ostr los initial_getopt = Some (?seen, st'\<lparr>place := []\<rparr>)"
    unfolding rest using spec [OF st'(3), of "Suc rest"] by (simp del: getopt_loop.simps)
  then show ?thesis using st'(1,2) by (auto simp: between_def)
qed

theorem command_line_roundtrip_witness:
  "\<exists>st'. getopt_loop 9 [''dwarfdump'', ''-vx1'', ''-x'', ''2'', ''--print=all'', ''a.out''] ''vx:''
       [\<lparr>opt_name = ''print'', has_arg = 1, opt_val = 300\<rparr>] initial_getopt =
     Some ([(118, None, None), (120, Some ''1'', None), (120, Some ''2'', None), (300, Some ''all'', Some 0)], st')
   \<and> dwoptind st' = Suc 4 \<and> reported st' = 0"
  using command_line_roundtrip [of "[Attached ''v'' (CHR ''x'') ''1'', Separate [] (CHR ''x'') ''2'', Long_Arg 0 ''all'']"
      "''vx:''" "[\<lparr>opt_name = ''print'', has_arg = 1, opt_val = 300\<rparr>]" "[''a.out'']" 9 "''dwarfdump''"]
  by (simp add: flag_letter_def arg_letter_def long_option_def strchr_def at_place_def char_int_def Let_def
      flag_seen_def NUL_char_def eval_nat_numeral del: getopt_loop.simps)

end
