(* ===== verification/Tsearch_Bal.thy ===== *)
theory Tsearch_Bal
  imports Prelude "HOL-Library.Monad_Syntax"
begin

text \<open>
  The balanced search tree of \<open>dwarfdump\<close>: \<open>dd_tsearchbal.c\<close>, after Knuth's Algorithm A of 6.2.3 (insertion) and
  Algorithm D of 6.2.2 (deletion). The tree is a linked structure that is changed in place, and so it is here: the heap
  is a map from addresses to records, 0 is the null pointer. Every access to an address without a record, to a freed
  record or to an element outside an array is the result \<open>None\<close>, and so are the two calls of \<open>exit\<close>.
  The loops follow the links of the heap and need not end on an arbitrary one; they too are then \<open>None\<close>.
  The header renames the functions from \<open>dwarf_tsearch\<close> and so on to \<open>dd_tsearch\<close>.
\<close>

subsection \<open>The records\<close>

type_synonym addr = nat

record 'k bal_entry =
  keyptr :: "'k option"
  treedepth :: int
  balance :: int
  llink :: addr
  rlink :: addr

type_synonym 'k bal_heap = "addr \<rightharpoonup> 'k bal_entry"

text \<open>The comparison function of the user, on the pointers to the user's records.\<close>

type_synonym 'k bal_compar = "'k option \<Rightarrow> 'k option \<Rightarrow> int"

text \<open>The addresses the coming calls of \<open>malloc\<close> and \<open>calloc\<close> return; 0, or none left: the call fails.\<close>

fun next_block :: "addr list \<Rightarrow> addr \<times> addr list" where
  "next_block [] = (0, [])"
| "next_block (a # ms) = (a, ms)"

definition setlink :: "'k bal_heap \<Rightarrow> addr \<Rightarrow> int \<Rightarrow> addr \<Rightarrow> 'k bal_heap option" where
  "setlink h t a x = do {
     e \<leftarrow> h t;
     Some (h(t \<mapsto> (if a < 0 then e\<lparr>llink := x\<rparr> else e\<lparr>rlink := x\<rparr>)))
   }"

definition getlink :: "'k bal_heap \<Rightarrow> addr \<Rightarrow> int \<Rightarrow> addr option" where
  "getlink h t a = do {
     e \<leftarrow> h t;
     Some (if a < 0 then llink e else rlink e)
   }"

definition get_balance :: "'k bal_heap \<Rightarrow> addr \<Rightarrow> int option" where
  "get_balance h t = do { e \<leftarrow> h t; Some (balance e) }"

definition set_balance :: "'k bal_heap \<Rightarrow> addr \<Rightarrow> int \<Rightarrow> 'k bal_heap option" where
  "set_balance h t b = do { e \<leftarrow> h t; Some (h(t \<mapsto> e\<lparr>balance := b\<rparr>)) }"

text \<open>\<open>head->treedepth++\<close> and \<open>head->treedepth--\<close>.\<close>

definition change_depth :: "'k bal_heap \<Rightarrow> addr \<Rightarrow> int \<Rightarrow> 'k bal_heap option" where
  "change_depth h t n = do { e \<leftarrow> h t; Some (h(t \<mapsto> e\<lparr>treedepth := treedepth e + n\<rparr>)) }"

definition free_entry :: "'k bal_heap \<Rightarrow> addr \<Rightarrow> 'k bal_heap option" where
  "free_entry h t = do { e \<leftarrow> h t; Some (h(t := None)) }"

definition allocate_ts_entry :: "'k option \<Rightarrow> addr list \<Rightarrow> 'k bal_heap \<Rightarrow> addr \<times> 'k bal_heap \<times> addr list" where
  "allocate_ts_entry key ms h = (case next_block ms of (e, ms1) \<Rightarrow>
     if e = 0 then (0, h, ms1)
     else (e, h(e \<mapsto> \<lparr>keyptr = key, treedepth = 0, balance = 0, llink = 0, rlink = 0\<rparr>), ms1))"

subsection \<open>Insertion\<close>

definition tsearch_insert_k :: "'k option \<Rightarrow> int \<Rightarrow> addr \<Rightarrow> addr list \<Rightarrow> 'k bal_heap \<Rightarrow>
    (addr \<times> 'k bal_heap \<times> addr list) option" where
  "tsearch_insert_k key kc p ms h = (case allocate_ts_entry key ms h of (q, h1, ms1) \<Rightarrow>
     if q = 0 then Some (0, h1, ms1)
     else do { h2 \<leftarrow> setlink h1 p kc q; Some (q, h2, ms1) })"

text \<open>The second component is \<open>*inserted\<close>.\<close>

definition tsearch_do_insert :: "'k option \<Rightarrow> int \<Rightarrow> addr \<Rightarrow> addr list \<Rightarrow> 'k bal_heap \<Rightarrow>
    (addr \<times> bool \<times> 'k bal_heap \<times> addr list) option" where
  "tsearch_do_insert key kc p ms h = do {
     (q, h1, ms1) \<leftarrow> tsearch_insert_k key kc p ms h;
     Some (q, q \<noteq> 0, h1, ms1)
   }"

text \<open>
  Steps A2 to A4: down the tree from \<open>p\<close>, with \<open>s\<close> the last entry on the way with a balance other than 0 (or the root) and
  \<open>t\<close> its parent. \<open>Inl p\<close>: found; \<open>Inr (t, s, p, kc)\<close>: the new entry belongs under \<open>p\<close>, on the side \<open>kc\<close>.
\<close>

partial_function (option) tsearch_down :: "'k bal_compar \<Rightarrow> 'k option \<Rightarrow> 'k bal_heap \<Rightarrow> addr \<Rightarrow> addr \<Rightarrow> addr \<Rightarrow>
    (addr + addr \<times> addr \<times> addr \<times> int) option" where
  "tsearch_down compar key h t s p = do {
     e \<leftarrow> h p;
     let kc = compar key (keyptr e);
     if kc \<noteq> 0 then do {
       q \<leftarrow> getlink h p kc;
       if q = 0 then Some (Inr (t, s, p, kc))
       else do {
         b \<leftarrow> get_balance h q;
         if b \<noteq> 0 then tsearch_down compar key h p q q
         else tsearch_down compar key h t s q
       }
     }
     else Some (Inl p)
   }"

text \<open>Step A6: the balances between \<open>s\<close> and the new entry \<open>q\<close>.\<close>

partial_function (option) adjust_balances :: "'k bal_compar \<Rightarrow> 'k option \<Rightarrow> addr \<Rightarrow> 'k bal_heap \<Rightarrow> addr \<Rightarrow>
    'k bal_heap option" where
  "adjust_balances compar key q h p =
     (if p = q then Some h
      else do {
        e \<leftarrow> h p;
        let kc3 = compar key (keyptr e);
        if kc3 < 0 then adjust_balances compar key q (h(p \<mapsto> e\<lparr>balance := - 1\<rparr>)) (llink e)
        else if kc3 > 0 then adjust_balances compar key q (h(p \<mapsto> e\<lparr>balance := 1\<rparr>)) (rlink e)
        else Some h
      })"

text \<open>Step A8, the single rotation, and step A9, the double one; the result is the new top of the subtree.\<close>

definition single_rotation :: "'k bal_heap \<Rightarrow> addr \<Rightarrow> addr \<Rightarrow> int \<Rightarrow> (addr \<times> 'k bal_heap) option" where
  "single_rotation h s r a = do {
     x \<leftarrow> getlink h r (- a);
     h1 \<leftarrow> setlink h s a x;
     h2 \<leftarrow> setlink h1 r (- a) s;
     h3 \<leftarrow> set_balance h2 s 0;
     h4 \<leftarrow> set_balance h3 r 0;
     Some (r, h4)
   }"

definition double_rotation :: "'k bal_heap \<Rightarrow> addr \<Rightarrow> addr \<Rightarrow> int \<Rightarrow> (addr \<times> 'k bal_heap) option" where
  "double_rotation h s r a = do {
     p \<leftarrow> getlink h r (- a);
     x \<leftarrow> getlink h p a;
     h1 \<leftarrow> setlink h r (- a) x;
     h2 \<leftarrow> setlink h1 p a r;
     y \<leftarrow> getlink h2 p (- a);
     h3 \<leftarrow> setlink h2 s a y;
     h4 \<leftarrow> setlink h3 p (- a) s;
     b \<leftarrow> get_balance h4 p;
     h5 \<leftarrow> (if b = a then do { h5 \<leftarrow> set_balance h4 s (- a); set_balance h5 r 0 }
            else if b = 0 then do { h5 \<leftarrow> set_balance h4 s 0; set_balance h5 r 0 }
            else if b = - a then do { h5 \<leftarrow> set_balance h4 s 0; set_balance h5 r a }
            else Some h4);
     h6 \<leftarrow> set_balance h5 p 0;
     Some (p, h6)
   }"

text \<open>Step A10: the parent's link to \<open>s\<close> becomes one to \<open>p\<close>.\<close>

definition relink_parent :: "'k bal_heap \<Rightarrow> addr \<Rightarrow> addr \<Rightarrow> addr \<Rightarrow> 'k bal_heap option" where
  "relink_parent h t s p = do {
     x \<leftarrow> getlink h t 1;
     if s = x then setlink h t 1 p else setlink h t (- 1) p
   }"

text \<open>Steps A6 to A10, with the new entry \<open>q\<close> in place.\<close>

definition tsearch_rebalance :: "'k bal_compar \<Rightarrow> 'k option \<Rightarrow> addr \<Rightarrow> addr \<Rightarrow> addr \<Rightarrow> addr \<Rightarrow> 'k bal_heap \<Rightarrow>
    'k bal_heap option" where
  "tsearch_rebalance compar key head t s q h = do {
     e \<leftarrow> h s;
     let a = (if compar key (keyptr e) < 0 then - 1 else 1);
     r \<leftarrow> getlink h s a;
     h1 \<leftarrow> adjust_balances compar key q h r;
     b \<leftarrow> get_balance h1 s;
     if b = 0 then do { h2 \<leftarrow> set_balance h1 s a; change_depth h2 head 1 }
     else if b = - a then set_balance h1 s 0
     else if b = a then do {
       br \<leftarrow> get_balance h1 r;
       (p, h2) \<leftarrow> (if br = a then single_rotation h1 s r a
                   else if br = - a then double_rotation h1 s r a
                   else None);
       relink_parent h2 t s p
     }
     else None
   }"

definition tsearch_inner_bal :: "'k bal_compar \<Rightarrow> 'k option \<Rightarrow> addr \<Rightarrow> 'k bal_heap \<Rightarrow> addr list \<Rightarrow>
    (addr \<times> bool \<times> 'k bal_heap \<times> addr list) option" where
  "tsearch_inner_bal compar key head h ms = do {
     p \<leftarrow> getlink h head 1;
     where_to \<leftarrow> tsearch_down compar key h head p p;
     case where_to of
       Inl p1 \<Rightarrow> Some (p1, False, h, ms)
     | Inr (t, s, p1, kc) \<Rightarrow> do {
         (q, inserted, h1, ms1) \<leftarrow> tsearch_do_insert key kc p1 ms h;
         if q = 0 then Some (0, inserted, h1, ms1)
         else do {
           h2 \<leftarrow> tsearch_rebalance compar key head t s q h1;
           Some (q, inserted, h2, ms1)
         }
       }
   }"

text \<open>
  \<open>dd_tsearch\<close>: \<open>headp\<close> is what the argument \<open>headin\<close> points to, \<open>None\<close> when it is null itself. The result is the entry
  whose \<open>keyptr\<close> the returned pointer points to (0: null), what \<open>headin\<close> points to afterwards, and the memory.
\<close>

definition dd_tsearch :: "'k bal_compar \<Rightarrow> 'k option \<Rightarrow> addr option \<Rightarrow> 'k bal_heap \<Rightarrow> addr list \<Rightarrow>
    (addr \<times> addr option \<times> 'k bal_heap \<times> addr list) option" where
  "dd_tsearch compar key headp h ms = (case headp of
     None \<Rightarrow> Some (0, None, h, ms)
   | Some head \<Rightarrow>
       if head = 0 then (case allocate_ts_entry None ms h of (new, h1, ms1) \<Rightarrow>
         if new = 0 then Some (0, headp, h1, ms1)
         else (case allocate_ts_entry key ms1 h1 of (root, h2, ms2) \<Rightarrow>
           if root = 0 then do { h3 \<leftarrow> free_entry h2 new; Some (0, headp, h3, ms2) }
           else do { h3 \<leftarrow> setlink h2 new 1 root; Some (root, Some new, h3, ms2) }))
       else do {
         (r, inserted, h1, ms1) \<leftarrow> tsearch_inner_bal compar key head h ms;
         Some (r, headp, h1, ms1)
       })"

subsection \<open>Search\<close>

partial_function (option) tfind_loop :: "'k bal_compar \<Rightarrow> 'k option \<Rightarrow> 'k bal_heap \<Rightarrow> addr \<Rightarrow> addr option" where
  "tfind_loop compar key h p =
     (if p = 0 then Some 0
      else do {
        e \<leftarrow> h p;
        let kc = compar key (keyptr e);
        if kc = 0 then Some p
        else do { q \<leftarrow> getlink h p kc; tfind_loop compar key h q }
      })"

definition dd_tfind :: "'k bal_compar \<Rightarrow> 'k option \<Rightarrow> addr option \<Rightarrow> 'k bal_heap \<Rightarrow> addr option" where
  "dd_tfind compar key headp h = (case headp of
     None \<Rightarrow> Some 0
   | Some head \<Rightarrow>
       if head = 0 then Some 0
       else do { p \<leftarrow> getlink h head 1; tfind_loop compar key h p })"

subsection \<open>Deletion\<close>

record pkrecord =
  pk :: addr
  ak :: int

text \<open>\<open>pkarray[k]\<close>, and the same with a new value; outside the array it is a bad access.\<close>

definition pk_at :: "pkrecord list \<Rightarrow> nat \<Rightarrow> pkrecord option" where
  "pk_at pkarray k = (if k < length pkarray then Some (pkarray ! k) else None)"

definition pk_put :: "pkrecord list \<Rightarrow> nat \<Rightarrow> addr \<Rightarrow> int \<Rightarrow> pkrecord list option" where
  "pk_put pkarray k p a = (if k < length pkarray then Some (pkarray[k := \<lparr>pk = p, ak = a\<rparr>]) else None)"

text \<open>The way down to the entry to delete; the result is the entry (0: not found), the array and \<open>k\<close>.\<close>

partial_function (option) tdelete_down :: "'k bal_compar \<Rightarrow> 'k option \<Rightarrow> 'k bal_heap \<Rightarrow> pkrecord list \<Rightarrow> nat \<Rightarrow> addr \<Rightarrow>
    (addr \<times> pkrecord list \<times> nat) option" where
  "tdelete_down compar key h pkarray k p =
     (if p = 0 then Some (0, pkarray, k)
      else do {
        e \<leftarrow> h p;
        let kc = compar key (keyptr e);
        pkarray1 \<leftarrow> pk_put pkarray (k + 1) p kc;
        if kc = 0 then Some (p, pkarray1, k + 1)
        else do { q \<leftarrow> getlink h p kc; tdelete_down compar key h pkarray1 (k + 1) q }
      })"

text \<open>The loop of step D3, down the left links from \<open>r\<close>; the result is \<open>r\<close>, \<open>s\<close>, the array and \<open>k2\<close>.\<close>

partial_function (option) leftmost_loop :: "'k bal_heap \<Rightarrow> pkrecord list \<Rightarrow> nat \<Rightarrow> addr \<Rightarrow> addr \<Rightarrow>
    (addr \<times> addr \<times> pkrecord list \<times> nat) option" where
  "leftmost_loop h pkarray k2 r s = do {
     x \<leftarrow> getlink h s (- 1);
     if x \<noteq> 0 then do {
       pkarray1 \<leftarrow> pk_put pkarray (k2 + 1) s (- 1);
       leftmost_loop h pkarray1 (k2 + 1) s x
     }
     else Some (r, s, pkarray, k2)
   }"

definition rearrange_tree_so_p_llink_null :: "pkrecord list \<Rightarrow> nat \<Rightarrow> addr \<Rightarrow> addr \<Rightarrow> int \<Rightarrow> 'k bal_heap \<Rightarrow>
    (nat \<times> pkrecord list \<times> 'k bal_heap) option" where
  "rearrange_tree_so_p_llink_null pkarray k p pp ppak h = do {
     pbalance \<leftarrow> get_balance h p;
     r0 \<leftarrow> getlink h p 1;
     pkarray1 \<leftarrow> pk_put pkarray (k + 1) r0 (- 1);
     s0 \<leftarrow> getlink h r0 (- 1);
     (r, s, pkarray2, k2) \<leftarrow> leftmost_loop h pkarray1 (k + 1) r0 s0;
     sbalance \<leftarrow> get_balance h s;
     pl \<leftarrow> getlink h p (- 1);
     h1 \<leftarrow> setlink h s (- 1) pl;
     h2 \<leftarrow> setlink h1 r (- 1) p;
     h3 \<leftarrow> setlink h2 p (- 1) 0;
     tmp \<leftarrow> getlink h3 p 1;
     sr \<leftarrow> getlink h3 s 1;
     h4 \<leftarrow> setlink h3 p 1 sr;
     h5 \<leftarrow> setlink h4 s 1 tmp;
     h6 \<leftarrow> setlink h5 pp ppak s;
     h7 \<leftarrow> set_balance h6 s pbalance;
     h8 \<leftarrow> set_balance h7 p sbalance;
     pkarray3 \<leftarrow> pk_put pkarray2 k s 1;
     pr \<leftarrow> getlink h8 p 1;
     h9 \<leftarrow> setlink h8 r (- 1) pr;
     h10 \<leftarrow> free_entry h9 p;
     Some (k2, pkarray3, h10)
   }"

text \<open>One entry of the way up that needs a rotation; the boolean says that the loop goes on.\<close>

definition tdelete_rotate :: "'k bal_heap \<Rightarrow> addr \<Rightarrow> int \<Rightarrow> addr \<Rightarrow> int \<Rightarrow> (bool \<times> 'k bal_heap) option" where
  "tdelete_rotate h s adel pa pak = do {
     r \<leftarrow> getlink h s adel;
     br \<leftarrow> get_balance h r;
     if br = adel then do {
       x \<leftarrow> getlink h r (- adel);
       h1 \<leftarrow> setlink h s adel x;
       h2 \<leftarrow> setlink h1 r (- adel) s;
       h3 \<leftarrow> setlink h2 pa pak r;
       h4 \<leftarrow> set_balance h3 s 0;
       h5 \<leftarrow> set_balance h4 r 0;
       Some (True, h5)
     }
     else if br = - adel then do {
       x \<leftarrow> getlink h r (- adel);
       y \<leftarrow> getlink h x adel;
       h1 \<leftarrow> setlink h r (- adel) y;
       h2 \<leftarrow> setlink h1 x adel r;
       z \<leftarrow> getlink h2 x (- adel);
       h3 \<leftarrow> setlink h2 s adel z;
       h4 \<leftarrow> setlink h3 x (- adel) s;
       h5 \<leftarrow> setlink h4 pa pak x;
       bx \<leftarrow> get_balance h5 x;
       h6 \<leftarrow> (if bx = adel then do { h6 \<leftarrow> set_balance h5 s (- adel); set_balance h6 r 0 }
              else if bx = 0 then do { h6 \<leftarrow> set_balance h5 s 0; set_balance h6 r 0 }
              else if bx = - adel then do { h6 \<leftarrow> set_balance h5 s 0; set_balance h6 r adel }
              else Some h5);
       h7 \<leftarrow> set_balance h6 x 0;
       Some (True, h7)
     }
     else do {
       x \<leftarrow> getlink h r (- adel);
       h1 \<leftarrow> setlink h s adel x;
       h2 \<leftarrow> setlink h1 r (- adel) s;
       h3 \<leftarrow> setlink h2 pa pak r;
       h4 \<leftarrow> set_balance h3 r (- adel);
       Some (False, h4)
     }
   }"

text \<open>The loop at the label \<open>balance\<close>.\<close>

fun tdelete_balance :: "addr \<Rightarrow> pkrecord list \<Rightarrow> nat \<Rightarrow> 'k bal_heap \<Rightarrow> 'k bal_heap option" where
  "tdelete_balance head pkarray 0 h = change_depth h head (- 1)"
| "tdelete_balance head pkarray (Suc k) h = do {
     rec \<leftarrow> pk_at pkarray (Suc k);
     if pk rec = 0 then tdelete_balance head pkarray k h
     else do {
       bk \<leftarrow> get_balance h (pk rec);
       if bk = ak rec then do {
         h1 \<leftarrow> set_balance h (pk rec) 0;
         tdelete_balance head pkarray k h1
       }
       else if bk = 0 then set_balance h (pk rec) (- ak rec)
       else do {
         above \<leftarrow> pk_at pkarray k;
         (go_on, h1) \<leftarrow> tdelete_rotate h (pk rec) (- ak rec) (pk above) (ak above);
         if go_on then tdelete_balance head pkarray k h1 else Some h1
       }
     }
   }"

record 'k tdeleted =
  parent :: addr
  tree_empty :: bool
  did_delete :: bool
  left_heap :: "'k bal_heap"

text \<open>Taking the entry \<open>p = pkarray[k]\<close> out, up to the label \<open>balance\<close>; the result is \<open>k\<close>, the array and the heap.\<close>

definition tdelete_unlink :: "pkrecord list \<Rightarrow> nat \<Rightarrow> addr \<Rightarrow> addr \<Rightarrow> int \<Rightarrow> 'k bal_heap \<Rightarrow>
    (nat \<times> pkrecord list \<times> 'k bal_heap) option" where
  "tdelete_unlink pkarray k p pp ppak h = do {
     l \<leftarrow> getlink h p (- 1);
     r \<leftarrow> getlink h p 1;
     if r = 0 then do {
       h1 \<leftarrow> setlink h pp ppak l;
       h2 \<leftarrow> free_entry h1 p;
       Some (k - 1, pkarray, h2)
     }
     else if l = 0 then do {
       h1 \<leftarrow> setlink h pp ppak r;
       h2 \<leftarrow> free_entry h1 p;
       Some (k - 1, pkarray, h2)
     }
     else do {
       rl \<leftarrow> getlink h r (- 1);
       if rl = 0 then do {
         h1 \<leftarrow> setlink h r (- 1) l;
         h2 \<leftarrow> setlink h1 pp ppak r;
         pkarray1 \<leftarrow> pk_put pkarray k r 1;
         b \<leftarrow> get_balance h2 p;
         h3 \<leftarrow> set_balance h2 r b;
         h4 \<leftarrow> free_entry h3 p;
         Some (k, pkarray1, h4)
       }
       else rearrange_tree_so_p_llink_null pkarray k p pp ppak h
     }
   }"

definition tdelete_inner :: "'k bal_compar \<Rightarrow> 'k option \<Rightarrow> addr \<Rightarrow> 'k bal_heap \<Rightarrow> addr list \<Rightarrow>
    ('k tdeleted \<times> addr list) option" where
  "tdelete_inner compar key head h ms = do {
     e \<leftarrow> h head;
     let depth = nat ((treedepth e + 4) mod 2 ^ 64);
     let (block, ms1) = next_block ms;
     if block = 0 then Some (\<lparr>parent = 0, tree_empty = False, did_delete = False, left_heap = h\<rparr>, ms1)
     else do {
       pkarray0 \<leftarrow> pk_put (replicate depth \<lparr>pk = 0, ak = 0\<rparr>) 0 head 1;
       (p, pkarray, k) \<leftarrow> tdelete_down compar key h pkarray0 0 (rlink e);
       if p = 0 then Some (\<lparr>parent = 0, tree_empty = False, did_delete = False, left_heap = h\<rparr>, ms1)
       else do {
         above \<leftarrow> pk_at pkarray (k - 1);
         l \<leftarrow> getlink h p (- 1);
         r \<leftarrow> getlink h p 1;
         if r = 0 \<and> k = 1 \<and> l = 0 then do {
           h1 \<leftarrow> free_entry h p;
           Some (\<lparr>parent = 0, tree_empty = True, did_delete = True, left_heap = h1\<rparr>, ms1)
         }
         else do {
           (k1, pkarray1, h1) \<leftarrow> tdelete_unlink pkarray k p (pk above) (ak above) h;
           h2 \<leftarrow> tdelete_balance head pkarray1 k1 h1;
           Some (\<lparr>parent = pk above, tree_empty = False, did_delete = True, left_heap = h2\<rparr>, ms1)
         }
       }
     }
   }"

text \<open>As for \<open>dd_tsearch\<close>, the result has the entry whose \<open>keyptr\<close> is pointed to, and what \<open>rootp\<close> points to.\<close>

definition dd_tdelete :: "'k bal_compar \<Rightarrow> 'k option \<Rightarrow> addr option \<Rightarrow> 'k bal_heap \<Rightarrow> addr list \<Rightarrow>
    (addr \<times> addr option \<times> 'k bal_heap \<times> addr list) option" where
  "dd_tdelete compar key rootp h ms = (case rootp of
     None \<Rightarrow> Some (0, None, h, ms)
   | Some head \<Rightarrow>
       if head = 0 then Some (0, rootp, h, ms)
       else do {
         r \<leftarrow> getlink h head 1;
         if r = 0 then Some (0, rootp, h, ms)
         else do {
           (d, ms1) \<leftarrow> tdelete_inner compar key head h ms;
           let h1 = left_heap d;
           if tree_empty d then do {
             h2 \<leftarrow> setlink h1 head 1 0;
             h3 \<leftarrow> setlink h2 head (- 1) 0;
             h4 \<leftarrow> free_entry h3 head;
             Some (0, Some 0, h4, ms1)
           }
           else if did_delete d then
             (if parent d = 0 then do { root \<leftarrow> getlink h1 head 1; Some (root, rootp, h1, ms1) }
              else Some (parent d, rootp, h1, ms1))
           else Some (0, rootp, h1, ms1)
         }
       })"

subsection \<open>Walking and destroying\<close>

datatype dw_visit = dwarf_preorder | dwarf_postorder | dwarf_endorder | dwarf_leaf

text \<open>The calls of \<open>action\<close>, each with the entry whose \<open>keyptr\<close> it is given, the kind of visit and the level.\<close>

partial_function (option) twalk_inner :: "'k bal_heap \<Rightarrow> addr \<Rightarrow> nat \<Rightarrow> (addr \<times> dw_visit \<times> nat) list option" where
  "twalk_inner h p level = do {
     e \<leftarrow> h p;
     if llink e = 0 \<and> rlink e = 0 then Some [(p, dwarf_leaf, level)]
     else do {
       ls \<leftarrow> (if llink e \<noteq> 0 then twalk_inner h (llink e) (level + 1) else Some []);
       rs \<leftarrow> (if rlink e \<noteq> 0 then twalk_inner h (rlink e) (level + 1) else Some []);
       Some ([(p, dwarf_preorder, level)] @ ls @ [(p, dwarf_postorder, level)] @ rs @ [(p, dwarf_endorder, level)])
     }
   }"

definition dd_twalk :: "'k bal_heap \<Rightarrow> addr \<Rightarrow> (addr \<times> dw_visit \<times> nat) list option" where
  "dd_twalk h head =
     (if head = 0 then Some []
      else do {
        root \<leftarrow> getlink h head 1;
        if root = 0 then Some [] else twalk_inner h root 0
      })"

text \<open>The keys passed to \<open>free_node\<close>, in order, and the heap.\<close>

partial_function (option) tdestroy_inner :: "'k bal_heap \<Rightarrow> addr \<Rightarrow> ('k option list \<times> 'k bal_heap) option" where
  "tdestroy_inner h p = do {
     l \<leftarrow> getlink h p (- 1);
     (ls, h1) \<leftarrow> (if l \<noteq> 0 then do { (ls, h1) \<leftarrow> tdestroy_inner h l; h2 \<leftarrow> setlink h1 p (- 1) 0; Some (ls, h2) }
                  else Some ([], h));
     r \<leftarrow> getlink h1 p 1;
     (rs, h2) \<leftarrow> (if r \<noteq> 0 then do { (rs, h2) \<leftarrow> tdestroy_inner h1 r; h3 \<leftarrow> setlink h2 p 1 0; Some (rs, h3) }
                  else Some ([], h1));
     e \<leftarrow> h2 p;
     h3 \<leftarrow> free_entry h2 p;
     Some (ls @ rs @ [keyptr e], h3)
   }"

definition dd_tdestroy :: "'k bal_heap \<Rightarrow> addr \<Rightarrow> ('k option list \<times> 'k bal_heap) option" where
  "dd_tdestroy h head =
     (if head = 0 then Some ([], h)
      else do {
        root \<leftarrow> getlink h head 1;
        (ks, h1) \<leftarrow> (if root \<noteq> 0 then tdestroy_inner h root else Some ([], h));
        h2 \<leftarrow> free_entry h1 head;
        Some (ks, h2)
      })"

text \<open>The loops can be run.\<close>

declare tsearch_down.simps [code] adjust_balances.simps [code] tfind_loop.simps [code] tdelete_down.simps [code]
  leftmost_loop.simps [code] twalk_inner.simps [code] tdestroy_inner.simps [code]

end
