(* ===== verification/Bal_Tree.thy ===== *)
theory Bal_Tree
  imports Tsearch_Bal "HOL-Library.Tree" "HOL-Library.Multiset"
begin

text \<open>
  The trees that a heap of \<open>Tsearch_Bal\<close> holds: a tree of addresses, keys and balances, laid out in the heap by
  \<open>cells\<close>, and a tree with a hole as the frames on the way up from the hole (\<open>plug\<close>), which is what the loops over the
  parents work on. Sides are -1 for left and 1 for right, as in the code, and \<open>side_node d x t u\<close> has \<open>t\<close> on the side
  \<open>d\<close>, so that a step and its mirror image are one case.
\<close>

subsection \<open>Sides\<close>

type_synonym 'k info = "addr \<times> 'k \<times> int"

definition side :: "int \<Rightarrow> bool" where
  "side d \<longleftrightarrow> d = - 1 \<or> d = 1"

lemma side_cases [simp]: "side (- 1)" "side 1" "side (- d) = side d"
  by (auto simp: side_def)

lemma side_sgn: "kc \<noteq> 0 \<Longrightarrow> side (sgn kc)"
  by (auto simp: side_def sgn_if)

definition side_node :: "int \<Rightarrow> 'a \<Rightarrow> 'a tree \<Rightarrow> 'a tree \<Rightarrow> 'a tree" where
  "side_node d x t u = (if d < 0 then Node t x u else Node u x t)"

lemma side_node_not_Leaf [simp]: "side_node d x t u \<noteq> Leaf"
  by (simp add: side_node_def)

lemma height_side_node [simp]: "height (side_node d x t u) = Suc (max (height t) (height u))"
  by (simp add: side_node_def max.commute)

lemma node_as_side: "Node l x r = side_node (- 1) x l r" "Node l x r = side_node 1 x r l"
  by (simp_all add: side_node_def)

lemma side_node_exists:
  assumes "t \<noteq> Leaf"
  obtains x t1 t2 where "t = side_node d x t1 t2"
proof -
  obtain l x r where "t = Node l x r" using assms by (cases t) auto
  then have "t = side_node d x (if d < 0 then l else r) (if d < 0 then r else l)" by (simp add: side_node_def)
  then show thesis by (rule that)
qed

definition cell :: "int \<Rightarrow> 'k \<Rightarrow> int \<Rightarrow> addr \<Rightarrow> addr \<Rightarrow> 'k bal_entry" where
  "cell d k b x y = \<lparr>keyptr = Some k, treedepth = 0, balance = b,
     llink = (if d < 0 then x else y), rlink = (if d < 0 then y else x)\<rparr>"

definition head_cell :: "int \<Rightarrow> addr \<Rightarrow> 'k bal_entry" where
  "head_cell n x = \<lparr>keyptr = None, treedepth = n, balance = 0, llink = 0, rlink = x\<rparr>"

lemma cell_fields [simp]: "keyptr (cell d k b x y) = Some k" "balance (cell d k b x y) = b"
  by (simp_all add: cell_def)

lemma cell_side:
  assumes "side d"
  shows "(if d < 0 then llink (cell d k b x y) else rlink (cell d k b x y)) = x"
    "(if - d < 0 then llink (cell d k b x y) else rlink (cell d k b x y)) = y"
  using assms by (auto simp: cell_def side_def)

lemma cell_flip: "side d \<Longrightarrow> cell (- d) k b x y = cell d k b y x"
  by (auto simp: cell_def side_def)

lemma cell_left: "cell (- 1) k b x y = cell 1 k b y x"
  by (simp add: cell_def)

lemma head_fields [simp]:
  "keyptr (head_cell n x) = None" "treedepth (head_cell n x) = n" "llink (head_cell n x) = 0" "rlink (head_cell n x) = x"
  by (simp_all add: head_cell_def)

subsection \<open>The operations on a cell\<close>

lemma link_of_cell:
  assumes "side d" "h a = Some (cell d k b x y)"
  shows "getlink h a d = Some x" "getlink h a (- d) = Some y"
    "setlink h a d z = Some (h(a \<mapsto> cell d k b z y))" "setlink h a (- d) z = Some (h(a \<mapsto> cell d k b x z))"
  using assms by (auto simp: getlink_def setlink_def cell_def side_def)

lemma balance_of_cell:
  assumes "h a = Some (cell d k b x y)"
  shows "get_balance h a = Some b" "set_balance h a c = Some (h(a \<mapsto> cell d k c x y))"
  using assms by (auto simp: get_balance_def set_balance_def cell_def)

lemma link_of_head:
  assumes "h a = Some (head_cell n x)"
  shows "getlink h a 1 = Some x" "setlink h a 1 z = Some (h(a \<mapsto> head_cell n z))"
    "change_depth h a m = Some (h(a \<mapsto> head_cell (n + m) x))"
  using assms by (auto simp: getlink_def setlink_def change_depth_def head_cell_def)

definition relinked :: "'k bal_entry \<Rightarrow> int \<Rightarrow> addr \<Rightarrow> 'k bal_entry" where
  "relinked e d x = (if d < 0 then e\<lparr>llink := x\<rparr> else e\<lparr>rlink := x\<rparr>)"

lemma setlink_relinked: "h a = Some e \<Longrightarrow> setlink h a d x = Some (h(a \<mapsto> relinked e d x))"
  by (simp add: setlink_def relinked_def)

lemma relinked_cell:
  assumes "side d"
  shows "relinked (cell d k b x y) d z = cell d k b z y" "relinked (cell d k b x y) (- d) z = cell d k b x z"
  using assms by (auto simp: relinked_def cell_def side_def)

lemma link_sgn: "kc \<noteq> 0 \<Longrightarrow> getlink h a (sgn kc) = getlink h a kc" "kc \<noteq> 0 \<Longrightarrow> setlink h a (sgn kc) x = setlink h a kc x"
  by (auto simp: getlink_def setlink_def sgn_if)

subsection \<open>Trees in the heap\<close>

fun root_of :: "'k info tree \<Rightarrow> addr" where
  "root_of Leaf = 0"
| "root_of (Node l (a, k, b) r) = a"

fun root_balance :: "'k info tree \<Rightarrow> int" where
  "root_balance Leaf = 0"
| "root_balance (Node l (a, k, b) r) = b"

fun cells :: "'k bal_heap \<Rightarrow> 'k info tree \<Rightarrow> bool" where
  "cells h Leaf = True"
| "cells h (Node l (a, k, b) r) \<longleftrightarrow>
     a \<noteq> 0 \<and> h a = Some (cell 1 k b (root_of r) (root_of l)) \<and> cells h l \<and> cells h r"

fun entries :: "'k info tree \<Rightarrow> (addr \<times> 'k) list" where
  "entries Leaf = []"
| "entries (Node l (a, k, b) r) = entries l @ (a, k) # entries r"

definition addrs :: "'k info tree \<Rightarrow> addr list" where
  "addrs t = map fst (entries t)"

fun avl :: "'k info tree \<Rightarrow> bool" where
  "avl Leaf = True"
| "avl (Node l (a, k, b) r) \<longleftrightarrow>
     b = int (height r) - int (height l) \<and> \<bar>b\<bar> \<le> 1 \<and> avl l \<and> avl r"

lemma addrs_simps [simp]: "addrs Leaf = []" "addrs (Node l (a, k, b) r) = addrs l @ a # addrs r"
  by (simp_all add: addrs_def)

lemma root_side [simp]: "root_of (side_node d (a, k, b) t u) = a" "root_balance (side_node d (a, k, b) t u) = b"
  by (simp_all add: side_node_def)

lemma cells_side:
  assumes "side d"
  shows "cells h (side_node d (a, k, b) t u) \<longleftrightarrow>
    a \<noteq> 0 \<and> h a = Some (cell d k b (root_of t) (root_of u)) \<and> cells h t \<and> cells h u"
  using assms by (auto simp: side_def side_node_def cell_left)

lemma entries_side: "entries (side_node d (a, k, b) t u) =
    (if d < 0 then entries t @ (a, k) # entries u else entries u @ (a, k) # entries t)"
  by (simp add: side_node_def)

lemma mset_addrs_side: "mset (addrs (side_node d (a, k, b) t u)) = {#a#} + mset (addrs t) + mset (addrs u)"
  by (simp add: side_node_def)

lemma distinct_mset_eq: "mset xs = mset ys \<Longrightarrow> distinct xs = distinct ys"
  by (metis distinct_count_atmost_1 mset_eq_setD)

lemma addrs_side [simp]: "set (addrs (side_node d (a, k, b) t u)) = insert a (set (addrs t) \<union> set (addrs u))"
  by (auto simp: side_node_def)

lemma distinct_side [simp]: "distinct (addrs (side_node d (a, k, b) t u)) \<longleftrightarrow>
    a \<notin> set (addrs t) \<and> a \<notin> set (addrs u) \<and> distinct (addrs t) \<and> distinct (addrs u) \<and>
    set (addrs t) \<inter> set (addrs u) = {}"
  by (auto simp: side_node_def)

lemma avl_side:
  assumes "side d"
  shows "avl (side_node d (a, k, b) t u) \<longleftrightarrow>
    b = d * (int (height t) - int (height u)) \<and> \<bar>b\<bar> \<le> 1 \<and> avl t \<and> avl u"
  using assms by (auto simp: side_def side_node_def)

lemma root_in_addrs: "t \<noteq> Leaf \<Longrightarrow> root_of t \<in> set (addrs t)"
  by (cases t rule: root_of.cases) auto

lemma root_zero: "cells h t \<Longrightarrow> root_of t = 0 \<longleftrightarrow> t = Leaf"
  by (cases t rule: root_of.cases) auto

lemma cells_upd [simp]: "a \<notin> set (addrs t) \<Longrightarrow> cells (h(a := v)) t = cells h t"
  by (induction t rule: entries.induct) auto

lemma cells_zero: "cells h t \<Longrightarrow> 0 \<notin> set (addrs t)"
  by (induction t rule: entries.induct) auto

lemma cells_cong: "(\<And>a. a \<in> set (addrs t) \<Longrightarrow> h' a = h a) \<Longrightarrow> cells h' t = cells h t"
  by (induction t rule: entries.induct) auto

subsection \<open>Trees with a hole\<close>

datatype 'k frame = Frame (fdir: int) (fadr: addr) (fkey: 'k) (fbal: int) (fsib: "'k info tree")

fun fill :: "'k frame \<Rightarrow> 'k info tree \<Rightarrow> 'k info tree" where
  "fill (Frame d a k b u) t = side_node d (a, k, b) t u"

fun plug :: "'k info tree \<Rightarrow> 'k frame list \<Rightarrow> 'k info tree" where
  "plug t [] = t"
| "plug t (f # fs) = plug (fill f t) fs"

definition sides :: "'k frame list \<Rightarrow> bool" where
  "sides fs \<longleftrightarrow> (\<forall>f \<in> set fs. side (fdir f))"

lemma sides_simps [simp]: "sides []" "sides (f # fs) \<longleftrightarrow> side (fdir f) \<and> sides fs" "sides (fs @ gs) \<longleftrightarrow> sides fs \<and> sides gs"
  by (auto simp: sides_def)

lemma plug_append [simp]: "plug t (fs @ gs) = plug (plug t fs) gs"
  by (induction fs arbitrary: t) auto

lemma plug_not_Leaf: "t \<noteq> Leaf \<Longrightarrow> plug t fs \<noteq> Leaf"
proof (induction fs arbitrary: t)
  case (Cons f fs)
  then show ?case by (cases f) simp
qed simp

lemma root_plug: "root_of (plug t fs) = (if fs = [] then root_of t else fadr (last fs))"
proof (induction fs arbitrary: t)
  case (Cons f fs)
  then show ?case by (cases f) simp
qed simp

fun ctx_addrs :: "'k frame list \<Rightarrow> addr list" where
  "ctx_addrs [] = []"
| "ctx_addrs (Frame d a k b u # fs) = a # addrs u @ ctx_addrs fs"

text \<open>What stands before and behind the hole.\<close>

fun pre :: "'k frame list \<Rightarrow> (addr \<times> 'k) list" where
  "pre [] = []"
| "pre (Frame d a k b u # fs) = pre fs @ (if d < 0 then [] else entries u @ [(a, k)])"

fun post :: "'k frame list \<Rightarrow> (addr \<times> 'k) list" where
  "post [] = []"
| "post (Frame d a k b u # fs) = (if d < 0 then (a, k) # entries u else []) @ post fs"

lemma entries_plug: "entries (plug t fs) = pre fs @ entries t @ post fs"
proof (induction fs arbitrary: t)
  case (Cons f fs)
  then show ?case by (cases f) (simp add: entries_side)
qed simp

lemma mset_addrs_plug: "mset (addrs (plug t fs)) = mset (addrs t) + mset (ctx_addrs fs)"
proof (induction fs arbitrary: t)
  case (Cons f fs)
  then show ?case by (cases f) (simp add: mset_addrs_side)
qed simp

lemma addrs_plug [simp]: "set (addrs (plug t fs)) = set (addrs t) \<union> set (ctx_addrs fs)"
  using arg_cong [OF mset_addrs_plug, of set_mset] by simp

lemma distinct_plug [simp]: "distinct (addrs (plug t fs)) \<longleftrightarrow> distinct (addrs t @ ctx_addrs fs)"
  by (rule distinct_mset_eq) (simp add: mset_addrs_plug)

text \<open>The cells of the frames and of the head, with \<open>x\<close> where the hole is.\<close>

fun ctx_cells :: "'k bal_heap \<Rightarrow> addr \<Rightarrow> int \<Rightarrow> addr \<Rightarrow> 'k frame list \<Rightarrow> bool" where
  "ctx_cells h hp n x [] \<longleftrightarrow> h hp = Some (head_cell n x)"
| "ctx_cells h hp n x (Frame d a k b u # fs) \<longleftrightarrow>
     a \<noteq> 0 \<and> h a = Some (cell d k b x (root_of u)) \<and> cells h u \<and> ctx_cells h hp n a fs"

lemma cells_plug:
  assumes "sides fs"
  shows "ctx_cells h hp n (root_of t) fs \<and> cells h t \<longleftrightarrow>
    h hp = Some (head_cell n (root_of (plug t fs))) \<and> cells h (plug t fs)"
  using assms
proof (induction fs arbitrary: t)
  case (Cons f fs)
  obtain d a k b u where f: "f = Frame d a k b u" by (cases f)
  show ?case using Cons.IH [of "fill f t"] Cons.prems by (auto simp: f cells_side)
qed simp

lemma ctx_upd [simp]:
  "a \<notin> set (ctx_addrs fs) \<Longrightarrow> a \<noteq> hp \<Longrightarrow> ctx_cells (h(a := v)) hp n x fs = ctx_cells h hp n x fs"
  by (induction fs arbitrary: x rule: ctx_addrs.induct) auto

definition holds_tree :: "'k bal_heap \<Rightarrow> addr \<Rightarrow> int \<Rightarrow> 'k info tree \<Rightarrow> bool" where
  "holds_tree h hp n t \<longleftrightarrow> hp \<noteq> 0 \<and> h hp = Some (head_cell n (root_of t)) \<and> cells h t \<and> distinct (hp # addrs t)"

text \<open>The same seen from a place in the tree.\<close>

definition holds_at :: "'k bal_heap \<Rightarrow> addr \<Rightarrow> int \<Rightarrow> 'k info tree \<Rightarrow> 'k frame list \<Rightarrow> bool" where
  "holds_at h hp n t fs \<longleftrightarrow> hp \<noteq> 0 \<and> ctx_cells h hp n (root_of t) fs \<and> cells h t \<and>
     distinct (hp # addrs t @ ctx_addrs fs)"

lemma holds_at_tree: "sides fs \<Longrightarrow> holds_at h hp n t fs \<longleftrightarrow> holds_tree h hp n (plug t fs)"
  using cells_plug [of fs h hp n t] by (auto simp: holds_at_def holds_tree_def)

lemma holds_at_append: "sides fs \<Longrightarrow> sides gs \<Longrightarrow> holds_at h hp n t (fs @ gs) \<longleftrightarrow> holds_at h hp n (plug t fs) gs"
  by (simp add: holds_at_tree)

text \<open>Where the link to the hole is.\<close>

fun up_addr :: "addr \<Rightarrow> 'k frame list \<Rightarrow> addr" where
  "up_addr hp [] = hp"
| "up_addr hp (f # fs) = fadr f"

fun up_dir :: "'k frame list \<Rightarrow> int" where
  "up_dir [] = 1"
| "up_dir (f # fs) = fdir f"

lemma ctx_cong:
  "(\<And>a. a \<in> insert hp (set (ctx_addrs fs)) \<Longrightarrow> h' a = h a) \<Longrightarrow> ctx_cells h' hp n x fs = ctx_cells h hp n x fs"
proof (induction fs arbitrary: x rule: ctx_addrs.induct)
  case (2 d a k b u fs)
  then have "cells h' u = cells h u" by (intro cells_cong) auto
  moreover have "ctx_cells h' hp n a fs = ctx_cells h hp n a fs" by (rule 2(1)) (auto intro: 2(2))
  ultimately show ?case using 2(2) by simp
qed simp

lemma relink_hole:
  assumes "ctx_cells h hp n x fs" "sides fs" "distinct (hp # ctx_addrs fs)"
  shows "\<exists>e. h (up_addr hp fs) = Some e \<and>
    ctx_cells (h(up_addr hp fs \<mapsto> relinked e (up_dir fs) y)) hp n y fs"
proof (cases fs)
  case Nil
  then show ?thesis using assms by (auto simp: relinked_def head_cell_def)
next
  case (Cons f gs)
  obtain d a k b u where f: "f = Frame d a k b u" by (cases f)
  have "h a = Some (cell d k b x (root_of u))" "side d" using assms Cons f by auto
  moreover have "relinked (cell d k b x (root_of u)) d y = cell d k b y (root_of u)"
    using \<open>side d\<close> by (auto simp: relinked_def cell_def side_def)
  ultimately show ?thesis using assms Cons f by auto
qed

lemma up_addr_in: "up_addr hp fs \<in> insert hp (set (ctx_addrs fs))"
  by (cases fs rule: ctx_addrs.cases) auto

text \<open>The tree in a place replaced by one that was made of its cells.\<close>

lemma replace_at:
  assumes at: "holds_at h hp n M fs" "sides fs"
    and same: "\<And>a. a \<notin> set (addrs M) \<Longrightarrow> h2 a = h a"
    and new: "cells h2 N" "set (addrs N) \<subseteq> set (addrs M)" "distinct (addrs N)"
  shows "\<exists>e. h (up_addr hp fs) = Some e \<and>
    holds_at (h2(up_addr hp fs \<mapsto> relinked e (up_dir fs) (root_of N))) hp n N fs"
proof -
  have dis: "distinct (hp # ctx_addrs fs)" "hp \<notin> set (addrs M)" "set (addrs M) \<inter> set (ctx_addrs fs) = {}"
    using at(1) by (auto simp: holds_at_def)
  have "ctx_cells h2 hp n (root_of M) fs"
    using at(1) dis ctx_cong [of hp fs h2 h n "root_of M"] same by (auto simp: holds_at_def)
  from relink_hole [OF this at(2) dis(1), of "root_of N"]
  obtain e where e: "h2 (up_addr hp fs) = Some e"
    "ctx_cells (h2(up_addr hp fs \<mapsto> relinked e (up_dir fs) (root_of N))) hp n (root_of N) fs" by auto
  have out: "up_addr hp fs \<notin> set (addrs M)" using up_addr_in [of hp fs] dis by auto
  then have "up_addr hp fs \<notin> set (addrs N)" using new(2) by auto
  then show ?thesis using e at(1) new dis same [OF out] by (auto simp: holds_at_def)
qed

lemma relink_parent_hole:
  assumes "ctx_cells h hp n s fs" "sides fs" "s \<noteq> 0" "s \<notin> set (ctx_addrs fs)"
  shows "relink_parent h (up_addr hp fs) s p = setlink h (up_addr hp fs) (up_dir fs) p"
proof (cases fs)
  case Nil
  then show ?thesis using assms by (simp add: relink_parent_def link_of_head)
next
  case (Cons f gs)
  obtain d a k b u where f: "f = Frame d a k b u" by (cases f)
  have "root_of u \<noteq> s" using assms Cons f root_in_addrs [of u] by (cases "u = Leaf") auto
  moreover have "h a = Some (cell d k b s (root_of u))" "d = 1 \<or> d = - 1" using assms Cons f by (auto simp: side_def)
  ultimately show ?thesis using Cons f
    by (auto simp: relink_parent_def getlink_def cell_def)
qed

subsection \<open>Heights\<close>

lemma avl_plug_inner: "avl (plug t fs) \<Longrightarrow> sides fs \<Longrightarrow> avl t"
proof (induction fs arbitrary: t)
  case (Cons f fs)
  obtain d a k b u where f: "f = Frame d a k b u" by (cases f)
  show ?case using Cons.IH [of "fill f t"] Cons.prems by (simp add: f avl_side)
qed simp

text \<open>A place in a balanced tree takes any balanced tree of the same height.\<close>

lemma avl_plug_same:
  assumes "avl (plug t fs)" "sides fs" "avl t'" "height t' = height t"
  shows "avl (plug t' fs) \<and> height (plug t' fs) = height (plug t fs)"
  using assms
proof (induction fs arbitrary: t t')
  case (Cons f fs)
  obtain d a k b u where f: "f = Frame d a k b u" by (cases f)
  have "avl (fill f t)" using Cons.prems avl_plug_inner [of "fill f t" fs] by simp
  then have "avl (fill f t')" "height (fill f t') = height (fill f t)"
    using Cons.prems(2-4) by (auto simp: f avl_side)
  then show ?case using Cons.IH [of "fill f t" "fill f t'"] Cons.prems by simp
qed simp

subsection \<open>Rotations\<close>

lemma single_rotation_cells:
  assumes "side a" "s \<noteq> r" "h s = Some (cell a ks bs r u)" "h r = Some (cell a kr br x y)"
  shows "single_rotation h s r a = Some (r, h(s \<mapsto> cell a ks 0 y u, r \<mapsto> cell a kr 0 x s))"
  using assms by (simp add: single_rotation_def link_of_cell balance_of_cell fun_upd_twist)

lemma double_rotation_cells:
  assumes "side a" "distinct [s, r, p]" "h s = Some (cell a ks bs r u)" "h r = Some (cell a kr br x p)"
    "h p = Some (cell a kp bp p1 p2)" "\<bar>bp\<bar> \<le> 1"
  shows "double_rotation h s r a = Some (p, h(s \<mapsto> cell a ks (if bp = a then - a else 0) p2 u,
    r \<mapsto> cell a kr (if bp = - a then a else 0) x p1, p \<mapsto> cell a kp 0 r s))"
proof -
  have "bp = a \<or> bp = 0 \<or> bp = - a" "a \<noteq> 0" "a \<noteq> - a" using assms(1,6) by (auto simp: side_def)
  then show ?thesis using assms(1-5)
    by (auto simp add: double_rotation_def link_of_cell balance_of_cell fun_upd_twist)
qed

text \<open>
  What a rotation makes of an entry \<open>s\<close> whose subtree on the side \<open>a\<close> is two higher than the other one, \<open>u\<close>: the tree
  \<open>N\<close> of the same entries, one lower.
\<close>

definition rotates_to :: "'k bal_heap \<Rightarrow> int \<Rightarrow> addr \<Rightarrow> 'k \<Rightarrow> int \<Rightarrow> 'k info tree \<Rightarrow> 'k info tree \<Rightarrow> 'k info tree \<Rightarrow>
    'k bal_heap \<Rightarrow> bool" where
  "rotates_to h a s ks b R u N h2 \<longleftrightarrow>
     (\<forall>x. x \<notin> set (addrs (side_node a (s, ks, b) R u)) \<longrightarrow> h2 x = h x) \<and> cells h2 N \<and>
     entries N = entries (side_node a (s, ks, b) R u) \<and> avl N \<and> height N = height u + 2"

lemma single_rotation_tree:
  assumes "side a" and R: "R = side_node a (r, kr, a) r1 r2"
    and c: "cells h (side_node a (s, ks, b) R u)" "distinct (addrs (side_node a (s, ks, b) R u))"
    and "avl R" "avl u" "height R = height u + 2"
  shows "rotates_to h a s ks b R u (side_node a (r, kr, 0) r1 (side_node a (s, ks, 0) r2 u))
    (h(s \<mapsto> cell a ks 0 (root_of r2) (root_of u), r \<mapsto> cell a kr 0 (root_of r1) s))"
proof -
  have hts: "height r1 = Suc (height u)" "height r2 = height u"
    using assms by (auto simp: avl_side side_def)
  show ?thesis unfolding rotates_to_def using assms hts
    by (auto simp: cells_side avl_side entries_side)
qed

lemma double_rotation_tree:
  assumes "side a" and R: "R = side_node a (r, kr, - a) r1 (side_node a (p, kp, bp) p1 p2)"
    and c: "cells h (side_node a (s, ks, b) R u)" "distinct (addrs (side_node a (s, ks, b) R u))"
    and "avl R" "avl u" "height R = height u + 2"
  shows "rotates_to h a s ks b R u
    (side_node a (p, kp, 0) (side_node a (r, kr, if bp = - a then a else 0) r1 p1)
      (side_node a (s, ks, if bp = a then - a else 0) p2 u))
    (h(s \<mapsto> cell a ks (if bp = a then - a else 0) (root_of p2) (root_of u),
      r \<mapsto> cell a kr (if bp = - a then a else 0) (root_of r1) (root_of p1), p \<mapsto> cell a kp 0 r s))"
proof -
  have hts: "height r1 = height u" "max (height p1) (height p2) = height u" "avl p1" "avl p2"
    "bp = a * (int (height p1) - int (height p2))" "\<bar>bp\<bar> \<le> 1" "avl r1"
    using assms by (auto simp: avl_side side_def)
  then have "avl (side_node a (p, kp, 0) (side_node a (r, kr, if bp = - a then a else 0) r1 p1)
      (side_node a (s, ks, if bp = a then - a else 0) p2 u))"
    using assms(1,6) by (auto simp: avl_side side_def)
  moreover have "height (side_node a (p, kp, 0) (side_node a (r, kr, if bp = - a then a else 0) r1 p1)
      (side_node a (s, ks, if bp = a then - a else 0) p2 u)) = height u + 2"
    using hts by auto
  ultimately show ?thesis unfolding rotates_to_def using assms(1-4)
    by (auto simp: cells_side entries_side)
qed

end
