(* ===== verification/Bal_Insert.thy ===== *)
theory Bal_Insert
  imports Bal_Tree
begin

text \<open>
  Search and insertion on the trees of \<open>Bal_Tree\<close>: \<open>dd_tfind\<close> finds what is there, and \<open>dd_tsearch\<close> puts a new entry
  in its place in the order and keeps the tree balanced.
\<close>

subsection \<open>The order of the keys\<close>

text \<open>The comparison function orders the keys as \<open>rank\<close> does.\<close>

definition compares :: "'k bal_compar \<Rightarrow> ('k \<Rightarrow> 'r :: linorder) \<Rightarrow> bool" where
  "compares compar rank \<longleftrightarrow> (\<forall>x y. (compar (Some x) (Some y) < 0 \<longleftrightarrow> rank x < rank y) \<and>
     (compar (Some x) (Some y) > 0 \<longleftrightarrow> rank x > rank y))"

lemma compares_iff:
  assumes "compares compar rank"
  shows "compar (Some x) (Some y) < 0 \<longleftrightarrow> rank x < rank y" "compar (Some x) (Some y) > 0 \<longleftrightarrow> rank x > rank y"
    "compar (Some x) (Some y) = 0 \<longleftrightarrow> rank x = rank y"
proof -
  show l: "compar (Some x) (Some y) < 0 \<longleftrightarrow> rank x < rank y" and g: "compar (Some x) (Some y) > 0 \<longleftrightarrow> rank x > rank y"
    using assms by (auto simp: compares_def)
  show "compar (Some x) (Some y) = 0 \<longleftrightarrow> rank x = rank y"
    using l g by (metis less_irrefl linorder_neqE linorder_neqE_linordered_idom)
qed

definition ordered :: "('k \<Rightarrow> 'r :: linorder) \<Rightarrow> 'k info tree \<Rightarrow> bool" where
  "ordered rank t \<longleftrightarrow> sorted_wrt (\<lambda>x y. rank (snd x) < rank (snd y)) (entries t)"

text \<open>The frames of a search for \<open>key\<close>: at each the search went to the side where the hole is.\<close>

definition on_path :: "'k bal_compar \<Rightarrow> 'k \<Rightarrow> 'k frame \<Rightarrow> bool" where
  "on_path compar key f \<longleftrightarrow> sgn (compar (Some key) (Some (fkey f))) = fdir f"

lemma path_order:
  assumes "ordered rank (plug t fs)" "compares compar rank" "\<forall>f \<in> set fs. on_path compar key f" "sides fs"
  shows "(\<forall>x \<in> set (pre fs). rank (snd x) < rank key) \<and> (\<forall>x \<in> set (post fs). rank key < rank (snd x))"
  using assms
proof (induction fs arbitrary: t)
  case (Cons f fs)
  obtain d a k b u where f: "f = Frame d a k b u" by (cases f)
  have IH: "(\<forall>x \<in> set (pre fs). rank (snd x) < rank key) \<and> (\<forall>x \<in> set (post fs). rank key < rank (snd x))"
    using Cons.IH [of "fill f t"] Cons.prems by simp
  have d: "sgn (compar (Some key) (Some k)) = d" "d = - 1 \<or> d = 1"
    using Cons.prems by (auto simp: f on_path_def side_def)
  have ord: "sorted_wrt (\<lambda>x y. rank (snd x) < rank (snd y)) (entries (side_node d (a, k, b) t u))"
    using Cons.prems(1) by (simp add: f ordered_def entries_plug sorted_wrt_append)
  show ?case
  proof (cases "d = - 1")
    case True
    then have "rank key < rank k" using d compares_iff [OF Cons.prems(2), of key k] by (auto simp: sgn_if split: if_splits)
    then show ?thesis using IH ord True by (auto simp: f entries_side sorted_wrt_append)
  next
    case False
    then have "d = 1" using d by simp
    then have "rank k < rank key" using d compares_iff [OF Cons.prems(2), of key k] by (auto simp: sgn_if split: if_splits)
    then show ?thesis using IH ord \<open>d = 1\<close> by (auto simp: f entries_side sorted_wrt_append)
  qed
qed simp

subsection \<open>Down the tree\<close>

lemma tsearch_down_steps:
  assumes "h p = Some e"
  shows "compar key (keyptr e) = 0 \<Longrightarrow> tsearch_down compar key h t s p = Some (Inl p)"
    "compar key (keyptr e) = kc \<Longrightarrow> kc \<noteq> 0 \<Longrightarrow> getlink h p kc = Some 0 \<Longrightarrow>
       tsearch_down compar key h t s p = Some (Inr (t, s, p, kc))"
    "compar key (keyptr e) = kc \<Longrightarrow> kc \<noteq> 0 \<Longrightarrow> getlink h p kc = Some q \<Longrightarrow> q \<noteq> 0 \<Longrightarrow> get_balance h q = Some b \<Longrightarrow>
       tsearch_down compar key h t s p =
         (if b \<noteq> 0 then tsearch_down compar key h p q q else tsearch_down compar key h t s q)"
  by (subst tsearch_down.simps, simp add: assms)+

text \<open>One step of a search at an entry: the side it takes.\<close>

lemma descent_step:
  assumes "cells h P" "P = Node l (a, k, b) r" "compar (Some key) (Some k) = kc" "kc \<noteq> 0"
  obtains t u where "P = fill (Frame (sgn kc) a k b u) t" "on_path compar key (Frame (sgn kc) a k b u)"
    "cells h t" "getlink h a kc = Some (root_of t)" "t = l \<or> t = r"
proof -
  define t where "t = (if kc < 0 then l else r)"
  define u where "u = (if kc < 0 then r else l)"
  have P: "P = fill (Frame (sgn kc) a k b u) t"
    using assms(2,4) by (simp add: t_def u_def side_node_def sgn_if)
  have c: "h a = Some (cell (sgn kc) k b (root_of t) (root_of u))" "cells h t"
    using assms(1) side_sgn [OF assms(4)] unfolding P by (simp_all add: cells_side)
  have "getlink h a kc = Some (root_of t)"
    using link_of_cell(1) [where h = h and a = a, OF side_sgn [OF assms(4)] c(1)] link_sgn(1) [OF assms(4), of h a] by simp
  then show thesis using that [of u t] P c(2) assms(3) by (simp add: on_path_def t_def)
qed

definition quiet :: "'k frame list \<Rightarrow> bool" where
  "quiet zs \<longleftrightarrow> (\<forall>f \<in> set (butlast zs). fbal f = 0)"

lemma get_root_balance: "cells h t \<Longrightarrow> t \<noteq> Leaf \<Longrightarrow> get_balance h (root_of t) = Some (root_balance t)"
  by (cases t rule: root_of.cases) (auto simp: balance_of_cell)

lemma root_balance_plug: "root_balance (plug t fs) = (if fs = [] then root_balance t else fbal (last fs))"
proof (induction fs arbitrary: t)
  case (Cons f fs)
  then show ?case by (cases f) simp
qed simp

text \<open>
  The search from the subtree \<open>P\<close>, with the frames \<open>zs\<close> up to the entry \<open>s\<close> and \<open>ss\<close> above it. It ends at an entry with
  the key, or at the empty place where it belongs.
\<close>

definition search_found where
  "search_found compar key T res \<longleftrightarrow> (\<exists>l a k b r ys. res = Some (Inl a) \<and> T = plug (Node l (a, k, b) r) ys \<and>
     compar (Some key) (Some k) = 0 \<and> sides ys)"

definition search_missed where
  "search_missed compar key hp T res \<longleftrightarrow> (\<exists>f zs ss kc.
     res = Some (Inr (up_addr hp ss, fadr (last (f # zs)), fadr f, kc)) \<and> kc \<noteq> 0 \<and> sgn kc = fdir f \<and>
     T = plug Leaf (f # zs @ ss) \<and> (\<forall>g \<in> set (f # zs @ ss). on_path compar key g) \<and> sides (f # zs @ ss) \<and>
     quiet (f # zs) \<and> (ss \<noteq> [] \<longrightarrow> fbal (last (f # zs)) \<noteq> 0))"

lemma tsearch_down_spec:
  assumes "cells h P" "P \<noteq> Leaf" "s = root_of (plug P zs)" "t = up_addr hp ss"
    "zs \<noteq> [] \<longrightarrow> root_balance P = 0" "quiet zs" "ss \<noteq> [] \<longrightarrow> root_balance (plug P zs) \<noteq> 0"
    "\<forall>f \<in> set (zs @ ss). on_path compar key f" "sides (zs @ ss)"
  shows "search_found compar key (plug P (zs @ ss)) (tsearch_down compar (Some key) h t s (root_of P)) \<or>
    search_missed compar key hp (plug P (zs @ ss)) (tsearch_down compar (Some key) h t s (root_of P))"
  using assms
proof (induction P arbitrary: zs ss s t)
  case (Node l x r)
  obtain a k b where x: "x = (a, k, b)" by (cases x)
  let ?P = "Node l (a, k, b) r"
  have ha: "h a = Some (cell 1 k b (root_of r) (root_of l))" using Node.prems(1) x by simp
  define kc where "kc = compar (Some key) (Some k)"
  show ?case
  proof (cases "kc = 0")
    case True
    then have "tsearch_down compar (Some key) h t s a = Some (Inl a)"
      using ha by (simp add: tsearch_down_steps kc_def)
    then have "search_found compar key (plug ?P (zs @ ss)) (tsearch_down compar (Some key) h t s a)"
      unfolding search_found_def using True Node.prems(9) kc_def
      by (intro exI [of _ l] exI [of _ a] exI [of _ k] exI [of _ b] exI [of _ r] exI [of _ "zs @ ss"]) simp
    then show ?thesis by (simp add: x)
  next
    case False
    obtain C u where C: "?P = fill (Frame (sgn kc) a k b u) C" "on_path compar key (Frame (sgn kc) a k b u)"
        "cells h C" "getlink h a kc = Some (root_of C)" "C = l \<or> C = r"
      using descent_step [OF _ refl, of h l a k b r compar key kc] Node.prems(1) x False kc_def by metis
    let ?f = "Frame (sgn kc) a k b u"
    have plugs: "plug ?P ys = plug C (?f # ys)" for ys using C(1) by simp
    have step: "compar (Some key) (keyptr (cell 1 k b (root_of r) (root_of l))) = kc" by (simp add: kc_def)
    have sd: "side (sgn kc)" by (rule side_sgn [OF False])
    have path: "\<forall>g \<in> set ((?f # zs) @ ss). on_path compar key g" "sides ((?f # zs) @ ss)"
      using Node.prems(8,9) C(2) sd by auto
    have q: "quiet (?f # zs)" using Node.prems(5,6) x by (cases zs) (auto simp: quiet_def)
    have bl: "ss \<noteq> [] \<longrightarrow> fbal (last (?f # zs)) \<noteq> 0"
      using Node.prems(7) by (auto simp: x root_balance_plug)
    show ?thesis
    proof (cases "C = Leaf")
      case True
      have "tsearch_down compar (Some key) h t s a = Some (Inr (t, s, a, kc))"
        using tsearch_down_steps(2) [where h = h and p = a and compar = compar and key = "Some key" and kc = kc, OF ha step False] C(4) True by simp
      moreover have "s = fadr (last (?f # zs))" using Node.prems(3) by (simp add: x root_plug)
      ultimately have "search_missed compar key hp (plug ?P (zs @ ss)) (tsearch_down compar (Some key) h t s a)"
        unfolding search_missed_def plugs True
        using False path q bl Node.prems(4) by (intro exI [of _ ?f] exI [of _ zs] exI [of _ ss] exI [of _ kc]) simp
      then show ?thesis by (simp add: x)
    next
      case cl: False
      have root: "root_of C \<noteq> 0" using root_zero [OF C(3)] cl by simp
      have down: "tsearch_down compar (Some key) h t s a =
          (if root_balance C \<noteq> 0 then tsearch_down compar (Some key) h a (root_of C) (root_of C)
           else tsearch_down compar (Some key) h t s (root_of C))"
        by (rule tsearch_down_steps(3) [where h = h and p = a and compar = compar and key = "Some key" and kc = kc, OF ha step False C(4) root get_root_balance [OF C(3) cl]])
      have IH: "\<And>zs ss s t. s = root_of (plug C zs) \<Longrightarrow> t = up_addr hp ss \<Longrightarrow>
          zs \<noteq> [] \<longrightarrow> root_balance C = 0 \<Longrightarrow> quiet zs \<Longrightarrow> ss \<noteq> [] \<longrightarrow> root_balance (plug C zs) \<noteq> 0 \<Longrightarrow>
          \<forall>f \<in> set (zs @ ss). on_path compar key f \<Longrightarrow> sides (zs @ ss) \<Longrightarrow>
          search_found compar key (plug C (zs @ ss)) (tsearch_down compar (Some key) h t s (root_of C)) \<or>
          search_missed compar key hp (plug C (zs @ ss)) (tsearch_down compar (Some key) h t s (root_of C))"
        using C(5) Node.IH C(3) cl by blast
      show ?thesis
      proof (cases "root_balance C = 0")
        case True
        have "search_found compar key (plug C ((?f # zs) @ ss)) (tsearch_down compar (Some key) h t s (root_of C)) \<or>
            search_missed compar key hp (plug C ((?f # zs) @ ss)) (tsearch_down compar (Some key) h t s (root_of C))"
          by (rule IH) (use Node.prems(3,4) True q bl path in \<open>auto simp: x root_plug root_balance_plug split: if_splits\<close>)
        then show ?thesis using down True plugs [of "zs @ ss"] by (simp add: x)
      next
        case loud: False
        have "search_found compar key (plug C ([] @ ?f # zs @ ss)) (tsearch_down compar (Some key) h a (root_of C) (root_of C)) \<or>
            search_missed compar key hp (plug C ([] @ ?f # zs @ ss)) (tsearch_down compar (Some key) h a (root_of C) (root_of C))"
          by (rule IH) (use loud path in \<open>simp_all add: quiet_def\<close>)
        then show ?thesis using down loud plugs [of "zs @ ss"] by (simp add: x)
      qed
    qed
  qed
qed simp

subsection \<open>The balances on the way\<close>

lemma set_top:
  assumes "holds_at h hp n t (Frame d a k b u # fs)"
  shows "holds_at (h(a \<mapsto> cell d k c (root_of t) (root_of u))) hp n t (Frame d a k c u # fs)"
  using assms by (simp add: holds_at_def)

definition adj :: "'k frame \<Rightarrow> 'k frame" where
  "adj f = Frame (fdir f) (fadr f) (fkey f) (fdir f) (fsib f)"

lemma adj_sides [simp]: "sides (map adj fs) = sides fs" "side (fdir (adj f)) = side (fdir f)"
  by (auto simp: sides_def adj_def)

lemma adj_fields [simp]: "fadr (adj f) = fadr f" "fdir (adj f) = fdir f" "fbal (adj f) = fdir f"
  by (simp_all add: adj_def)

lemma pre_post_adj [simp]: "pre (map adj fs) = pre fs" "post (map adj fs) = post fs"
  by (induction fs rule: ctx_addrs.induct) (auto simp: adj_def)

lemma root_plug_adj: "root_of (plug t (map adj fs)) = root_of (plug t fs)"
  by (simp add: root_plug last_map)

lemma adjust_spec:
  assumes "holds_at h hp n Q (ys @ rest)" "Q \<noteq> Leaf" "\<forall>g \<in> set ys. on_path compar key g" "sides (ys @ rest)"
  shows "\<exists>h'. adjust_balances compar (Some key) (root_of Q) h (root_of (plug Q ys)) = Some h' \<and>
    holds_at h' hp n Q (map adj ys @ rest)"
  using assms
proof (induction ys arbitrary: h rest rule: rev_induct)
  case Nil
  then show ?case by (subst adjust_balances.simps) simp
next
  case (snoc f ys)
  obtain d a k b u where f: "f = Frame d a k b u" by (cases f)
  have sd: "sides ys" "side d" "sides rest" using snoc.prems(4) f by auto
  have at: "holds_at h hp n (plug Q ys) (f # rest)"
    using snoc.prems(1) holds_at_append [of ys "f # rest" h hp n Q] sd f by simp
  have ha: "h a = Some (cell d k b (root_of (plug Q ys)) (root_of u))" using at by (simp add: holds_at_def f)
  have ne: "a \<noteq> root_of Q"
    using snoc.prems(1,2) root_in_addrs [of Q] at by (auto simp: holds_at_def f)
  let ?h = "h(a \<mapsto> cell d k d (root_of (plug Q ys)) (root_of u))"
  have "holds_at ?h hp n (plug Q ys) (adj f # rest)"
    using set_top [OF at [unfolded f], of d] by (simp add: f adj_def)
  then have "holds_at ?h hp n Q (ys @ adj f # rest)"
    using holds_at_append [of ys "adj f # rest" ?h hp n Q] sd f by (simp add: adj_def)
  moreover have "\<forall>g \<in> set ys. on_path compar key g" "sides (ys @ adj f # rest)" using snoc.prems(3) sd f by auto
  ultimately obtain h' where h': "adjust_balances compar (Some key) (root_of Q) ?h (root_of (plug Q ys)) = Some h'"
    "holds_at h' hp n Q (map adj ys @ adj f # rest)" using snoc.IH [OF _ snoc.prems(2)] by blast
  have kc: "sgn (compar (Some key) (Some k)) = d" using snoc.prems(3) by (simp add: f on_path_def)
  have upd: "(cell d k b x y)\<lparr>balance := d\<rparr> = cell d k d x y" for x y by (simp add: cell_def)
  have "adjust_balances compar (Some key) (root_of Q) h a = Some h'"
    using h'(1) kc sd(2) ne ha upd cell_side(1) [OF sd(2), of k b "root_of (plug Q ys)" "root_of u"]
    by (subst adjust_balances.simps) (auto simp: side_def sgn_if split: if_splits)
  then show ?case using h'(2) by (auto simp: f)
qed

text \<open>The subtree under \<open>s\<close> grows by one.\<close>

lemma grow_path:
  assumes "avl (plug Leaf ys)" "\<forall>g \<in> set ys. fbal g = 0" "sides ys"
  shows "avl (plug (Node Leaf (q, key, 0) Leaf) (map adj ys)) \<and>
    height (plug (Node Leaf (q, key, 0) Leaf) (map adj ys)) = Suc (height (plug Leaf ys)) \<and>
    (ys \<noteq> [] \<longrightarrow> root_balance (plug (Node Leaf (q, key, 0) Leaf) (map adj ys)) \<noteq> 0)"
  using assms
proof (induction ys rule: rev_induct)
  case (snoc f ys)
  obtain d a k b u where f: "f = Frame d a k b u" by (cases f)
  have sd: "side d" "b = 0" "sides ys" using snoc.prems f by auto
  then have "avl (plug Leaf ys)" "height (plug Leaf ys) = height u" "avl u"
    using snoc.prems(1) by (auto simp: f avl_side side_def)
  then show ?case using snoc.IH snoc.prems(2) sd by (auto simp: f adj_def avl_side side_def)
qed simp

subsection \<open>Rebalancing\<close>

lemma relink_rotated:
  assumes at: "holds_at h hp n (side_node a (s, ks, b) R u) fs" "sides fs" "side a"
    and rot: "rotates_to h a s ks b R u N h2"
  shows "\<exists>h3. relink_parent h2 (up_addr hp fs) s (root_of N) = Some h3 \<and> holds_at h3 hp n N fs"
proof -
  let ?M = "side_node a (s, ks, b) R u"
  have N: "addrs N = addrs ?M" using rot by (simp add: rotates_to_def addrs_def)
  have same: "x \<notin> set (addrs ?M) \<Longrightarrow> h2 x = h x" for x using rot by (auto simp: rotates_to_def)
  have dis: "distinct (addrs ?M @ ctx_addrs fs)" "hp \<notin> set (addrs ?M)" "s \<noteq> 0"
    using at(1,3) by (auto simp: holds_at_def cells_side)
  obtain e where e: "h (up_addr hp fs) = Some e"
      "holds_at (h2(up_addr hp fs \<mapsto> relinked e (up_dir fs) (root_of N))) hp n N fs"
    using replace_at [OF at(1,2) same, of N] rot N dis by (auto simp: rotates_to_def)
  have "up_addr hp fs \<notin> set (addrs ?M)" using up_addr_in [of hp fs] dis by auto
  then have e2: "h2 (up_addr hp fs) = Some e" using same e(1) by simp
  have "ctx_cells h2 hp n s fs = ctx_cells h hp n s fs" by (rule ctx_cong, rule same) (use dis in auto)
  then have "ctx_cells h2 hp n s fs" using at(1) by (simp add: holds_at_def)
  then have "relink_parent h2 (up_addr hp fs) s (root_of N) = setlink h2 (up_addr hp fs) (up_dir fs) (root_of N)"
    using at(2) dis by (intro relink_parent_hole) auto
  then show ?thesis using e(2) setlink_relinked [where h = h2 and a = "up_addr hp fs", OF e2] by auto
qed

lemma rotated_in_place:
  assumes "holds_at h hp n (side_node a (s, ks, b) R u) fs" "sides fs" "side a"
    and rot: "rotates_to h a s ks b R u N h2" and "res = Some (root_of N, h2)"
  shows "\<exists>p h2 h3 N. res = Some (p, h2) \<and> relink_parent h2 (up_addr hp fs) s p = Some h3 \<and>
    holds_at h3 hp n N fs \<and> avl N \<and> height N = height u + 2 \<and> entries N = entries (side_node a (s, ks, b) R u)"
proof -
  obtain h3 where "relink_parent h2 (up_addr hp fs) s (root_of N) = Some h3" "holds_at h3 hp n N fs"
    using relink_rotated [OF assms(1-3) rot] by auto
  then show ?thesis using rot assms(5) unfolding rotates_to_def
    by (intro exI [of _ "root_of N"] exI [of _ h2] exI [of _ h3] exI [of _ N]) simp
qed

lemma insert_rotation:
  assumes at: "holds_at h hp n (side_node a (s, ks, b) R u) fs" "sides fs" "side a"
    and R: "avl R" "avl u" "height R = height u + 2" "root_balance R \<noteq> 0"
  shows "\<exists>p h2 h3 N.
    (if root_balance R = a then single_rotation h s (root_of R) a
     else if root_balance R = - a then double_rotation h s (root_of R) a else None) = Some (p, h2) \<and>
    relink_parent h2 (up_addr hp fs) s p = Some h3 \<and> holds_at h3 hp n N fs \<and> avl N \<and> height N = height u + 2 \<and>
    entries N = entries (side_node a (s, ks, b) R u)"
proof -
  have "R \<noteq> Leaf" using R(4) by auto
  then obtain x r1 r2 where "R = side_node a x r1 r2" by (rule side_node_exists)
  moreover obtain r kr br where "x = (r, kr, br)" by (cases x)
  ultimately have Rx: "R = side_node a (r, kr, br) r1 r2" by simp
  have br: "br = a \<or> br = - a" "a \<noteq> - a" using R(1,4) at(3) by (auto simp: Rx avl_side side_def)
  have cs: "cells h (side_node a (s, ks, b) R u)" "distinct (addrs (side_node a (s, ks, b) R u))"
    using at(1) by (auto simp: holds_at_def)
  have hs: "h s = Some (cell a ks b r (root_of u))" "h r = Some (cell a kr br (root_of r1) (root_of r2))" "s \<noteq> r"
    using cs at(3) by (auto simp: Rx cells_side)
  show ?thesis
  proof (cases "br = a")
    case True
    have Ra: "R = side_node a (r, kr, a) r1 r2" using Rx True by simp
    note rot = single_rotation_tree [OF at(3) Ra cs R(1-3)]
    show ?thesis by (rule rotated_in_place [OF at rot])
      (use single_rotation_cells [OF at(3) hs(3,1,2)] Ra in \<open>simp add: True\<close>)
  next
    case False
    then have b: "br = - a" using br by simp
    have "r2 \<noteq> Leaf" using R(1) at(3) b by (auto simp: Rx avl_side side_def)
    then obtain y p1 p2 where "r2 = side_node a y p1 p2" by (rule side_node_exists)
    moreover obtain p kp bp where "y = (p, kp, bp)" by (cases y)
    ultimately have r2: "r2 = side_node a (p, kp, bp) p1 p2" by simp
    have Ra: "R = side_node a (r, kr, - a) r1 (side_node a (p, kp, bp) p1 p2)" using Rx b r2 by simp
    note rot = double_rotation_tree [OF at(3) Ra cs R(1-3)]
    have hp': "h p = Some (cell a kp bp (root_of p1) (root_of p2))" "distinct [s, r, p]" "h r = Some (cell a kr br (root_of r1) p)"
      using cs at(3) hs(2) by (auto simp: Ra cells_side r2)
    have "\<bar>bp\<bar> \<le> 1" using R(1) at(3) by (auto simp: Ra avl_side)
    note dbl = double_rotation_cells [OF at(3) hp'(2) hs(1) hp'(3,1) this]
    show ?thesis by (rule rotated_in_place [OF at rot]) (use dbl br(2) Ra in \<open>auto simp: b\<close>)
  qed
qed

text \<open>Steps A6 and the three ways of A7, with \<open>R\<close> the subtree on the way of the insertion, its balances corrected.\<close>

definition rebalance_top :: "'k bal_heap \<Rightarrow> addr \<Rightarrow> addr \<Rightarrow> addr \<Rightarrow> int \<Rightarrow> int \<Rightarrow> addr \<Rightarrow> 'k bal_heap option" where
  "rebalance_top h1 head t s bs d r =
     (if bs = 0 then do { h2 \<leftarrow> set_balance h1 s d; change_depth h2 head 1 }
      else if bs = - d then set_balance h1 s 0
      else if bs = d then do {
        br \<leftarrow> get_balance h1 r;
        (p, h2) \<leftarrow> (if br = d then single_rotation h1 s r d else if br = - d then double_rotation h1 s r d else None);
        relink_parent h2 t s p }
      else None)"

lemma rebalance_step:
  assumes at: "holds_at h hp n Q (ys @ f # ss)" "Q \<noteq> Leaf" and path: "\<forall>g \<in> set (ys @ f # ss). on_path compar key g"
    and sd: "sides (ys @ f # ss)"
  shows "\<exists>h1. holds_at h1 hp n (plug Q (map adj ys)) (f # ss) \<and>
    tsearch_rebalance compar (Some key) hp t (fadr f) (root_of Q) h =
      rebalance_top h1 hp t (fadr f) (fbal f) (fdir f) (root_of (plug Q (map adj ys)))"
proof -
  obtain d s ks bs u where f: "f = Frame d s ks bs u" by (cases f)
  have sides: "side d" using sd f by simp
  let ?R = "plug Q (map adj ys)"
  obtain h1 where h1: "adjust_balances compar (Some key) (root_of Q) h (root_of (plug Q ys)) = Some h1"
      "holds_at h1 hp n Q (map adj ys @ f # ss)"
    using adjust_spec [OF at _ sd, of compar key] path by auto
  have at1: "holds_at h1 hp n ?R (f # ss)"
    using h1(2) holds_at_append [of "map adj ys" "f # ss" h1 hp n Q] sd by simp
  have atP: "holds_at h hp n (plug Q ys) (f # ss)"
    using at(1) holds_at_append [of ys "f # ss" h hp n Q] sd by simp
  let ?r = "root_of (plug Q ys)"
  have hs: "h s = Some (cell d ks bs ?r (root_of u))" using atP by (simp add: holds_at_def f)
  have hs1: "h1 s = Some (cell d ks bs ?r (root_of u))"
    using at1 by (simp add: holds_at_def f root_plug_adj)
  have a: "(if compar (Some key) (keyptr (cell d ks bs ?r (root_of u))) < 0 then - 1 else 1) = d"
    using path sides by (auto simp: f on_path_def side_def sgn_if split: if_splits)
  have "tsearch_rebalance compar (Some key) hp t s (root_of Q) h = rebalance_top h1 hp t s bs d (root_of ?R)"
    unfolding tsearch_rebalance_def hs Option.bind_lunit Let_def a rebalance_top_def root_plug_adj
    using link_of_cell(1) [where h = h and a = s and d = d, OF sides hs] h1(1)
      balance_of_cell(1) [where h = h1 and a = s, OF hs1]
    by simp
  then show ?thesis using at1 by (auto simp: f)
qed

text \<open>The place \<open>L\<close> grew to \<open>R\<close>; the tree \<open>T'\<close> has the entries of the tree with \<open>R\<close> in place of \<open>L\<close>.\<close>

definition rebalanced where
  "rebalanced hp n T U res \<longleftrightarrow> (\<exists>h' T'. res = Some h' \<and>
     holds_tree h' hp (n + int (height T') - int (height T)) T' \<and> avl T' \<and> entries T' = entries U)"

lemma rebalance_higher:
  assumes at: "holds_at h hp n R [Frame d s ks 0 u]" and d: "side d" and R: "avl R" "height R = Suc (height L)"
    and nd: "avl (side_node d (s, ks, 0) L u)"
  shows "rebalanced hp n (side_node d (s, ks, 0) L u) (side_node d (s, ks, 0) R u) (rebalance_top h hp t s 0 d r)"
proof -
  let ?T = "side_node d (s, ks, d) R u"
  let ?h = "h(s \<mapsto> cell d ks d (root_of R) (root_of u))"
  have hs: "h s = Some (cell d ks 0 (root_of R) (root_of u))" using at by (simp add: holds_at_def)
  have top: "holds_at ?h hp n R [Frame d s ks d u]" by (rule set_top [OF at])
  then have "?h hp = Some (head_cell n s)" by (auto simp: holds_at_def)
  note ch = link_of_head(3) [where h = ?h and a = hp, OF this, of 1]
  have "rebalance_top h hp t s 0 d r = Some (?h(hp \<mapsto> head_cell (n + 1) s))"
    using ch balance_of_cell(2) [where h = h and a = s, OF hs, of d] by (simp add: rebalance_top_def)
  moreover have "avl ?T" "height L = height u" using nd R d by (auto simp: avl_side side_def)
  moreover have "holds_tree (?h(hp \<mapsto> head_cell (n + 1) s)) hp (n + 1) ?T"
    using top d by (auto simp: holds_at_def holds_tree_def cells_side)
  ultimately show ?thesis unfolding rebalanced_def using R(2)
    by (intro exI [of _ "?h(hp \<mapsto> head_cell (n + 1) s)"] exI [of _ ?T]) (simp add: entries_side add.commute)
qed

text \<open>A subtree of the old height in the place of the old one.\<close>

lemma rebalanced_plug:
  assumes "holds_at h' hp n N ss" "avl N" "height N = height M" "entries N = entries U" "avl (plug M ss)" "sides ss"
  shows "rebalanced hp n (plug M ss) (plug U ss) (Some h')"
proof -
  have "avl (plug N ss) \<and> height (plug N ss) = height (plug M ss)"
    by (rule avl_plug_same [OF assms(5,6,2,3)])
  then show ?thesis unfolding rebalanced_def using assms(1,4) holds_at_tree [OF assms(6)]
    by (intro exI [of _ h'] exI [of _ "plug N ss"]) (simp add: entries_plug)
qed

lemma rebalance_level:
  assumes at: "holds_at h hp n R (Frame d s ks (- d) u # ss)" and d: "side d" "sides ss"
    and R: "avl R" "height R = Suc (height L)" and nd: "avl (plug (side_node d (s, ks, - d) L u) ss)"
  shows "rebalanced hp n (plug (side_node d (s, ks, - d) L u) ss) (plug (side_node d (s, ks, - d) R u) ss)
    (rebalance_top h hp t s (- d) d r)"
proof -
  let ?N = "side_node d (s, ks, 0) R u"
  let ?h = "h(s \<mapsto> cell d ks 0 (root_of R) (root_of u))"
  have hs: "h s = Some (cell d ks (- d) (root_of R) (root_of u))" using at by (simp add: holds_at_def)
  have dd: "d \<noteq> 0" "- d \<noteq> d" using d by (auto simp: side_def)
  have nd1: "avl (side_node d (s, ks, - d) L u)" by (rule avl_plug_inner [OF nd d(2)])
  then have hts: "height u = Suc (height L)" "avl u" using d by (auto simp: avl_side side_def)
  have "holds_at ?h hp n ?N ss"
    using set_top [OF at, of 0] holds_at_append [of "[Frame d s ks 0 u]" ss ?h hp n R] d by simp
  moreover have "avl ?N" "height ?N = height (side_node d (s, ks, - d) L u)"
    using R hts d by (auto simp: avl_side side_def)
  moreover have "rebalance_top h hp t s (- d) d r = Some ?h"
    using dd balance_of_cell(2) [where h = h and a = s, OF hs, of 0] by (simp add: rebalance_top_def)
  ultimately show ?thesis using nd d(2)
    by (simp add: rebalanced_plug entries_side)
qed

lemma rebalance_rotate:
  assumes at: "holds_at h hp n R (Frame d s ks d u # ss)" and d: "side d" "sides ss"
    and R: "avl R" "height R = Suc (height L)" "L \<noteq> Leaf \<longrightarrow> root_balance R \<noteq> 0"
    and nd: "avl (plug (side_node d (s, ks, d) L u) ss)"
  shows "rebalanced hp n (plug (side_node d (s, ks, d) L u) ss) (plug (side_node d (s, ks, d) R u) ss)
    (rebalance_top h hp (up_addr hp ss) s d d (root_of R))"
proof -
  have dd: "d \<noteq> 0" "d \<noteq> - d" using d by (auto simp: side_def)
  have nd1: "avl (side_node d (s, ks, d) L u)" by (rule avl_plug_inner [OF nd d(2)])
  then have hts: "height L = Suc (height u)" "avl u" using d by (auto simp: avl_side side_def)
  then have R0: "root_balance R \<noteq> 0" "R \<noteq> Leaf" "height R = height u + 2" using R by auto
  have at2: "holds_at h hp n (side_node d (s, ks, d) R u) ss"
    using at holds_at_append [of "[Frame d s ks d u]" ss h hp n R] d by simp
  obtain p h2 h3 N where N: "(if root_balance R = d then single_rotation h s (root_of R) d
       else if root_balance R = - d then double_rotation h s (root_of R) d else None) = Some (p, h2)"
      "relink_parent h2 (up_addr hp ss) s p = Some h3" "holds_at h3 hp n N ss" "avl N" "height N = height u + 2"
      "entries N = entries (side_node d (s, ks, d) R u)"
    using insert_rotation [OF at2 d(2,1) R(1) hts(2) R0(3,1)] by blast
  have "get_balance h (root_of R) = Some (root_balance R)"
    using at R0(2) by (intro get_root_balance) (auto simp: holds_at_def)
  then have "rebalance_top h hp (up_addr hp ss) s d d (root_of R) = Some h3"
    using dd N(1,2) by (simp add: rebalance_top_def)
  moreover have "height N = height (side_node d (s, ks, d) L u)" using hts(1) N(5) by simp
  ultimately show ?thesis using rebalanced_plug [OF N(3,4) _ N(6) nd d(2)] by simp
qed

lemma rebalance_spec:
  assumes Q: "Q = Node Leaf (q, key, 0) Leaf"
    and at: "holds_at h hp n Q (ys @ f # ss)" and path: "\<forall>g \<in> set (ys @ f # ss). on_path compar key g"
    and sd: "sides (ys @ f # ss)" and qt: "\<forall>g \<in> set ys. fbal g = 0" and bl: "ss \<noteq> [] \<longrightarrow> fbal f \<noteq> 0"
    and avl: "avl (plug Leaf (ys @ f # ss))"
  shows "rebalanced hp n (plug Leaf (ys @ f # ss)) (plug Q (ys @ f # ss))
    (tsearch_rebalance compar (Some key) hp (up_addr hp ss) (fadr f) q h)"
proof -
  obtain d s ks bs u where f: "f = Frame d s ks bs u" by (cases f)
  define R where "R = plug Q (map adj ys)"
  let ?L = "plug Leaf ys :: 'a info tree"
  have sides: "sides ys" "side d" "sides ss" using sd f by auto
  have nd: "avl (plug (side_node d (s, ks, bs) ?L u) ss)" using avl by (simp add: f)
  have nd1: "avl (side_node d (s, ks, bs) ?L u)" by (rule avl_plug_inner [OF nd sides(3)])
  then have L: "avl ?L" "\<bar>bs\<bar> \<le> 1" using sides by (auto simp: avl_side)
  have R: "avl R" "height R = Suc (height ?L)" "?L \<noteq> Leaf \<longrightarrow> root_balance R \<noteq> 0"
    using grow_path [OF L(1) qt sides(1), of q key] by (auto simp: R_def Q)
  obtain h1 where h1: "holds_at h1 hp n R (f # ss)"
      "tsearch_rebalance compar (Some key) hp (up_addr hp ss) s q h = rebalance_top h1 hp (up_addr hp ss) s bs d (root_of R)"
    using rebalance_step [OF at _ path sd, of "up_addr hp ss"] by (auto simp: R_def Q f)
  have "entries (plug Q (ys @ f # ss)) = entries (plug (side_node d (s, ks, bs) R u) ss)"
    by (simp add: f R_def entries_plug entries_side)
  moreover have "rebalanced hp n (plug (side_node d (s, ks, bs) ?L u) ss) (plug (side_node d (s, ks, bs) R u) ss)
      (rebalance_top h1 hp (up_addr hp ss) s bs d (root_of R))"
  proof -
    have "bs = 0 \<or> bs = - 1 \<or> bs = 1" using L(2) by arith
    then consider "bs = 0" "ss = []" | "bs = - d" | "bs = d" using sides(2) bl f by (auto simp: side_def)
    then show ?thesis
    proof cases
      case 1
      then show ?thesis using rebalance_higher [of h1 hp n R d s ks u ?L] h1(1) sides R nd1 f by auto
    next
      case 2
      then show ?thesis using rebalance_level [of h1 hp n R d s ks u ss ?L] h1(1) sides R nd f by simp
    next
      case 3
      then show ?thesis using rebalance_rotate [of h1 hp n R d s ks u ss ?L] h1(1) sides R nd f by simp
    qed
  qed
  ultimately show ?thesis using h1(2) by (simp add: f rebalanced_def)
qed

subsection \<open>The whole insertion\<close>

lemma cells_dom: "cells h t \<Longrightarrow> h a = None \<Longrightarrow> a \<notin> set (addrs t)"
  by (induction t rule: entries.induct) auto

lemma holds_at_dom:
  assumes "holds_at h hp n t fs" "sides fs" "h a = None"
  shows "a \<notin> insert hp (set (addrs t) \<union> set (ctx_addrs fs))"
proof -
  have "holds_tree h hp n (plug t fs)" using assms(1,2) holds_at_tree by blast
  then have "a \<noteq> hp" "a \<notin> set (addrs (plug t fs))"
    using assms(3) cells_dom [of h "plug t fs" a] unfolding holds_tree_def by (metis option.distinct(1), blast)
  then show ?thesis by simp
qed

definition new_entry :: "'k option \<Rightarrow> 'k bal_entry" where
  "new_entry key = \<lparr>keyptr = key, treedepth = 0, balance = 0, llink = 0, rlink = 0\<rparr>"

lemma new_entry_cell: "new_entry (Some key) = cell 1 key 0 0 0" "new_entry None = head_cell 0 0"
  by (simp_all add: new_entry_def cell_def head_cell_def)

lemma insert_leaf:
  assumes at: "holds_at h hp n Leaf (f # fs)" and sd: "sides (f # fs)" and q: "q \<noteq> 0" "h q = None"
    and kc: "kc \<noteq> 0" "sgn kc = fdir f"
  shows "\<exists>h2. tsearch_do_insert (Some key) kc (fadr f) (q # ms) h = Some (q, True, h2, ms) \<and>
    holds_at h2 hp n (Node Leaf (q, key, 0) Leaf) (f # fs)"
proof -
  let ?h = "h(q \<mapsto> new_entry (Some key))"
  have out: "q \<noteq> hp" "q \<notin> set (ctx_addrs (f # fs))" using holds_at_dom [OF at sd q(2)] by auto
  have "ctx_cells ?h hp n 0 (f # fs)" using at out by (simp add: holds_at_def)
  moreover have "distinct (hp # ctx_addrs (f # fs))" using at by (auto simp: holds_at_def)
  ultimately obtain e where e: "?h (fadr f) = Some e"
      "ctx_cells (?h(fadr f \<mapsto> relinked e (fdir f) q)) hp n q (f # fs)"
    using relink_hole [of ?h hp n 0 "f # fs" q] sd by auto
  have "fadr f \<noteq> q" using out up_addr_in [of hp "f # fs"] by auto
  then have "cells (?h(fadr f \<mapsto> relinked e (fdir f) q)) (Node Leaf (q, key, 0) Leaf)"
    using q by (simp add: new_entry_cell)
  then have "holds_at (?h(fadr f \<mapsto> relinked e (fdir f) q)) hp n (Node Leaf (q, key, 0) Leaf) (f # fs)"
    using e(2) at out by (auto simp: holds_at_def)
  moreover have "setlink ?h (fadr f) kc q = Some (?h(fadr f \<mapsto> relinked e (fdir f) q))"
    using link_sgn(2) [OF kc(1), of ?h "fadr f" q] setlink_relinked [where h = ?h and a = "fadr f", OF e(1)] kc(2) by simp
  ultimately show ?thesis using q(1)
    by (simp add: tsearch_do_insert_def tsearch_insert_k_def allocate_ts_entry_def new_entry_def)
qed

text \<open>What \<open>*rootp\<close> and the memory hold: no tree, or a head with a balanced tree in order.\<close>

definition tree_state :: "('k \<Rightarrow> 'r :: linorder) \<Rightarrow> 'k bal_heap \<Rightarrow> addr \<Rightarrow> 'k info tree \<Rightarrow> bool" where
  "tree_state rank h head t \<longleftrightarrow> (if head = 0 then t = Leaf
     else t \<noteq> Leaf \<and> holds_tree h head (int (height t) - 1) t \<and> avl t \<and> ordered rank t)"

text \<open>The search from the root.\<close>

lemma search_from_root:
  assumes "tree_state rank h head t" "head \<noteq> 0"
  shows "getlink h head 1 = Some (root_of t)"
    "search_found compar key t (tsearch_down compar (Some key) h head (root_of t) (root_of t)) \<or>
     search_missed compar key head t (tsearch_down compar (Some key) h head (root_of t) (root_of t))"
proof -
  have st: "t \<noteq> Leaf" "holds_tree h head (int (height t) - 1) t" using assms by (auto simp: tree_state_def)
  then show "getlink h head 1 = Some (root_of t)"
    by (auto simp: holds_tree_def intro: link_of_head)
  show "search_found compar key t (tsearch_down compar (Some key) h head (root_of t) (root_of t)) \<or>
     search_missed compar key head t (tsearch_down compar (Some key) h head (root_of t) (root_of t))"
    using tsearch_down_spec [of h t "root_of t" "[]" head head "[]" compar key] st
    by (simp add: quiet_def holds_tree_def)
qed

text \<open>Where the search misses, no entry has the key, and the new one goes between those before and those behind.\<close>

lemma missed_order:
  assumes "ordered rank (plug Leaf fs)" "compares compar rank" "\<forall>g \<in> set fs. on_path compar key g" "sides fs"
    "entries T = entries (plug (Node Leaf (q, key, 0) Leaf) fs)"
  shows "\<forall>x \<in> set (entries (plug Leaf fs)). rank (snd x) \<noteq> rank key" "ordered rank T"
    "set (entries T) = insert (q, key) (set (entries (plug Leaf fs)))"
  using path_order [OF assms(1-4)] assms(1,5)
  by (auto simp: ordered_def entries_plug sorted_wrt_append)

lemma tsearch_inner_found:
  assumes "tree_state rank h head t" "head \<noteq> 0" "compares compar rank"
    "search_found compar key t (tsearch_down compar (Some key) h head (root_of t) (root_of t))"
  shows "\<exists>a k. (a, k) \<in> set (entries t) \<and> rank k = rank key \<and>
    tsearch_inner_bal compar (Some key) head h ms = Some (a, False, h, ms)"
proof -
  obtain l a k b r ys where f: "tsearch_down compar (Some key) h head (root_of t) (root_of t) = Some (Inl a)"
      "t = plug (Node l (a, k, b) r) ys" "compar (Some key) (Some k) = 0"
    using assms(4) by (auto simp: search_found_def)
  have "(a, k) \<in> set (entries t)" by (simp add: f(2) entries_plug)
  moreover have "rank k = rank key" using f(3) compares_iff [OF assms(3), of key k] by simp
  moreover have "tsearch_inner_bal compar (Some key) head h ms = Some (a, False, h, ms)"
    using search_from_root(1) [OF assms(1,2)] f(1) by (simp add: tsearch_inner_bal_def)
  ultimately show ?thesis by blast
qed

lemma tsearch_inner_missed:
  assumes st: "tree_state rank h head t" "head \<noteq> 0" and cmp: "compares compar rank"
    and miss: "search_missed compar key head t (tsearch_down compar (Some key) h head (root_of t) (root_of t))"
    and q: "q \<noteq> 0 \<longrightarrow> h q = None"
  shows "(\<forall>x \<in> set (entries t). rank (snd x) \<noteq> rank key) \<and>
    (if q = 0 then tsearch_inner_bal compar (Some key) head h (q # ms) = Some (0, False, h, ms)
     else \<exists>h' t'. tsearch_inner_bal compar (Some key) head h (q # ms) = Some (q, True, h', ms) \<and>
       tree_state rank h' head t' \<and> set (entries t') = insert (q, key) (set (entries t)))"
proof -
  obtain f zs ss kc where m:
      "tsearch_down compar (Some key) h head (root_of t) (root_of t) =
         Some (Inr (up_addr head ss, fadr (last (f # zs)), fadr f, kc))" "kc \<noteq> 0" "sgn kc = fdir f"
      "t = plug Leaf (f # zs @ ss)" "\<forall>g \<in> set (f # zs @ ss). on_path compar key g" "sides (f # zs @ ss)"
      "quiet (f # zs)" "ss \<noteq> [] \<longrightarrow> fbal (last (f # zs)) \<noteq> 0"
    using miss unfolding search_missed_def by blast
  let ?Q = "Node Leaf (q, key, 0) Leaf"
  have tr: "t \<noteq> Leaf" "holds_tree h head (int (height t) - 1) t" "avl t" "ordered rank t"
    using st by (auto simp: tree_state_def)
  have at: "holds_at h head (int (height t) - 1) Leaf (f # zs @ ss)"
    using tr(2) holds_at_tree [OF m(6)] m(4) by simp
  note root = search_from_root(1) [OF st]
  have none: "\<forall>x \<in> set (entries t). rank (snd x) \<noteq> rank key"
    using missed_order(1) [OF _ cmp m(5,6) refl] tr(4) m(4) by blast
  show ?thesis
  proof (cases "q = 0")
    case True
    then show ?thesis using none root m(1)
      by (simp add: tsearch_inner_bal_def tsearch_do_insert_def tsearch_insert_k_def allocate_ts_entry_def)
  next
    case False
    obtain h2 where h2: "tsearch_do_insert (Some key) kc (fadr f) (q # ms) h = Some (q, True, h2, ms)"
        "holds_at h2 head (int (height t) - 1) ?Q (f # zs @ ss)"
      using insert_leaf [OF at m(6) False _ m(2,3)] q False by blast
    obtain ys g where yg: "f # zs = ys @ [g]" by (metis append_butlast_last_id list.distinct(1))
    then have split: "f # zs @ ss = ys @ g # ss" "last (f # zs) = g" "butlast (f # zs) = ys"
      by (metis append.assoc append_Cons append_Nil, simp_all)
    have "rebalanced head (int (height t) - 1) t (plug ?Q (f # zs @ ss))
        (tsearch_rebalance compar (Some key) head (up_addr head ss) (fadr g) q h2)"
      using rebalance_spec [OF refl, of h2 head "int (height t) - 1" q key ys g ss compar] h2(2) m(4-8) tr(3)
      unfolding split quiet_def by simp
    then obtain h' t' where h': "tsearch_rebalance compar (Some key) head (up_addr head ss) (fadr g) q h2 = Some h'"
        "holds_tree h' head (int (height t') - 1) t'" "avl t'" "entries t' = entries (plug ?Q (f # zs @ ss))"
      unfolding rebalanced_def by auto
    note ord = missed_order [OF _ cmp m(5,6) h'(4), folded m(4), OF tr(4)]
    have "t' \<noteq> Leaf" using ord(3) by auto
    then have "tree_state rank h' head t'" using h' ord st(2) by (simp add: tree_state_def)
    moreover have "tsearch_inner_bal compar (Some key) head h (q # ms) = Some (q, True, h', ms)"
      using root m(1) h2(1) h'(1) False split(2) by (simp add: tsearch_inner_bal_def)
    ultimately show ?thesis using False none ord(3) by auto
  qed
qed

text \<open>
  The addresses \<open>malloc\<close> may return: none that is in use, and no two the same. A result of 0 is a failure.
\<close>

definition fresh :: "'k bal_heap \<Rightarrow> addr list \<Rightarrow> bool" where
  "fresh h ms \<longleftrightarrow> (\<forall>a \<in> set ms. a \<noteq> 0 \<longrightarrow> h a = None) \<and> distinct (filter (\<lambda>a. a \<noteq> 0) ms)"

lemma fresh_simps [simp]: "fresh h []"
  "fresh h (a # ms) \<longleftrightarrow> (a \<noteq> 0 \<longrightarrow> h a = None \<and> a \<notin> set ms) \<and> fresh h ms"
  by (auto simp: fresh_def)

definition key_entry :: "('k \<Rightarrow> 'r :: linorder) \<Rightarrow> 'k \<Rightarrow> 'k info tree \<Rightarrow> addr \<Rightarrow> bool" where
  "key_entry rank key t a \<longleftrightarrow> (\<exists>k. (a, k) \<in> set (entries t) \<and> rank k = rank key)"

lemma tree_state_empty [simp]: "tree_state rank h 0 t \<longleftrightarrow> t = Leaf"
  by (simp add: tree_state_def)

lemma first_entry:
  assumes "a \<noteq> 0" "q \<noteq> 0" "a \<noteq> q"
  shows "tree_state rank (h(a \<mapsto> head_cell 0 q, q \<mapsto> new_entry (Some key))) a (Node Leaf (q, key, 0) Leaf)"
  using assms by (auto simp: tree_state_def holds_tree_def new_entry_cell ordered_def)

lemma tsearch_first_fails:
  assumes "fresh h ms" "length ms < 2 \<or> hd ms = 0 \<or> ms ! 1 = 0"
  shows "\<exists>ms'. dd_tsearch compar key (Some 0) h ms = Some (0, Some 0, h, ms')"
proof -
  obtain a ns where a: "next_block ms = (a, ns)" by force
  obtain q ns' where q: "next_block ns = (q, ns')" by force
  have "a = 0 \<or> q = 0" using assms(2) a q by (cases ms; cases "tl ms") auto
  moreover have "a \<noteq> 0 \<Longrightarrow> h(a := None) = h" using assms(1) a by (cases ms) (auto simp: fun_eq_iff)
  ultimately show ?thesis using a q
    by (auto simp: dd_tsearch_def allocate_ts_entry_def free_entry_def)
qed

lemma tsearch_first:
  assumes "fresh h (a # q # ms)" "a \<noteq> 0" "q \<noteq> 0"
  shows "dd_tsearch compar (Some key) (Some 0) h (a # q # ms) =
    Some (q, Some a, h(a \<mapsto> head_cell 0 q, q \<mapsto> new_entry (Some key)), ms)"
  using assms by (auto simp: dd_tsearch_def allocate_ts_entry_def setlink_def head_cell_def new_entry_def fun_upd_twist)

lemma tsearch_spec:
  assumes st: "tree_state rank h head t" and cmp: "compares compar rank" and fr: "fresh h ms"
  shows "\<exists>r head' h' ms' t'. dd_tsearch compar (Some key) (Some head) h ms = Some (r, Some head', h', ms') \<and>
    tree_state rank h' head' t' \<and>
    (if \<exists>a. key_entry rank key t a then key_entry rank key t r \<and> t' = t
     else if r = 0 then entries t' = entries t \<and> (length ms < 2 \<or> 0 \<in> set ms)
     else set (entries t') = insert (r, key) (set (entries t)))"
proof (cases "head = 0")
  case True
  then have "t = Leaf" using st by simp
  then have none: "\<not> (\<exists>a. key_entry rank key t a)" by (simp add: key_entry_def)
  show ?thesis
  proof (cases "length ms < 2 \<or> hd ms = 0 \<or> ms ! 1 = 0")
    case fails: True
    then have "length ms < 2 \<or> 0 \<in> set ms" by (cases ms; cases "tl ms") auto
    moreover obtain ms' where "dd_tsearch compar (Some key) (Some 0) h ms = Some (0, Some 0, h, ms')"
      using tsearch_first_fails [OF fr fails] by blast
    ultimately show ?thesis using True none st
      by (intro exI [of _ 0] exI [of _ head] exI [of _ h] exI [of _ ms'] exI [of _ t]) simp
  next
    case False
    then obtain a q ns where ms: "ms = a # q # ns" by (cases ms; cases "tl ms") auto
    then have aq: "a \<noteq> 0" "q \<noteq> 0" "a \<noteq> q" using False fr by auto
    show ?thesis using tsearch_first [OF fr [unfolded ms] aq(1,2), of compar key] first_entry [OF aq, of rank h key] True none \<open>t = Leaf\<close> aq
      by (intro exI [of _ q] exI [of _ a] exI [of _ "h(a \<mapsto> head_cell 0 q, q \<mapsto> new_entry (Some key))"] exI [of _ ns]
        exI [of _ "Node Leaf (q, key, 0) Leaf"]) (simp add: ms)
  qed
next
  case False
  let ?down = "tsearch_down compar (Some key) h head (root_of t) (root_of t)"
  have open_up: "dd_tsearch compar (Some key) (Some head) h ms =
      do { (r, inserted, h1, ms1) \<leftarrow> tsearch_inner_bal compar (Some key) head h ms; Some (r, Some head, h1, ms1) }" for ms
    using False by (simp add: dd_tsearch_def)
  from search_from_root(2) [OF st False, of compar key] show ?thesis
  proof
    assume "search_found compar key t ?down"
    then obtain a k where "(a, k) \<in> set (entries t)" "rank k = rank key"
        "tsearch_inner_bal compar (Some key) head h ms = Some (a, False, h, ms)"
      using tsearch_inner_found [OF st False cmp] by blast
    then show ?thesis using st open_up by (auto simp: key_entry_def)
  next
    assume miss: "search_missed compar key head t ?down"
    obtain q ns where qn: "next_block ms = (q, ns)" by force
    have "tsearch_do_insert (Some key) kc p ms h1 = tsearch_do_insert (Some key) kc p (q # ns) h1" for kc p h1
      using qn by (simp add: tsearch_do_insert_def tsearch_insert_k_def allocate_ts_entry_def)
    moreover obtain v where "?down = Some (Inr v)" using miss by (auto simp: search_missed_def)
    ultimately have inner: "tsearch_inner_bal compar (Some key) head h ms = tsearch_inner_bal compar (Some key) head h (q # ns)"
      using search_from_root(1) [OF st False] by (cases v) (simp add: tsearch_inner_bal_def)
    have "q \<noteq> 0 \<longrightarrow> h q = None" using fr qn by (cases ms) auto
    note spec = tsearch_inner_missed [OF st False cmp miss this, of ns]
    have "\<not> (\<exists>a. key_entry rank key t a)" using spec by (auto simp: key_entry_def)
    moreover have "q = 0 \<Longrightarrow> length ms < 2 \<or> 0 \<in> set ms" using qn by (cases ms) auto
    ultimately show ?thesis using spec st unfolding open_up inner by (cases "q = 0") auto
  qed
qed

subsection \<open>Search\<close>

lemma tfind_steps:
  assumes "h p = Some e" "p \<noteq> 0"
  shows "compar key (keyptr e) = 0 \<Longrightarrow> tfind_loop compar key h p = Some p"
    "compar key (keyptr e) \<noteq> 0 \<Longrightarrow> getlink h p (compar key (keyptr e)) = Some q \<Longrightarrow>
       tfind_loop compar key h p = tfind_loop compar key h q"
  by (subst tfind_loop.simps, simp add: assms)+

lemma tfind_loop_spec:
  assumes "cells h t" "ordered rank t" "compares compar rank"
  shows "\<exists>a. tfind_loop compar (Some key) h (root_of t) = Some a \<and>
    (if \<exists>b. key_entry rank key t b then key_entry rank key t a else a = 0)"
  using assms
proof (induction t)
  case Leaf
  then show ?case by (subst tfind_loop.simps) (simp add: key_entry_def)
next
  case (Node l x r)
  obtain a k b where x: "x = (a, k, b)" by (cases x)
  have a: "a \<noteq> 0" "h a = Some (cell 1 k b (root_of r) (root_of l))" "cells h l" "cells h r"
    using Node.prems(1) x by auto
  have ord: "ordered rank l" "ordered rank r" "\<forall>y \<in> set (entries l). rank (snd y) < rank k"
      "\<forall>y \<in> set (entries r). rank k < rank (snd y)"
    using Node.prems(2) by (auto simp: x ordered_def sorted_wrt_append)
  note cmp = compares_iff [OF Node.prems(3), of key k]
  have root: "root_of (Node l x r) = a" by (simp add: x)
  consider "rank key = rank k" | "rank key < rank k" | "rank key > rank k" by fastforce
  then show ?case
  proof cases
    case 1
    then have "tfind_loop compar (Some key) h a = Some a" using tfind_steps(1) [where h = h and p = a and compar = compar and key = "Some key", OF a(2,1)] cmp by simp
    then show ?thesis using 1 by (auto simp: x key_entry_def)
  next
    case 2
    have "getlink h a (compar (Some key) (Some k)) = Some (root_of l)" using 2 a cmp by (simp add: getlink_def cell_def)
    then have "tfind_loop compar (Some key) h a = tfind_loop compar (Some key) h (root_of l)"
      using tfind_steps(2) [where h = h and p = a and compar = compar and key = "Some key", OF a(2,1)] 2 cmp by simp
    moreover have "key_entry rank key (Node l x r) = key_entry rank key l"
      using 2 ord by (fastforce simp: x key_entry_def fun_eq_iff)
    ultimately show ?thesis using Node.IH(1) [OF a(3) ord(1) Node.prems(3)]
      unfolding root by (simp only:)
  next
    case 3
    have "getlink h a (compar (Some key) (Some k)) = Some (root_of r)" using 3 a cmp by (simp add: getlink_def cell_def)
    then have "tfind_loop compar (Some key) h a = tfind_loop compar (Some key) h (root_of r)"
      using tfind_steps(2) [where h = h and p = a and compar = compar and key = "Some key", OF a(2,1)] 3 cmp by simp
    moreover have "key_entry rank key (Node l x r) = key_entry rank key r"
      using 3 ord by (fastforce simp: x key_entry_def fun_eq_iff)
    ultimately show ?thesis using Node.IH(2) [OF a(4) ord(2) Node.prems(3)]
      unfolding root by (simp only:)
  qed
qed

lemma tfind_spec:
  assumes "tree_state rank h head t" "compares compar rank"
  shows "\<exists>a. dd_tfind compar (Some key) (Some head) h = Some a \<and>
    (if \<exists>b. key_entry rank key t b then key_entry rank key t a else a = 0)"
proof (cases "head = 0")
  case True
  then show ?thesis using assms by (simp add: dd_tfind_def key_entry_def)
next
  case False
  then have "cells h t" "ordered rank t" using assms(1) by (auto simp: tree_state_def holds_tree_def)
  then show ?thesis using tfind_loop_spec [of h t rank compar key] assms(2) search_from_root(1) [OF assms(1) False] False
    by (simp add: dd_tfind_def)
qed

end
