(* ===== verification/Bal_Delete.thy ===== *)
theory Bal_Delete
  imports Bal_Insert
begin

text \<open>
  Deletion on the trees of \<open>Bal_Tree\<close>: the array of the entries on the way is the list of the frames above a place
  (\<open>pks\<close>), and going up it restores the balance after a subtree has become one lower.
\<close>

subsection \<open>Rotations on the way up\<close>

lemma flip_side: "side d \<Longrightarrow> side_node (- d) x t u = side_node d x u t"
  by (auto simp: side_node_def side_def)

lemma equal_rotation_tree:
  assumes "side a" and R: "R = side_node a (r, kr, 0) r1 r2"
    and c: "cells h (side_node a (s, ks, a) R u)" "distinct (addrs (side_node a (s, ks, a) R u))"
    and "avl R" "avl u" "height R = height u + 2"
  defines "N \<equiv> side_node a (r, kr, - a) r1 (side_node a (s, ks, a) r2 u)"
  shows "cells (h(s \<mapsto> cell a ks a (root_of r2) (root_of u), r \<mapsto> cell a kr (- a) (root_of r1) s)) N"
    "entries N = entries (side_node a (s, ks, a) R u)" "avl N" "height N = height u + 3"
proof -
  have hts: "height r1 = Suc (height u)" "height r2 = Suc (height u)"
    using assms by (auto simp: avl_side side_def)
  show "cells (h(s \<mapsto> cell a ks a (root_of r2) (root_of u), r \<mapsto> cell a kr (- a) (root_of r1) s)) N"
    "entries N = entries (side_node a (s, ks, a) R u)" "avl N" "height N = height u + 3"
    unfolding N_def using assms(1-7) hts by (auto simp: cells_side avl_side entries_side side_def)
qed

lemma tdelete_rotate_single:
  assumes "side a" "distinct [s, r, pa]" "h s = Some (cell a ks bs r u)" "h r = Some (cell a kr a x y)" "h pa = Some e"
  shows "tdelete_rotate h s a pa pak =
    Some (True, h(s \<mapsto> cell a ks 0 y u, r \<mapsto> cell a kr 0 x s, pa \<mapsto> relinked e pak r))"
  using assms by (auto simp: tdelete_rotate_def link_of_cell balance_of_cell setlink_relinked relinked_cell fun_upd_twist)

lemma tdelete_rotate_equal:
  assumes "side a" "distinct [s, r, pa]" "h s = Some (cell a ks bs r u)" "h r = Some (cell a kr 0 x y)" "h pa = Some e"
  shows "tdelete_rotate h s a pa pak =
    Some (False, h(s \<mapsto> cell a ks bs y u, r \<mapsto> cell a kr (- a) x s, pa \<mapsto> relinked e pak r))"
proof -
  have "0 \<noteq> a" "0 \<noteq> - a" using assms(1) by (auto simp: side_def)
  then show ?thesis using assms
    by (simp add: tdelete_rotate_def link_of_cell balance_of_cell setlink_relinked relinked_cell fun_upd_twist)
qed

lemma tdelete_rotate_double:
  assumes "side a" "distinct [s, r, p, pa]" "h s = Some (cell a ks bs r u)" "h r = Some (cell a kr (- a) x p)"
    "h p = Some (cell a kp bp p1 p2)" "\<bar>bp\<bar> \<le> 1" "h pa = Some e"
  shows "tdelete_rotate h s a pa pak = Some (True, h(s \<mapsto> cell a ks (if bp = a then - a else 0) p2 u,
    r \<mapsto> cell a kr (if bp = - a then a else 0) x p1, p \<mapsto> cell a kp 0 r s, pa \<mapsto> relinked e pak p))"
proof -
  have a: "bp = a \<or> bp = 0 \<or> bp = - a" "a \<noteq> 0" "- a \<noteq> a" using assms(1,6) by (auto simp: side_def)
  show ?thesis using assms(1-5,7) a
    by (elim disjE) (simp_all add: tdelete_rotate_def link_of_cell balance_of_cell setlink_relinked relinked_cell fun_upd_twist)
qed

lemma rotated_place:
  assumes at: "holds_at h hp n M fs" "sides fs"
    and "\<And>x. x \<notin> set (addrs M) \<Longrightarrow> h2 x = h x" "cells h2 N" "entries N = entries M"
    and "h (up_addr hp fs) = Some e"
  shows "holds_at (h2(up_addr hp fs \<mapsto> relinked e (up_dir fs) (root_of N))) hp n N fs"
proof -
  have "addrs N = addrs M" using assms(5) by (simp add: addrs_def)
  then show ?thesis using replace_at [OF at assms(3,4)] at(1) assms(6) by (auto simp: holds_at_def)
qed

lemma rotation_done:
  assumes "holds_at h hp n M fs" "sides fs" "h (up_addr hp fs) = Some e"
    "\<forall>x. x \<notin> set (addrs M) \<longrightarrow> h2 x = h x" "cells h2 N" "entries N = entries M" "avl N"
    "height N = (if go then m + 2 else m + 3)"
    "res = Some (go, h2(up_addr hp fs \<mapsto> relinked e (up_dir fs) (root_of N)))"
  shows "\<exists>go h3 N. res = Some (go, h3) \<and> holds_at h3 hp n N fs \<and> avl N \<and>
    height N = (if go then m + 2 else m + 3) \<and> entries N = entries M"
  using rotated_place [OF assms(1,2) _ assms(5,6,3)] assms(4,6-9) by blast

lemma delete_rotation:
  assumes at: "holds_at h hp n (side_node a (s, ks, a) R u) fs" "sides fs" "side a"
    and R: "avl R" "avl u" "height R = height u + 2"
  shows "\<exists>go h3 N. tdelete_rotate h s a (up_addr hp fs) (up_dir fs) = Some (go, h3) \<and> holds_at h3 hp n N fs \<and> avl N \<and>
    height N = (if go then height u + 2 else height u + 3) \<and> entries N = entries (side_node a (s, ks, a) R u)"
proof -
  let ?M = "side_node a (s, ks, a) R u"
  have "R \<noteq> Leaf" using R(3) by auto
  then obtain x r1 r2 where "R = side_node a x r1 r2" by (rule side_node_exists)
  moreover obtain r kr br where "x = (r, kr, br)" by (cases x)
  ultimately have Rx: "R = side_node a (r, kr, br) r1 r2" by simp
  have br: "br = a \<or> br = 0 \<or> br = - a" "a \<noteq> 0" "a \<noteq> - a" using R(1) at(3) by (auto simp: Rx avl_side side_def)
  have cs: "cells h ?M" "distinct (addrs ?M)" using at(1) by (auto simp: holds_at_def)
  have hs: "h s = Some (cell a ks a r (root_of u))" "h r = Some (cell a kr br (root_of r1) (root_of r2))"
    using cs at(3) by (auto simp: Rx cells_side)
  obtain e where e: "h (up_addr hp fs) = Some e"
    using relink_hole [of h hp n s fs 0] at by (auto simp: holds_at_def)
  have out: "up_addr hp fs \<notin> set (addrs ?M)" using up_addr_in [of hp fs] at(1) by (auto simp: holds_at_def)
  have ne: "distinct [s, r, up_addr hp fs]" using cs out by (auto simp: Rx)
  from br(1) show ?thesis
  proof (elim disjE)
    assume b: "br = a"
    let ?N = "side_node a (r, kr, 0) r1 (side_node a (s, ks, 0) r2 u)"
    note rot = single_rotation_tree [OF at(3) Rx [unfolded b] cs R, unfolded rotates_to_def]
    show ?thesis by (rule rotation_done [OF at(1,2) e, of _ ?N True])
      (use tdelete_rotate_single [OF at(3) ne hs(1) hs(2) [unfolded b] e] rot in simp_all)
  next
    assume b: "br = 0"
    let ?N = "side_node a (r, kr, - a) r1 (side_node a (s, ks, a) r2 u)"
    note rot = equal_rotation_tree [OF at(3) Rx [unfolded b] cs R]
    show ?thesis by (rule rotation_done [OF at(1,2) e _ rot(1,2,3), of False])
      (use tdelete_rotate_equal [OF at(3) ne hs(1) hs(2) [unfolded b] e] rot(4) Rx in simp_all)
  next
    assume b: "br = - a"
    have "r2 \<noteq> Leaf" using R(1) at(3) b by (auto simp: Rx avl_side side_def)
    then obtain y p1 p2 where "r2 = side_node a y p1 p2" by (rule side_node_exists)
    moreover obtain p kp bp where "y = (p, kp, bp)" by (cases y)
    ultimately have r2: "r2 = side_node a (p, kp, bp) p1 p2" by simp
    have Ra: "R = side_node a (r, kr, - a) r1 (side_node a (p, kp, bp) p1 p2)" using Rx b r2 by simp
    have hp': "h p = Some (cell a kp bp (root_of p1) (root_of p2))" "h r = Some (cell a kr (- a) (root_of r1) p)"
        "distinct [s, r, p, up_addr hp fs]" "\<bar>bp\<bar> \<le> 1"
      using cs at(3) hs(2) b R(1) out by (auto simp: Ra cells_side r2 avl_side)
    note rot = double_rotation_tree [OF at(3) Ra cs R, unfolded rotates_to_def]
    note code = tdelete_rotate_double [OF at(3) hp'(3) hs(1) hp'(2,1,4) e, of "up_dir fs"]
    let ?N = "side_node a (p, kp, 0) (side_node a (r, kr, if bp = - a then a else 0) r1 p1)
      (side_node a (s, ks, if bp = a then - a else 0) p2 u)"
    show ?thesis by (rule rotation_done [OF at(1,2) e, of _ ?N True]) (use code rot in simp_all)
  qed
qed

subsection \<open>The way up\<close>

text \<open>The array of the way down to a place with the frames \<open>fs\<close> above it.\<close>

fun pks :: "addr \<Rightarrow> 'k frame list \<Rightarrow> pkrecord list" where
  "pks hp [] = [\<lparr>pk = hp, ak = 1\<rparr>]"
| "pks hp (f # fs) = pks hp fs @ [\<lparr>pk = fadr f, ak = fdir f\<rparr>]"

lemma length_pks [simp]: "length (pks hp fs) = Suc (length fs)"
  by (induction fs) auto

lemma last_pks: "pks hp fs ! length fs = \<lparr>pk = up_addr hp fs, ak = up_dir fs\<rparr>"
  by (cases fs) (auto simp: nth_append)

lemma pk_prefix:
  assumes "take (Suc (length fs)) pkarray = pks hp fs"
  shows "pk_at pkarray (length fs) = Some \<lparr>pk = up_addr hp fs, ak = up_dir fs\<rparr>"
proof -
  have "length (take (Suc (length fs)) pkarray) = Suc (length fs)" using assms by simp
  then have len: "length fs < length pkarray" by auto
  then have "pkarray ! length fs = take (Suc (length fs)) pkarray ! length fs" by simp
  then show ?thesis using len by (simp add: pk_at_def assms last_pks)
qed

lemma pk_prefix_tail:
  assumes "take (Suc (Suc (length fs))) pkarray = pks hp (f # fs)"
  shows "take (Suc (length fs)) pkarray = pks hp fs"
  using arg_cong [OF assms, of "take (Suc (length fs))"] by simp

lemma tdelete_balance_spec:
  assumes "holds_at h hp n P fs" "take (Suc (length fs)) pkarray = pks hp fs" "sides fs" "avl P"
    "avl (plug P0 fs)" "height P0 = Suc (height P)"
  shows "rebalanced hp n (plug P0 fs) (plug P fs) (tdelete_balance hp pkarray (length fs) h)"
  using assms
proof (induction fs arbitrary: h P P0)
  case Nil
  then have "h hp = Some (head_cell n (root_of P))" by (simp add: holds_at_def)
  note ch = link_of_head(3) [where h = h and a = hp, OF this, of "- 1"]
  have "holds_tree (h(hp \<mapsto> head_cell (n - 1) (root_of P))) hp (n - 1) P"
    using Nil.prems(1) by (auto simp: holds_at_def holds_tree_def)
  then show ?case unfolding rebalanced_def using Nil.prems(4,6) ch
    by (intro exI [of _ "h(hp \<mapsto> head_cell (n - 1) (root_of P))"] exI [of _ P]) simp
next
  case (Cons f fs)
  obtain d a k b u where f: "f = Frame d a k b u" by (cases f)
  have sd: "side d" "sides fs" using Cons.prems(3) f by auto
  have cur: "pk_at pkarray (Suc (length fs)) = Some \<lparr>pk = a, ak = d\<rparr>"
    using pk_prefix [of "f # fs" pkarray hp] Cons.prems(2) by (simp add: f)
  have pre: "take (Suc (length fs)) pkarray = pks hp fs"
    by (rule pk_prefix_tail [of fs pkarray hp f]) (use Cons.prems(2) in simp)
  have above: "pk_at pkarray (length fs) = Some \<lparr>pk = up_addr hp fs, ak = up_dir fs\<rparr>"
    by (rule pk_prefix [OF pre])
  have a: "a \<noteq> 0" "h a = Some (cell d k b (root_of P) (root_of u))"
    using Cons.prems(1) by (auto simp: f holds_at_def)
  note bal = balance_of_cell [where h = h and a = a, OF a(2)]
  have top: "holds_at (h(a \<mapsto> cell d k c (root_of P) (root_of u))) hp n (side_node d (a, k, c) P u) fs" for c
    using set_top [of h hp n P d a k b u fs c] Cons.prems(1)
      holds_at_append [of "[Frame d a k c u]" fs "h(a \<mapsto> cell d k c (root_of P) (root_of u))" hp n P] sd by (simp add: f)
  have ent: "entries (plug N fs) = entries (plug P (f # fs))" if "entries N = entries (side_node d (a, k, b) P u)" for N
    by (simp add: f entries_plug that)
  have old: "avl (plug (side_node d (a, k, b) P0 u) fs)" using Cons.prems(5) by (simp add: f)
  have "avl (side_node d (a, k, b) P0 u)" by (rule avl_plug_inner [OF old sd(2)])
  then have b: "b = d * (int (height P) + 1 - int (height u))" "b = d \<or> b = 0 \<or> b = - d" "avl u"
    using sd(1) Cons.prems(6) by (auto simp: avl_side side_def)
  have dd: "d \<noteq> 0" "- d \<noteq> d" using sd by (auto simp: side_def)
  have same: "rebalanced hp n (plug P0 (f # fs)) (plug P (f # fs)) = rebalanced hp n (plug (side_node d (a, k, b) P0 u) fs) (plug N fs)"
    if "entries N = entries (side_node d (a, k, b) P u)" for N
    using ent [OF that] by (simp add: f rebalanced_def fun_eq_iff)
  from b(2) show ?case
  proof (elim disjE)
    assume c: "b = d"
    let ?N = "side_node d (a, k, 0) P u"
    have N: "avl ?N" "height (side_node d (a, k, b) P0 u) = Suc (height ?N)" "entries ?N = entries (side_node d (a, k, b) P u)"
      using b(1,3) c sd(1) Cons.prems(4,6) by (auto simp: avl_side side_def entries_side)
    have step: "tdelete_balance hp pkarray (length (f # fs)) h =
        tdelete_balance hp pkarray (length fs) (h(a \<mapsto> cell d k 0 (root_of P) (root_of u)))"
      using cur bal c a(1) by simp
    show ?thesis unfolding same [OF N(3)] step by (rule Cons.IH [OF top pre sd(2) N(1) old N(2)])
  next
    assume c: "b = 0"
    let ?N = "side_node d (a, k, - d) P u"
    have N: "avl ?N" "height ?N = height (side_node d (a, k, b) P0 u)" "entries ?N = entries (side_node d (a, k, b) P u)"
      using b(1,3) c sd(1) Cons.prems(4,6) by (auto simp: avl_side side_def entries_side)
    have step: "tdelete_balance hp pkarray (length (f # fs)) h = Some (h(a \<mapsto> cell d k (- d) (root_of P) (root_of u)))"
      using cur bal c a(1) dd by simp
    show ?thesis unfolding same [OF N(3)] step by (rule rebalanced_plug [OF top N(1,2) refl old sd(2)])
  next
    assume c: "b = - d"
    have hts: "height u = height P + 2" using b(1) c sd(1) by (auto simp: side_def)
    have "holds_at h hp n (side_node (- d) (a, k, - d) u P) fs"
      using Cons.prems(1) holds_at_append [of "[f]" fs h hp n P] sd c by (simp add: f flip_side)
    from delete_rotation [OF this sd(2) _ b(3) Cons.prems(4) hts] sd(1)
    obtain go h3 N where N: "tdelete_rotate h a (- d) (up_addr hp fs) (up_dir fs) = Some (go, h3)" "holds_at h3 hp n N fs"
        "avl N" "height N = (if go then height P + 2 else height P + 3)" "entries N = entries (side_node d (a, k, b) P u)"
      by (auto simp: flip_side c)
    have step: "tdelete_balance hp pkarray (length (f # fs)) h =
        (if go then tdelete_balance hp pkarray (length fs) h3 else Some h3)"
      using cur above bal(1) c a(1) dd N(1) by simp
    have ht: "height (side_node d (a, k, b) P0 u) = height P + 3" using hts Cons.prems(6) by simp
    show ?thesis unfolding step same [OF N(5)]
      using Cons.IH [OF N(2) pre sd(2) N(3) old] rebalanced_plug [OF N(2,3) _ refl old sd(2)] N(4) ht by auto
  qed
qed

subsection \<open>The way down\<close>

lemma take_put: "i < length xs \<Longrightarrow> take (Suc i) (xs[i := x]) = take i xs @ [x]"
  by (simp add: take_Suc_conv_app_nth)

text \<open>The comparison function returns nothing but the three signs.\<close>

definition sign_valued :: "'k bal_compar \<Rightarrow> bool" where
  "sign_valued compar \<longleftrightarrow> (\<forall>x y. compar x y \<in> {- 1, 0, 1})"

lemma sign_valued_sgn: "sign_valued compar \<Longrightarrow> sgn (compar x y) = compar x y"
  unfolding sign_valued_def by (metis insert_iff sgn_0 sgn_1 sgn_minus empty_iff)

lemma tdelete_down_steps:
  assumes "h p = Some e" "p \<noteq> 0" "compar key (keyptr e) = kc" "pk_put pkarray (k + 1) p kc = Some pkarray1"
  shows "kc = 0 \<Longrightarrow> tdelete_down compar key h pkarray k p = Some (p, pkarray1, k + 1)"
    "kc \<noteq> 0 \<Longrightarrow> getlink h p kc = Some q \<Longrightarrow>
       tdelete_down compar key h pkarray k p = tdelete_down compar key h pkarray1 (k + 1) q"
  using assms by (subst tdelete_down.simps, simp)+

lemma height_plug_le: "length fs + height t \<le> height (plug t fs)"
proof (induction fs arbitrary: t)
  case (Cons f fs)
  have "Suc (height t) \<le> height (fill f t)" by (cases f) simp
  then show ?case using Cons.IH [of "fill f t"] by simp
qed simp

definition delete_found where
  "delete_found compar key hp T res \<longleftrightarrow> (\<exists>l a k b r fs pkarray.
     res = Some (a, pkarray, Suc (length fs)) \<and> T = plug (Node l (a, k, b) r) fs \<and> compar (Some key) (Some k) = 0 \<and>
     sides fs \<and> take (Suc (length fs)) pkarray = pks hp fs \<and> Suc (Suc (height T)) < length pkarray)"

definition delete_missed where
  "delete_missed compar key T res \<longleftrightarrow> (\<exists>fs pkarray k. res = Some (0, pkarray, k) \<and> T = plug Leaf fs \<and>
     (\<forall>g \<in> set fs. on_path compar key g) \<and> sides fs)"

lemma tdelete_down_spec:
  assumes "cells h P" "sign_valued compar" "\<forall>g \<in> set gs. on_path compar key g" "sides gs"
    "take (Suc (length gs)) pkarray = pks hp gs" "Suc (Suc (height (plug P gs))) < length pkarray"
  shows "delete_found compar key hp (plug P gs) (tdelete_down compar (Some key) h pkarray (length gs) (root_of P)) \<or>
    delete_missed compar key (plug P gs) (tdelete_down compar (Some key) h pkarray (length gs) (root_of P))"
  using assms
proof (induction P arbitrary: gs pkarray)
  case Leaf
  have "tdelete_down compar (Some key) h pkarray (length gs) 0 = Some (0, pkarray, length gs)"
    by (subst tdelete_down.simps) simp
  then show ?case using Leaf.prems by (auto simp: delete_missed_def)
next
  case (Node l x r)
  obtain a k b where x: "x = (a, k, b)" by (cases x)
  let ?P = "Node l (a, k, b) r"
  have ha: "h a = Some (cell 1 k b (root_of r) (root_of l))" "a \<noteq> 0" "cells h ?P" using Node.prems(1) x by auto
  define kc where "kc = compar (Some key) (Some k)"
  have step: "compar (Some key) (keyptr (cell 1 k b (root_of r) (root_of l))) = kc" by (simp add: kc_def)
  let ?pk = "pkarray[Suc (length gs) := \<lparr>pk = a, ak = kc\<rparr>]"
  have len: "Suc (length gs) < length pkarray"
    using Node.prems(6) height_plug_le [of gs ?P] by (simp add: x)
  then have put: "pk_put pkarray (length gs + 1) a kc = Some ?pk" by (simp add: pk_put_def)
  note steps = tdelete_down_steps [where h = h and p = a and compar = compar and key = "Some key" and k = "length gs", OF ha(1,2) step put]
  show ?case
  proof (cases "kc = 0")
    case True
    have "delete_found compar key hp (plug ?P gs) (tdelete_down compar (Some key) h pkarray (length gs) a)"
      unfolding delete_found_def using steps(1) True Node.prems(4-6) kc_def x
      by (intro exI [of _ l] exI [of _ a] exI [of _ k] exI [of _ b] exI [of _ r] exI [of _ gs] exI [of _ ?pk]) simp
    then show ?thesis by (simp add: x)
  next
    case False
    obtain C u where C: "?P = fill (Frame (sgn kc) a k b u) C" "on_path compar key (Frame (sgn kc) a k b u)"
        "cells h C" "getlink h a kc = Some (root_of C)" "C = l \<or> C = r"
      using descent_step [OF _ refl, of h l a k b r compar key kc] ha(3) False kc_def by metis
    let ?f = "Frame (sgn kc) a k b u"
    have sg: "sgn kc = kc" using sign_valued_sgn [OF Node.prems(2)] kc_def by simp
    have IH: "\<And>gs pkarray. \<forall>g \<in> set gs. on_path compar key g \<Longrightarrow> sides gs \<Longrightarrow>
        take (Suc (length gs)) pkarray = pks hp gs \<Longrightarrow> Suc (Suc (height (plug C gs))) < length pkarray \<Longrightarrow>
        delete_found compar key hp (plug C gs) (tdelete_down compar (Some key) h pkarray (length gs) (root_of C)) \<or>
        delete_missed compar key (plug C gs) (tdelete_down compar (Some key) h pkarray (length gs) (root_of C))"
      using C(5) Node.IH C(3) Node.prems(2) by blast
    have plugs: "plug ?P gs = plug C (?f # gs)" using C(1) by simp
    have "take (Suc (length (?f # gs))) ?pk = pks hp (?f # gs)"
      using take_put [OF len] Node.prems(5) sg by simp
    moreover have "\<forall>g \<in> set (?f # gs). on_path compar key g" "sides (?f # gs)"
      using Node.prems(3,4) C(2) side_sgn [OF False] by auto
    ultimately show ?thesis
      using IH [of "?f # gs" ?pk] Node.prems(6) steps(2) [OF False C(4)] plugs by (simp add: x)
  qed
qed

subsection \<open>Taking the entry out\<close>

definition unlinked where
  "unlinked hp n T rest res \<longleftrightarrow> (\<exists>P P0 fs pkarray h. res = Some (length fs, pkarray, h) \<and> holds_at h hp n P fs \<and>
     take (Suc (length fs)) pkarray = pks hp fs \<and> sides fs \<and> avl P \<and> avl (plug P0 fs) \<and>
     height P0 = Suc (height P) \<and> height (plug P0 fs) = height T \<and> entries (plug P fs) = rest)"

lemma unlink_child:
  assumes at: "holds_at h hp n (Node l (a, k, b) r) fs" "sides fs" and av: "avl (plug (Node l (a, k, b) r) fs)"
    and pkv: "take (Suc (length fs)) pkarray = pks hp fs" and leaf: "l = Leaf \<and> c = r \<or> r = Leaf \<and> c = l"
  shows "unlinked hp n (plug (Node l (a, k, b) r) fs) (pre fs @ entries c @ post fs)
    (do { h1 \<leftarrow> setlink h (up_addr hp fs) (up_dir fs) (root_of c); h2 \<leftarrow> free_entry h1 a; Some (length fs, pkarray, h2) })"
proof -
  let ?M = "Node l (a, k, b) r"
  let ?h = "h(a := None)"
  have c: "cells h c" "a \<notin> set (addrs c)" "distinct (addrs c)" "set (addrs c) \<subseteq> set (addrs ?M)" "h a \<noteq> None"
    using at(1) leaf by (auto simp: holds_at_def)
  obtain e where e: "h (up_addr hp fs) = Some e"
      "holds_at (?h(up_addr hp fs \<mapsto> relinked e (up_dir fs) (root_of c))) hp n c fs"
    using replace_at [OF at, of ?h c] c by auto
  have ne: "up_addr hp fs \<noteq> a" using up_addr_in [of hp fs] at(1) by (auto simp: holds_at_def)
  have avM: "avl ?M" by (rule avl_plug_inner [OF av at(2)])
  then have ht: "avl c" "height ?M = Suc (height c)" using leaf by auto
  have run: "(do { h1 \<leftarrow> setlink h (up_addr hp fs) (up_dir fs) (root_of c); h2 \<leftarrow> free_entry h1 a; Some (length fs, pkarray, h2) }) =
      Some (length fs, pkarray, ?h(up_addr hp fs \<mapsto> relinked e (up_dir fs) (root_of c)))"
    using setlink_relinked [where h = h and a = "up_addr hp fs", OF e(1)] ne c(5) by (auto simp: free_entry_def fun_upd_twist)
  show ?thesis unfolding unlinked_def run using e(2) pkv at(2) ht av
    by (intro exI [of _ c] exI [of _ ?M] exI [of _ fs] exI [of _ pkarray]
        exI [of _ "?h(up_addr hp fs \<mapsto> relinked e (up_dir fs) (root_of c))"]) (simp add: entries_plug)
qed

lemma unlink_near:
  assumes at: "holds_at h hp n (Node l (a, k, b) (Node Leaf (ra, rk, rb) rr)) fs" "sides fs"
    and av: "avl (plug (Node l (a, k, b) (Node Leaf (ra, rk, rb) rr)) fs)"
    and pkv: "take (Suc (length fs)) pkarray = pks hp fs" and len: "Suc (length fs) < length pkarray"
  shows "unlinked hp n (plug (Node l (a, k, b) (Node Leaf (ra, rk, rb) rr)) fs)
    (pre fs @ entries l @ entries (Node Leaf (ra, rk, rb) rr) @ post fs)
    (do { h1 \<leftarrow> setlink h ra (- 1) (root_of l);
          h2 \<leftarrow> setlink h1 (up_addr hp fs) (up_dir fs) ra;
          pkarray1 \<leftarrow> pk_put pkarray (Suc (length fs)) ra 1;
          b \<leftarrow> get_balance h2 a;
          h3 \<leftarrow> set_balance h2 ra b;
          h4 \<leftarrow> free_entry h3 a;
          Some (Suc (length fs), pkarray1, h4) })"
    (is "unlinked hp n (plug ?M fs) ?rest ?run")
proof -
  let ?r = "Node Leaf (ra, rk, rb) rr"
  let ?N = "Node l (ra, rk, b) rr"
  let ?f = "Frame 1 ra rk b l"
  let ?h = "h(ra \<mapsto> cell 1 rk b (root_of rr) (root_of l), a := None)"
  have c: "h a = Some (cell 1 k b ra (root_of l))" "h ra = Some (cell 1 rk rb (root_of rr) 0)" "a \<noteq> ra"
    using at(1) by (auto simp: holds_at_def)
  have "cells ?h ?N" "set (addrs ?N) \<subseteq> set (addrs ?M)" "distinct (addrs ?N)" using at(1) by (auto simp: holds_at_def)
  then obtain e where e: "h (up_addr hp fs) = Some e"
      "holds_at (?h(up_addr hp fs \<mapsto> relinked e (up_dir fs) ra)) hp n ?N fs"
    using replace_at [OF at, of ?h ?N] by auto
  let ?h' = "?h(up_addr hp fs \<mapsto> relinked e (up_dir fs) ra)"
  have ne: "up_addr hp fs \<noteq> a" "up_addr hp fs \<noteq> ra" using up_addr_in [of hp fs] at(1) by (auto simp: holds_at_def)
  have run: "?run = Some (Suc (length fs), pkarray[Suc (length fs) := \<lparr>pk = ra, ak = 1\<rparr>], ?h')"
    using c ne len e(1) link_of_cell(4) [of 1 h ra rk rb "root_of rr" 0 "root_of l"]
    by (simp add: pk_put_def free_entry_def setlink_relinked get_balance_def set_balance_def fun_upd_twist cell_def)
  have "holds_at ?h' hp n rr (?f # fs)"
    using e(2) holds_at_append [of "[?f]" fs ?h' hp n rr] at(2) by (simp add: side_node_def)
  moreover have "take (Suc (length (?f # fs))) (pkarray[Suc (length fs) := \<lparr>pk = ra, ak = 1\<rparr>]) = pks hp (?f # fs)"
    using take_put [OF len] pkv by simp
  moreover have "avl ?M" by (rule avl_plug_inner [OF av at(2)])
  then have av2: "avl (plug (Node l (ra, rk, b) ?r) fs) \<and> height (plug (Node l (ra, rk, b) ?r) fs) = height (plug ?M fs)"
    by (intro avl_plug_same [OF av at(2)]) auto
  ultimately show ?thesis unfolding unlinked_def run using \<open>avl ?M\<close> at(2)
    by (intro exI [of _ rr] exI [of _ ?r] exI [of _ "?f # fs"] exI [of _ "pkarray[Suc (length fs) := \<lparr>pk = ra, ak = 1\<rparr>]"]
        exI [of _ ?h']) (simp add: entries_plug side_node_def)
qed

subsection \<open>The next entry in the place of the deleted one\<close>

lemma leftmost_steps:
  assumes "getlink h s (- 1) = Some x"
  shows "x = 0 \<Longrightarrow> leftmost_loop h pkarray k2 r s = Some (r, s, pkarray, k2)"
    "x \<noteq> 0 \<Longrightarrow> pk_put pkarray (k2 + 1) s (- 1) = Some pkarray1 \<Longrightarrow>
       leftmost_loop h pkarray k2 r s = leftmost_loop h pkarray1 (k2 + 1) s x"
  using assms by (subst leftmost_loop.simps, simp)+

definition pk_of :: "'k frame \<Rightarrow> pkrecord" where
  "pk_of f = \<lparr>pk = fadr f, ak = fdir f\<rparr>"

lemma pks_append: "pks hp (ls @ gs) = pks hp gs @ map pk_of (rev ls)"
  by (induction ls) (auto simp: pk_of_def)

definition leftmost_found where
  "leftmost_found S k2 r pkarray res \<longleftrightarrow> (\<exists>ls s sk sb sr pkarray1. S = plug (Node Leaf (s, sk, sb) sr) ls \<and>
     (\<forall>f \<in> set ls. fdir f = - 1) \<and> res = Some (if ls = [] then r else fadr (hd ls), s, pkarray1, k2 + length ls) \<and>
     length pkarray1 = length pkarray \<and>
     take (Suc (k2 + length ls)) pkarray1 = take (Suc k2) pkarray @ map pk_of (rev ls))"

lemma leftmost_spec:
  assumes "cells h S" "S \<noteq> Leaf" "k2 + height S < length pkarray"
  shows "leftmost_found S k2 r pkarray (leftmost_loop h pkarray k2 r (root_of S))"
  using assms
proof (induction S arbitrary: k2 r pkarray)
  case (Node l x u)
  obtain a k b where x: "x = (a, k, b)" by (cases x)
  have ha: "h a = Some (cell 1 k b (root_of u) (root_of l))" "cells h l" using Node.prems(1) x by auto
  have lk: "getlink h a (- 1) = Some (root_of l)" by (rule link_of_cell(2) [where h = h and a = a, OF _ ha(1)]) simp
  show ?case
  proof (cases "l = Leaf")
    case True
    have "leftmost_loop h pkarray k2 r a = Some (r, a, pkarray, k2)" using leftmost_steps(1) [OF lk] True by simp
    then show ?thesis unfolding leftmost_found_def x True
      by (intro exI [of _ "[]"] exI [of _ a] exI [of _ k] exI [of _ b] exI [of _ u] exI [of _ pkarray]) simp
  next
    case False
    let ?f = "Frame (- 1) a k b u"
    let ?pk = "pkarray[Suc k2 := pk_of ?f]"
    have len: "Suc k2 < length pkarray" using Node.prems(3) False by (cases l) auto
    have "root_of l \<noteq> 0" using root_zero [OF ha(2)] False by simp
    then have loop: "leftmost_loop h pkarray k2 r a = leftmost_loop h ?pk (Suc k2) a (root_of l)"
      using leftmost_steps(2) [OF lk] len by (simp add: pk_put_def pk_of_def)
    have "leftmost_found l (Suc k2) a ?pk (leftmost_loop h ?pk (Suc k2) a (root_of l))"
      using Node.IH(1) [OF ha(2) False, of "Suc k2" ?pk a] Node.prems(3) by simp
    then obtain ls s sk sb sr pk1 where ls: "l = plug (Node Leaf (s, sk, sb) sr) ls" "\<forall>f \<in> set ls. fdir f = - 1"
        "leftmost_loop h ?pk (Suc k2) a (root_of l) = Some (if ls = [] then a else fadr (hd ls), s, pk1, Suc k2 + length ls)"
        "length pk1 = length pkarray" "take (Suc (Suc k2 + length ls)) pk1 = take (Suc (Suc k2)) ?pk @ map pk_of (rev ls)"
      unfolding leftmost_found_def by auto
    have "take (Suc (k2 + length (ls @ [?f]))) pk1 = take (Suc k2) pkarray @ map pk_of (rev (ls @ [?f]))"
      using ls(5) take_put [OF len, of "pk_of ?f"] by simp
    moreover have "Node l x u = plug (Node Leaf (s, sk, sb) sr) (ls @ [?f])" using ls(1) by (simp add: x side_node_def)
    moreover have "leftmost_loop h pkarray k2 r a = Some (fadr (hd (ls @ [?f])), s, pk1, k2 + length (ls @ [?f]))"
      using loop ls(3) by (simp add: hd_append)
    ultimately show ?thesis unfolding leftmost_found_def using ls(2,4)
      by (intro exI [of _ "ls @ [?f]"] exI [of _ s] exI [of _ sk] exI [of _ sb] exI [of _ sr] exI [of _ pk1]) (simp add: x)
  qed
qed simp

text \<open>The statements of the rearrangement on the four cells they change: \<open>m\<close> is the parent of \<open>s\<close>.\<close>

lemma rearrange_run:
  assumes "distinct [p, s, m, pp]" "h p = Some (cell 1 k b r0 lx)" "h s = Some (cell 1 sk sb srx 0)"
    "h m = Some (cell (- 1) mk mb s ux)" "h pp = Some e" "getlink h r0 (- 1) = Some s0"
    "pk_put pkarray (i + 1) r0 (- 1) = Some pk1" "leftmost_loop h pk1 (i + 1) r0 s0 = Some (m, s, pk2, k2)"
    "pk_put pk2 i s 1 = Some pk3"
  shows "rearrange_tree_so_p_llink_null pkarray i p pp ppak h = Some (k2, pk3,
    h(m \<mapsto> cell (- 1) mk mb srx ux, s \<mapsto> cell 1 sk b r0 lx, p := None, pp \<mapsto> relinked e ppak s))"
proof -
  have p: "getlink h p 1 = Some r0" "getlink h p (- 1) = Some lx" "get_balance h p = Some b" "get_balance h s = Some sb"
    using assms(2,3) by (simp_all add: getlink_def get_balance_def cell_def)
  show ?thesis unfolding rearrange_tree_so_p_llink_null_def p Option.bind_lunit assms(6-8)
    using assms(1-5,9)
    by (simp add: setlink_def getlink_def get_balance_def set_balance_def free_entry_def cell_def relinked_def fun_upd_twist)
qed

fun fr_cells :: "'k bal_heap \<Rightarrow> addr \<Rightarrow> 'k frame list \<Rightarrow> bool" where
  "fr_cells h x [] = True"
| "fr_cells h x (Frame d a k b u # fs) \<longleftrightarrow>
     a \<noteq> 0 \<and> h a = Some (cell d k b x (root_of u)) \<and> cells h u \<and> fr_cells h a fs"

lemma ctx_cells_append: "ctx_cells h hp n x (ls @ gs) \<longleftrightarrow>
    fr_cells h x ls \<and> ctx_cells h hp n (if ls = [] then x else fadr (last ls)) gs"
proof (induction ls arbitrary: x)
  case (Cons f ls)
  then show ?case by (cases f) auto
qed simp

lemma fr_cells_upd [simp]: "a \<notin> set (ctx_addrs fs) \<Longrightarrow> fr_cells (h(a := v)) x fs = fr_cells h x fs"
  by (induction fs arbitrary: x rule: ctx_addrs.induct) auto

lemma ctx_addrs_append [simp]: "ctx_addrs (xs @ ys) = ctx_addrs xs @ ctx_addrs ys"
  by (induction xs rule: ctx_addrs.induct) auto

text \<open>
  In the heap, \<open>s\<close> takes the place of \<open>p\<close>, and its right subtree \<open>sr\<close> the place of \<open>s\<close>.
\<close>

lemma rearranged_heap:
  assumes at: "holds_at h hp n (Node Leaf (s, sk, sb) sr) (Frame d m mk mb ux # ls @ Frame 1 p k b l # fs)" and sd: "sides fs"
  defines "h1 \<equiv> h(m \<mapsto> cell d mk mb (root_of sr) (root_of ux),
    s \<mapsto> cell 1 sk b (fadr (last (Frame d m mk mb ux # ls))) (root_of l), p := None)"
  shows "\<exists>e. h (up_addr hp fs) = Some e \<and> distinct [p, s, m, up_addr hp fs] \<and>
    holds_at (h1(up_addr hp fs \<mapsto> relinked e (up_dir fs) s)) hp n sr (Frame d m mk mb ux # ls @ Frame 1 s sk b l # fs)"
proof -
  let ?f = "Frame d m mk mb ux"
  have dis: "distinct (hp # (s # addrs sr) @ (m # addrs ux @ ctx_addrs ls) @ (p # addrs l) @ ctx_addrs fs)"
    using at by (auto simp: holds_at_def)
  have was: "s \<noteq> 0" "cells h sr" "fr_cells h s (?f # ls)" "cells h l" "ctx_cells h hp n p fs" "hp \<noteq> 0"
    using at ctx_cells_append [of h hp n s "?f # ls"] by (auto simp: holds_at_def)
  have "ctx_cells h1 hp n p fs" using was(5) dis by (auto simp: h1_def)
  then obtain e where e: "h1 (up_addr hp fs) = Some e" "ctx_cells (h1(up_addr hp fs \<mapsto> relinked e (up_dir fs) s)) hp n s fs"
    using relink_hole [of h1 hp n p fs s] sd dis by auto
  let ?pp = "up_addr hp fs"
  have out: "?pp \<notin> set ((s # addrs sr) @ (m # addrs ux @ ctx_addrs ls) @ (p # addrs l))"
    using up_addr_in [of hp fs] dis by auto
  let ?h = "h1(?pp \<mapsto> relinked e (up_dir fs) s)"
  have "fr_cells ?h (root_of sr) (?f # ls)" "cells ?h sr" "cells ?h l"
    "?h s = Some (cell 1 sk b (fadr (last (?f # ls))) (root_of l))"
    using was dis out by (auto simp: h1_def)
  then have "holds_at ?h hp n sr ((?f # ls) @ Frame 1 s sk b l # fs)"
    unfolding holds_at_def ctx_cells_append using was(1,6) e(2) dis by auto
  moreover have "h ?pp = Some e" using e(1) out by (simp add: h1_def)
  ultimately show ?thesis using out dis by auto
qed

text \<open>The whole case: the right subtree is \<open>plug (Node Leaf (s, sk, sb) sr) (f # ls)\<close>.\<close>

lemma rearranged_tree:
  assumes "T = plug (Node l (a, k, b) (plug (Node Leaf (s, sk, sb) sr) ls)) fs" "sides fs" "avl T"
    "\<forall>f \<in> set ls. fdir f = - 1"
  shows "avl (plug (Node Leaf (s, sk, sb) sr) (ls @ Frame 1 s sk b l # fs))"
    "height (plug (Node Leaf (s, sk, sb) sr) (ls @ Frame 1 s sk b l # fs)) = height T" "avl sr"
    "entries (plug sr (ls @ Frame 1 s sk b l # fs)) =
       pre fs @ entries l @ entries (plug (Node Leaf (s, sk, sb) sr) ls) @ post fs"
proof -
  let ?r = "plug (Node Leaf (s, sk, sb) sr) ls"
  have avM: "avl (Node l (a, k, b) ?r)" using avl_plug_inner assms(1-3) by blast
  then have "avl (Node l (s, sk, b) ?r)" "height (Node l (s, sk, b) ?r) = height (Node l (a, k, b) ?r)" by auto
  then have "avl (plug (Node l (s, sk, b) ?r) fs) \<and> height (plug (Node l (s, sk, b) ?r) fs) = height T"
    using avl_plug_same [of _ fs] assms(1-3) by blast
  moreover have "plug (Node Leaf (s, sk, sb) sr) (ls @ Frame 1 s sk b l # fs) = plug (Node l (s, sk, b) ?r) fs"
    by (simp add: side_node_def)
  ultimately show "avl (plug (Node Leaf (s, sk, sb) sr) (ls @ Frame 1 s sk b l # fs))"
    "height (plug (Node Leaf (s, sk, sb) sr) (ls @ Frame 1 s sk b l # fs)) = height T" by simp_all
  have sl: "sides ls" using assms(4) by (auto simp: sides_def)
  have "avl ?r" using avM by simp
  then have "avl (Node Leaf (s, sk, sb) sr)" by (rule avl_plug_inner [OF _ sl])
  then show "avl sr" by simp
  have "pre ls = []" using assms(4) by (induction ls rule: ctx_addrs.induct) auto
  then show "entries (plug sr (ls @ Frame 1 s sk b l # fs)) = pre fs @ entries l @ entries ?r @ post fs"
    by (simp add: entries_plug side_node_def)
qed

text \<open>The array after the rearrangement.\<close>

lemma rearranged_array:
  fixes fs ls :: "'k frame list"
  assumes pkv: "take (Suc (length fs)) pkarray = pks hp fs" and len: "Suc (Suc (length fs)) < length pkarray"
    and pk2: "length pk2 = length pkarray" "take (Suc (Suc (Suc (length fs)) + length ls)) pk2 =
      take (Suc (Suc (Suc (length fs)))) (pkarray[Suc (Suc (length fs)) := pk_of fr]) @ map pk_of (rev ls)"
    and s: "pk_of fs0 = \<lparr>pk = s, ak = 1\<rparr>"
  shows "take (Suc (length ((ls @ [fr]) @ fs0 # fs))) (pk2[Suc (length fs) := \<lparr>pk = s, ak = 1\<rparr>]) =
    pks hp ((ls @ [fr]) @ fs0 # fs)"
proof -
  have two: "take (Suc (Suc (length fs))) pkarray = pks hp fs @ [pkarray ! Suc (length fs)]"
    using pkv len by (subst take_Suc_conv_app_nth) auto
  have "take (Suc (Suc (Suc (length fs)))) (pkarray[Suc (Suc (length fs)) := pk_of fr]) =
      pks hp fs @ [pkarray ! Suc (length fs)] @ [pk_of fr]"
    using take_put [OF len] two by simp
  then have "take (Suc (length ((ls @ [fr]) @ fs0 # fs))) pk2 =
      pks hp fs @ (pkarray ! Suc (length fs)) # pk_of fr # map pk_of (rev ls)"
    using pk2(2) by (simp add: add.commute)
  then have "take (Suc (length ((ls @ [fr]) @ fs0 # fs))) (pk2[Suc (length fs) := \<lparr>pk = s, ak = 1\<rparr>]) =
      pks hp fs @ \<lparr>pk = s, ak = 1\<rparr> # pk_of fr # map pk_of (rev ls)"
    by (simp only: take_update_swap) (simp add: list_update_append)
  moreover have "pks hp ((ls @ [fr]) @ fs0 # fs) = pks hp fs @ pk_of fs0 # pk_of fr # map pk_of (rev ls)"
    by (simp add: pks_append) (simp add: pk_of_def)
  ultimately show ?thesis using s by simp
qed

lemma unlink_far:
  assumes at: "holds_at h hp n (Node l (a, k, b) (Node rl (r0, rk, rb) rr)) fs" "sides fs" "rl \<noteq> Leaf"
    and T: "T = plug (Node l (a, k, b) (Node rl (r0, rk, rb) rr)) fs" "avl T"
    and pkv: "take (Suc (length fs)) pkarray = pks hp fs" and len: "Suc (Suc (height T)) < length pkarray"
  shows "unlinked hp n T (pre fs @ entries l @ entries (Node rl (r0, rk, rb) rr) @ post fs)
    (rearrange_tree_so_p_llink_null pkarray (Suc (length fs)) a (up_addr hp fs) (up_dir fs) h)"
proof -
  let ?M = "Node l (a, k, b) (Node rl (r0, rk, rb) rr)"
  let ?i = "Suc (length fs)"
  let ?fr = "Frame (- 1) r0 rk rb rr"
  let ?pk1 = "pkarray[Suc ?i := pk_of ?fr]"
  have c: "h a = Some (cell 1 k b r0 (root_of l))" "h r0 = Some (cell 1 rk rb (root_of rr) (root_of rl))" "cells h rl"
    using at(1) by (auto simp: holds_at_def)
  have lr0: "getlink h r0 (- 1) = Some (root_of rl)"
    by (rule link_of_cell(2) [where h = h and a = r0, OF _ c(2)]) simp
  have "length fs + height ?M \<le> height T" using height_plug_le T(1) by blast
  then have lens: "Suc ?i < length pkarray" "Suc ?i + height rl < length ?pk1" using len by auto
  obtain ls s sk sb sr pk2 where ls: "rl = plug (Node Leaf (s, sk, sb) sr) ls" "\<forall>f \<in> set ls. fdir f = - 1"
      "leftmost_loop h ?pk1 (Suc ?i) r0 (root_of rl) = Some (if ls = [] then r0 else fadr (hd ls), s, pk2, Suc ?i + length ls)"
      "length pk2 = length pkarray" "take (Suc (Suc ?i + length ls)) pk2 = take (Suc (Suc ?i)) ?pk1 @ map pk_of (rev ls)"
    using leftmost_spec [OF c(3) at(3) lens(2), of r0] unfolding leftmost_found_def by auto
  let ?lt = "ls @ [?fr]"
  let ?S = "Node Leaf (s, sk, sb) sr"
  have r: "Node rl (r0, rk, rb) rr = plug ?S ?lt" using ls(1) by (simp add: side_node_def)
  have dirs: "\<forall>f \<in> set ?lt. fdir f = - 1" "sides ?lt" using ls(2) by (auto simp: sides_def)
  obtain f ft where f: "?lt = f # ft" by (cases ?lt) auto
  obtain d m mk mb ux where fx: "f = Frame d m mk mb ux" by (cases f)
  have m: "(if ls = [] then r0 else fadr (hd ls)) = m" "d = - 1" using f fx dirs(1) by (cases ls; auto)+
  have "Node l (a, k, b) (plug ?S ?lt) = plug ?S (?lt @ [Frame 1 a k b l])" by (simp add: side_node_def)
  then have "holds_at h hp n ?S (?lt @ Frame 1 a k b l # fs)"
    using at(1,2) holds_at_append [of "?lt @ [Frame 1 a k b l]" fs h hp n ?S] dirs(2) unfolding r by simp
  then have hole: "holds_at h hp n ?S (f # ft @ Frame 1 a k b l # fs)" using f by simp
  have hs: "h s = Some (cell 1 sk sb (root_of sr) 0)" "h m = Some (cell (- 1) mk mb s (root_of ux))"
      and r0: "fadr (last (f # ft)) = r0"
    using hole m(2) f [symmetric] by (auto simp: holds_at_def fx)
  obtain e where e: "h (up_addr hp fs) = Some e" "distinct [a, s, m, up_addr hp fs]"
      "holds_at (h(m \<mapsto> cell (- 1) mk mb (root_of sr) (root_of ux), s \<mapsto> cell 1 sk b r0 (root_of l), a := None,
         up_addr hp fs \<mapsto> relinked e (up_dir fs) s)) hp n sr (?lt @ Frame 1 s sk b l # fs)"
    using rearranged_heap [OF hole [unfolded fx] at(2)] r0 m(2) unfolding f fx by auto
  have puts: "pk_put pkarray (?i + 1) r0 (- 1) = Some ?pk1"
      "pk_put pk2 ?i s 1 = Some (pk2[?i := \<lparr>pk = s, ak = 1\<rparr>])"
    using lens(1) ls(4) by (simp_all add: pk_put_def pk_of_def)
  have loop: "leftmost_loop h ?pk1 (?i + 1) r0 (root_of rl) = Some (m, s, pk2, Suc ?i + length ls)"
    using ls(3) m(1) by simp
  note run = rearrange_run [OF e(2) c(1) hs e(1) lr0 puts(1) loop puts(2)]
  note tree = rearranged_tree [OF T(1) [unfolded r] at(2) T(2) dirs(1)]
  have arr: "take (Suc (length (?lt @ Frame 1 s sk b l # fs))) (pk2[?i := \<lparr>pk = s, ak = 1\<rparr>]) =
      pks hp (?lt @ Frame 1 s sk b l # fs)"
    by (rule rearranged_array [OF pkv lens(1) ls(4,5)]) (simp add: pk_of_def)
  have "height ?S = Suc (height sr)" "sides (?lt @ Frame 1 s sk b l # fs)" using dirs(2) at(2) by auto
  then show ?thesis unfolding unlinked_def run using e(3) arr tree r
    by (intro exI [of _ sr] exI [of _ ?S] exI [of _ "?lt @ Frame 1 s sk b l # fs"]
        exI [of _ "pk2[?i := \<lparr>pk = s, ak = 1\<rparr>]"] exI conjI) simp_all
qed

lemma tdelete_unlink_spec:
  assumes at: "holds_at h hp n (Node l (a, k, b) r) fs" "sides fs"
    and T: "T = plug (Node l (a, k, b) r) fs" "avl T"
    and pkv: "take (Suc (length fs)) pkarray = pks hp fs" and len: "Suc (Suc (height T)) < length pkarray"
  shows "unlinked hp n T (pre fs @ entries l @ entries r @ post fs)
    (tdelete_unlink pkarray (Suc (length fs)) a (up_addr hp fs) (up_dir fs) h)"
proof -
  have ha: "h a = Some (cell 1 k b (root_of r) (root_of l))" "cells h l" "cells h r" using at(1) by (auto simp: holds_at_def)
  have lr: "getlink h a (- 1) = Some (root_of l)" "getlink h a 1 = Some (root_of r)"
    using ha(1) by (simp_all add: getlink_def cell_def)
  have len2: "Suc (length fs) < length pkarray" using len height_plug_le [of fs "Node l (a, k, b) r"] T(1) by simp
  note zero = root_zero [OF ha(2)] root_zero [OF ha(3)]
  consider "r = Leaf" | "r \<noteq> Leaf" "l = Leaf" | ra rk rb rr where "r = Node Leaf (ra, rk, rb) rr" "l \<noteq> Leaf"
    | rl ra rk rb rr where "r = Node rl (ra, rk, rb) rr" "rl \<noteq> Leaf" "l \<noteq> Leaf"
    by (metis prod_cases3 tree.exhaust)
  then show ?thesis
  proof cases
    case 1
    then show ?thesis
      using unlink_child [OF at T(2) [unfolded T(1)] pkv, of l] lr by (simp add: tdelete_unlink_def T(1))
  next
    case 2
    then show ?thesis
      using unlink_child [OF at T(2) [unfolded T(1)] pkv, of r] lr zero by (simp add: tdelete_unlink_def T(1))
  next
    case 3
    have "getlink h ra (- 1) = Some 0" "ra \<noteq> 0" using ha(3) 3(1) by (simp_all add: getlink_def cell_def)
    then show ?thesis
      using unlink_near [OF at(1) [unfolded 3(1)] at(2) T(2) [unfolded T(1) 3(1)] pkv len2] lr zero 3
      by (simp add: tdelete_unlink_def T(1))
  next
    case 4
    have "getlink h ra (- 1) = Some (root_of rl)" "ra \<noteq> 0" "root_of rl \<noteq> 0"
      using ha(3) 4(1,2) root_zero [of h rl] by (auto simp: getlink_def cell_def)
    then show ?thesis
      using unlink_far [OF at(1) [unfolded 4(1)] at(2) 4(2) T(1) [unfolded 4(1)] T(2) pkv len] lr zero 4
      by (simp add: tdelete_unlink_def)
  qed
qed

subsection \<open>The height of a balanced tree\<close>

lemma avl_height_step:
  fixes x y :: nat
  assumes "m \<le> x ^ 2" "m \<le> 2 * y ^ 2"
  shows "2 * m \<le> (x + y) ^ 2"
proof -
  have "m \<le> 2 * x * y + y ^ 2"
  proof (cases "x \<le> y")
    case True
    then have "x * x \<le> x * y" by simp
    then show ?thesis using assms(1) unfolding power2_eq_square by linarith
  next
    case False
    then have "y * y \<le> x * y" by simp
    then show ?thesis using assms(2) unfolding power2_eq_square by linarith
  qed
  moreover have "(x + y) ^ 2 = x ^ 2 + (2 * x * y + y ^ 2)" by (simp add: power2_sum)
  ultimately show ?thesis using assms(1) by linarith
qed

lemma avl_height: "avl t \<Longrightarrow> 2 ^ height t \<le> (length (entries t) + 1) ^ 2"
proof (induction t rule: avl.induct)
  case (2 l a k b r)
  let ?x = "length (entries l) + 1" and ?y = "length (entries r) + 1"
  have IH: "2 ^ height l \<le> ?x ^ 2" "2 ^ height r \<le> ?y ^ 2" using 2 by simp_all
  have d: "height l \<le> Suc (height r)" "height r \<le> Suc (height l)" using 2(3) by auto
  have "(2::nat) ^ height l \<le> 2 * 2 ^ height r" "(2::nat) ^ height r \<le> 2 * 2 ^ height l"
    using power_increasing [OF d(1), of "2 :: nat"] power_increasing [OF d(2), of "2 :: nat"] by simp_all
  then have IH2: "2 ^ height l \<le> 2 * ?y ^ 2" "2 ^ height r \<le> 2 * ?x ^ 2" using IH by linarith+
  have "2 * 2 ^ height l \<le> (?x + ?y) ^ 2" by (rule avl_height_step [OF IH(1) IH2(1)])
  moreover have "2 * 2 ^ height r \<le> (?x + ?y) ^ 2"
    using avl_height_step [OF IH(2) IH2(2)] by (simp add: add.commute)
  ultimately show ?case by (simp add: max_def add_ac)
qed simp

lemma avl_height_128:
  assumes "avl t" "length (entries t) < 2 ^ 64"
  shows "height t \<le> 128"
proof -
  have "(2::nat) ^ height t \<le> (length (entries t) + 1) ^ 2" by (rule avl_height [OF assms(1)])
  also have "\<dots> \<le> (2 ^ 64) ^ 2" using assms(2) by (intro power_mono) simp_all
  also have "\<dots> = 2 ^ 128" by (simp flip: power_mult)
  finally show ?thesis by (rule power_le_imp_le_exp [rotated]) simp
qed

subsection \<open>The whole deletion\<close>

lemma ordered_inj:
  assumes "ordered rank t" "x \<in> set (entries t)" "y \<in> set (entries t)" "rank (snd x) = rank (snd y)"
  shows "x = y"
proof -
  have "sorted_wrt (\<lambda>x y. rank (snd x) < rank (snd y)) xs \<Longrightarrow> inj_on (\<lambda>x. rank (snd x)) (set xs)" for xs
    by (induction xs) (auto simp: inj_on_def)
  then show ?thesis using assms by (auto simp: ordered_def dest: inj_onD)
qed

lemma removed_order:
  assumes ord: "ordered rank (plug (Node l (a, k, b) r) fs)"
    and ents: "entries t' = pre fs @ entries l @ entries r @ post fs"
  shows "ordered rank t'"
    "set (entries t') = {x \<in> set (entries (plug (Node l (a, k, b) r) fs)). rank (snd x) \<noteq> rank k}"
proof -
  show "ordered rank t'" using ord unfolding ordered_def ents by (auto simp: entries_plug sorted_wrt_append)
  have "\<forall>x \<in> set (pre fs) \<union> set (entries l). rank (snd x) < rank k"
    "\<forall>x \<in> set (entries r) \<union> set (post fs). rank k < rank (snd x)"
    using ord unfolding ordered_def by (auto simp: entries_plug sorted_wrt_append)
  then have "\<forall>x \<in> set (entries t'). rank (snd x) \<noteq> rank k" unfolding ents by (metis Un_iff less_irrefl set_append)
  then show "set (entries t') = {x \<in> set (entries (plug (Node l (a, k, b) r) fs)). rank (snd x) \<noteq> rank k}"
    unfolding ents by (auto simp: entries_plug)
qed

lemma tdelete_taken:
  assumes st: "tree_state rank h head t" "head \<noteq> 0" and t: "t = plug (Node l (a, k, b) r) fs" "sides fs"
    and more: "fs \<noteq> [] \<or> l \<noteq> Leaf \<or> r \<noteq> Leaf"
    and pkv: "take (Suc (length fs)) pkarray = pks head fs" and len: "Suc (Suc (height t)) < length pkarray"
  shows "\<exists>k1 pkarray1 h1 h2 t'.
    tdelete_unlink pkarray (Suc (length fs)) a (up_addr head fs) (up_dir fs) h = Some (k1, pkarray1, h1) \<and>
    tdelete_balance head pkarray1 k1 h1 = Some h2 \<and> tree_state rank h2 head t' \<and>
    entries t' = pre fs @ entries l @ entries r @ post fs"
proof -
  have tr: "holds_tree h head (int (height t) - 1) t" "avl t" "ordered rank t" using st by (auto simp: tree_state_def)
  then have at: "holds_at h head (int (height t) - 1) (Node l (a, k, b) r) fs" using holds_at_tree [OF t(2)] t(1) by blast
  let ?rest = "pre fs @ entries l @ entries r @ post fs"
  obtain P P0 gs pkarray1 h1 where u: "tdelete_unlink pkarray (Suc (length fs)) a (up_addr head fs) (up_dir fs) h =
        Some (length gs, pkarray1, h1)" "holds_at h1 head (int (height t) - 1) P gs"
      "take (Suc (length gs)) pkarray1 = pks head gs" "sides gs" "avl P" "avl (plug P0 gs)"
      "height P0 = Suc (height P)" "height (plug P0 gs) = height t" "entries (plug P gs) = ?rest"
    using tdelete_unlink_spec [OF at t(2,1) tr(2) pkv len] unfolding unlinked_def by blast
  obtain h2 t' where b: "tdelete_balance head pkarray1 (length gs) h1 = Some h2"
      "holds_tree h2 head (int (height t') - 1) t'" "avl t'" "entries t' = ?rest"
    using tdelete_balance_spec [OF u(2-7)] u(8,9) unfolding rebalanced_def by auto
  have "pre fs @ post fs \<noteq> []" if "fs \<noteq> []" using that by (cases fs rule: ctx_addrs.cases) auto
  moreover have "entries u = [] \<longleftrightarrow> u = Leaf" for u :: "'a info tree" by (cases u rule: entries.cases) auto
  ultimately have "t' \<noteq> Leaf" using more b(4) by fastforce
  then have "tree_state rank h2 head t'"
    using b st(2) removed_order(1) [OF tr(3) [unfolded t(1)] b(4)] by (simp add: tree_state_def)
  then show ?thesis using u(1) b(1,4) by blast
qed

text \<open>The array is made for the depth of the tree and never written outside.\<close>

lemma array_made:
  assumes "tree_state rank h head t" "head \<noteq> 0" "length (entries t) < 2 ^ 64"
  shows "\<exists>e pkarray0. h head = Some e \<and> rlink e = root_of t \<and> nat ((treedepth e + 4) mod 2 ^ 64) = height t + 3 \<and>
    pk_put (replicate (height t + 3) \<lparr>pk = 0, ak = 0\<rparr>) 0 head 1 = Some pkarray0 \<and>
    take 1 pkarray0 = pks head [] \<and> length pkarray0 = height t + 3"
proof -
  have h: "h head = Some (head_cell (int (height t) - 1) (root_of t))" "avl t"
    using assms(1,2) by (auto simp: tree_state_def holds_tree_def)
  have "int (height t) + 3 < 2 ^ 64" using avl_height_128 [OF h(2) assms(3)] by simp
  then have "nat ((int (height t) - 1 + 4) mod 2 ^ 64) = height t + 3" by simp
  then show ?thesis using h(1) by (simp add: pk_put_def numeral_3_eq_3)
qed

lemma tdelete_inner_absent:
  assumes st: "tree_state rank h head t" "head \<noteq> 0" "length (entries t) < 2 ^ 64"
    and "fst (next_block ms) = 0 \<or>
      (\<forall>pkarray. take 1 pkarray = pks head [] \<and> length pkarray = height t + 3 \<longrightarrow>
        delete_missed compar key t (tdelete_down compar (Some key) h pkarray 0 (root_of t)))"
  shows "tdelete_inner compar (Some key) head h ms =
    Some (\<lparr>parent = 0, tree_empty = False, did_delete = False, left_heap = h\<rparr>, snd (next_block ms))"
proof -
  obtain e pk0 where e: "h head = Some e" "rlink e = root_of t" "nat ((treedepth e + 4) mod 2 ^ 64) = height t + 3"
      "pk_put (replicate (height t + 3) \<lparr>pk = 0, ak = 0\<rparr>) 0 head 1 = Some pk0"
      "take 1 pk0 = pks head []" "length pk0 = height t + 3"
    using array_made [OF st] by blast
  obtain block ms1 where ms: "next_block ms = (block, ms1)" by force
  note open_up = tdelete_inner_def e(1) Option.bind_lunit Let_def e(2) e(3) e(4) ms prod.case
  show ?thesis
  proof (cases "block = 0")
    case True
    then show ?thesis unfolding open_up by simp
  next
    case False
    then have "delete_missed compar key t (tdelete_down compar (Some key) h pk0 0 (root_of t))"
      using assms(4) e(5,6) ms by auto
    then obtain pkarray k where "tdelete_down compar (Some key) h pk0 0 (root_of t) = Some (0, pkarray, k)"
      by (auto simp: delete_missed_def)
    then show ?thesis unfolding open_up using False by simp
  qed
qed

lemma pk_below: "take (Suc (length fs)) pkarray = pks hp fs \<Longrightarrow> pk_at pkarray (Suc (length fs) - 1) =
    Some \<lparr>pk = up_addr hp fs, ak = up_dir fs\<rparr>"
  by (simp add: pk_prefix)

text \<open>The last entry.\<close>

lemma tdelete_last:
  assumes st: "tree_state rank h head t" "head \<noteq> 0" and t: "t = Node Leaf (a, k, b) Leaf"
    and inner: "tdelete_inner compar (Some key) head h ms =
      Some (\<lparr>parent = 0, tree_empty = True, did_delete = True, left_heap = h(a := None)\<rparr>, ms')"
  shows "dd_tdelete compar (Some key) (Some head) h ms = Some (0, Some 0, h(a := None, head := None), ms')"
proof -
  have h: "h head = Some (head_cell (int (height t) - 1) a)" "a \<noteq> head" "a \<noteq> 0"
    using st t by (auto simp: tree_state_def holds_tree_def)
  then show ?thesis using st(2) inner
    by (simp add: dd_tdelete_def getlink_def setlink_def free_entry_def)
qed

lemma root_entry:
  assumes "ordered rank t" "t = plug (Node l (a, k, b) r) fs" "rank k = rank key" "distinct (addrs t)"
  shows "key_entry rank key t (root_of t) \<longleftrightarrow> fs = []"
proof
  assume "fs = []"
  then show "key_entry rank key t (root_of t)" using assms(2,3) by (auto simp: key_entry_def)
next
  assume "key_entry rank key t (root_of t)"
  then obtain k' where "(root_of t, k') \<in> set (entries t)" "rank k' = rank k" using assms(3) by (auto simp: key_entry_def)
  moreover have "(a, k) \<in> set (entries t)" by (simp add: assms(2) entries_plug)
  ultimately have root: "root_of t = a" using ordered_inj [OF assms(1), of "(root_of t, k')" "(a, k)"] by auto
  show "fs = []"
  proof (rule ccontr)
    assume fs: "fs \<noteq> []"
    then have "last fs \<in> set fs" "root_of t = fadr (last fs)" by (simp_all add: assms(2) root_plug)
    moreover have "g \<in> set fs \<Longrightarrow> fadr g \<in> set (ctx_addrs fs)" for g
      by (induction fs rule: ctx_addrs.induct) auto
    ultimately show False using root assms(2,4) by auto
  qed
qed

definition deletes where
  "deletes rank key head t r head' t' \<longleftrightarrow>
     set (entries t') = {x \<in> set (entries t). rank (snd x) \<noteq> rank key} \<and>
     (if t' = Leaf then r = 0 \<and> head' = 0
      else head' = head \<and> (if key_entry rank key t (root_of t) then r = head else r \<in> set (addrs t')))"

lemma tdelete_found:
  assumes st: "tree_state rank h head t" "head \<noteq> 0" "length (entries t) < 2 ^ 64" and cmp: "compares compar rank"
    and ms: "fst (next_block ms) \<noteq> 0"
    and e: "h head = Some e" "rlink e = root_of t" "nat ((treedepth e + 4) mod 2 ^ 64) = height t + 3"
      "pk_put (replicate (height t + 3) \<lparr>pk = 0, ak = 0\<rparr>) 0 head 1 = Some pk0"
    and found: "delete_found compar key head t (tdelete_down compar (Some key) h pk0 0 (root_of t))"
  shows "\<exists>r head' h' t'. dd_tdelete compar (Some key) (Some head) h ms = Some (r, Some head', h', snd (next_block ms)) \<and>
    tree_state rank h' head' t' \<and> (\<exists>a. key_entry rank key t a) \<and> deletes rank key head t r head' t'"
proof -
  obtain l a k b r fs pkarray where d:
      "tdelete_down compar (Some key) h pk0 0 (root_of t) = Some (a, pkarray, Suc (length fs))"
      "t = plug (Node l (a, k, b) r) fs" "compar (Some key) (Some k) = 0" "sides fs"
      "take (Suc (length fs)) pkarray = pks head fs" "Suc (Suc (height t)) < length pkarray"
    using found unfolding delete_found_def by blast
  have tr: "holds_tree h head (int (height t) - 1) t" "avl t" "ordered rank t" using st by (auto simp: tree_state_def)
  have k: "rank k = rank key" using d(3) compares_iff [OF cmp, of key k] by simp
  have key: "\<exists>a. key_entry rank key t a" using k by (auto simp: key_entry_def d(2) entries_plug)
  have at: "holds_at h head (int (height t) - 1) (Node l (a, k, b) r) fs" using holds_at_tree [OF d(4)] tr(1) d(2) by blast
  have ha: "a \<noteq> 0" "h a = Some (cell 1 k b (root_of r) (root_of l))" "cells h l" "cells h r" using at by (auto simp: holds_at_def)
  have lr: "getlink h a (- 1) = Some (root_of l)" "getlink h a 1 = Some (root_of r)"
    using ha(2) by (simp_all add: getlink_def cell_def)
  have up: "up_addr head fs \<noteq> 0" using up_addr_in [of head fs] at tr(1) cells_zero [of h t] d(2) st(2) by (auto simp: holds_tree_def)
  obtain block ms1 where m: "next_block ms = (block, ms1)" by force
  note code = tdelete_inner_def e(1) Option.bind_lunit Let_def e(2) e(3) e(4) m prod.case d(1) lr pk_below [OF d(5)]
  show ?thesis
  proof (cases "fs = [] \<and> l = Leaf \<and> r = Leaf")
    case True
    have "tdelete_inner compar (Some key) head h ms =
        Some (\<lparr>parent = 0, tree_empty = True, did_delete = True, left_heap = h(a := None)\<rparr>, snd (next_block ms))"
      unfolding code using ms m True ha(1,2) by (simp add: free_entry_def)
    from tdelete_last [OF st(1,2) _ this] True d(2)
    have "dd_tdelete compar (Some key) (Some head) h ms = Some (0, Some 0, h(a := None, head := None), snd (next_block ms))" by simp
    then show ?thesis using key True d(2) k by (auto simp: deletes_def)
  next
    case False
    then have more: "fs \<noteq> [] \<or> l \<noteq> Leaf \<or> r \<noteq> Leaf" by blast
    obtain k1 pk1 h1 h2 t' where taken:
        "tdelete_unlink pkarray (Suc (length fs)) a (up_addr head fs) (up_dir fs) h = Some (k1, pk1, h1)"
        "tdelete_balance head pk1 k1 h1 = Some h2" "tree_state rank h2 head t'"
        "entries t' = pre fs @ entries l @ entries r @ post fs"
      using tdelete_taken [OF st(1,2) d(2,4) more d(5,6)] by blast
    have ne: "(root_of r = 0 \<and> Suc (length fs) = 1 \<and> root_of l = 0) = False"
      using more root_zero [OF ha(3)] root_zero [OF ha(4)] by auto
    then have inner: "tdelete_inner compar (Some key) head h ms =
        Some (\<lparr>parent = up_addr head fs, tree_empty = False, did_delete = True, left_heap = h2\<rparr>, snd (next_block ms))"
      unfolding code ne if_False using ms m taken(1,2) ha(1) by simp
    have "root_of t \<noteq> 0" "t \<noteq> Leaf" using st(1,2) root_zero [of h t] by (auto simp: tree_state_def holds_tree_def)
    then have "dd_tdelete compar (Some key) (Some head) h ms = Some (up_addr head fs, Some head, h2, snd (next_block ms))"
      using inner st(2) up search_from_root(1) [OF st(1,2)] by (simp add: dd_tdelete_def)
    moreover have "deletes rank key head t (up_addr head fs) head t'"
    proof -
      have "set (entries t') = {x \<in> set (entries t). rank (snd x) \<noteq> rank key}"
        using removed_order(2) [OF tr(3) [unfolded d(2)] taken(4)] by (simp add: k d(2))
      moreover have "t' \<noteq> Leaf" using taken(3) st(2) by (simp add: tree_state_def)
      moreover have "fs \<noteq> [] \<Longrightarrow> up_addr head fs \<in> set (addrs t')"
        unfolding addrs_def taken(4) by (cases fs rule: ctx_addrs.cases) (auto simp: image_iff)
      moreover have "key_entry rank key t (root_of t) \<longleftrightarrow> fs = []"
        using root_entry [OF tr(3) d(2) k] tr(1) by (auto simp: holds_tree_def)
      ultimately show ?thesis by (simp add: deletes_def)
    qed
    ultimately show ?thesis using taken(3) key by blast
  qed
qed

lemma tdelete_spec:
  assumes st: "tree_state rank h head t" and cmp: "compares compar rank" and sv: "sign_valued compar"
    and len: "length (entries t) < 2 ^ 64"
  shows "\<exists>r head' h' t'. dd_tdelete compar (Some key) (Some head) h ms =
      Some (r, Some head', h', if t = Leaf then ms else snd (next_block ms)) \<and>
    tree_state rank h' head' t' \<and>
    (if fst (next_block ms) \<noteq> 0 \<and> (\<exists>a. key_entry rank key t a) then deletes rank key head t r head' t'
     else r = 0 \<and> head' = head \<and> h' = h \<and> t' = t)"
proof (cases "head = 0")
  case True
  then show ?thesis using st by (simp add: dd_tdelete_def key_entry_def)
next
  case False
  have tr: "t \<noteq> Leaf" "cells h t" "ordered rank t" using st False by (auto simp: tree_state_def holds_tree_def)
  have down: "delete_found compar key head t (tdelete_down compar (Some key) h pkarray 0 (root_of t)) \<or>
      delete_missed compar key t (tdelete_down compar (Some key) h pkarray 0 (root_of t))"
    if "take 1 pkarray = pks head [] \<and> length pkarray = height t + 3" for pkarray
    using tdelete_down_spec [OF tr(2) sv, of "[]" key pkarray head] that by simp
  have absent: ?thesis
    if "fst (next_block ms) = 0 \<or> \<not> (\<exists>a. key_entry rank key t a)"
      "fst (next_block ms) = 0 \<or> (\<forall>pkarray. take 1 pkarray = pks head [] \<and> length pkarray = height t + 3 \<longrightarrow>
        delete_missed compar key t (tdelete_down compar (Some key) h pkarray 0 (root_of t)))"
    using tdelete_inner_absent [OF st False len that(2)] that(1) st False search_from_root(1) [OF st False] tr(1)
      root_zero [OF tr(2)] by (auto simp: dd_tdelete_def)
  obtain e pk0 where e: "h head = Some e" "rlink e = root_of t" "nat ((treedepth e + 4) mod 2 ^ 64) = height t + 3"
      "pk_put (replicate (height t + 3) \<lparr>pk = 0, ak = 0\<rparr>) 0 head 1 = Some pk0"
      "take 1 pk0 = pks head []" "length pk0 = height t + 3"
    using array_made [OF st False len] by blast
  show ?thesis
  proof (cases "fst (next_block ms) \<noteq> 0 \<and> (\<exists>a. key_entry rank key t a)")
    case True
    have "\<not> delete_missed compar key t (tdelete_down compar (Some key) h pk0 0 (root_of t))"
    proof
      assume "delete_missed compar key t (tdelete_down compar (Some key) h pk0 0 (root_of t))"
      then obtain fs where "t = plug Leaf fs" "\<forall>g \<in> set fs. on_path compar key g" "sides fs"
        by (auto simp: delete_missed_def)
      then have "\<forall>x \<in> set (entries t). rank (snd x) \<noteq> rank key"
        using missed_order(1) [OF _ cmp _ _ refl] tr(3) by blast
      then show False using True by (auto simp: key_entry_def)
    qed
    then have "delete_found compar key head t (tdelete_down compar (Some key) h pk0 0 (root_of t))"
      using down [of pk0] e(5,6) by blast
    from tdelete_found [OF st False len cmp _ e(1-4) this, of ms] True tr(1) show ?thesis by fastforce
  next
    case no: False
    have "delete_missed compar key t (tdelete_down compar (Some key) h pkarray 0 (root_of t))"
      if "take 1 pkarray = pks head [] \<and> length pkarray = height t + 3" "\<not> (\<exists>a. key_entry rank key t a)" for pkarray
    proof -
      have "\<not> delete_found compar key head t (tdelete_down compar (Some key) h pkarray 0 (root_of t))"
      proof
        assume "delete_found compar key head t (tdelete_down compar (Some key) h pkarray 0 (root_of t))"
        then obtain l a k b r fs where "t = plug (Node l (a, k, b) r) fs" "compar (Some key) (Some k) = 0"
          by (auto simp: delete_found_def)
        then have "(a, k) \<in> set (entries t)" "rank k = rank key"
          using compares_iff(3) [OF cmp, of key k] by (auto simp: entries_plug)
        then show False using that(2) by (auto simp: key_entry_def)
      qed
      then show ?thesis using down [OF that(1)] by blast
    qed
    then show ?thesis using absent no by blast
  qed
qed

end
