(* ===== verification/Bal_Run.thy ===== *)
theory Bal_Run
  imports Bal_Delete
begin

text \<open>
  What the operations of \<open>dd_tsearchbal.c\<close> promise to their callers: search, insertion and deletion as operations on a
  finite map, the walk and the release of the whole tree, and the states that any sequence of calls leads to.
\<close>

subsection \<open>Walking\<close>

text \<open>The visits of \<open>dwarf_twalk\<close> as \<open>tsearch\<close> defines them for a tree.\<close>

fun visits :: "'k info tree \<Rightarrow> nat \<Rightarrow> (addr \<times> dw_visit \<times> nat) list" where
  "visits Leaf lv = []"
| "visits (Node l (a, k, b) r) lv =
     (if l = Leaf \<and> r = Leaf then [(a, dwarf_leaf, lv)]
      else [(a, dwarf_preorder, lv)] @ visits l (lv + 1) @ [(a, dwarf_postorder, lv)] @ visits r (lv + 1) @
        [(a, dwarf_endorder, lv)])"

lemma twalk_inner_spec:
  assumes "cells h t" "t \<noteq> Leaf"
  shows "twalk_inner h (root_of t) lv = Some (visits t lv)"
  using assms
proof (induction t arbitrary: lv)
  case (Node l x r)
  obtain a k b where x: "x = (a, k, b)" by (cases x)
  have h: "h a = Some (cell 1 k b (root_of r) (root_of l))" "cells h l" "cells h r" using Node.prems(1) x by auto
  have links: "llink (cell 1 k b (root_of r) (root_of l)) = root_of l" "rlink (cell 1 k b (root_of r) (root_of l)) = root_of r"
    by (simp_all add: cell_def)
  have "twalk_inner h a lv = Some (visits (Node l (a, k, b) r) lv)"
    unfolding twalk_inner.simps [of h a] h(1) Option.bind_lunit links
    using root_zero [OF h(2)] root_zero [OF h(3)] Node.IH(1) [OF h(2)] Node.IH(2) [OF h(3)] by simp
  then show ?case by (simp add: x)
qed simp

lemma visits_in_order:
  "map fst (filter (\<lambda>v. fst (snd v) = dwarf_postorder \<or> fst (snd v) = dwarf_leaf) (visits t lv)) = addrs t"
  by (induction t lv rule: visits.induct) auto

lemma visits_levels: "v \<in> set (visits t lv) \<Longrightarrow> lv \<le> snd (snd v) \<and> snd (snd v) < lv + height t"
  by (induction t lv rule: visits.induct) (auto split: if_splits)

subsection \<open>Destroying\<close>

fun post_keys :: "'k info tree \<Rightarrow> 'k list" where
  "post_keys Leaf = []"
| "post_keys (Node l (a, k, b) r) = post_keys l @ post_keys r @ [k]"

lemma mset_post_keys: "mset (post_keys t) = mset (map snd (entries t))"
  by (induction t rule: entries.induct) auto

lemma tdestroy_inner_spec:
  assumes "cells h t" "t \<noteq> Leaf" "distinct (addrs t)"
  shows "tdestroy_inner h (root_of t) = Some (map Some (post_keys t), h |` (- set (addrs t)))"
  using assms
proof (induction t arbitrary: h)
  case (Node l x r)
  obtain a k b where x: "x = (a, k, b)" by (cases x)
  have h: "h a = Some (cell 1 k b (root_of r) (root_of l))" "cells h l" "cells h r" using Node.prems(1) x by auto
  have d: "a \<notin> set (addrs l)" "a \<notin> set (addrs r)" "distinct (addrs l)" "distinct (addrs r)"
      "set (addrs r) \<inter> set (addrs l) = {}"
    using Node.prems(3) by (auto simp: x)
  have z: "root_of l = 0 \<longleftrightarrow> l = Leaf" "root_of r = 0 \<longleftrightarrow> r = Leaf" by (rule root_zero [OF h(2)], rule root_zero [OF h(3)])
  define h1 where "h1 = (if l = Leaf then h else (h |` (- set (addrs l)))(a \<mapsto> cell 1 k b (root_of r) 0))"
  have "cells h1 r = cells h r" by (rule cells_cong) (use d in \<open>auto simp: h1_def restrict_map_def\<close>)
  then have h1: "h1 a = Some (cell 1 k b (root_of r) 0)" "cells h1 r" "\<And>y. y \<noteq> a \<Longrightarrow> y \<notin> set (addrs l) \<Longrightarrow> h1 y = h y"
      "\<And>y. y \<in> set (addrs l) \<Longrightarrow> h1 y = None"
    using h d by (auto simp: h1_def restrict_map_def)
  have left: "(if root_of l \<noteq> 0 then do { (ls, h1) \<leftarrow> tdestroy_inner h (root_of l); h2 \<leftarrow> setlink h1 a (- 1) 0; Some (ls, h2) }
      else Some ([], h)) = Some (map Some (post_keys l), h1)"
    using z(1) Node.IH(1) [OF h(2) _ d(3)] h(1) d(1) by (simp add: h1_def setlink_def cell_def)
  define h2 where "h2 = (if r = Leaf then h1 else (h1 |` (- set (addrs r)))(a \<mapsto> cell 1 k b 0 0))"
  have h2: "h2 a = Some (cell 1 k b 0 0)" "h2(a := None) = h |` (- set (addrs (Node l x r)))"
    using h1 d by (auto simp: h2_def x restrict_map_def fun_eq_iff)
  have right: "(if root_of r \<noteq> 0 then do { (rs, h2) \<leftarrow> tdestroy_inner h1 (root_of r); h3 \<leftarrow> setlink h2 a 1 0; Some (rs, h3) }
      else Some ([], h1)) = Some (map Some (post_keys r), h2)"
    using z(2) Node.IH(2) [OF h1(2) _ d(4)] h1(1) d(2) by (simp add: h2_def setlink_def cell_def)
  have lk: "getlink h a (- 1) = Some (root_of l)" "getlink h1 a 1 = Some (root_of r)"
    using h(1) h1(1) by (simp_all add: getlink_def cell_def)
  have "tdestroy_inner h a = Some (map Some (post_keys l) @ map Some (post_keys r) @ [Some k], h2(a := None))"
    unfolding tdestroy_inner.simps [of h a] lk(1) Option.bind_lunit left prod.case lk(2) right
    using h2(1) by (simp add: free_entry_def)
  then show ?case using h2(2) by (simp add: x)
qed simp

subsection \<open>The tree as a map\<close>

definition tree_map :: "('k \<Rightarrow> 'r :: linorder) \<Rightarrow> 'k info tree \<Rightarrow> 'r \<rightharpoonup> addr \<times> 'k" where
  "tree_map rank t = map_of (map (\<lambda>x. (rank (snd x), x)) (entries t))"

lemma tree_map_iff:
  assumes "ordered rank t"
  shows "tree_map rank t r = Some x \<longleftrightarrow> x \<in> set (entries t) \<and> rank (snd x) = r"
proof -
  have "sorted_wrt (\<lambda>x y. rank (snd x) < rank (snd y)) xs \<Longrightarrow> distinct (map (\<lambda>x. rank (snd x)) xs)" for xs
    by (induction xs) auto
  then have "distinct (map fst (map (\<lambda>x. (rank (snd x), x)) (entries t)))"
    using assms by (simp add: ordered_def o_def)
  then show ?thesis unfolding tree_map_def by (subst map_of_eq_Some_iff) auto
qed

lemma tree_map_eqI:
  assumes "ordered rank t" "\<And>r x. m r = Some x \<longleftrightarrow> x \<in> set (entries t) \<and> rank (snd x) = r"
  shows "tree_map rank t = m"
proof
  fix r
  show "tree_map rank t r = m r" using tree_map_iff [OF assms(1), of r] assms(2) [of r] by (metis option.exhaust)
qed

lemma tree_map_key:
  assumes "ordered rank t"
  shows "(\<exists>a. key_entry rank key t a) \<longleftrightarrow> tree_map rank t (rank key) \<noteq> None"
    "tree_map rank t (rank key) = Some x \<Longrightarrow> key_entry rank key t a \<longleftrightarrow> a = fst x"
proof -
  show "(\<exists>a. key_entry rank key t a) \<longleftrightarrow> tree_map rank t (rank key) \<noteq> None"
    using tree_map_iff [OF assms] by (auto simp: key_entry_def)
  assume "tree_map rank t (rank key) = Some x"
  then have x: "x \<in> set (entries t)" "rank (snd x) = rank key" using tree_map_iff [OF assms] by auto
  show "key_entry rank key t a \<longleftrightarrow> a = fst x"
  proof
    assume "key_entry rank key t a"
    then obtain k where "(a, k) \<in> set (entries t)" "rank k = rank key" by (auto simp: key_entry_def)
    then have "(a, k) = x" using x by (intro ordered_inj [OF assms]) auto
    then show "a = fst x" by auto
  next
    assume "a = fst x"
    then show "key_entry rank key t a" using x by (cases x) (auto simp: key_entry_def)
  qed
qed

lemma tree_state_ordered: "tree_state rank h head t \<Longrightarrow> ordered rank t"
  by (auto simp: tree_state_def ordered_def split: if_splits)

lemma map_insert:
  assumes "ordered rank t" "ordered rank t'" "tree_map rank t (rank key) = None"
    "set (entries t') = insert (r, key) (set (entries t))"
  shows "tree_map rank t' = (tree_map rank t)(rank key \<mapsto> (r, key))"
proof (rule tree_map_eqI [OF assms(2)])
  fix q x
  have "\<forall>y \<in> set (entries t). rank (snd y) \<noteq> rank key"
    using assms(3) tree_map_iff [OF assms(1), of "rank key"] by auto
  then show "((tree_map rank t)(rank key \<mapsto> (r, key))) q = Some x \<longleftrightarrow> x \<in> set (entries t') \<and> rank (snd x) = q"
    using assms(4) tree_map_iff [OF assms(1), of q x] by auto
qed

lemma map_remove:
  assumes "ordered rank t" "ordered rank t'" "set (entries t') = {x \<in> set (entries t). rank (snd x) \<noteq> rank key}"
  shows "tree_map rank t' = (tree_map rank t)(rank key := None)"
  by (rule tree_map_eqI [OF assms(2)]) (use tree_map_iff [OF assms(1)] assms(3) in auto)

lemma map_same: "ordered rank t \<Longrightarrow> entries t' = entries t \<Longrightarrow> tree_map rank t' = tree_map rank t"
  by (simp add: tree_map_def)

lemma tsearch_as_update:
  assumes st: "tree_state rank h head t" and cmp: "compares compar rank" and fr: "fresh h ms"
  shows "\<exists>r head' h' ms' t'. dd_tsearch compar (Some key) (Some head) h ms = Some (r, Some head', h', ms') \<and>
    tree_state rank h' head' t' \<and>
    (case tree_map rank t (rank key) of
       Some x \<Rightarrow> r = fst x \<and> tree_map rank t' = tree_map rank t
     | None \<Rightarrow> if r = 0 then tree_map rank t' = tree_map rank t \<and> (length ms < 2 \<or> 0 \<in> set ms)
         else tree_map rank t' = (tree_map rank t)(rank key \<mapsto> (r, key)))"
proof -
  note ord = tree_state_ordered [OF st]
  obtain r head' h' ms' t' where s: "dd_tsearch compar (Some key) (Some head) h ms = Some (r, Some head', h', ms')"
      "tree_state rank h' head' t'"
      "if \<exists>a. key_entry rank key t a then key_entry rank key t r \<and> t' = t
       else if r = 0 then entries t' = entries t \<and> (length ms < 2 \<or> 0 \<in> set ms)
       else set (entries t') = insert (r, key) (set (entries t))"
    using tsearch_spec [OF st cmp fr, of key] by (elim exE conjE) (rule that)
  have "case tree_map rank t (rank key) of
       Some x \<Rightarrow> r = fst x \<and> tree_map rank t' = tree_map rank t
     | None \<Rightarrow> if r = 0 then tree_map rank t' = tree_map rank t \<and> (length ms < 2 \<or> 0 \<in> set ms)
         else tree_map rank t' = (tree_map rank t)(rank key \<mapsto> (r, key))"
  proof (cases "tree_map rank t (rank key)")
    case None
    then have no: "(\<exists>a. key_entry rank key t a) = False" using tree_map_key(1) [OF ord, of key] by simp
    note s3 = s(3) [unfolded no if_False]
    show ?thesis unfolding None option.case
      using s3 map_same [OF ord, of t'] map_insert [OF ord tree_state_ordered [OF s(2)] None] by (cases "r = 0") simp_all
  next
    case (Some x)
    then have yes: "(\<exists>a. key_entry rank key t a) = True" using tree_map_key(1) [OF ord, of key] by simp
    note s3 = s(3) [unfolded yes if_True]
    show ?thesis unfolding Some option.case using s3 tree_map_key(2) [OF ord Some, of r] by simp
  qed
  then show ?thesis using s(1,2)
    by (intro exI [of _ r] exI [of _ head'] exI [of _ h'] exI [of _ ms'] exI [of _ t'] conjI)
qed

lemma tdelete_as_remove:
  assumes st: "tree_state rank h head t" and cmp: "compares compar rank" and sv: "sign_valued compar"
    and len: "length (entries t) < 2 ^ 64" and ms: "fst (next_block ms) \<noteq> 0"
  shows "\<exists>r head' h' ms' t'. dd_tdelete compar (Some key) (Some head) h ms = Some (r, Some head', h', ms') \<and>
    tree_state rank h' head' t' \<and> tree_map rank t' = (tree_map rank t)(rank key := None) \<and>
    (r \<noteq> 0 \<longleftrightarrow> t' \<noteq> Leaf \<and> tree_map rank t (rank key) \<noteq> None)"
proof -
  note ord = tree_state_ordered [OF st]
  obtain r head' h' ms' t' where s: "dd_tdelete compar (Some key) (Some head) h ms = Some (r, Some head', h', ms')"
      "tree_state rank h' head' t'"
      "if fst (next_block ms) \<noteq> 0 \<and> (\<exists>a. key_entry rank key t a) then deletes rank key head t r head' t'
       else r = 0 \<and> head' = head \<and> h' = h \<and> t' = t"
    using tdelete_spec [OF st cmp sv len, of key ms] by blast
  have "tree_map rank t' = (tree_map rank t)(rank key := None) \<and> (r \<noteq> 0 \<longleftrightarrow> t' \<noteq> Leaf \<and> tree_map rank t (rank key) \<noteq> None)"
  proof (cases "\<exists>a. key_entry rank key t a")
    case True
    then have d: "deletes rank key head t r head' t'" "tree_map rank t (rank key) \<noteq> None"
      using s(3) ms tree_map_key(1) [OF ord, of key] by auto
    have "t' \<noteq> Leaf \<Longrightarrow> r = 0 \<Longrightarrow> False"
      using d(1) s(2) cells_zero [of h' t'] by (auto simp: deletes_def tree_state_def holds_tree_def split: if_splits)
    then show ?thesis using map_remove [OF ord tree_state_ordered [OF s(2)]] d by (auto simp: deletes_def)
  next
    case False
    then have "tree_map rank t (rank key) = None" using tree_map_key(1) [OF ord, of key] by blast
    then show ?thesis using s(3) False by (auto simp: fun_upd_idem)
  qed
  then show ?thesis using s(1,2) by blast
qed

subsection \<open>The states that calls lead to\<close>

text \<open>Fewer than \<open>2 ^ 64\<close> records, as in the memory of the process.\<close>

definition few_records :: "'k bal_heap \<Rightarrow> bool" where
  "few_records h \<longleftrightarrow> finite (dom h) \<and> card (dom h) < 2 ^ 64"

text \<open>From no tree, by searches that insert and deletions, whatever \<open>malloc\<close> and \<open>calloc\<close> do.\<close>

inductive bal_reach :: "'k bal_compar \<Rightarrow> addr \<Rightarrow> 'k bal_heap \<Rightarrow> bool" for compar where
  start: "bal_reach compar 0 h"
| search: "bal_reach compar head h \<Longrightarrow> fresh h ms \<Longrightarrow>
    dd_tsearch compar (Some key) (Some head) h ms = Some (r, Some head', h', ms') \<Longrightarrow> bal_reach compar head' h'"
| delete: "bal_reach compar head h \<Longrightarrow> few_records h \<Longrightarrow>
    dd_tdelete compar (Some key) (Some head) h ms = Some (r, Some head', h', ms') \<Longrightarrow> bal_reach compar head' h'"

lemma few_entries:
  assumes "tree_state rank h head t" "few_records h"
  shows "length (entries t) < 2 ^ 64"
proof (cases "head = 0")
  case True
  then show ?thesis using assms(1) by simp
next
  case False
  then have "holds_tree h head (int (height t) - 1) t" using assms(1) by (simp add: tree_state_def)
  then have "distinct (addrs t)" "set (addrs t) \<subseteq> dom h" using cells_dom [of h t] by (auto simp: holds_tree_def)
  then have "length (entries t) \<le> card (dom h)"
    using assms(2) card_mono [of "dom h" "set (addrs t)"] distinct_card [of "addrs t"]
    by (simp add: few_records_def addrs_def)
  then show ?thesis using assms(2) by (simp add: few_records_def)
qed

lemma reach_state:
  assumes "bal_reach compar head h" "compares compar rank" "sign_valued compar"
  shows "\<exists>t. tree_state rank h head t"
  using assms(1)
proof induction
  case (start h)
  show ?case by simp
next
  case (search head h ms key r head' h' ms')
  then obtain t where t: "tree_state rank h head t" by blast
  show ?case using tsearch_as_update [OF t assms(2) search(2), of key] search(3) by auto
next
  case (delete head h key ms r head' h' ms')
  then obtain t where t: "tree_state rank h head t" by blast
  show ?case
    using tdelete_spec [OF t assms(2,3) few_entries [OF t delete(2)], of key ms] delete(3) by auto
qed

lemma walk_spec:
  assumes "tree_state rank h head t"
  shows "dd_twalk h head = Some (visits t 0)"
    "dd_tdestroy h head = Some (map Some (post_keys t), if head = 0 then h else h |` (- insert head (set (addrs t))))"
proof -
  show "dd_twalk h head = Some (visits t 0)"
  proof (cases "head = 0")
    case True
    then show ?thesis using assms by (simp add: dd_twalk_def)
  next
    case False
    then have "t \<noteq> Leaf" "cells h t" using assms by (auto simp: tree_state_def holds_tree_def)
    then show ?thesis using search_from_root(1) [OF assms False] root_zero [of h t] False twalk_inner_spec [of h t 0]
      by (simp add: dd_twalk_def)
  qed
  show "dd_tdestroy h head = Some (map Some (post_keys t), if head = 0 then h else h |` (- insert head (set (addrs t))))"
  proof (cases "head = 0")
    case True
    then show ?thesis using assms by (simp add: dd_tdestroy_def)
  next
    case False
    then have t: "t \<noteq> Leaf" "cells h t" "distinct (addrs t)" "h head \<noteq> None" "head \<notin> set (addrs t)"
      using assms by (auto simp: tree_state_def holds_tree_def)
    then obtain e where e: "h head = Some e" by blast
    have "(h |` (- set (addrs t)))(head := None) = h |` (- insert head (set (addrs t)))"
      by (auto simp: restrict_map_def fun_eq_iff)
    then show ?thesis using search_from_root(1) [OF assms False] root_zero [OF t(2)] False tdestroy_inner_spec [OF t(2,1,3)] t e
      by (simp add: dd_tdestroy_def free_entry_def)
  qed
qed

subsection \<open>A comparison that is not a sign\<close>

text \<open>What \<open>strcmp\<close> may return, and common implementations do: the difference of the first bytes that differ.\<close>

fun byte_difference :: "string \<Rightarrow> string \<Rightarrow> int" where
  "byte_difference [] [] = 0"
| "byte_difference (c # cs) [] = of_char c"
| "byte_difference [] (d # ds) = - of_char d"
| "byte_difference (c # cs) (d # ds) = (if c = d then byte_difference cs ds else of_char c - of_char d)"

fun strcmp_compar :: "string bal_compar" where
  "strcmp_compar (Some s) (Some t) = byte_difference s t"
| "strcmp_compar x y = 0"

definition three_way :: "'k :: linorder bal_compar" where
  "three_way x y = (if x = None \<or> y = None then 0 else if the x < the y then - 1 else if the x > the y then 1 else 0)"

lemma three_way_ok: "compares three_way (\<lambda>k. k)" "sign_valued three_way"
  by (auto simp: compares_def sign_valued_def three_way_def)

definition two_macros :: "(addr \<times> string bal_heap) option" where
  "two_macros = do {
     (r1, head1, h1, ms1) \<leftarrow> dd_tsearch strcmp_compar (Some ''a'') (Some 0) Map.empty [1, 2];
     (r2, head2, h2, ms2) \<leftarrow> dd_tsearch strcmp_compar (Some ''c'') head1 h1 [3];
     Some (the head2, h2)
   }"

subsection \<open>Properties\<close>

text \<open>
  C5: searching with insertion (\<open>dd_tsearch\<close>) refines the update of a finite map from the order's classes of keys to
  entries. On every state of a balanced, ordered tree it returns, the tree is one again, with the depth in the head
  right; a key that is there is found and nothing is changed; one that is not is entered under the address \<open>malloc\<close>
  gave, unless \<open>malloc\<close> failed, and then null is returned and the tree is what it was.
\<close>

theorem insertion_is_map_update:
  assumes "tree_state rank h head t" "compares compar rank" "fresh h ms"
  shows "\<exists>r head' h' ms' t'. dd_tsearch compar (Some key) (Some head) h ms = Some (r, Some head', h', ms') \<and>
    tree_state rank h' head' t' \<and>
    (case tree_map rank t (rank key) of
       Some x \<Rightarrow> r = fst x \<and> tree_map rank t' = tree_map rank t
     | None \<Rightarrow> if r = 0 then tree_map rank t' = tree_map rank t \<and> (length ms < 2 \<or> 0 \<in> set ms)
         else tree_map rank t' = (tree_map rank t)(rank key \<mapsto> (r, key)))"
  by (rule tsearch_as_update [OF assms])

theorem insertion_is_map_update_witness:
  "\<exists>r head' h' ms' t'. dd_tsearch three_way (Some (7 :: nat)) (Some 0) Map.empty [1, 2] = Some (r, Some head', h', ms') \<and>
    tree_state (\<lambda>k :: nat. k) h' head' t' \<and>
    (case tree_map (\<lambda>k :: nat. k) Leaf 7 of
       Some x \<Rightarrow> r = fst x \<and> tree_map (\<lambda>k :: nat. k) t' = tree_map (\<lambda>k :: nat. k) Leaf
     | None \<Rightarrow> if r = 0 then tree_map (\<lambda>k :: nat. k) t' = tree_map (\<lambda>k :: nat. k) Leaf \<and> (length [1, 2 :: nat] < 2 \<or> 0 \<in> set [1, 2 :: nat])
         else tree_map (\<lambda>k :: nat. k) t' = (tree_map (\<lambda>k :: nat. k) Leaf)(7 \<mapsto> (r, 7)))"
  by (rule insertion_is_map_update [OF _ three_way_ok(1)]) simp_all

text \<open>
  C4: deletion (\<open>dd_tdelete\<close>) refines the removal of a key from the map, for comparison functions that return -1, 0 or
  1. Taking out the entry, by its only child, by its neighbour or by the leftmost entry of its right subtree, and the
  rotations on the way up leave a balanced, ordered tree; no write is outside the array of the way down, no freed
  record is used, and the last entry takes the head with it. The result is null exactly when nothing was deleted or
  nothing is left.
\<close>

theorem deletion_is_map_remove:
  assumes "tree_state rank h head t" "compares compar rank" "sign_valued compar"
    and "length (entries t) < 2 ^ 64" "fst (next_block ms) \<noteq> 0"
  shows "\<exists>r head' h' ms' t'. dd_tdelete compar (Some key) (Some head) h ms = Some (r, Some head', h', ms') \<and>
    tree_state rank h' head' t' \<and> tree_map rank t' = (tree_map rank t)(rank key := None) \<and>
    (r \<noteq> 0 \<longleftrightarrow> t' \<noteq> Leaf \<and> tree_map rank t (rank key) \<noteq> None)"
  by (rule tdelete_as_remove [OF assms])

definition one_entry_heap :: "nat bal_heap" where
  "one_entry_heap = [1 \<mapsto> head_cell 0 2, 2 \<mapsto> new_entry (Some 7)]"

theorem deletion_is_map_remove_witness:
  "\<exists>r head' h' ms' t'. dd_tdelete three_way (Some (7 :: nat)) (Some 1) one_entry_heap [9] = Some (r, Some head', h', ms') \<and>
    tree_state (\<lambda>k :: nat. k) h' head' t' \<and>
    tree_map (\<lambda>k :: nat. k) t' = (tree_map (\<lambda>k :: nat. k) (Node Leaf (2, 7, 0) Leaf))(7 := None) \<and>
    (r \<noteq> 0 \<longleftrightarrow> t' \<noteq> Leaf \<and> tree_map (\<lambda>k :: nat. k) (Node Leaf (2, 7, 0) Leaf) 7 \<noteq> None)"
  unfolding one_entry_heap_def
  by (rule deletion_is_map_remove [OF first_entry three_way_ok]) simp_all

text \<open>
  C6: the heap stays well formed. Every state that calls of \<open>dd_tsearch\<close> and \<open>dd_tdelete\<close> lead to, from no tree and
  whatever allocations fail, is the null pointer or a head whose links lead through allocated records only, each of
  them once, with every link null or a record of the tree, every balance the difference of the heights below it and at
  most one, the depth in the head that of the tree, and the keys in order; and in such a state every call returns: no
  null pointer is followed and no loop runs for ever. The height is at most twice the logarithm of the number of
  entries.
\<close>

theorem trees_well_typed:
  assumes "bal_reach compar head h" "compares compar rank" "sign_valued compar"
  shows "\<exists>t. tree_state rank h head t \<and> 2 ^ height t \<le> (length (entries t) + 1) ^ 2 \<and>
    (\<forall>key ms. fresh h ms \<longrightarrow> dd_tsearch compar (Some key) (Some head) h ms \<noteq> None) \<and>
    (\<forall>key. dd_tfind compar (Some key) (Some head) h \<noteq> None) \<and>
    (\<forall>key ms. few_records h \<longrightarrow> dd_tdelete compar (Some key) (Some head) h ms \<noteq> None)"
proof -
  obtain t where t: "tree_state rank h head t" using reach_state [OF assms] by blast
  have "avl t" using t by (auto simp: tree_state_def split: if_splits)
  then have "2 ^ height t \<le> (length (entries t) + 1) ^ 2" by (rule avl_height)
  moreover have "dd_tsearch compar (Some key) (Some head) h ms \<noteq> None" if "fresh h ms" for key ms
    using tsearch_spec [OF t assms(2) that, of key] by auto
  moreover have "dd_tfind compar (Some key) (Some head) h \<noteq> None" for key
    using tfind_spec [OF t assms(2), of key] by auto
  moreover have "dd_tdelete compar (Some key) (Some head) h ms \<noteq> None" if "few_records h" for key ms
    using tdelete_spec [OF t assms(2,3) few_entries [OF t that], of key ms] by auto
  ultimately show ?thesis using t by blast
qed

lemma one_entry_reached: "bal_reach three_way 1 one_entry_heap"
proof (rule search [OF start])
  show "dd_tsearch three_way (Some 7) (Some 0) Map.empty [1, 2] = Some (2, Some 1, one_entry_heap, [])"
    using tsearch_first [of Map.empty 1 2 "[]" three_way 7] by (simp add: one_entry_heap_def)
qed simp

theorem trees_well_typed_witness:
  "\<exists>t. tree_state (\<lambda>k. k) one_entry_heap 1 t \<and> 2 ^ height t \<le> (length (entries t) + 1) ^ 2"
  using trees_well_typed [OF one_entry_reached three_way_ok] by blast

text \<open>
  C19: the walk calls the action once for a leaf and three times for every other entry, in preorder, in order and at the
  end, as \<open>tsearch\<close> describes it, so the visits in order are the entries in the order of their keys; every level is
  below the height. Destroying the tree hands every key to \<open>free_node\<close> exactly once and frees the head and every entry
  once, and nothing else.
\<close>

theorem walk_and_destroy:
  assumes "tree_state rank h head t"
  shows "\<exists>vs ks. dd_twalk h head = Some vs \<and>
    map fst (filter (\<lambda>v. fst (snd v) = dwarf_postorder \<or> fst (snd v) = dwarf_leaf) vs) = addrs t \<and>
    (\<forall>v \<in> set vs. snd (snd v) < height t) \<and>
    dd_tdestroy h head = Some (map Some ks, if head = 0 then h else h |` (- insert head (set (addrs t)))) \<and>
    mset ks = mset (map snd (entries t))"
  using walk_spec [OF assms] visits_in_order visits_levels [of _ t 0] mset_post_keys by fastforce

theorem walk_and_destroy_witness:
  "\<exists>vs ks. dd_twalk one_entry_heap 1 = Some vs \<and>
    map fst (filter (\<lambda>v. fst (snd v) = dwarf_postorder \<or> fst (snd v) = dwarf_leaf) vs) = [2] \<and>
    dd_tdestroy one_entry_heap 1 = Some (map Some ks, one_entry_heap |` (- {1, 2})) \<and> mset ks = {#7#}"
  using walk_and_destroy [OF first_entry [of 1 2 "\<lambda>k. k" Map.empty "7 :: nat"]]
  unfolding one_entry_heap_def by auto

text \<open>
  C20: deletion takes what the comparison returns for the direction it went, while it tests for -1 and 1. Let the
  tree have an entry \<open>a\<close> at the top and one more, \<open>b\<close>, to its right, and let the key be that of \<open>b\<close> and the comparison
  give \<open>c > 1\<close> at \<open>a\<close>, as \<open>strcmp\<close> does. The entry is found; deletion goes down to it and unlinks it, then compares
  the balance 1 of \<open>a\<close> with \<open>c\<close>, prepares a rotation, takes the link of \<open>a\<close> on the other side, which is null, and follows
  it. With the sign of the same comparison the deletion succeeds. \<open>print_macro.c\<close> deletes with a function that returns
  what \<open>strcmp\<close> does.
\<close>

theorem deletion_with_strcmp_crashes:
  fixes h :: "'k bal_heap"
  assumes heap: "h head = Some e" "rlink e = a" "treedepth e = 1"
    and top: "h a = Some ea" "balance ea = 1" "llink ea = 0" "rlink ea = b"
    and leaf: "h b = Some eb" "llink eb = 0" "rlink eb = 0"
    and null: "h 0 = None" "distinct [head, a, b]"
    and compar: "compar key (keyptr ea) = c" "1 < c" "compar key (keyptr eb) = 0"
    and memory: "fst (next_block ms) \<noteq> 0"
  defines "pkarray \<equiv> [\<lparr>pk = head, ak = 1\<rparr>, \<lparr>pk = a, ak = c\<rparr>, \<lparr>pk = b, ak = 0\<rparr>] @ replicate 2 \<lparr>pk = 0, ak = 0\<rparr>"
    and "rest \<equiv> h(a \<mapsto> ea\<lparr>rlink := 0\<rparr>, b := None)"
  shows "dd_tfind compar key (Some head) h = Some b
    \<and> tdelete_down compar key h (\<lparr>pk = head, ak = 1\<rparr> # replicate 4 \<lparr>pk = 0, ak = 0\<rparr>) 0 a = Some (b, pkarray, 2)
    \<and> tdelete_unlink pkarray 2 b a c h = Some (1, pkarray, rest)
    \<and> getlink rest a (- c) = Some 0 \<and> get_balance rest 0 = None
    \<and> dd_tdelete compar key (Some head) h ms = None
    \<and> dd_tdelete (\<lambda>k l. sgn (compar k l)) key (Some head) h ms =
        Some (a, Some head, rest(a \<mapsto> ea\<lparr>rlink := 0, balance := 0\<rparr>, head \<mapsto> e\<lparr>treedepth := 0\<rparr>), snd (next_block ms))"
proof (intro conjI)
  have d: "head \<noteq> a" "head \<noteq> b" "a \<noteq> b" "head \<noteq> 0" "a \<noteq> 0" "b \<noteq> 0"
    using null heap(1) top(1) leaf(1) by (auto intro!: gr0I)
  obtain block ms1 where ms: "next_block ms = (block, ms1)" "block \<noteq> 0" using memory by (cases "next_block ms") auto
  note links = getlink_def setlink_def free_entry_def pk_put_def pk_at_def
  have down: "tdelete_down compar' key h (\<lparr>pk = head, ak = 1\<rparr> # replicate 4 \<lparr>pk = 0, ak = 0\<rparr>) 0 a =
      Some (b, [\<lparr>pk = head, ak = 1\<rparr>, \<lparr>pk = a, ak = c'\<rparr>, \<lparr>pk = b, ak = 0\<rparr>] @ replicate 2 \<lparr>pk = 0, ak = 0\<rparr>, 2)"
    if "compar' key (keyptr ea) = c'" "0 < c'" "compar' key (keyptr eb) = 0" for compar' c'
    using that heap top leaf d
    by (simp add: tdelete_down.simps [of compar' key h _ _ a] tdelete_down.simps [of compar' key h _ _ b] links
        eval_nat_numeral Let_def)
  have unlink: "tdelete_unlink p 2 b a c' h = Some (1, p, rest)" if "0 < c'" for p c'
    using that top leaf d by (simp add: tdelete_unlink_def links rest_def)
  show "dd_tfind compar key (Some head) h = Some b"
    using heap top leaf d compar
    by (simp add: dd_tfind_def tfind_loop.simps [of compar key h a] tfind_loop.simps [of compar key h b] getlink_def Let_def)
  show down1: "tdelete_down compar key h (\<lparr>pk = head, ak = 1\<rparr> # replicate 4 \<lparr>pk = 0, ak = 0\<rparr>) 0 a = Some (b, pkarray, 2)"
    using down [of compar c] compar by (simp add: pkarray_def)
  show "tdelete_unlink pkarray 2 b a c h = Some (1, pkarray, rest)" using unlink compar(2) by simp
  show other: "getlink rest a (- c) = Some 0" "get_balance rest 0 = None"
    using compar(2) top d null by (simp_all add: getlink_def get_balance_def rest_def)
  have balance: "tdelete_balance head pkarray 1 rest = None"
    using other top d compar(2) null(1)
    by (simp add: pkarray_def pk_at_def tdelete_rotate_def get_balance_def rest_def)
  have init: "pk_put (replicate 5 \<lparr>pk = 0, ak = 0\<rparr>) 0 head 1 = Some (\<lparr>pk = head, ak = 1\<rparr> # replicate 4 \<lparr>pk = 0, ak = 0\<rparr>)"
    by (simp add: pk_put_def eval_nat_numeral)
  have five: "nat ((treedepth e + 4) mod 2 ^ 64) = 5" using heap(3) by simp
  have above: "pk_at ([\<lparr>pk = head, ak = 1\<rparr>, \<lparr>pk = a, ak = c'\<rparr>, \<lparr>pk = b, ak = 0\<rparr>] @ replicate 2 \<lparr>pk = 0, ak = 0\<rparr>) 1 =
      Some \<lparr>pk = a, ak = c'\<rparr>" for c'
    by (simp add: pk_at_def)
  have "tdelete_inner compar key head h ms = None"
    using heap leaf d balance unlink [of c pkarray] above [of c] compar(2)
    by (simp add: tdelete_inner_def five ms Let_def init down1 getlink_def pkarray_def [symmetric]
        del: tdelete_balance.simps append.simps)
  then show "dd_tdelete compar key (Some head) h ms = None"
    using heap d by (simp add: dd_tdelete_def getlink_def)
  let ?p = "[\<lparr>pk = head, ak = 1\<rparr>, \<lparr>pk = a, ak = 1\<rparr>, \<lparr>pk = b, ak = 0\<rparr>] @ replicate 2 \<lparr>pk = 0, ak = 0\<rparr>"
  have signed: "tdelete_down (\<lambda>k l. sgn (compar k l)) key h (\<lparr>pk = head, ak = 1\<rparr> # replicate 4 \<lparr>pk = 0, ak = 0\<rparr>) 0 a =
      Some (b, ?p, 2)"
    by (rule down) (use compar in simp_all)
  let ?h = "rest(a \<mapsto> ea\<lparr>rlink := 0, balance := 0\<rparr>, head \<mapsto> e\<lparr>treedepth := 0\<rparr>)"
  have "tdelete_balance head ?p 1 rest = Some ?h"
    using heap top d
    by (simp add: pk_at_def get_balance_def set_balance_def change_depth_def rest_def fun_upd_twist)
  then have "tdelete_inner (\<lambda>k l. sgn (compar k l)) key head h ms =
      Some (\<lparr>parent = a, tree_empty = False, did_delete = True, left_heap = ?h\<rparr>, ms1)"
    using heap leaf d unlink [of 1 ?p] above [of 1]
    by (simp add: tdelete_inner_def five ms Let_def init signed getlink_def del: tdelete_balance.simps append.simps)
  then show "dd_tdelete (\<lambda>k l. sgn (compar k l)) key (Some head) h ms =
      Some (a, Some head, ?h, snd (next_block ms))"
    using heap d ms by (simp add: dd_tdelete_def getlink_def Let_def)
qed

theorem deletion_with_strcmp_crashes_witness:
  "(case two_macros of None \<Rightarrow> False
    | Some (head, h) \<Rightarrow> dd_tfind strcmp_compar (Some ''c'') (Some head) h = Some 3 \<and>
        dd_tdelete strcmp_compar (Some ''c'') (Some head) h [4] = None)"
proof -
  have "case two_macros of None \<Rightarrow> False
    | Some (head, h) \<Rightarrow> head = 1 \<and> h 0 = None
        \<and> h 1 = Some \<lparr>keyptr = None, treedepth = 1, balance = 0, llink = 0, rlink = 2\<rparr>
        \<and> h 2 = Some \<lparr>keyptr = Some ''a'', treedepth = 0, balance = 1, llink = 0, rlink = 3\<rparr>
        \<and> h 3 = Some \<lparr>keyptr = Some ''c'', treedepth = 0, balance = 0, llink = 0, rlink = 0\<rparr>"
    by code_simp
  then obtain h where two: "two_macros = Some (1, h)" and heap: "h 0 = None"
      "h 1 = Some \<lparr>keyptr = None, treedepth = 1, balance = 0, llink = 0, rlink = 2\<rparr>"
      "h 2 = Some \<lparr>keyptr = Some ''a'', treedepth = 0, balance = 1, llink = 0, rlink = 3\<rparr>"
      "h 3 = Some \<lparr>keyptr = Some ''c'', treedepth = 0, balance = 0, llink = 0, rlink = 0\<rparr>"
    by (auto split: option.splits)
  have compar: "strcmp_compar (Some ''c'') (Some ''a'') = 2" "strcmp_compar (Some ''c'') (Some ''c'') = 0"
    by code_simp+
  show ?thesis
    unfolding two option.case prod.case
    using heap compar deletion_with_strcmp_crashes [of h 1 "\<lparr>keyptr = None, treedepth = 1, balance = 0, llink = 0, rlink = 2\<rparr>" 2
        "\<lparr>keyptr = Some ''a'', treedepth = 0, balance = 1, llink = 0, rlink = 3\<rparr>" 3
        "\<lparr>keyptr = Some ''c'', treedepth = 0, balance = 0, llink = 0, rlink = 0\<rparr>" strcmp_compar "Some ''c''" 2 "[4]"]
    by simp
qed

end
