(* ===== verification/Tree_Clients.thy ===== *)
theory Tree_Clients
  imports Bal_Run
begin

text \<open>
  Two tables of \<open>dwarfdump\<close> kept in a balanced tree: \<open>dd_helpertree.c\<close>, the signedness found for types, and
  \<open>dd_addrmap.c\<close>, the names at addresses. The locale is what they rely on. A record of a table never changes its key, so
  a pointer to one is here its address with the key; what can change is in the memory. \<open>None\<close> as a result is an access
  through a null pointer or to freed memory.
\<close>

subsection \<open>What a table relies on\<close>

lemma entry_cell: "cells h t \<Longrightarrow> (a, k) \<in> set (entries t) \<Longrightarrow> \<exists>e. h a = Some e \<and> keyptr e = Some k"
  by (induction t rule: entries.induct) auto

text \<open>The key in the record a returned pointer points to.\<close>

definition key_at_entry :: "'k bal_heap \<Rightarrow> addr \<Rightarrow> 'k option option" where
  "key_at_entry h r = do { e \<leftarrow> h r; Some (keyptr e) }"

lemma tree_entry_cell:
  assumes "tree_state rank h head t" "x \<in> set (entries t)"
  shows "key_at_entry h (fst x) = Some (Some (snd x))" "fst x \<noteq> 0"
proof -
  have c: "cells h t" using assms by (auto simp: tree_state_def holds_tree_def split: if_splits)
  then obtain e where "h (fst x) = Some e" "keyptr e = Some (snd x)"
    using entry_cell [OF c, of "fst x" "snd x"] assms(2) by auto
  then show "key_at_entry h (fst x) = Some (Some (snd x))" by (simp add: key_at_entry_def)
  show "fst x \<noteq> 0" using cells_zero [OF c] assms(2) by (auto simp: addrs_def)
qed

text \<open>The first comparison of a search reads the key of the root and the key that is looked for.\<close>

definition compares_null :: "'k bal_heap \<Rightarrow> addr \<Rightarrow> 'k option \<Rightarrow> bool" where
  "compares_null h head key \<longleftrightarrow> head \<noteq> 0 \<and> (case getlink h head 1 of
     None \<Rightarrow> False
   | Some root \<Rightarrow> root \<noteq> 0 \<and> (key = None \<or> key_at_entry h root = Some None))"

locale tree_client =
  fixes compar :: "'k bal_compar"
    and rank :: "'k \<Rightarrow> 'r :: linorder"
  assumes order: "compares compar rank"
begin

lemma client_no_null:
  assumes "tree_state rank h head t"
  shows "\<not> compares_null h head (Some key)"
proof (cases "head = 0")
  case False
  then have root: "getlink h head 1 = Some (root_of t)" "cells h t"
    using search_from_root(1) [OF assms] assms by (auto simp: tree_state_def holds_tree_def)
  then show ?thesis by (cases t rule: root_of.cases) (auto simp: compares_null_def key_at_entry_def)
qed (simp add: compares_null_def)

lemma client_insert:
  assumes st: "tree_state rank h head t" and fr: "fresh h ms" and two: "2 \<le> length ms" "0 \<notin> set ms"
  shows "\<exists>r head' h' ms' t' k. dd_tsearch compar (Some key) (Some head) h ms = Some (r, Some head', h', ms') \<and>
    tree_state rank h' head' t' \<and> r \<noteq> 0 \<and> key_at_entry h' r = Some (Some k) \<and>
    tree_map rank t' (rank key) = Some (r, k) \<and>
    (case tree_map rank t (rank key) of
       Some x \<Rightarrow> x = (r, k) \<and> tree_map rank t' = tree_map rank t
     | None \<Rightarrow> k = key \<and> tree_map rank t' = (tree_map rank t)(rank key \<mapsto> (r, key)))"
proof -
  obtain r head' h' ms' t' where s: "dd_tsearch compar (Some key) (Some head) h ms = Some (r, Some head', h', ms')"
      "tree_state rank h' head' t'"
      "case tree_map rank t (rank key) of
         Some x \<Rightarrow> r = fst x \<and> tree_map rank t' = tree_map rank t
       | None \<Rightarrow> if r = 0 then tree_map rank t' = tree_map rank t \<and> (length ms < 2 \<or> 0 \<in> set ms)
           else tree_map rank t' = (tree_map rank t)(rank key \<mapsto> (r, key))"
    using tsearch_as_update [OF st order fr, of key] by (elim exE conjE) (rule that)
  define k where "k = (case tree_map rank t (rank key) of Some x \<Rightarrow> snd x | None \<Rightarrow> key)"
  have m: "tree_map rank t' (rank key) = Some (r, k)" "case tree_map rank t (rank key) of
       Some x \<Rightarrow> x = (r, k) \<and> tree_map rank t' = tree_map rank t
     | None \<Rightarrow> k = key \<and> tree_map rank t' = (tree_map rank t)(rank key \<mapsto> (r, key))"
    using s(3) two by (auto simp: k_def split: option.splits if_splits)
  have "(r, k) \<in> set (entries t')" using m(1) tree_map_iff [OF tree_state_ordered [OF s(2)]] by blast
  then have "key_at_entry h' r = Some (Some k)" "r \<noteq> 0" using tree_entry_cell [OF s(2), of "(r, k)"] by simp_all
  then show ?thesis using s(1,2) m by blast
qed

lemma client_find:
  assumes st: "tree_state rank h head t"
  shows "\<exists>r. dd_tfind compar (Some key) (Some head) h = Some r \<and>
    (case tree_map rank t (rank key) of
       Some x \<Rightarrow> r = fst x \<and> r \<noteq> 0 \<and> key_at_entry h r = Some (Some (snd x))
     | None \<Rightarrow> r = 0)"
proof -
  note ord = tree_state_ordered [OF st]
  obtain r where r: "dd_tfind compar (Some key) (Some head) h = Some r"
      "if \<exists>b. key_entry rank key t b then key_entry rank key t r else r = 0"
    using tfind_spec [OF st order, of key] by blast
  show ?thesis
  proof (cases "tree_map rank t (rank key)")
    case None
    then have "(\<exists>b. key_entry rank key t b) = False" using tree_map_key(1) [OF ord, of key] by simp
    then show ?thesis using r None by simp
  next
    case (Some x)
    then have "(\<exists>b. key_entry rank key t b) = True" using tree_map_key(1) [OF ord, of key] by simp
    then have "r = fst x" using r(2) tree_map_key(2) [OF ord Some] by simp
    moreover have "x \<in> set (entries t)" using Some tree_map_iff [OF ord] by simp
    ultimately show ?thesis using r(1) Some tree_entry_cell [OF st, of x] by simp
  qed
qed

end

subsection \<open>The helper tree\<close>

record helper_ptr =
  hm_addr :: addr
  hm_key :: u64

definition helpertree_map_compare_func :: "helper_ptr bal_compar" where
  "helpertree_map_compare_func l r = (case (l, r) of
     (Some ml, Some mr) \<Rightarrow> if hm_key ml < hm_key mr then - 1 else if hm_key ml > hm_key mr then 1 else 0
   | _ \<Rightarrow> 0)"

interpretation helper: tree_client helpertree_map_compare_func hm_key
  by unfold_locales (auto simp: compares_def helpertree_map_compare_func_def)

record helper_base =
  hb_base :: addr
  hb_heap :: "helper_ptr bal_heap"
  hm_vals :: "addr \<rightharpoonup> int"

definition helpertree_map_create_entry :: "u64 \<Rightarrow> int \<Rightarrow> addr list \<Rightarrow> (addr \<rightharpoonup> int) \<Rightarrow>
    helper_ptr option \<times> (addr \<rightharpoonup> int) \<times> addr list" where
  "helpertree_map_create_entry offset val ms vals = (case next_block ms of (a, ms1) \<Rightarrow>
     if a = 0 then (None, vals, ms1) else (Some \<lparr>hm_addr = a, hm_key = offset\<rparr>, vals(a \<mapsto> val), ms1))"

text \<open>\<open>free\<close>: nothing for a null pointer.\<close>

definition helpertree_map_free_func :: "helper_ptr option \<Rightarrow> (addr \<rightharpoonup> int) \<Rightarrow> (addr \<rightharpoonup> int) option" where
  "helpertree_map_free_func e vals = (case e of
     None \<Rightarrow> Some vals
   | Some p \<Rightarrow> do { v \<leftarrow> vals (hm_addr p); Some (vals(hm_addr p := None)) })"

text \<open>
  The returned pointer is what \<open>dwarf_tsearch\<close> returned, a pointer to the entry of the tree and not to the record.
\<close>

definition helpertree_add_entry :: "u64 \<Rightarrow> int \<Rightarrow> helper_base \<Rightarrow> addr list \<Rightarrow> (addr \<times> helper_base \<times> addr list) option" where
  "helpertree_add_entry offset val base ms = (case helpertree_map_create_entry offset val ms (hm_vals base) of (e, vals, ms1) \<Rightarrow>
     if compares_null (hb_heap base) (hb_base base) e then None
     else do {
       (retval, head, h, ms2) \<leftarrow> dd_tsearch helpertree_map_compare_func e (Some (hb_base base)) (hb_heap base) ms1;
       if retval \<noteq> 0 then do {
         re \<leftarrow> key_at_entry h retval;
         vals1 \<leftarrow> (if re \<noteq> e then do {
             p \<leftarrow> re;
             old \<leftarrow> vals (hm_addr p);
             helpertree_map_free_func e (vals(hm_addr p \<mapsto> val))
           } else Some vals);
         Some (retval, \<lparr>hb_base = the head, hb_heap = h, hm_vals = vals1\<rparr>, ms2)
       }
       else Some (0, \<lparr>hb_base = the head, hb_heap = h, hm_vals = vals\<rparr>, ms2)
     })"

definition helpertree_find :: "u64 \<Rightarrow> helper_base \<Rightarrow> addr list \<Rightarrow> (helper_ptr option \<times> helper_base \<times> addr list) option" where
  "helpertree_find offset base ms = (case helpertree_map_create_entry offset 0 ms (hm_vals base) of (e, vals, ms1) \<Rightarrow>
     if compares_null (hb_heap base) (hb_base base) e then None
     else do {
       retval \<leftarrow> dd_tfind helpertree_map_compare_func e (Some (hb_base base)) (hb_heap base);
       re \<leftarrow> (if retval \<noteq> 0 then key_at_entry (hb_heap base) retval else Some None);
       vals1 \<leftarrow> helpertree_map_free_func e vals;
       Some (re, base\<lparr>hm_vals := vals1\<rparr>, ms1)
     })"

fun free_records :: "helper_ptr option list \<Rightarrow> (addr \<rightharpoonup> int) \<Rightarrow> (addr \<rightharpoonup> int) option" where
  "free_records [] vals = Some vals"
| "free_records (e # es) vals = do { vals1 \<leftarrow> helpertree_map_free_func e vals; free_records es vals1 }"

definition helpertree_clear_statistics :: "helper_base \<Rightarrow> helper_base option" where
  "helpertree_clear_statistics base =
     (if hb_base base = 0 then Some base
      else do {
        (ks, h) \<leftarrow> dd_tdestroy (hb_heap base) (hb_base base);
        vals \<leftarrow> free_records ks (hm_vals base);
        Some \<lparr>hb_base = 0, hb_heap = h, hm_vals = vals\<rparr>
      })"

text \<open>The table holds the map \<open>m\<close>: its records are allocated and each belongs to one offset.\<close>

definition record_map :: "(u64 \<rightharpoonup> addr \<times> helper_ptr) \<Rightarrow> (addr \<rightharpoonup> int) \<Rightarrow> u64 \<rightharpoonup> int" where
  "record_map tm vals offset = do { x \<leftarrow> tm offset; vals (hm_addr (snd x)) }"

definition records_ok :: "(u64 \<rightharpoonup> addr \<times> helper_ptr) \<Rightarrow> (addr \<rightharpoonup> int) \<Rightarrow> bool" where
  "records_ok tm vals \<longleftrightarrow> (\<forall>q x. tm q = Some x \<longrightarrow> vals (hm_addr (snd x)) \<noteq> None) \<and>
     (\<forall>q q' x x'. tm q = Some x \<and> tm q' = Some x' \<and> hm_addr (snd x) = hm_addr (snd x') \<longrightarrow> q = q')"

definition helper_holds :: "helper_base \<Rightarrow> (u64 \<rightharpoonup> int) \<Rightarrow> bool" where
  "helper_holds base m \<longleftrightarrow> (\<exists>t. tree_state hm_key (hb_heap base) (hb_base base) t \<and>
     records_ok (tree_map hm_key t) (hm_vals base) \<and> m = record_map (tree_map hm_key t) (hm_vals base))"

lemma records_okD:
  assumes "records_ok tm vals"
  shows "tm q = Some x \<Longrightarrow> vals (hm_addr (snd x)) \<noteq> None"
    "tm q = Some x \<Longrightarrow> tm q' = Some x' \<Longrightarrow> hm_addr (snd x) = hm_addr (snd x') \<Longrightarrow> q = q'"
  using assms unfolding records_ok_def by blast+

lemma records_new:
  assumes ok: "records_ok tm vals" and new: "tm q = None" "vals (hm_addr p) = None"
  shows "records_ok (tm(q \<mapsto> (r, p))) (vals(hm_addr p \<mapsto> v))"
    "record_map (tm(q \<mapsto> (r, p))) (vals(hm_addr p \<mapsto> v)) = (record_map tm vals)(q \<mapsto> v)"
proof -
  have other: "tm q' = Some x \<Longrightarrow> hm_addr (snd x) \<noteq> hm_addr p" for q' x
    using records_okD(1) [OF ok] new(2) by metis
  show "records_ok (tm(q \<mapsto> (r, p))) (vals(hm_addr p \<mapsto> v))"
    unfolding records_ok_def
  proof (intro conjI allI impI)
    fix q1 x
    assume "(tm(q \<mapsto> (r, p))) q1 = Some x"
    then have "x = (r, p) \<or> tm q1 = Some x" by (auto split: if_splits)
    then show "(vals(hm_addr p \<mapsto> v)) (hm_addr (snd x)) \<noteq> None"
      using records_okD(1) [OF ok, of q1 x] by auto
  next
    fix q1 q2 x y
    assume "(tm(q \<mapsto> (r, p))) q1 = Some x \<and> (tm(q \<mapsto> (r, p))) q2 = Some y \<and> hm_addr (snd x) = hm_addr (snd y)"
    then show "q1 = q2" using records_okD(2) [OF ok, of q1 x q2 y] other [of q1 x] other [of q2 y] by (auto split: if_splits)
  qed
  show "record_map (tm(q \<mapsto> (r, p))) (vals(hm_addr p \<mapsto> v)) = (record_map tm vals)(q \<mapsto> v)"
    using other by (auto simp: record_map_def fun_eq_iff bind_eq_Some_conv split: Option.bind_splits)
qed

lemma records_set:
  assumes ok: "records_ok tm vals" and old: "tm q = Some (r, k)"
  shows "records_ok tm (vals(hm_addr k \<mapsto> v))"
    "record_map tm (vals(hm_addr k \<mapsto> v)) = (record_map tm vals)(q \<mapsto> v)"
proof -
  show "records_ok tm (vals(hm_addr k \<mapsto> v))"
    unfolding records_ok_def
  proof (intro conjI allI impI)
    fix q1 x
    assume "tm q1 = Some x"
    then show "(vals(hm_addr k \<mapsto> v)) (hm_addr (snd x)) \<noteq> None" using records_okD(1) [OF ok, of q1 x] by simp
  next
    fix q1 q2 x y
    assume "tm q1 = Some x \<and> tm q2 = Some y \<and> hm_addr (snd x) = hm_addr (snd y)"
    then show "q1 = q2" using records_okD(2) [OF ok, of q1 x q2 y] by simp
  qed
  show "record_map tm (vals(hm_addr k \<mapsto> v)) = (record_map tm vals)(q \<mapsto> v)"
  proof
    fix z
    show "record_map tm (vals(hm_addr k \<mapsto> v)) z = ((record_map tm vals)(q \<mapsto> v)) z"
      using old records_okD(2) [OF ok _ old, of z] by (cases "tm z") (auto simp: record_map_def)
  qed
qed

lemma helper_add:
  assumes holds: "helper_holds base m" and a: "a \<noteq> 0" "hm_vals base a = None"
    and ms: "fresh (hb_heap base) ms" "2 \<le> length ms" "0 \<notin> set ms"
  shows "\<exists>r base' ms'. helpertree_add_entry offset val base (a # ms) = Some (r, base', ms') \<and> r \<noteq> 0 \<and>
    helper_holds base' (m(offset \<mapsto> val))"
proof -
  obtain t where t: "tree_state hm_key (hb_heap base) (hb_base base) t" "records_ok (tree_map hm_key t) (hm_vals base)"
      "m = record_map (tree_map hm_key t) (hm_vals base)"
    using holds by (auto simp: helper_holds_def)
  let ?p = "\<lparr>hm_addr = a, hm_key = offset\<rparr>"
  let ?vals = "(hm_vals base)(a \<mapsto> val)"
  obtain r head' h' ms' t' k where s: "dd_tsearch helpertree_map_compare_func (Some ?p) (Some (hb_base base)) (hb_heap base) ms =
        Some (r, Some head', h', ms')" "tree_state hm_key h' head' t'" "r \<noteq> 0" "key_at_entry h' r = Some (Some k)"
      "tree_map hm_key t' (hm_key ?p) = Some (r, k)"
      "case tree_map hm_key t (hm_key ?p) of
         Some x \<Rightarrow> x = (r, k) \<and> tree_map hm_key t' = tree_map hm_key t
       | None \<Rightarrow> k = ?p \<and> tree_map hm_key t' = (tree_map hm_key t)(hm_key ?p \<mapsto> (r, ?p))"
    using helper.client_insert [OF t(1) ms, of ?p] by (elim exE conjE) (rule that)
  have code: "helpertree_add_entry offset val base (a # ms) = do {
       vals1 \<leftarrow> (if Some k \<noteq> Some ?p then do {
           old \<leftarrow> ?vals (hm_addr k);
           helpertree_map_free_func (Some ?p) (?vals(hm_addr k \<mapsto> val))
         } else Some ?vals);
       Some (r, \<lparr>hb_base = head', hb_heap = h', hm_vals = vals1\<rparr>, ms') }"
    using helper.client_no_null [OF t(1), of ?p] s(1,3,4) a(1)
    by (simp add: helpertree_add_entry_def helpertree_map_create_entry_def)
  show ?thesis
  proof (cases "tree_map hm_key t offset")
    case None
    then have k: "k = ?p" "tree_map hm_key t' = (tree_map hm_key t)(offset \<mapsto> (r, ?p))" using s(6) by simp_all
    have "helper_holds \<lparr>hb_base = head', hb_heap = h', hm_vals = ?vals\<rparr> (m(offset \<mapsto> val))"
      unfolding helper_holds_def using s(2) k(2) records_new [OF t(2) None, of ?p r val] a(2) t(3)
      by (intro exI [of _ t']) simp
    then show ?thesis using code k(1) s(3) by simp
  next
    case (Some x)
    then have k: "x = (r, k)" "tree_map hm_key t' = tree_map hm_key t" using s(6) by simp_all
    have old: "hm_vals base (hm_addr k) \<noteq> None" using t(2) Some k(1) by (auto simp: records_ok_def)
    then have ka: "hm_addr k \<noteq> a" using a(2) by auto
    then have ne: "k \<noteq> ?p" by auto
    have eq: "(?vals(hm_addr k \<mapsto> val))(a := None) = (hm_vals base)(hm_addr k \<mapsto> val)"
      using ka a(2) by (auto simp: fun_eq_iff)
    have "helper_holds \<lparr>hb_base = head', hb_heap = h', hm_vals = (hm_vals base)(hm_addr k \<mapsto> val)\<rparr> (m(offset \<mapsto> val))"
      unfolding helper_holds_def using s(2) k(2) records_set [OF t(2) Some [unfolded k(1)], of val] t(3)
      by (intro exI [of _ t']) simp
    moreover have "helpertree_add_entry offset val base (a # ms) =
        Some (r, \<lparr>hb_base = head', hb_heap = h', hm_vals = (hm_vals base)(hm_addr k \<mapsto> val)\<rparr>, ms')"
      unfolding code eq [symmetric] using ne ka old by (auto simp: helpertree_map_free_func_def)
    ultimately show ?thesis using s(3) by blast
  qed
qed

lemma helper_find:
  assumes holds: "helper_holds base m" and a: "a \<noteq> 0" "hm_vals base a = None"
  shows "\<exists>re. helpertree_find offset base (a # ms) = Some (re, base, ms) \<and>
    (case m offset of None \<Rightarrow> re = None
     | Some v \<Rightarrow> \<exists>p. re = Some p \<and> hm_key p = offset \<and> hm_vals base (hm_addr p) = Some v)"
proof -
  obtain t where t: "tree_state hm_key (hb_heap base) (hb_base base) t" "records_ok (tree_map hm_key t) (hm_vals base)"
      "m = record_map (tree_map hm_key t) (hm_vals base)"
    using holds by (auto simp: helper_holds_def)
  let ?p = "\<lparr>hm_addr = a, hm_key = offset\<rparr>"
  have unchanged: "(hm_vals base)(a := None) = hm_vals base" using a(2) by (auto simp: fun_eq_iff)
  obtain r where r: "dd_tfind helpertree_map_compare_func (Some ?p) (Some (hb_base base)) (hb_heap base) = Some r"
      "case tree_map hm_key t (hm_key ?p) of
         Some x \<Rightarrow> r = fst x \<and> r \<noteq> 0 \<and> key_at_entry (hb_heap base) r = Some (Some (snd x))
       | None \<Rightarrow> r = 0"
    using helper.client_find [OF t(1), of ?p] by blast
  have code: "helpertree_find offset base (a # ms) = do {
      re \<leftarrow> (if r \<noteq> 0 then key_at_entry (hb_heap base) r else Some None); Some (re, base, ms) }"
    using helper.client_no_null [OF t(1), of ?p] r(1) a(1) unchanged
    by (simp add: helpertree_find_def helpertree_map_create_entry_def helpertree_map_free_func_def)
  show ?thesis
  proof (cases "tree_map hm_key t offset")
    case None
    then show ?thesis using code r(2) t(3) by (simp add: record_map_def)
  next
    case (Some x)
    then have "hm_vals base (hm_addr (snd x)) \<noteq> None" "hm_key (snd x) = offset"
      using records_okD(1) [OF t(2) Some] tree_map_iff [OF tree_state_ordered [OF t(1)], of offset x] by auto
    then show ?thesis using code r(2) t(3) Some by (auto simp: record_map_def)
  qed
qed

lemma free_records_spec:
  assumes "distinct (map hm_addr ps)" "\<forall>p \<in> set ps. vals (hm_addr p) \<noteq> None"
  shows "free_records (map Some ps) vals = Some (vals |` (- hm_addr ` set ps))"
  using assms
proof (induction ps arbitrary: vals)
  case (Cons p ps)
  have "free_records (map Some ps) (vals(hm_addr p := None)) = Some ((vals(hm_addr p := None)) |` (- hm_addr ` set ps))"
    by (rule Cons.IH) (use Cons.prems in \<open>auto simp: image_iff\<close>)
  moreover have "(vals(hm_addr p := None)) |` (- hm_addr ` set ps) = vals |` (- hm_addr ` set (p # ps))"
    by (auto simp: restrict_map_def fun_eq_iff)
  ultimately show ?case using Cons.prems(2) by (auto simp: helpertree_map_free_func_def)
qed (simp add: restrict_map_def fun_eq_iff)

lemma tree_records_distinct:
  assumes "ordered hm_key t" "records_ok (tree_map hm_key t) vals"
  shows "distinct (map hm_addr (post_keys t))" "\<forall>p \<in> set (post_keys t). vals (hm_addr p) \<noteq> None"
proof -
  have at: "x \<in> set (entries t) \<Longrightarrow> tree_map hm_key t (hm_key (snd x)) = Some x" for x
    using tree_map_iff [OF assms(1)] by simp
  have "sorted_wrt (\<lambda>x y. hm_key (snd x) < hm_key (snd y)) xs \<Longrightarrow> distinct xs" for xs :: "(addr \<times> helper_ptr) list"
    by (induction xs) auto
  then have "distinct (entries t)" using assms(1) by (simp add: ordered_def)
  moreover have "inj_on (\<lambda>x. hm_addr (snd x)) (set (entries t))"
  proof
    fix x y
    assume xy: "x \<in> set (entries t)" "y \<in> set (entries t)" "hm_addr (snd x) = hm_addr (snd y)"
    then have "hm_key (snd x) = hm_key (snd y)" using records_okD(2) [OF assms(2) at at] by blast
    then show "x = y" using ordered_inj [OF assms(1)] xy by blast
  qed
  ultimately have "distinct (map hm_addr (map snd (entries t)))" by (simp add: distinct_map comp_inj_on_iff o_def)
  then show "distinct (map hm_addr (post_keys t))"
    using distinct_mset_eq [of "map hm_addr (post_keys t)" "map hm_addr (map snd (entries t))"] mset_post_keys [of t]
    by (metis mset_map)
  have "set (post_keys t) = snd ` set (entries t)" using mset_post_keys [of t] by (metis set_mset_mset set_map)
  then show "\<forall>p \<in> set (post_keys t). vals (hm_addr p) \<noteq> None" using records_okD(1) [OF assms(2) at] by auto
qed

lemma helper_clear:
  assumes "helper_holds base m"
  shows "\<exists>base'. helpertree_clear_statistics base = Some base' \<and> helper_holds base' Map.empty"
proof -
  obtain t where t: "tree_state hm_key (hb_heap base) (hb_base base) t" "records_ok (tree_map hm_key t) (hm_vals base)"
      "m = record_map (tree_map hm_key t) (hm_vals base)"
    using assms by (auto simp: helper_holds_def)
  have empty: "helper_holds b Map.empty" if "hb_base b = 0" for b
    unfolding helper_holds_def using that
    by (intro exI [of _ Leaf]) (simp add: records_ok_def record_map_def tree_map_def fun_eq_iff)
  show ?thesis
  proof (cases "hb_base base = 0")
    case True
    then show ?thesis using empty by (simp add: helpertree_clear_statistics_def)
  next
    case False
    note free = free_records_spec [OF tree_records_distinct [OF tree_state_ordered [OF t(1)] t(2)]]
    show ?thesis using walk_spec(2) [OF t(1)] free False empty by (simp add: helpertree_clear_statistics_def)
  qed
qed

subsection \<open>Properties\<close>

text \<open>
  C18: the helper tree is a map from offsets to values. As long as memory does not run out, adding a value for an offset
  returns, replaces the value of the offset whether or not there was one and changes no other; a search then gives the
  record of the offset with its value, and null for an offset never added, and gives back the record it was made for;
  and clearing frees every record and leaves the empty map.
\<close>

theorem helper_tree_is_map:
  assumes "helper_holds base m" "a \<noteq> 0" "hm_vals base a = None"
    and "fresh (hb_heap base) ms" "2 \<le> length ms" "0 \<notin> set ms"
  shows "(\<exists>r base' ms'. helpertree_add_entry offset val base (a # ms) = Some (r, base', ms') \<and>
      helper_holds base' (m(offset \<mapsto> val))) \<and>
    (\<exists>re. helpertree_find offset base (a # ms) = Some (re, base, ms) \<and>
      (case m offset of None \<Rightarrow> re = None
       | Some v \<Rightarrow> \<exists>p. re = Some p \<and> hm_key p = offset \<and> hm_vals base (hm_addr p) = Some v)) \<and>
    (\<exists>base'. helpertree_clear_statistics base = Some base' \<and> helper_holds base' Map.empty)"
  using helper_add [OF assms] helper_find [OF assms(1-3)] helper_clear [OF assms(1)] by blast

definition no_helpers :: helper_base where
  "no_helpers = \<lparr>hb_base = 0, hb_heap = Map.empty, hm_vals = Map.empty\<rparr>"

lemma no_helpers_holds: "helper_holds no_helpers Map.empty"
  unfolding helper_holds_def no_helpers_def
  by (intro exI [of _ Leaf]) (simp add: records_ok_def record_map_def tree_map_def fun_eq_iff)

theorem helper_tree_is_map_witness:
  "\<exists>r base' ms'. helpertree_add_entry 16 (- 1) no_helpers [1, 2, 3] = Some (r, base', ms') \<and>
    helper_holds base' [16 \<mapsto> - 1]"
  using helper_tree_is_map [OF no_helpers_holds, of 1 "[2, 3]" 16 "- 1"] by (simp add: no_helpers_def)

end
