(* ===== verification/Abbrev.thy ===== *)
theory Abbrev
  imports Leb128
begin

text \<open>
  Abbreviation declarations (\<open>dwarf_abbrev.c\<close>, \<open>dwarf_fill_in_attr_form.c\<close> and the reading
  macros of \<open>dwarf_util.h\<close>). A pointer into \<open>.debug_abbrev\<close> is the offset from the start of the
  section's data; \<open>e\<close> is the pointer behind the last byte that may be read.
\<close>

subsection \<open>Errors and the reading macros\<close>

datatype dw_error =
    DW_DLE_LEB_IMPROPER
  | DW_DLE_ATTR_CORRUPT
  | DW_DLE_UNKNOWN_FORM
  | DW_DLE_ALLOC_FAIL
  | DW_DLE_TAG_CORRUPT
  | DW_DLE_ABBREV_OFF_END
  | DW_DLE_ABBREV_DECODE_ERROR
  | DW_DLE_ATTR_FORM_SIZE_BAD
  | DW_DLE_DBG_NULL
  | DW_DLE_DWARF_ABBREV_NULL
  | DW_DLE_FORM_BLOCK_LENGTH_ERROR
  | DW_DLE_READ_LITTLEENDIAN_ERROR
  | DW_DLE_NESTED_FORM_INDIRECT_ERROR
  | DW_DLE_DEBUG_FORM_HANDLING_INCOMPLETE
  | DW_DLE_FORM_STRING_BAD_STRING
  | DW_DLE_STRING_NOT_TERMINATED
  | DW_DLE_HEADER_LEN_BIGGER_THAN_SECSIZE
  | DW_DLE_NEXT_DIE_PTR_NULL
  | DW_DLE_NEXT_DIE_NO_ABBREV_LIST
  | DW_DLE_NEXT_DIE_WRONG_FORM
  | DW_DLE_SIBLING_OFFSET_WRONG
  | DW_DLE_NEXT_DIE_PAST_END
  | DW_DLE_NEXT_DIE_LOW_ERROR
  | DW_DLE_DIE_ABBREV_LIST_NULL
  | DW_DLE_ABBREV_MISSING
  | DW_DLE_FIRST_DIE_NOT_CU
  | DW_DLE_UNIT_TYPE_NOT_HANDLED
  | DW_DLE_LINE_TABLE_BAD
  | DW_DLE_LINE_TABLE_LINENO_ERROR
  | DW_DLE_LINE_INDEX_WRONG
  | DW_DLE_LINE_NUM_OPERANDS_BAD
  | DW_DLE_DEFINE_FILE_STRING_BAD
  | DW_DLE_DEBUG_LINE_LENGTH_BAD
  | DW_DLE_VERSION_STAMP_ERROR
  | DW_DLE_LINE_OFFSET_BAD
  | DW_DLE_DEBUG_LINE_RANGE_ZERO
  | DW_DLE_LINE_STRING_BAD
  | DW_DLE_LINE_NUMBER_HEADER_ERROR
  | DW_DLE_DIR_INDEX_BAD
  | DW_DLE_LINE_PROLOG_LENGTH_BAD
  | DW_DLE_LINE_ALLOC
  | DW_DLE_WRONG_ADDRESS
  | DW_DLE_LINE_HEADER_LENGTH_BOTCH
  | DW_DLE_INCDIR_ALLOC
  | DW_DLE_FILE_ENTRY_ALLOC
  | DW_DLE_STRING_ALLOC
  | DW_DLE_LEB_OUT_ERROR

definition data_between :: "byte list \<Rightarrow> nat \<Rightarrow> nat \<Rightarrow> byte list" where
  "data_between sec p e = drop p (take e sec)"

definition DECODE_LEB128_UWORD_CK :: "byte list \<Rightarrow> nat \<Rightarrow> nat \<Rightarrow> (dw_error, u64 \<times> nat) dlv" where
  "DECODE_LEB128_UWORD_CK sec p e =
     (case dwarf_decode_leb128 (data_between sec p e) of
        DW_DLV_OK (leblen, v) \<Rightarrow> DW_DLV_OK (v, p + leblen)
      | _ \<Rightarrow> DW_DLV_ERROR DW_DLE_LEB_IMPROPER)"

definition DECODE_LEB128_SWORD_CK :: "byte list \<Rightarrow> nat \<Rightarrow> nat \<Rightarrow> (dw_error, u64 \<times> nat) dlv" where
  "DECODE_LEB128_SWORD_CK sec p e =
     (case dwarf_decode_signed_leb128 (data_between sec p e) of
        DW_DLV_OK (leblen, v) \<Rightarrow> DW_DLV_OK (v, p + leblen)
      | _ \<Rightarrow> DW_DLV_ERROR DW_DLE_LEB_IMPROPER)"

definition SKIP_LEB128_CK :: "byte list \<Rightarrow> nat \<Rightarrow> nat \<Rightarrow> (dw_error, nat) dlv" where
  "SKIP_LEB128_CK sec p e =
     (case dwarf_skip_leb128 (data_between sec p e) of
        DW_DLV_OK leblen \<Rightarrow> DW_DLV_OK (p + leblen)
      | _ \<Rightarrow> DW_DLV_ERROR DW_DLE_LEB_IMPROPER)"

lemma uword_advances: "DECODE_LEB128_UWORD_CK sec p e = DW_DLV_OK (v, q) \<Longrightarrow> p < q \<and> q \<le> e"
  using decode_bounds [of "data_between sec p e"]
  by (fastforce simp: DECODE_LEB128_UWORD_CK_def data_between_def split: dlv.splits)

lemma sword_advances: "DECODE_LEB128_SWORD_CK sec p e = DW_DLV_OK (v, q) \<Longrightarrow> p < q \<and> q \<le> e"
  using signed_decode_bounds [of "data_between sec p e"]
  by (fastforce simp: DECODE_LEB128_SWORD_CK_def data_between_def split: dlv.splits)

lemma skip_advances: "SKIP_LEB128_CK sec p e = DW_DLV_OK q \<Longrightarrow> p < q \<and> q \<le> e"
  using skip_bounds [of "data_between sec p e"]
  by (fastforce simp: SKIP_LEB128_CK_def data_between_def split: dlv.splits)

subsection \<open>Counting the attributes of a declaration\<close>

definition DW_AT_hi_user :: u64 where "DW_AT_hi_user = 0x3fff"
definition DW_TAG_hi_user :: u64 where "DW_TAG_hi_user = 0xffff"
definition DW_FORM_implicit_const :: u64 where "DW_FORM_implicit_const = 0x21"
definition DW_FORM_addrx4 :: u64 where "DW_FORM_addrx4 = 0x2c"
definition DW_FORM_GNU_addr_index :: u64 where "DW_FORM_GNU_addr_index = 0x1f01"
definition DW_FORM_GNU_str_index :: u64 where "DW_FORM_GNU_str_index = 0x1f02"
definition DW_FORM_GNU_ref_alt :: u64 where "DW_FORM_GNU_ref_alt = 0x1f20"
definition DW_FORM_GNU_strp_alt :: u64 where "DW_FORM_GNU_strp_alt = 0x1f21"

definition dwarf_valid_form_we_know :: "u64 \<Rightarrow> u64 \<Rightarrow> bool" where
  "dwarf_valid_form_we_know at_form at_name =
     (if at_form = 0 \<and> at_name = 0 then True
      else if at_name = 0 then False
      else if at_form \<le> DW_FORM_addrx4 then True
      else at_form = DW_FORM_GNU_addr_index \<or> at_form = DW_FORM_GNU_str_index
        \<or> at_form = DW_FORM_GNU_ref_alt \<or> at_form = DW_FORM_GNU_strp_alt)"

function count_loop ::
    "byte list \<Rightarrow> nat \<Rightarrow> nat \<Rightarrow> nat \<Rightarrow> nat \<Rightarrow> (dw_error, nat \<times> nat \<times> nat) dlv" where
  "count_loop sec e p abbrev_count implicit_count =
     dlv_bind (DECODE_LEB128_UWORD_CK sec p e) (\<lambda>(attr_name, p1).
       if attr_name > DW_AT_hi_user then DW_DLV_ERROR DW_DLE_ATTR_CORRUPT
       else dlv_bind (DECODE_LEB128_UWORD_CK sec p1 e) (\<lambda>(attr_form, p2).
         if \<not> dwarf_valid_form_we_know attr_form attr_name then DW_DLV_ERROR DW_DLE_UNKNOWN_FORM
         else dlv_bind (if attr_form = DW_FORM_implicit_const
                        then dlv_bind (SKIP_LEB128_CK sec p2 e) (\<lambda>p3. DW_DLV_OK (p3, implicit_count + 1))
                        else DW_DLV_OK (p2, implicit_count)) (\<lambda>(p3, implicit_count1).
           if p3 < e \<and> (attr_name \<noteq> 0 \<or> attr_form \<noteq> 0)
           then count_loop sec e p3 (abbrev_count + 1) implicit_count1
           else DW_DLV_OK (abbrev_count + 1, implicit_count1, p3))))"
  by pat_completeness auto
termination
  by (relation "measure (\<lambda>(sec, e, p, c, i). e - p)")
    (auto simp: dlv_bind_OK_iff dest!: uword_advances skip_advances split: if_splits)

declare count_loop.simps [simp del]

text \<open>The result is \<open>*abbrev_count_out\<close>, \<open>*abbrev_implicit_const_count_out\<close> and \<open>*abbrev_ptr_out\<close>.\<close>

definition dwarf_count_abbrev_entries ::
    "byte list \<Rightarrow> nat \<Rightarrow> nat \<Rightarrow> (dw_error, nat \<times> nat \<times> nat) dlv" where
  "dwarf_count_abbrev_entries sec abbrev_ptr abbrev_section_end =
     dlv_bind (count_loop sec abbrev_section_end abbrev_ptr 0 0) (\<lambda>(abbrev_count, implicit_count, p).
       DW_DLV_OK (abbrev_count - 1, implicit_count, p))"

subsection \<open>Filling in the attributes and forms\<close>

record abbrev_list =
  abl_code :: u64
  abl_tag :: "16 word"
  abl_has_child :: "16 word"
  abl_reference_count :: nat
  abl_goffset :: nat
  abl_abbrev_ptr :: nat
  abl_abbrev_count :: nat
  abl_implicit_const_count :: nat
  abl_attr :: "16 word list option"
  abl_form :: "16 word list option"
  abl_implicit_const :: "u64 list option"

text \<open>
  The loop with the arrays it writes; \<open>None\<close> is a write through the null pointer
  \<open>abl_implicit_const\<close>.
\<close>

definition set_attr :: "nat \<Rightarrow> u64 \<Rightarrow> abbrev_list \<Rightarrow> abbrev_list" where
  "set_attr i attr al = al\<lparr>abl_attr := map_option (\<lambda>a. a[i := ucast attr]) (abl_attr al)\<rparr>"

definition set_form :: "nat \<Rightarrow> u64 \<Rightarrow> abbrev_list \<Rightarrow> abbrev_list" where
  "set_form i form al = al\<lparr>abl_form := map_option (\<lambda>a. a[i := ucast form]) (abl_form al)\<rparr>"

fun fill_loop ::
    "byte list \<Rightarrow> nat \<Rightarrow> nat \<Rightarrow> nat \<Rightarrow> nat \<Rightarrow> abbrev_list \<Rightarrow> ((dw_error, unit) dlv \<times> abbrev_list) option" where
  "fill_loop sec e p i 0 al = Some (DW_DLV_OK (), al)"
| "fill_loop sec e p i (Suc left) al =
     (case DECODE_LEB128_UWORD_CK sec p e of
        DW_DLV_OK (attr, p1) \<Rightarrow>
          if attr > 0xffff then Some (DW_DLV_ERROR DW_DLE_ATTR_FORM_SIZE_BAD, al)
          else let al1 = set_attr i attr al in
               if attr > DW_AT_hi_user then Some (DW_DLV_ERROR DW_DLE_ATTR_CORRUPT, al1)
               else (case DECODE_LEB128_UWORD_CK sec p1 e of
                  DW_DLV_OK (attr_form, p2) \<Rightarrow>
                    if attr_form > 0xffff then Some (DW_DLV_ERROR DW_DLE_ATTR_FORM_SIZE_BAD, al1)
                    else if \<not> dwarf_valid_form_we_know attr_form attr
                    then Some (DW_DLV_ERROR DW_DLE_UNKNOWN_FORM, al1)
                    else let al2 = set_form i attr_form (set_attr i attr al1) in
                         if attr_form = DW_FORM_implicit_const
                         then (case DECODE_LEB128_SWORD_CK sec p2 e of
                            DW_DLV_OK (implicit_const, p3) \<Rightarrow>
                              (case abl_implicit_const al2 of
                                 None \<Rightarrow> None
                               | Some consts \<Rightarrow>
                                   fill_loop sec e p3 (i + 1) left
                                     (al2\<lparr>abl_implicit_const_count := abl_implicit_const_count al2 + 1,
                                          abl_implicit_const := Some (consts[i := implicit_const])\<rparr>))
                          | _ \<Rightarrow> Some (DW_DLV_ERROR DW_DLE_LEB_IMPROPER, al2))
                         else fill_loop sec e p2 (i + 1) left al2
                | _ \<Rightarrow> Some (DW_DLV_ERROR DW_DLE_LEB_IMPROPER, al1))
      | _ \<Rightarrow> Some (DW_DLV_ERROR DW_DLE_LEB_IMPROPER, al))"

definition dwarf_fill_in_attr_form_abtable ::
    "byte list \<Rightarrow> nat \<Rightarrow> nat \<Rightarrow> allocs \<Rightarrow> abbrev_list
     \<Rightarrow> ((dw_error, unit) dlv \<times> abbrev_list) option" where
  "dwarf_fill_in_attr_form_abtable sec abbrev_ptr abbrev_end mem al =
     (let n = abl_abbrev_count al;
          (ok1, mem1) = alloc mem;
          (ok2, mem2) = alloc mem1;
          al1 = al\<lparr>abl_attr := (if ok1 then Some (replicate n 0) else None),
                   abl_form := (if ok2 then Some (replicate n 0) else None)\<rparr>;
          al2 = (if 0 < abl_implicit_const_count al
                 then al1\<lparr>abl_implicit_const := (if fst (alloc mem2) then Some (replicate n 0) else None)\<rparr>
                 else al1)
      in if 0 < abl_implicit_const_count al \<and> \<not> fst (alloc mem2)
         then Some (DW_DLV_ERROR DW_DLE_ALLOC_FAIL, al2)
         else if \<not> ok1 \<or> \<not> ok2 then Some (DW_DLV_ERROR DW_DLE_ALLOC_FAIL, al2)
         else fill_loop sec abbrev_end abbrev_ptr 0 n al2)"

subsection \<open>Reading declarations without a unit\<close>

record dwarf_abbrev =
  dab_tag :: u64
  dab_code :: u64
  dab_has_child :: byte
  dab_abbrev_ptr :: nat
  dab_goffset :: nat
  dab_count :: nat
  dab_implicit_count :: nat
  dab_next_ptr :: nat
  dab_next_index :: u64

text \<open>
  \<open>loaded\<close> is what loading the sections gives (the data of \<open>.debug_abbrev\<close> when they are already
  loaded). The result is the declaration, \<open>*length\<close> and \<open>*abbr_count\<close>.
\<close>

definition dwarf_get_abbrev ::
    "bool \<Rightarrow> (dw_error, byte list) dlv \<Rightarrow> nat \<Rightarrow> bool \<Rightarrow> allocs
     \<Rightarrow> (dw_error, dwarf_abbrev \<times> nat \<times> nat) dlv" where
  "dwarf_get_abbrev dbg_valid loaded offset outputs_given mem =
     (if \<not> dbg_valid then DW_DLV_ERROR DW_DLE_DBG_NULL
      else dlv_bind loaded (\<lambda>sec.
        let e = length sec in
        if e \<le> offset then DW_DLV_NO_ENTRY
        else if \<not> fst (alloc mem) then DW_DLV_ERROR DW_DLE_ALLOC_FAIL
        else if \<not> outputs_given then DW_DLV_ERROR DW_DLE_DWARF_ABBREV_NULL
        else dlv_bind (DECODE_LEB128_UWORD_CK sec offset e) (\<lambda>(code, p1).
          let ret = \<lparr>dab_tag = 0, dab_code = code, dab_has_child = 0, dab_abbrev_ptr = 0, dab_goffset = 0,
                     dab_count = 0, dab_implicit_count = 0, dab_next_ptr = 0, dab_next_index = 0\<rparr>
          in if code = 0 then DW_DLV_OK (ret, 1, 0)
             else dlv_bind (DECODE_LEB128_UWORD_CK sec p1 e) (\<lambda>(tag, p2).
               if tag > DW_TAG_hi_user then DW_DLV_ERROR DW_DLE_TAG_CORRUPT
               else if e \<le> p2 then DW_DLV_ERROR DW_DLE_ABBREV_DECODE_ERROR
               else dlv_bind (dwarf_count_abbrev_entries sec (p2 + 1) e) (\<lambda>(labbr_count, implicit_count, p3).
                 if e < p3 then DW_DLV_ERROR DW_DLE_ABBREV_DECODE_ERROR
                 else DW_DLV_OK
                   (ret\<lparr>dab_tag := tag, dab_has_child := sec ! p2, dab_abbrev_ptr := p2 + 1,
                        dab_next_ptr := p2 + 1, dab_next_index := 0, dab_goffset := offset,
                        dab_count := labbr_count, dab_implicit_count := implicit_count\<rparr>,
                    p3 - offset, labbr_count))))))"

definition dwarf_get_abbrev_code :: "dwarf_abbrev option \<Rightarrow> (dw_error, u64) dlv" where
  "dwarf_get_abbrev_code abbrev =
     (case abbrev of None \<Rightarrow> DW_DLV_ERROR DW_DLE_DWARF_ABBREV_NULL | Some ab \<Rightarrow> DW_DLV_OK (dab_code ab))"

definition dwarf_get_abbrev_tag :: "dwarf_abbrev option \<Rightarrow> (dw_error, 16 word) dlv" where
  "dwarf_get_abbrev_tag abbrev =
     (case abbrev of None \<Rightarrow> DW_DLV_ERROR DW_DLE_DWARF_ABBREV_NULL | Some ab \<Rightarrow> DW_DLV_OK (ucast (dab_tag ab)))"

definition dwarf_get_abbrev_children_flag :: "dwarf_abbrev option \<Rightarrow> (dw_error, u64) dlv" where
  "dwarf_get_abbrev_children_flag abbrev =
     (case abbrev of None \<Rightarrow> DW_DLV_ERROR DW_DLE_DWARF_ABBREV_NULL | Some ab \<Rightarrow> DW_DLV_OK (ucast (dab_has_child ab)))"

text \<open>
  The loop of \<open>dwarf_get_abbrev_entry_b\<close>, with \<open>local_indx\<close>, \<open>abbrev_ptr\<close>, \<open>attr\<close>, \<open>form\<close>,
  \<open>implicitconst\<close> and \<open>mark_abbrev_ptr\<close> (\<open>None\<close>: still null).
\<close>

function entry_loop ::
    "byte list \<Rightarrow> nat \<Rightarrow> bool \<Rightarrow> int \<Rightarrow> nat \<Rightarrow> u64 \<Rightarrow> u64 \<Rightarrow> u64 \<Rightarrow> nat option
     \<Rightarrow> (dw_error, int \<times> nat \<times> u64 \<times> u64 \<times> u64 \<times> nat option) dlv" where
  "entry_loop sec e filter_outliers local_indx p attr form implicitconst mark =
     (if 0 \<le> local_indx \<and> p < e \<and> (attr \<noteq> 0 \<or> form \<noteq> 0)
      then dlv_bind (DECODE_LEB128_UWORD_CK sec p e) (\<lambda>(attr1, p1).
        if filter_outliers \<and> attr1 > DW_AT_hi_user then DW_DLV_ERROR DW_DLE_ATTR_CORRUPT
        else dlv_bind (DECODE_LEB128_UWORD_CK sec p1 e) (\<lambda>(form1, p2).
          if filter_outliers \<and> \<not> dwarf_valid_form_we_know form1 attr1
          then DW_DLV_ERROR DW_DLE_UNKNOWN_FORM
          else dlv_bind (if form1 = DW_FORM_implicit_const then DECODE_LEB128_SWORD_CK sec p2 e
                         else DW_DLV_OK (0, p2)) (\<lambda>(ic, p3).
            entry_loop sec e filter_outliers (local_indx - 1) p3 attr1 form1 ic (Some p))))
      else DW_DLV_OK (local_indx, p, attr, form, implicitconst, mark))"
  by pat_completeness auto
termination
  by (relation "measure (\<lambda>(sec, e, f, l, p, a, fo, i, m). e - p)")
    (auto simp: dlv_bind_OK_iff dest!: uword_advances sword_advances split: if_splits)

declare entry_loop.simps [simp del]

text \<open>
  The result is \<open>*returned_attr_num\<close>, \<open>*returned_form\<close>, \<open>*returned_implicitconst\<close> and
  \<open>*offset\<close> (\<open>None\<close>: computed from a null pointer), and the declaration as it is left.
\<close>

definition dwarf_get_abbrev_entry_b ::
    "dwarf_abbrev option \<Rightarrow> bool \<Rightarrow> byte list \<Rightarrow> u64 \<Rightarrow> bool
     \<Rightarrow> (dw_error, (u64 \<times> u64 \<times> u64 \<times> nat option) \<times> dwarf_abbrev) dlv" where
  "dwarf_get_abbrev_entry_b abbrev dbg_valid sec indx filter_outliers =
     (case abbrev of
        None \<Rightarrow> DW_DLV_ERROR DW_DLE_DWARF_ABBREV_NULL
      | Some ab \<Rightarrow>
          if dab_code ab = 0 then DW_DLV_NO_ENTRY
          else if \<not> dbg_valid then DW_DLV_ERROR DW_DLE_DBG_NULL
          else let e = length sec;
                   resume = (indx \<ge> dab_next_index ab);
                   p = (if resume then dab_next_ptr ab else dab_abbrev_ptr ab);
                   local_indx = sint (if resume then indx - dab_next_index ab else indx)
               in dlv_bind (entry_loop sec e filter_outliers local_indx p 1 1 0 None)
                    (\<lambda>(local1, p1, attr, form, ic, mark).
                      if e \<le> p1 then DW_DLV_ERROR DW_DLE_ABBREV_DECODE_ERROR
                      else if 0 \<le> local1 then DW_DLV_NO_ENTRY
                      else DW_DLV_OK ((attr, form, ic, mark),
                             ab\<lparr>dab_next_ptr := p1, dab_next_index := word_of_int local1\<rparr>)))"

subsection \<open>The declarations as bytes\<close>

text \<open>How a producer writes a declaration, with the encoders of the library.\<close>

definition uleb :: "u64 \<Rightarrow> byte list" where
  "uleb v = (case dwarf_encode_leb128 v 10 of DW_DLV_OK bs \<Rightarrow> bs | _ \<Rightarrow> [])"

definition sleb :: "u64 \<Rightarrow> byte list" where
  "sleb v = (case dwarf_encode_signed_leb128 v 10 of DW_DLV_OK bs \<Rightarrow> bs | _ \<Rightarrow> [])"

record abbrev_attr =
  at_name :: u64
  at_form :: u64
  at_const :: u64

definition attr_bytes :: "abbrev_attr \<Rightarrow> byte list" where
  "attr_bytes a = uleb (at_name a) @ uleb (at_form a)
     @ (if at_form a = DW_FORM_implicit_const then sleb (at_const a) else [])"

definition attrs_bytes :: "abbrev_attr list \<Rightarrow> byte list" where
  "attrs_bytes as = concat (map attr_bytes as) @ [0, 0]"

definition valid_attr :: "abbrev_attr \<Rightarrow> bool" where
  "valid_attr a \<longleftrightarrow> at_name a \<noteq> 0 \<and> at_name a \<le> DW_AT_hi_user \<and> dwarf_valid_form_we_know (at_form a) (at_name a)
     \<and> (at_form a \<noteq> DW_FORM_implicit_const \<longrightarrow> at_const a = 0)"

definition implicit_consts :: "abbrev_attr list \<Rightarrow> nat" where
  "implicit_consts as = length (filter (\<lambda>a. at_form a = DW_FORM_implicit_const) as)"

text \<open>The bytes \<open>bs\<close> stand at \<open>p\<close>, before \<open>e\<close>.\<close>

definition at_bytes :: "byte list \<Rightarrow> nat \<Rightarrow> nat \<Rightarrow> byte list \<Rightarrow> bool" where
  "at_bytes sec p e bs \<longleftrightarrow> p + length bs \<le> e \<and> e \<le> length sec \<and> take (length bs) (drop p sec) = bs"

lemma at_bytes_append: "at_bytes sec p e (xs @ ys) \<longleftrightarrow> at_bytes sec p e xs \<and> at_bytes sec (p + length xs) e ys"
  by (auto simp: at_bytes_def take_add add.assoc add.commute [of p])

lemma at_bytes_first: "at_bytes sec p e (x # xs) \<Longrightarrow> p < e \<and> sec ! p = x"
  by (cases "p < length sec") (auto simp: at_bytes_def take_Suc Cons_nth_drop_Suc [symmetric])

lemma at_bytes_between: "at_bytes sec p e bs \<Longrightarrow> \<exists>rest. data_between sec p e = bs @ rest"
proof -
  assume b: "at_bytes sec p e bs"
  then have "length bs \<le> e - p" "take (length bs) (drop p sec) = bs" by (auto simp: at_bytes_def)
  then have "take (length bs) (take (e - p) (drop p sec)) = bs" by (simp add: min_absorb1)
  then have "take (e - p) (drop p sec) = bs @ drop (length bs) (take (e - p) (drop p sec))"
    by (metis append_take_drop_id)
  then show ?thesis unfolding data_between_def drop_take by blast
qed

lemma uleb_spec: "leb_shape (uleb v) \<and> leb_word (uleb v) = v \<and> length (uleb v) \<le> 10"
proof -
  have "drop_bit (7 * Suc 9) v = 0" by (rule bit_word_eqI) (simp add: bit_simps)
  then obtain bs where "dwarf_encode_leb128 v 10 = DW_DLV_OK bs"
    using encode_total [of 9 v 10] by auto
  then show ?thesis using encode_shape [of v 10 bs] by (simp add: uleb_def)
qed

lemma sleb_spec:
  "leb_shape (sleb v) \<and> sleb_word (sleb v) = v \<and> length (sleb v) \<le> 10
   \<and> (length (sleb v) = 10 \<longrightarrow> bit (last (sleb v)) 6 \<longrightarrow> bit (last (sleb v)) 0)"
proof -
  have "signed_drop_bit (7 * 9 + 6) v = (if bit v 63 then - 1 else 0)"
    by (rule bit_word_eqI) (auto simp: bit_simps)
  then obtain bs where "dwarf_encode_signed_leb128 v 10 = DW_DLV_OK bs"
    using encode_signed_total [of 9 v 10]
    by (auto simp: dwarf_encode_signed_leb128_def sint_neg_iff)
  then show ?thesis using encode_signed_spec [of v 10 bs] by (simp add: sleb_def)
qed

lemma leb_nonempty [simp]: "uleb v \<noteq> []" "sleb v \<noteq> []"
  using uleb_spec [of v] sleb_spec [of v] by (auto simp: leb_shape_def)

lemma uleb_written: "10 \<le> n \<Longrightarrow> dwarf_encode_leb128 v n = DW_DLV_OK (uleb v)"
proof -
  assume n: "10 \<le> n"
  have z: "drop_bit (7 * Suc k) v = 0" if "9 \<le> k" for k
    by (rule bit_word_eqI) (use that in \<open>simp add: bit_simps\<close>)
  obtain bs where bs: "dwarf_encode_leb128 v 10 = DW_DLV_OK bs"
    using encode_total [of 9 v 10] z [of 9] by auto
  obtain cs where cs: "dwarf_encode_leb128 v (10 + (n - 10)) = DW_DLV_OK cs"
    using encode_total [of "n - 1" v n] z [of "n - 1"] n by auto
  show ?thesis using encode_more_space [OF bs cs] bs cs n by (simp add: uleb_def)
qed

lemma sleb_written: "10 \<le> n \<Longrightarrow> dwarf_encode_signed_leb128 v n = DW_DLV_OK (sleb v)"
proof -
  assume n: "10 \<le> n"
  have "signed_drop_bit (7 * 9 + 6) v = (if bit v 63 then - 1 else 0)"
    by (rule bit_word_eqI) (auto simp: bit_simps)
  then obtain bs where bs: "dwarf_encode_signed_leb128 v 10 = DW_DLV_OK bs"
    using encode_signed_total [of 9 v 10] by (auto simp: dwarf_encode_signed_leb128_def sint_neg_iff)
  then have "dwarf_encode_signed_leb128 v (10 + (n - 10)) = DW_DLV_OK bs"
    using encode_signed_more_space unfolding dwarf_encode_signed_leb128_def by blast
  then show ?thesis using bs n by (simp add: sleb_def)
qed

lemma uword_at [simp]:
  "at_bytes sec p e (uleb v) \<Longrightarrow> DECODE_LEB128_UWORD_CK sec p e = DW_DLV_OK (v, p + length (uleb v))"
  using at_bytes_between [of sec p e "uleb v"] uleb_spec [of v]
  by (auto simp: DECODE_LEB128_UWORD_CK_def decode_shape)

lemma sword_at [simp]:
  "at_bytes sec p e (sleb v) \<Longrightarrow> DECODE_LEB128_SWORD_CK sec p e = DW_DLV_OK (v, p + length (sleb v))"
  using at_bytes_between [of sec p e "sleb v"] sleb_spec [of v] signed_decode_shape [of "sleb v"]
  by (auto simp: DECODE_LEB128_SWORD_CK_def)

lemma skip_at [simp]:
  "at_bytes sec p e (sleb v) \<Longrightarrow> SKIP_LEB128_CK sec p e = DW_DLV_OK (p + length (sleb v))"
  using at_bytes_between [of sec p e "sleb v"] sleb_spec [of v] skip_shape [of "sleb v"]
  by (auto simp: SKIP_LEB128_CK_def)

lemma uleb_zero: "uleb 0 = [0]"
  by (simp add: uleb_def eval_nat_numeral Let_def)

lemma at_bytes_zeros: "at_bytes sec p e [0, 0] \<Longrightarrow> at_bytes sec p e (uleb 0) \<and> at_bytes sec (p + 1) e (uleb 0)"
  using at_bytes_append [of sec p e "[0]" "[0]"] by (simp add: uleb_zero)

lemma attrs_bytes_simps [simp]:
  "attrs_bytes [] = [0, 0]"
  "attrs_bytes (a # as) = attr_bytes a @ attrs_bytes as"
  by (simp_all add: attrs_bytes_def)

lemma attrs_bytes_fit: "at_bytes sec p e (attrs_bytes as) \<Longrightarrow> p + 1 < e"
  by (auto simp: at_bytes_def attrs_bytes_def)

lemma attr_bytes_parts:
  assumes "at_bytes sec p e (attr_bytes a @ rest)"
  shows "at_bytes sec p e (uleb (at_name a))"
    and "at_bytes sec (p + length (uleb (at_name a))) e (uleb (at_form a))"
    and "at_form a = DW_FORM_implicit_const \<Longrightarrow>
      at_bytes sec (p + length (uleb (at_name a)) + length (uleb (at_form a))) e (sleb (at_const a))"
    and "at_bytes sec (p + length (attr_bytes a)) e rest"
  using assms by (auto simp: attr_bytes_def at_bytes_append add.assoc split: if_splits)

lemma count_loop_at:
  "at_bytes sec p e (attrs_bytes as) \<Longrightarrow> \<forall>a \<in> set as. valid_attr a \<Longrightarrow>
   count_loop sec e p c i =
     DW_DLV_OK (c + length as + 1, i + implicit_consts as, p + length (attrs_bytes as))"
proof (induction as arbitrary: p c i)
  case Nil
  then have z: "at_bytes sec p e (uleb 0)" "at_bytes sec (p + 1) e (uleb 0)"
    using at_bytes_zeros by simp_all
  then show ?case
    using uword_at [OF z(1)] uword_at [OF z(2)]
    by (subst count_loop.simps)
      (simp add: uleb_zero dwarf_valid_form_we_know_def DW_FORM_implicit_const_def implicit_consts_def)
next
  case (Cons a as)
  note parts = attr_bytes_parts [of sec p e a "attrs_bytes as"]
  have at: "at_bytes sec p e (attr_bytes a @ attrs_bytes as)" using Cons.prems by simp
  have v: "valid_attr a" "at_name a \<noteq> 0" "\<not> at_name a > DW_AT_hi_user"
      "dwarf_valid_form_we_know (at_form a) (at_name a)"
    using Cons.prems(2) by (auto simp: valid_attr_def)
  have IH: "count_loop sec e (p + length (attr_bytes a)) (c + 1)
      (i + (if at_form a = DW_FORM_implicit_const then 1 else 0)) =
      DW_DLV_OK (c + 1 + length as + 1,
        i + (if at_form a = DW_FORM_implicit_const then 1 else 0) + implicit_consts as,
        p + length (attr_bytes a) + length (attrs_bytes as))"
    using Cons.IH [OF parts(4) [OF at]] Cons.prems(2) by simp
  have fit: "p + length (attr_bytes a) < e" using attrs_bytes_fit [OF parts(4) [OF at]] by simp
  show ?case
  proof (cases "at_form a = DW_FORM_implicit_const")
    case True
    have len: "length (attr_bytes a) =
        length (uleb (at_name a)) + (length (uleb (at_form a)) + length (sleb (at_const a)))"
      using True by (simp add: attr_bytes_def)
    show ?thesis
      using IH fit v True parts(1,2) [OF at] parts(3) [OF at True]
      by (subst count_loop.simps) (simp add: len implicit_consts_def add.assoc)
  next
    case False
    have len: "length (attr_bytes a) = length (uleb (at_name a)) + length (uleb (at_form a))"
      using False by (simp add: attr_bytes_def)
    show ?thesis
      using IH fit v False parts(1,2) [OF at]
      by (subst count_loop.simps) (simp add: len implicit_consts_def add.assoc)
  qed
qed

lemma count_entries_at:
  "at_bytes sec p e (attrs_bytes as) \<Longrightarrow> \<forall>a \<in> set as. valid_attr a \<Longrightarrow>
   dwarf_count_abbrev_entries sec p e =
     DW_DLV_OK (length as, implicit_consts as, p + length (attrs_bytes as))"
  by (simp add: dwarf_count_abbrev_entries_def count_loop_at)

lemma valid_attr_small:
  "valid_attr a \<Longrightarrow> at_name a \<noteq> 0 \<and> \<not> at_name a > DW_AT_hi_user \<and> \<not> at_name a > 0xffff \<and> \<not> at_form a > 0xffff
    \<and> dwarf_valid_form_we_know (at_form a) (at_name a)"
proof -
  assume v: "valid_attr a"
  then have "at_name a \<le> 0x3fff" "at_form a \<le> 0x2c \<or> at_form a \<in> {0x1f01, 0x1f02, 0x1f20, 0x1f21}"
    by (auto simp: valid_attr_def dwarf_valid_form_we_know_def DW_AT_hi_user_def DW_FORM_addrx4_def
        DW_FORM_GNU_addr_index_def DW_FORM_GNU_str_index_def DW_FORM_GNU_ref_alt_def
        DW_FORM_GNU_strp_alt_def split: if_splits)
  moreover from this have "at_name a \<le> 0xffff" "at_form a \<le> 0xffff"
    by (auto elim: order_trans)
  ultimately show ?thesis using v by (auto simp: valid_attr_def not_less)
qed

lemma drop_replicate_step:
  "drop i co = x # replicate n x \<Longrightarrow> drop (Suc i) co = replicate n x \<and> i < length co \<and> co ! i = x"
proof -
  assume d: "drop i co = x # replicate n x"
  then have i: "i < length co" by (cases "i < length co") auto
  then have "co ! i # drop (Suc i) co = x # replicate n x" using d by (simp add: Cons_nth_drop_Suc)
  then show ?thesis using i by simp
qed

lemma fill_loop_at:
  assumes "at_bytes sec p e (concat (map attr_bytes as) @ rest)" "\<forall>a \<in> set as. valid_attr a"
      and "abl_attr al = Some at" "abl_form al = Some fo" "length at = i + length as" "length fo = i + length as"
      and "case abl_implicit_const al of
             None \<Rightarrow> implicit_consts as = 0 | Some co \<Rightarrow> drop i co = replicate (length as) 0 \<and> i \<le> length co"
  shows "fill_loop sec e p i (length as) al =
    Some (DW_DLV_OK (),
      al\<lparr>abl_attr := Some (take i at @ map (\<lambda>a. ucast (at_name a)) as),
         abl_form := Some (take i fo @ map (\<lambda>a. ucast (at_form a)) as),
         abl_implicit_const_count := abl_implicit_const_count al + implicit_consts as,
         abl_implicit_const := map_option (\<lambda>co. take i co @ map at_const as) (abl_implicit_const al)\<rparr>)"
  using assms
proof (induction as arbitrary: p i al at fo)
  case Nil
  then show ?case by (cases "abl_implicit_const al") (auto simp: implicit_consts_def)
next
  case (Cons a as)
  have at: "at_bytes sec p e (attr_bytes a @ concat (map attr_bytes as) @ rest)" using Cons.prems(1) by simp
  note parts = attr_bytes_parts [OF at]
  have v: "valid_attr a" using Cons.prems(2) by simp
  note small = valid_attr_small [OF v]
  define al1 where "al1 = al\<lparr>abl_attr := Some (at[i := ucast (at_name a)]),
      abl_form := Some (fo[i := ucast (at_form a)])\<rparr>"
  have set1: "set_form i (at_form a) (set_attr i (at_name a) (set_attr i (at_name a) al)) = al1"
    using Cons.prems(3,4) by (simp add: set_form_def set_attr_def al1_def)
  have upd: "take (Suc i) (at[i := x]) = take i at @ [x]" "take (Suc i) (fo[i := y]) = take i fo @ [y]" for x y
    using Cons.prems(5,6) by (simp_all add: take_Suc_conv_app_nth)
  show ?case
  proof (cases "at_form a = DW_FORM_implicit_const")
    case True
    then obtain co where co: "abl_implicit_const al = Some co" "drop i co = 0 # replicate (length as) 0" "i \<le> length co"
      using Cons.prems(7) by (cases "abl_implicit_const al") (auto simp: implicit_consts_def)
    note step = drop_replicate_step [OF co(2)]
    then have lco: "i < length co" by simp
    define al2 where "al2 = al1\<lparr>abl_implicit_const_count := abl_implicit_const_count al + 1,
        abl_implicit_const := Some (co[i := at_const a])\<rparr>"
    have len: "length (attr_bytes a) =
        length (uleb (at_name a)) + (length (uleb (at_form a)) + length (sleb (at_const a)))"
      using True by (simp add: attr_bytes_def)
    have "fill_loop sec e p i (length (a # as)) al =
        fill_loop sec e (p + length (attr_bytes a)) (i + 1) (length as) al2"
      using small True parts(1,2) parts(3) [OF True] set1 co
      by (simp add: Let_def len add.assoc al2_def al1_def)
    also have "\<dots> = Some (DW_DLV_OK (),
      al2\<lparr>abl_attr := Some (take (i + 1) (at[i := ucast (at_name a)]) @ map (\<lambda>a. ucast (at_name a)) as),
         abl_form := Some (take (i + 1) (fo[i := ucast (at_form a)]) @ map (\<lambda>a. ucast (at_form a)) as),
         abl_implicit_const_count := abl_implicit_const_count al2 + implicit_consts as,
         abl_implicit_const := map_option (\<lambda>co. take (i + 1) co @ map at_const as) (abl_implicit_const al2)\<rparr>)"
    proof (rule Cons.IH [OF parts(4)])
      have "drop (i + 1) co = replicate (length as) 0" using step by simp
      then show "case abl_implicit_const al2 of None \<Rightarrow> implicit_consts as = 0
          | Some co \<Rightarrow> drop (i + 1) co = replicate (length as) 0 \<and> i + 1 \<le> length co"
        using lco by (simp add: al2_def)
    qed (use Cons.prems in \<open>simp_all add: al2_def al1_def\<close>)
    finally show ?thesis
      using co lco True upd
      by (simp add: al2_def al1_def implicit_consts_def take_Suc_conv_app_nth)
  next
    case False
    then have c0: "at_const a = 0" using v by (simp add: valid_attr_def)
    have len: "length (attr_bytes a) = length (uleb (at_name a)) + length (uleb (at_form a))"
      using False by (simp add: attr_bytes_def)
    have "fill_loop sec e p i (length (a # as)) al =
        fill_loop sec e (p + length (attr_bytes a)) (i + 1) (length as) al1"
      using small False parts(1,2) set1 by (simp add: Let_def len add.assoc)
    also have "\<dots> = Some (DW_DLV_OK (),
      al1\<lparr>abl_attr := Some (take (i + 1) (at[i := ucast (at_name a)]) @ map (\<lambda>a. ucast (at_name a)) as),
         abl_form := Some (take (i + 1) (fo[i := ucast (at_form a)]) @ map (\<lambda>a. ucast (at_form a)) as),
         abl_implicit_const_count := abl_implicit_const_count al1 + implicit_consts as,
         abl_implicit_const := map_option (\<lambda>co. take (i + 1) co @ map at_const as) (abl_implicit_const al1)\<rparr>)"
    proof (rule Cons.IH [OF parts(4)])
      show "case abl_implicit_const al1 of None \<Rightarrow> implicit_consts as = 0
          | Some co \<Rightarrow> drop (i + 1) co = replicate (length as) 0 \<and> i + 1 \<le> length co"
        using Cons.prems(7) False
        by (auto simp: al1_def implicit_consts_def dest: drop_replicate_step split: option.splits)
    qed (use Cons.prems in \<open>simp_all add: al1_def\<close>)
    finally show ?thesis
      using False upd c0 Cons.prems(7)
      by (auto simp: al1_def implicit_consts_def take_Suc_conv_app_nth dest!: drop_replicate_step
          split: option.splits)
  qed
qed

lemma filled_in_at:
  assumes bytes: "at_bytes sec p e (attrs_bytes as)" and valid: "\<forall>a \<in> set as. valid_attr a"
      and al: "abl_abbrev_count al = length as" "abl_implicit_const_count al = implicit_consts as"
              "abl_implicit_const al = None"
      and mem: "\<forall>b \<in> set mem. b"
  shows "dwarf_fill_in_attr_form_abtable sec p e mem al =
      Some (DW_DLV_OK (),
        al\<lparr>abl_attr := Some (map (\<lambda>a. ucast (at_name a)) as),
           abl_form := Some (map (\<lambda>a. ucast (at_form a)) as),
           abl_implicit_const_count := 2 * implicit_consts as,
           abl_implicit_const := (if implicit_consts as = 0 then None else Some (map at_const as))\<rparr>)"
proof -
  have ok: "fst (alloc mem)" "fst (alloc (snd (alloc mem)))" "fst (alloc (snd (alloc (snd (alloc mem)))))"
    using mem by (cases mem; cases "tl mem"; cases "tl (tl mem)"; simp)+
  let ?n = "length as"
  define al2 where "al2 = al\<lparr>abl_attr := Some (replicate ?n 0), abl_form := Some (replicate ?n 0),
      abl_implicit_const := (if implicit_consts as = 0 then None else Some (replicate ?n 0))\<rparr>"
  have same: "al\<lparr>abl_attr := a, abl_form := b\<rparr> = al\<lparr>abl_attr := a, abl_form := b, abl_implicit_const := None\<rparr>" for a b
    using al(3) by simp
  have start: "dwarf_fill_in_attr_form_abtable sec p e mem al = fill_loop sec e p 0 ?n al2"
  proof (cases "implicit_consts as = 0")
    case True
    have "dwarf_fill_in_attr_form_abtable sec p e mem al =
        fill_loop sec e p 0 ?n (al\<lparr>abl_attr := Some (replicate ?n 0), abl_form := Some (replicate ?n 0)\<rparr>)"
      using ok al(1,2) True by (simp add: dwarf_fill_in_attr_form_abtable_def Let_def case_prod_unfold)
    also have "\<dots> = fill_loop sec e p 0 ?n al2"
      by (rule arg_cong [of _ _ "fill_loop sec e p 0 ?n"], unfold al2_def if_P [OF True], rule same)
    finally show ?thesis .
  next
    case False
    then show ?thesis
      using ok al by (simp add: dwarf_fill_in_attr_form_abtable_def Let_def case_prod_unfold al2_def)
  qed
  have b: "at_bytes sec p e (concat (map attr_bytes as) @ [0, 0])"
    using bytes by (simp add: attrs_bytes_def)
  have "fill_loop sec e p 0 ?n al2 = Some (DW_DLV_OK (),
      al2\<lparr>abl_attr := Some (take 0 (replicate ?n 0) @ map (\<lambda>a. ucast (at_name a)) as),
         abl_form := Some (take 0 (replicate ?n 0) @ map (\<lambda>a. ucast (at_form a)) as),
         abl_implicit_const_count := abl_implicit_const_count al2 + implicit_consts as,
         abl_implicit_const := map_option (\<lambda>co. take 0 co @ map at_const as) (abl_implicit_const al2)\<rparr>)"
    by (rule fill_loop_at [OF b valid]) (simp_all add: al2_def)
  then show ?thesis
    unfolding start by (simp add: al2_def al)
qed

text \<open>
  Counting and filling in fit together: for every well-formed declaration the count is the
  number of its attributes, the pointer is left behind the terminating pair, and filling in with
  this count gives exactly the attributes, the forms and, where there are any, the constants of
  the declaration, without a write outside the arrays. The number of constants, already
  counted, is counted a second time.
\<close>

theorem declaration_filled_in:
  assumes bytes: "at_bytes sec p e (attrs_bytes as)" and valid: "\<forall>a \<in> set as. valid_attr a"
      and al: "abl_abbrev_count al = length as" "abl_implicit_const_count al = implicit_consts as"
              "abl_implicit_const al = None"
      and mem: "\<forall>b \<in> set mem. b"
  shows "dwarf_count_abbrev_entries sec p e =
      DW_DLV_OK (length as, implicit_consts as, p + length (attrs_bytes as))
    \<and> dwarf_fill_in_attr_form_abtable sec p e mem al =
      Some (DW_DLV_OK (),
        al\<lparr>abl_attr := Some (map (\<lambda>a. ucast (at_name a)) as),
           abl_form := Some (map (\<lambda>a. ucast (at_form a)) as),
           abl_implicit_const_count := 2 * implicit_consts as,
           abl_implicit_const := (if implicit_consts as = 0 then None else Some (map at_const as))\<rparr>)"
  using count_entries_at [OF bytes valid] filled_in_at [OF assms] by blast

definition example_attrs :: "abbrev_attr list" where
  "example_attrs = [\<lparr>at_name = 3, at_form = 8, at_const = 0\<rparr>, \<lparr>at_name = 0x3e, at_form = 0x21, at_const = 5\<rparr>]"

lemma example_attrs_valid: "\<forall>a \<in> set example_attrs. valid_attr a"
  by (simp add: example_attrs_def valid_attr_def dwarf_valid_form_we_know_def DW_AT_hi_user_def
      DW_FORM_addrx4_def DW_FORM_implicit_const_def)

definition example_abl :: abbrev_list where
  "example_abl = \<lparr>abl_code = 1, abl_tag = 0x11, abl_has_child = 1, abl_reference_count = 0, abl_goffset = 0,
     abl_abbrev_ptr = 0, abl_abbrev_count = 2, abl_implicit_const_count = 1, abl_attr = None,
     abl_form = None, abl_implicit_const = None\<rparr>"

lemma example_attrs_facts:
  "length example_attrs = 2" "implicit_consts example_attrs = 1"
  by (simp_all add: example_attrs_def implicit_consts_def DW_FORM_implicit_const_def)

lemma at_bytes_whole: "at_bytes (xs @ ys) 0 (length (xs @ ys)) xs"
  by (simp add: at_bytes_def)

theorem declaration_filled_in_witness:
  "\<exists>n p al. dwarf_count_abbrev_entries (attrs_bytes example_attrs @ []) 0
        (length (attrs_bytes example_attrs @ [])) = DW_DLV_OK (2, n, p)
    \<and> dwarf_fill_in_attr_form_abtable (attrs_bytes example_attrs @ []) 0
        (length (attrs_bytes example_attrs @ [])) [] example_abl = Some (DW_DLV_OK (), al)
    \<and> abl_attr al = Some [3, 0x3e] \<and> abl_implicit_const al = Some [0, 5]"
  using declaration_filled_in [OF at_bytes_whole example_attrs_valid, of example_abl "[]" "[]"]
    example_attrs_facts
  by (simp add: example_abl_def) (simp add: example_attrs_def)

subsection \<open>Reading a declaration entry by entry\<close>

definition attrs_start :: "nat \<Rightarrow> abbrev_attr list \<Rightarrow> nat \<Rightarrow> nat" where
  "attrs_start p as i = p + length (concat (map attr_bytes (take i as)))"

lemma entry_loop_end:
  "at_bytes sec p e [0, 0] \<Longrightarrow> a \<noteq> 0 \<or> f \<noteq> 0 \<Longrightarrow> 0 \<le> i \<Longrightarrow>
   entry_loop sec e fo i p a f ic mk = DW_DLV_OK (i - 1, p + 2, 0, 0, 0, Some p)"
proof -
  assume b: "at_bytes sec p e [0, 0]" and af: "a \<noteq> 0 \<or> f \<noteq> 0" and i: "0 \<le> i"
  have z: "at_bytes sec p e (uleb 0)" "at_bytes sec (p + 1) e (uleb 0)"
    using at_bytes_zeros [OF b] by simp_all
  have p: "p < e" using b by (simp add: at_bytes_def)
  show ?thesis
    using uword_at [OF z(1)] uword_at [OF z(2)] af i p
    by (subst entry_loop.simps)
      (simp add: uleb_zero dwarf_valid_form_we_know_def DW_FORM_implicit_const_def entry_loop.simps [of _ _ _ _ _ 0 0])
qed

lemma entry_loop_at:
  "at_bytes sec p e (attrs_bytes as) \<Longrightarrow> \<forall>a \<in> set as. valid_attr a \<Longrightarrow> a \<noteq> 0 \<or> f \<noteq> 0 \<Longrightarrow>
   entry_loop sec e fo (int i) p a f ic mk =
     DW_DLV_OK (if i < length as
       then (-1, attrs_start p as (Suc i), at_name (as ! i), at_form (as ! i), at_const (as ! i), Some (attrs_start p as i))
       else (int i - int (length as) - 1, p + length (attrs_bytes as), 0, 0, 0, Some (attrs_start p as (length as))))"
proof (induction as arbitrary: p i a f ic mk)
  case Nil
  then show ?case by (simp add: entry_loop_end attrs_start_def)
next
  case (Cons x as)
  have at: "at_bytes sec p e (attr_bytes x @ attrs_bytes as)" using Cons.prems by simp
  note parts = attr_bytes_parts [OF at]
  have v: "valid_attr x" using Cons.prems(2) by simp
  note small = valid_attr_small [OF v]
  have p: "p < e" using attrs_bytes_fit [OF Cons.prems(1)] by simp
  have step: "entry_loop sec e fo (int i) p a f ic mk =
      entry_loop sec e fo (int i - 1) (p + length (attr_bytes x)) (at_name x) (at_form x) (at_const x) (Some p)"
  proof (cases "at_form x = DW_FORM_implicit_const")
    case True
    have len: "length (attr_bytes x) =
        length (uleb (at_name x)) + (length (uleb (at_form x)) + length (sleb (at_const x)))"
      using True by (simp add: attr_bytes_def)
    show ?thesis using small p True parts(1,2) parts(3) [OF True] Cons.prems(3)
      by (subst entry_loop.simps) (simp add: len add.assoc)
  next
    case False
    have len: "length (attr_bytes x) = length (uleb (at_name x)) + length (uleb (at_form x))"
      using False by (simp add: attr_bytes_def)
    have "at_const x = 0" using v False by (simp add: valid_attr_def)
    then show ?thesis using small p False parts(1,2) Cons.prems(3)
      by (subst entry_loop.simps) (simp add: len add.assoc)
  qed
  show ?case
  proof (cases i)
    case 0
    then show ?thesis
      unfolding step by (subst entry_loop.simps) (simp add: attrs_start_def)
  next
    case (Suc j)
    have nz: "at_name x \<noteq> 0 \<or> at_form x \<noteq> 0" using small by simp
    have "entry_loop sec e fo (int j) (p + length (attr_bytes x)) (at_name x) (at_form x) (at_const x) (Some p) =
      DW_DLV_OK (if j < length as
       then (-1, attrs_start (p + length (attr_bytes x)) as (Suc j), at_name (as ! j), at_form (as ! j),
             at_const (as ! j), Some (attrs_start (p + length (attr_bytes x)) as j))
       else (int j - int (length as) - 1, p + length (attr_bytes x) + length (attrs_bytes as), 0, 0, 0,
             Some (attrs_start (p + length (attr_bytes x)) as (length as))))"
      by (rule Cons.IH [OF parts(4) _ nz]) (use Cons.prems in simp)
    moreover have "entry_loop sec e fo (int i) p a f ic mk =
        entry_loop sec e fo (int j) (p + length (attr_bytes x)) (at_name x) (at_form x) (at_const x) (Some p)"
      unfolding step by (simp add: Suc)
    ultimately show ?thesis
      by (simp only: Suc) (simp add: attrs_start_def attrs_bytes_def)
  qed
qed

text \<open>
  A sequence of readings of one declaration by index, each with the declaration as the one before
  left it. An answer is the attribute, the form, the constant and the offset of the pair.
\<close>

fun read_entries ::
    "byte list \<Rightarrow> bool \<Rightarrow> dwarf_abbrev \<Rightarrow> u64 list \<Rightarrow> (dw_error, u64 \<times> u64 \<times> u64 \<times> nat option) dlv list" where
  "read_entries sec fo ab [] = []"
| "read_entries sec fo ab (i # is) =
     (case dwarf_get_abbrev_entry_b (Some ab) True sec i fo of
        DW_DLV_OK (answer, ab1) \<Rightarrow> DW_DLV_OK answer # read_entries sec fo ab1 is
      | DW_DLV_NO_ENTRY \<Rightarrow> DW_DLV_NO_ENTRY # read_entries sec fo ab is
      | DW_DLV_ERROR err \<Rightarrow> DW_DLV_ERROR err # read_entries sec fo ab is)"

definition entry_answer ::
    "nat \<Rightarrow> abbrev_attr list \<Rightarrow> u64 \<Rightarrow> (dw_error, u64 \<times> u64 \<times> u64 \<times> nat option) dlv" where
  "entry_answer p as i =
     (if unat i < length as
      then DW_DLV_OK (at_name (as ! unat i), at_form (as ! unat i), at_const (as ! unat i),
                      Some (attrs_start p as (unat i)))
      else if unat i = length as then DW_DLV_OK (0, 0, 0, Some (attrs_start p as (length as)))
      else DW_DLV_NO_ENTRY)"

text \<open>The cursor of a declaration: at its first pair, or at an index no request reaches.\<close>

definition cursor_ok :: "dwarf_abbrev \<Rightarrow> bool" where
  "cursor_ok ab \<longleftrightarrow> dab_code ab \<noteq> 0
     \<and> (dab_next_index ab = - 1 \<or> dab_next_index ab = 0 \<and> dab_next_ptr ab = dab_abbrev_ptr ab)"

lemma attrs_start_mono: "attrs_start p as i \<le> p + length (concat (map attr_bytes as))"
proof -
  have "length (concat (map attr_bytes as)) =
      length (concat (map attr_bytes (take i as))) + length (concat (map attr_bytes (drop i as)))"
    by (metis append_take_drop_id concat_append length_append map_append)
  then show ?thesis by (simp add: attrs_start_def)
qed

lemma small_index: "(i :: u64) < 2 ^ 63 \<Longrightarrow> sint i = int (unat i) \<and> i \<noteq> - 1"
proof -
  assume i: "i < 2 ^ 63"
  then have u: "uint i < 2 ^ 63" by (simp add: word_less_def)
  moreover have "0 \<le> uint i" by simp
  ultimately have "signed_take_bit 63 (uint i) = uint i"
    by (intro signed_take_bit_int_eq_self) (auto intro: order_trans [of _ 0])
  then have "sint i = uint i" by (simp add: sint_uint)
  moreover have "i \<noteq> - 1" using i by auto
  ultimately show ?thesis by simp
qed

lemma read_one:
  assumes cur: "cursor_ok ab" and i: "i < 2 ^ 63"
      and bytes: "at_bytes sec (dab_abbrev_ptr ab) (length sec) (attrs_bytes as)"
      and more: "dab_abbrev_ptr ab + length (attrs_bytes as) < length sec"
      and valid: "\<forall>a \<in> set as. valid_attr a"
  shows "case dwarf_get_abbrev_entry_b (Some ab) True sec i fo of
      DW_DLV_OK (answer, ab1) \<Rightarrow> entry_answer (dab_abbrev_ptr ab) as i = DW_DLV_OK answer
        \<and> cursor_ok ab1 \<and> dab_abbrev_ptr ab1 = dab_abbrev_ptr ab
    | r \<Rightarrow> r = DW_DLV_NO_ENTRY \<and> entry_answer (dab_abbrev_ptr ab) as i = DW_DLV_NO_ENTRY"
proof -
  let ?p = "dab_abbrev_ptr ab"
  have one: "(1 :: u64) \<noteq> 0 \<or> (1 :: u64) \<noteq> 0" by simp
  obtain k where k: "unat i = k" "sint i = int k" "i \<noteq> - 1" using small_index [OF i] by blast
  note loop = entry_loop_at [OF bytes valid one, of fo k 0 None]
  have "i \<ge> - 1 \<longleftrightarrow> i = - 1" by (metis word_n1_ge word_le_less_eq not_less)
  then have start: "dwarf_get_abbrev_entry_b (Some ab) True sec i fo =
     dlv_bind (entry_loop sec (length sec) fo (int k) ?p 1 1 0 None)
       (\<lambda>(local1, p1, attr, form, ic, mark).
          if length sec \<le> p1 then DW_DLV_ERROR DW_DLE_ABBREV_DECODE_ERROR
          else if 0 \<le> local1 then DW_DLV_NO_ENTRY
          else DW_DLV_OK ((attr, form, ic, mark),
                 ab\<lparr>dab_next_ptr := p1, dab_next_index := word_of_int local1\<rparr>))"
    using cur k by (auto simp: dwarf_get_abbrev_entry_b_def cursor_ok_def Let_def)
  have in_range: "\<not> length sec \<le> attrs_start ?p as j" for j
    using attrs_start_mono [of ?p as j] more by (simp add: attrs_bytes_def)
  have code: "dab_code ab \<noteq> 0" using cur by (simp add: cursor_ok_def)
  consider "k < length as" | "k = length as" | "length as < k" by linarith
  then show ?thesis unfolding start loop entry_answer_def k(1)
    using more in_range code by cases (simp_all add: cursor_ok_def)
qed

lemma read_all:
  "cursor_ok ab \<Longrightarrow> \<forall>i \<in> set is. i < 2 ^ 63 \<Longrightarrow>
   at_bytes sec (dab_abbrev_ptr ab) (length sec) (attrs_bytes as) \<Longrightarrow>
   dab_abbrev_ptr ab + length (attrs_bytes as) < length sec \<Longrightarrow> \<forall>a \<in> set as. valid_attr a \<Longrightarrow>
   read_entries sec fo ab is = map (entry_answer (dab_abbrev_ptr ab) as) is"
proof (induction "is" arbitrary: ab)
  case (Cons i "is")
  have "i < 2 ^ 63" using Cons.prems(2) by simp
  from read_one [OF Cons.prems(1) this Cons.prems(3-5), of fo]
  show ?case using Cons.IH Cons.prems
    by (auto split: dlv.splits)
qed simp

text \<open>
  C16: Reading declarations round-trips: a declaration written into \<open>.debug_abbrev\<close> with the
  library's own encoders, and followed by at least one more byte, is read with its code, tag and
  children flag, with the number of its attributes and of its constants and with the length it
  has; and any sequence of requests by index (below \<open>2 ^ 63\<close>), in any order, gets for each index
  the attribute, form, constant and offset at this index, the terminating pair for the index behind
  the last one and no entry beyond. No request is disturbed by those before it.
\<close>

theorem declaration_read_back:
  assumes decl: "at_bytes sec off (length sec) (uleb code @ uleb tag @ [child] @ attrs_bytes as)"
      and code: "code \<noteq> 0" and tag: "tag \<le> DW_TAG_hi_user" and valid: "\<forall>a \<in> set as. valid_attr a"
      and more: "off + length (uleb code @ uleb tag @ [child] @ attrs_bytes as) < length sec"
      and mem: "fst (alloc mem)" and small: "\<forall>i \<in> set is. i < 2 ^ 63"
  shows "\<exists>ab. dwarf_get_abbrev True (DW_DLV_OK sec) off True mem =
        DW_DLV_OK (ab, length (uleb code @ uleb tag @ [child] @ attrs_bytes as), length as)
      \<and> dwarf_get_abbrev_code (Some ab) = DW_DLV_OK code \<and> dwarf_get_abbrev_tag (Some ab) = DW_DLV_OK (ucast tag)
      \<and> dwarf_get_abbrev_children_flag (Some ab) = DW_DLV_OK (ucast child) \<and> dab_goffset ab = off
      \<and> dab_count ab = length as \<and> dab_implicit_count ab = implicit_consts as
      \<and> read_entries sec fo ab is =
          map (entry_answer (off + length (uleb code @ uleb tag @ [child])) as) is"
proof -
  let ?e = "length sec" and ?q = "off + length (uleb code) + length (uleb tag)"
  have b: "at_bytes sec off ?e (uleb code)" "at_bytes sec (off + length (uleb code)) ?e (uleb tag)"
      "at_bytes sec ?q ?e [child]" "at_bytes sec (?q + 1) ?e (attrs_bytes as)"
    using decl unfolding at_bytes_append by (simp_all add: add.assoc)
  have q: "?q < ?e" "sec ! ?q = child"
    using b(3) by (auto simp: at_bytes_def take_Suc_conv_app_nth)
  have off: "off < ?e" using q by simp
  have count: "dwarf_count_abbrev_entries sec (?q + 1) ?e =
      DW_DLV_OK (length as, implicit_consts as, ?q + 1 + length (attrs_bytes as))"
    by (rule count_entries_at [OF b(4) valid])
  define ab where "ab = \<lparr>dab_tag = tag, dab_code = code, dab_has_child = child, dab_abbrev_ptr = ?q + 1,
      dab_goffset = off, dab_count = length as, dab_implicit_count = implicit_consts as,
      dab_next_ptr = ?q + 1, dab_next_index = 0\<rparr>"
  have get: "dwarf_get_abbrev True (DW_DLV_OK sec) off True mem =
        DW_DLV_OK (ab, length (uleb code @ uleb tag @ [child] @ attrs_bytes as), length as)"
    using b(1,2) q off mem code tag count more
    by (simp add: dwarf_get_abbrev_def Let_def not_le not_less ab_def)
  have "read_entries sec fo ab is = map (entry_answer (dab_abbrev_ptr ab) as) is"
  proof (rule read_all [OF _ small _ _ valid])
    show "cursor_ok ab" using code by (simp add: cursor_ok_def ab_def)
    show "at_bytes sec (dab_abbrev_ptr ab) ?e (attrs_bytes as)" using b(4) by (simp add: ab_def)
    show "dab_abbrev_ptr ab + length (attrs_bytes as) < ?e" using more by (simp add: ab_def)
  qed
  then show ?thesis using get by (intro exI [of _ ab]) (simp add: ab_def add.assoc dwarf_get_abbrev_code_def dwarf_get_abbrev_tag_def
        dwarf_get_abbrev_children_flag_def)
qed

definition example_decl :: "byte list" where
  "example_decl = uleb 1 @ uleb 0x11 @ [1] @ attrs_bytes example_attrs"

lemma at_bytes_then: "at_bytes (xs @ [0]) 0 (length (xs @ [0])) xs"
  by (simp add: at_bytes_def)

theorem declaration_read_back_witness:
  "\<exists>ab n. dwarf_get_abbrev True (DW_DLV_OK (example_decl @ [0])) 0 True [] = DW_DLV_OK (ab, n, 2)
    \<and> dwarf_get_abbrev_tag (Some ab) = DW_DLV_OK 0x11
    \<and> map (map_dlv id fst) (read_entries (example_decl @ [0]) True ab [1, 0, 3, 2]) =
        [DW_DLV_OK 0x3e, DW_DLV_OK 3, DW_DLV_NO_ENTRY, DW_DLV_OK 0]"
  using declaration_read_back [OF at_bytes_then [of "uleb 1 @ uleb 0x11 @ [1] @ attrs_bytes example_attrs"] _ _
      example_attrs_valid, of "[]" "[1, 0, 3, 2]" True]
    example_attrs_facts
  by (auto simp: example_decl_def DW_TAG_hi_user_def entry_answer_def) (auto simp: example_attrs_def)

text \<open>
  An index that is negative as a signed number is not refused: \<open>- 1\<close> is answered with
  success, the attribute and the form 1 (\<open>DW_AT_sibling\<close>, \<open>DW_FORM_addr\<close>) that the loop starts from and an offset computed from
  a null pointer, whatever the declaration holds.
\<close>

theorem negative_index_invents_entry:
  assumes "dab_code ab \<noteq> 0" "dab_abbrev_ptr ab < length sec" "dab_next_index ab = 0"
      "dab_next_ptr ab = dab_abbrev_ptr ab"
  shows "\<exists>ab1. dwarf_get_abbrev_entry_b (Some ab) True sec (- 1) fo = DW_DLV_OK ((1, 1, 0, None), ab1)"
  using assms by (simp add: dwarf_get_abbrev_entry_b_def Let_def entry_loop.simps [of _ _ _ "- 1"])

definition example_ab :: dwarf_abbrev where
  "example_ab = \<lparr>dab_tag = 0x11, dab_code = 1, dab_has_child = 0, dab_abbrev_ptr = 3, dab_goffset = 0,
     dab_count = 0, dab_implicit_count = 0, dab_next_ptr = 3, dab_next_index = 0\<rparr>"

theorem negative_index_invents_entry_witness:
  "\<exists>ab1. dwarf_get_abbrev_entry_b (Some example_ab) True [1, 0x11, 0, 0, 0, 0] (- 1) True =
     DW_DLV_OK ((1, 1, 0, None), ab1)"
  by (rule negative_index_invents_entry) (simp_all add: example_ab_def)

end
