(* ===== verification/Abbrev_Table.thy ===== *)
theory Abbrev_Table
  imports Abbrev
begin

text \<open>
  The abbreviations of a unit by code: \<open>_dwarf_get_abbrev_for_code\<close> with its hash table
  (\<open>dwarf_util.c\<close>, \<open>dwarf_util.h\<close>). Chains are lists, the head first. The declarations are read
  from \<open>.debug_abbrev\<close> only as far as a request needs them, so the table, the position reached and
  the answers depend on the requests made before.
\<close>

subsection \<open>The table\<close>

record hash_table =
  tb_table_entry_count :: nat
  tb_total_abbrev_count :: nat
  tb_highest_used_entry :: nat
  tb_entries :: "abbrev_list list list option"

definition HT_DEFAULT_TABLE_SIZE :: nat where "HT_DEFAULT_TABLE_SIZE = 128"
definition HT_MULTIPLE :: nat where "HT_MULTIPLE = 2"

definition hash_of :: "nat \<Rightarrow> u64 \<Rightarrow> nat" where
  "hash_of entry_count code = unat (code AND (of_nat entry_count - 1))"

text \<open>What a request does to the table first, even when the code is not in it.\<close>

definition note_hash :: "nat \<Rightarrow> hash_table \<Rightarrow> hash_table" where
  "note_hash h ht = (if tb_highest_used_entry ht < h then ht\<lparr>tb_highest_used_entry := h\<rparr> else ht)"

definition push_entry :: "abbrev_list \<Rightarrow> hash_table \<Rightarrow> hash_table" where
  "push_entry ent ht =
     (let h = hash_of (tb_table_entry_count ht) (abl_code ent);
          ht1 = note_hash h ht
      in ht1\<lparr>tb_total_abbrev_count := tb_total_abbrev_count ht1 + 1,
             tb_entries := map_option (\<lambda>es. es[h := ent # es ! h]) (tb_entries ht1)\<rparr>)"

definition copy_abbrev_table_to_new_table :: "abbrev_list list list \<Rightarrow> hash_table \<Rightarrow> hash_table" where
  "copy_abbrev_table_to_new_table entry_in htout = fold (fold push_entry) entry_in htout"

text \<open>
  The first two branches: a table without entries gets them, a crowded one is replaced by one
  twice as large. The result says whether the memory was there: \<open>Inl\<close> is the return value.
\<close>

definition ready_table :: "hash_table \<Rightarrow> allocs \<Rightarrow> ((dw_error, abbrev_list) dlv + unit) \<times> hash_table \<times> allocs" where
  "ready_table ht mem =
     (case tb_entries ht of
        None \<Rightarrow>
          let ht1 = ht\<lparr>tb_table_entry_count := HT_DEFAULT_TABLE_SIZE, tb_total_abbrev_count := 0\<rparr>;
              (ok, mem1) = alloc mem
          in if ok then (Inr (), ht1\<lparr>tb_entries := Some (replicate HT_DEFAULT_TABLE_SIZE [])\<rparr>, mem1)
             else (Inl DW_DLV_NO_ENTRY, ht1, mem1)
      | Some es \<Rightarrow>
          if tb_table_entry_count ht * HT_MULTIPLE < tb_total_abbrev_count ht
          then let (ok1, mem1) = alloc mem in
               if \<not> ok1 then (Inl (DW_DLV_ERROR DW_DLE_ALLOC_FAIL), ht, mem1)
               else let (ok2, mem2) = alloc mem1;
                        n = tb_table_entry_count ht * HT_MULTIPLE
                    in if \<not> ok2 then (Inl DW_DLV_NO_ENTRY, ht, mem2)
                       else (Inr (), copy_abbrev_table_to_new_table es
                               \<lparr>tb_table_entry_count = n, tb_total_abbrev_count = 0,
                                tb_highest_used_entry = 0, tb_entries = Some (replicate n [])\<rparr>, mem2)
          else (Inr (), ht, mem))"

fun find_code :: "u64 \<Rightarrow> abbrev_list list \<Rightarrow> abbrev_list option" where
  "find_code code [] = None"
| "find_code code (x # xs) = (if abl_code x = code then Some x else find_code code xs)"

fun count_reference :: "u64 \<Rightarrow> abbrev_list list \<Rightarrow> abbrev_list list" where
  "count_reference code [] = []"
| "count_reference code (x # xs) =
     (if abl_code x = code then x\<lparr>abl_reference_count := abl_reference_count x + 1\<rparr> # xs
      else x # count_reference code xs)"

definition referenced :: "u64 \<Rightarrow> nat \<Rightarrow> hash_table \<Rightarrow> hash_table" where
  "referenced code h ht = ht\<lparr>tb_entries := map_option (\<lambda>es. es[h := count_reference code (es ! h)]) (tb_entries ht)\<rparr>"

subsection \<open>The unit and the scan\<close>

text \<open>
  The fields of the unit's context the lookup uses. \<open>cc_dwp_size\<close> is the size of the unit's part
  of the section when it comes from a package file.
\<close>

record abbrev_context =
  cc_abbrev_hash_table :: hash_table
  cc_highest_known_code :: u64
  cc_last_abbrev_ptr :: "nat option"
  cc_last_abbrev_endptr :: nat
  cc_abbrev_offset :: nat
  cc_dwp_size :: "nat option"

definition raise_known :: "u64 \<Rightarrow> abbrev_context \<Rightarrow> abbrev_context" where
  "raise_known code cc = (if cc_highest_known_code cc < code then cc\<lparr>cc_highest_known_code := code\<rparr> else cc)"

text \<open>
  The loop. The result is the outcome, whether \<open>*highest_known_code\<close> is written on the way out,
  and the context. The outcome of the loop itself is the last code, its entry and the position.
\<close>

lemma count_loop_advances: "count_loop sec e p c i = DW_DLV_OK (n, m, q) \<Longrightarrow> p < q"
proof (induction sec e p c i arbitrary: n m q rule: count_loop.induct)
  case (1 sec e p c i)
  from "1.prems" obtain name p1 form p2 p3 i1 where
      first: "DECODE_LEB128_UWORD_CK sec p e = DW_DLV_OK (name, p1)" "\<not> name > DW_AT_hi_user"
      and second: "DECODE_LEB128_UWORD_CK sec p1 e = DW_DLV_OK (form, p2)" "dwarf_valid_form_we_know form name"
      and third: "(if form = DW_FORM_implicit_const
          then dlv_bind (SKIP_LEB128_CK sec p2 e) (\<lambda>p3. DW_DLV_OK (p3, i + 1)) else DW_DLV_OK (p2, i)) = DW_DLV_OK (p3, i1)"
      and last: "(if p3 < e \<and> (name \<noteq> 0 \<or> form \<noteq> 0) then count_loop sec e p3 (c + 1) i1
          else DW_DLV_OK (c + 1, i1, p3)) = DW_DLV_OK (n, m, q)"
    by (subst (asm) count_loop.simps) (auto simp: dlv_bind_OK_iff split: if_splits)
  have p: "p < p3"
    using uword_advances [OF first(1)] uword_advances [OF second(1)] third
    by (auto simp: dlv_bind_OK_iff dest: skip_advances split: if_splits)
  show ?case
  proof (cases "p3 < e \<and> (name \<noteq> 0 \<or> form \<noteq> 0)")
    case True
    have "p3 < q"
      using "1.IH" [OF first(1) refl first(2) second(1) refl _ third refl True] second(2) last True by simp
    then show ?thesis using p by simp
  next
    case False
    then show ?thesis using last p unfolding if_not_P [OF False] by simp
  qed
qed

lemma count_entries_advances: "dwarf_count_abbrev_entries sec p e = DW_DLV_OK (n, m, q) \<Longrightarrow> p < q"
  by (auto simp: dwarf_count_abbrev_entries_def dlv_bind_OK_iff dest: count_loop_advances)

function scan_loop ::
    "byte list \<Rightarrow> nat \<Rightarrow> u64 \<Rightarrow> nat \<Rightarrow> abbrev_context \<Rightarrow> allocs
     \<Rightarrow> (dw_error, u64 \<times> abbrev_list \<times> nat) dlv \<times> bool \<times> abbrev_context" where
  "scan_loop sec e code p cc mem =
     (case DECODE_LEB128_UWORD_CK sec p e of
        DW_DLV_OK (abbrev_code, p1) \<Rightarrow>
          (case DECODE_LEB128_UWORD_CK sec p1 e of
             DW_DLV_OK (abbrev_tag, p2) \<Rightarrow>
               if DW_TAG_hi_user < abbrev_tag then (DW_DLV_ERROR DW_DLE_TAG_CORRUPT, False, cc)
               else if e \<le> p2 then (DW_DLV_ERROR DW_DLE_ABBREV_OFF_END, False, cc)
               else let (ok, mem1) = alloc mem in
               if \<not> ok then (DW_DLV_ERROR DW_DLE_ALLOC_FAIL, False, cc)
               else
                 let inner = \<lparr>abl_code = abbrev_code, abl_tag = ucast abbrev_tag,
                       abl_has_child = ucast (sec ! p2), abl_reference_count = 0, abl_goffset = p,
                       abl_abbrev_ptr = p2 + 1, abl_abbrev_count = 0, abl_implicit_const_count = 0,
                       abl_attr = None, abl_form = None, abl_implicit_const = None\<rparr>;
                     cc1 = raise_known abbrev_code cc
                 in (case dwarf_count_abbrev_entries sec (p2 + 1) e of
                       DW_DLV_OK (atcount, impl_const_count, p3) \<Rightarrow>
                         let inner1 = inner\<lparr>abl_implicit_const_count := impl_const_count,
                                            abl_abbrev_count := atcount\<rparr>;
                             cc2 = cc1\<lparr>cc_abbrev_hash_table := push_entry inner1 (cc_abbrev_hash_table cc1)\<rparr>
                         in if p3 < e \<and> sec ! p3 \<noteq> 0 \<and> abbrev_code \<noteq> code
                            then scan_loop sec e code p3 cc2 mem1
                            else (DW_DLV_OK (abbrev_code, inner1, p3), True, cc2)
                     | DW_DLV_NO_ENTRY \<Rightarrow> (DW_DLV_NO_ENTRY, True,
                         cc1\<lparr>cc_abbrev_hash_table := push_entry inner (cc_abbrev_hash_table cc1)\<rparr>)
                     | DW_DLV_ERROR err \<Rightarrow> (DW_DLV_ERROR err, True,
                         cc1\<lparr>cc_abbrev_hash_table := push_entry inner (cc_abbrev_hash_table cc1)\<rparr>))
           | _ \<Rightarrow> (DW_DLV_ERROR DW_DLE_LEB_IMPROPER, False, cc))
      | _ \<Rightarrow> (DW_DLV_ERROR DW_DLE_LEB_IMPROPER, False, cc))"
  by pat_completeness auto
termination
  by (relation "measure (\<lambda>(sec, e, code, p, cc, mem). e - p)")
    (auto dest!: uword_advances count_entries_advances)

declare scan_loop.simps [simp del]

text \<open>
  The result is the outcome, \<open>*highest_known_code\<close> where it is written, and the context. \<open>None\<close>: the
  part of the section recorded for the unit runs past the section, and the bytes there are not
  the section's.
\<close>

definition dwarf_get_abbrev_for_code ::
    "byte list \<Rightarrow> abbrev_context \<Rightarrow> u64 \<Rightarrow> allocs
     \<Rightarrow> ((dw_error, abbrev_list) dlv \<times> u64 option \<times> abbrev_context) option" where
  "dwarf_get_abbrev_for_code sec cc code mem =
     (case ready_table (cc_abbrev_hash_table cc) mem of
        (Inl r, ht1, mem1) \<Rightarrow>
          Some (r, if r = DW_DLV_NO_ENTRY then Some (cc_highest_known_code cc) else None,
                cc\<lparr>cc_abbrev_hash_table := ht1\<rparr>)
      | (Inr _, ht1, mem1) \<Rightarrow>
          let hash_num = hash_of (tb_table_entry_count ht1) code;
              cc1 = (raise_known code cc)\<lparr>cc_abbrev_hash_table := note_hash hash_num ht1\<rparr>;
              chain = (case tb_entries ht1 of None \<Rightarrow> [] | Some es \<Rightarrow> es ! hash_num)
          in (case find_code code chain of
                Some x \<Rightarrow>
                  Some (DW_DLV_OK (x\<lparr>abl_reference_count := abl_reference_count x + 1\<rparr>),
                        Some (cc_highest_known_code cc1),
                        cc1\<lparr>cc_abbrev_hash_table := referenced code hash_num (cc_abbrev_hash_table cc1)\<rparr>)
              | None \<Rightarrow>
                  let (p, e) = (case cc_last_abbrev_ptr cc1 of
                        Some q \<Rightarrow> (q, cc_last_abbrev_endptr cc1)
                      | None \<Rightarrow> (cc_abbrev_offset cc1,
                          case cc_dwp_size cc1 of None \<Rightarrow> length sec | Some n \<Rightarrow> cc_abbrev_offset cc1 + n))
                  in if e \<le> p then Some (DW_DLV_NO_ENTRY, None, cc1)
                     else if length sec < e then None
                     else if sec ! p = 0 then Some (DW_DLV_NO_ENTRY, Some (cc_highest_known_code cc1), cc1)
                     else (case scan_loop sec e code p cc1 mem1 of
                        (DW_DLV_OK (abbrev_code, inner, p1), w, cc2) \<Rightarrow>
                          let known = Some (cc_highest_known_code cc2);
                              cc3 = cc2\<lparr>cc_last_abbrev_ptr := Some p1, cc_last_abbrev_endptr := e\<rparr>
                          in if abbrev_code = code
                             then Some (DW_DLV_OK (inner\<lparr>abl_reference_count := abl_reference_count inner + 1\<rparr>), known,
                               cc3\<lparr>cc_abbrev_hash_table := referenced code hash_num (cc_abbrev_hash_table cc3)\<rparr>)
                             else Some (DW_DLV_NO_ENTRY, known, cc3)
                      | (DW_DLV_NO_ENTRY, w, cc2) \<Rightarrow>
                          Some (DW_DLV_NO_ENTRY, if w then Some (cc_highest_known_code cc2) else None, cc2)
                      | (DW_DLV_ERROR err, w, cc2) \<Rightarrow>
                          Some (DW_DLV_ERROR err, if w then Some (cc_highest_known_code cc2) else None, cc2))))"

subsection \<open>The table as a set of entries\<close>

text \<open>
  An entry without its count of references, which is only for analysis, and without what filling in
  its attributes adds (which counts its constants a second time).
\<close>

definition plain :: "abbrev_list \<Rightarrow> abbrev_list" where
  "plain x = x\<lparr>abl_reference_count := 0, abl_attr := None, abl_form := None, abl_implicit_const := None,
     abl_implicit_const_count := (if abl_attr x = None then abl_implicit_const_count x
                                 else abl_implicit_const_count x div 2)\<rparr>"

lemma plain_simps [simp]: "abl_code (plain x) = abl_code x" "plain (x\<lparr>abl_reference_count := n\<rparr>) = plain x"
  by (simp_all add: plain_def)

text \<open>The buckets hold what hashes to them, and none lies behind the highest used one.\<close>

definition buckets_ok :: "hash_table \<Rightarrow> bool" where
  "buckets_ok ht = (case tb_entries ht of None \<Rightarrow> False
     | Some es \<Rightarrow> length es = tb_table_entry_count ht \<and> es \<noteq> [] \<and> tb_highest_used_entry ht < length es
         \<and> tb_total_abbrev_count ht = length (concat es)
         \<and> (\<forall>h < length es. \<forall>x \<in> set (es ! h). hash_of (length es) (abl_code x) = h \<and> h \<le> tb_highest_used_entry ht))"

definition contents :: "hash_table \<Rightarrow> abbrev_list set" where
  "contents ht = (case tb_entries ht of None \<Rightarrow> {} | Some es \<Rightarrow> plain ` set (concat es))"

definition not_too_large :: "hash_table \<Rightarrow> bool" where
  "not_too_large ht \<longleftrightarrow> tb_table_entry_count ht \<le> 128 \<or> tb_table_entry_count ht < tb_total_abbrev_count ht"

lemma hash_less: "0 < n \<Longrightarrow> n < 2 ^ 64 \<Longrightarrow> hash_of n c < n"
proof -
  assume n: "0 < n" "n < 2 ^ 64"
  have "unat (of_nat n - 1 :: u64) = n - 1"
    using n by (simp add: unat_sub_if' unat_of_nat take_bit_nat_eq_self word_le_nat_alt)
  moreover have "unat (c AND (of_nat n - 1)) \<le> unat (of_nat n - 1 :: u64)"
    by (simp add: word_and_le1 flip: word_le_nat_alt)
  ultimately show ?thesis using n by (simp add: hash_of_def)
qed

lemma note_hash_simps [simp]:
  "tb_entries (note_hash h ht) = tb_entries ht"
  "tb_table_entry_count (note_hash h ht) = tb_table_entry_count ht"
  "tb_total_abbrev_count (note_hash h ht) = tb_total_abbrev_count ht"
  "tb_highest_used_entry (note_hash h ht) = max h (tb_highest_used_entry ht)"
  by (simp_all add: note_hash_def)

lemma note_hash_keeps [simp]:
  "buckets_ok ht \<Longrightarrow> h < tb_table_entry_count ht \<Longrightarrow> buckets_ok (note_hash h ht)" "contents (note_hash h ht) = contents ht"
  "not_too_large (note_hash h ht) = not_too_large ht"
  by (auto simp: buckets_ok_def contents_def not_too_large_def le_max_iff_disj split: option.splits)

lemma length_concat_update:
  "h < length es \<Longrightarrow> length (concat (es[h := xs])) + length (es ! h) = length (concat es) + length xs"
  by (induction es arbitrary: h) (auto simp: nth_Cons split: nat.splits)

lemma set_concat_push: "h < length es \<Longrightarrow> set (concat (es[h := x # es ! h])) = insert x (set (concat es))"
  by (induction es arbitrary: h) (auto simp: nth_Cons split: nat.splits)

lemma push_entry_ok:
  assumes ok: "buckets_ok ht" and size: "tb_table_entry_count ht < 2 ^ 64"
  shows "buckets_ok (push_entry x ht)" "contents (push_entry x ht) = insert (plain x) (contents ht)"
    "tb_table_entry_count (push_entry x ht) = tb_table_entry_count ht"
    "tb_total_abbrev_count (push_entry x ht) = tb_total_abbrev_count ht + 1"
proof -
  obtain es where es: "tb_entries ht = Some es" "length es = tb_table_entry_count ht" "es \<noteq> []"
      "tb_total_abbrev_count ht = length (concat es)"
      "\<And>h x. h < length es \<Longrightarrow> x \<in> set (es ! h) \<Longrightarrow>
        hash_of (length es) (abl_code x) = h \<and> h \<le> tb_highest_used_entry ht"
    using ok by (auto simp: buckets_ok_def split: option.splits)
  define h where "h = hash_of (length es) (abl_code x)"
  have h: "h < length es" unfolding h_def by (rule hash_less) (use es(2,3) size in \<open>simp_all flip: es(2)\<close>)
  have new: "tb_entries (push_entry x ht) = Some (es[h := x # es ! h])"
    by (simp add: push_entry_def Let_def es(1) h_def es(2))
  have len: "length (concat (es[h := x # es ! h])) = length (concat es) + 1"
    using length_concat_update [OF h, of "x # es ! h"] by simp
  show count: "tb_table_entry_count (push_entry x ht) = tb_table_entry_count ht"
    and total: "tb_total_abbrev_count (push_entry x ht) = tb_total_abbrev_count ht + 1"
    by (simp_all add: push_entry_def Let_def)
  show "contents (push_entry x ht) = insert (plain x) (contents ht)"
    unfolding contents_def new es(1) option.case set_concat_push [OF h] by simp
  have high: "tb_highest_used_entry (push_entry x ht) = max h (tb_highest_used_entry ht)"
    by (simp add: push_entry_def Let_def h_def es(2))
  have below: "max h (tb_highest_used_entry ht) < length es"
    using h ok es(1) by (simp add: buckets_ok_def)
  have "hash_of (length es) (abl_code y) = j \<and> j \<le> max h (tb_highest_used_entry ht)"
    if "j < length es" "y \<in> set (es[h := x # es ! h] ! j)" for j y
    using that es(5) [of j y] by (cases "j = h") (auto simp: h_def le_max_iff_disj)
  then show "buckets_ok (push_entry x ht)"
    using es(2,3,4) count total len below by (simp add: buckets_ok_def new high)
qed

lemma push_all_ok:
  "buckets_ok ht \<Longrightarrow> tb_table_entry_count ht < 2 ^ 64 \<Longrightarrow>
   buckets_ok (fold push_entry xs ht) \<and> contents (fold push_entry xs ht) = plain ` set xs \<union> contents ht
   \<and> tb_table_entry_count (fold push_entry xs ht) = tb_table_entry_count ht
   \<and> tb_total_abbrev_count (fold push_entry xs ht) = tb_total_abbrev_count ht + length xs"
  by (induction xs arbitrary: ht) (simp_all add: push_entry_ok)

lemma copy_is_push_all: "copy_abbrev_table_to_new_table es ht = fold push_entry (concat es) ht"
  unfolding copy_abbrev_table_to_new_table_def by (induction es arbitrary: ht) simp_all

definition empty_table :: "nat \<Rightarrow> nat \<Rightarrow> hash_table" where
  "empty_table n high = \<lparr>tb_table_entry_count = n, tb_total_abbrev_count = 0, tb_highest_used_entry = high,
     tb_entries = Some (replicate n [])\<rparr>"

lemma empty_table_ok: "high < n \<Longrightarrow> buckets_ok (empty_table n high)" "contents (empty_table n high) = {}"
  by (simp_all add: empty_table_def buckets_ok_def contents_def)

text \<open>
  Getting the table ready keeps what it holds, and fails only for lack of memory; a table that
  has not been set up becomes an empty one.
\<close>

definition table_ok :: "hash_table \<Rightarrow> bool" where
  "table_ok ht \<longleftrightarrow> not_too_large ht \<and> buckets_ok ht
     \<or> tb_entries ht = None \<and> tb_highest_used_entry ht = 0"

lemma ready_table_keeps:
  assumes ok: "table_ok ht" and size: "tb_total_abbrev_count ht < 2 ^ 63"
      and r: "ready_table ht mem = (r, ht1, mem1)"
  shows "(case r of Inl f \<Rightarrow> (f = DW_DLV_NO_ENTRY \<or> f = DW_DLV_ERROR DW_DLE_ALLOC_FAIL)
              \<and> False \<in> set mem \<and> table_ok ht1 \<and> contents ht1 = contents ht
          | Inr _ \<Rightarrow> not_too_large ht1 \<and> buckets_ok ht1 \<and> contents ht1 = contents ht
              \<and> tb_table_entry_count ht1 < 2 ^ 64)
    \<and> set mem1 \<subseteq> set mem \<and> tb_total_abbrev_count ht1 \<le> tb_total_abbrev_count ht"
proof (cases "tb_entries ht")
  case None
  have "tb_highest_used_entry ht = 0" using ok None by (auto simp: table_ok_def buckets_ok_def)
  then show ?thesis
    using r None empty_table_ok [of "tb_highest_used_entry ht" 128]
    by (cases mem)
      (auto simp: ready_table_def Let_def table_ok_def not_too_large_def HT_DEFAULT_TABLE_SIZE_def
        contents_def buckets_ok_def empty_table_def split: if_splits)
next
  case (Some es)
  then have b: "buckets_ok ht" "not_too_large ht" using ok by (auto simp: table_ok_def)
  show ?thesis
  proof (cases "tb_table_entry_count ht * HT_MULTIPLE < tb_total_abbrev_count ht \<and> fst (alloc mem)
      \<and> fst (alloc (snd (alloc mem)))")
    case True
    let ?n = "tb_table_entry_count ht * HT_MULTIPLE"
    have "tb_table_entry_count ht = length es" "es \<noteq> []" using b(1) Some by (simp_all add: buckets_ok_def)
    then have "0 < tb_table_entry_count ht" by simp
    then have n: "0 < ?n" "?n < 2 ^ 64" using size True by (simp_all add: HT_MULTIPLE_def)
    have e: "tb_table_entry_count (empty_table ?n 0) = ?n" "tb_total_abbrev_count (empty_table ?n 0) = 0"
      by (simp_all add: empty_table_def)
    have ht1: "ht1 = fold push_entry (concat es) (empty_table ?n 0)" "r = Inr ()"
        "mem1 = snd (alloc (snd (alloc mem)))"
      using r Some True
      by (auto simp: ready_table_def Let_def case_prod_unfold copy_is_push_all empty_table_def split: if_splits)
    have total: "tb_total_abbrev_count ht = length (concat es)" using b Some by (simp add: buckets_ok_def)
    have "set mem1 \<subseteq> set mem" unfolding ht1(3) by (cases mem; cases "tl mem") auto
    moreover have "contents ht = plain ` set (concat es)" using Some by (simp add: contents_def)
    ultimately show ?thesis
      using push_all_ok [of "empty_table ?n 0" "concat es"] empty_table_ok(1) [OF n(1)] empty_table_ok(2) [of ?n 0] e n True total
      unfolding ht1 by (simp add: not_too_large_def)
  next
    case False
    then show ?thesis
      using r Some b size
      by (cases mem; cases "tl mem")
        (auto simp: ready_table_def Let_def table_ok_def not_too_large_def split: if_splits)
  qed
qed

subsection \<open>Searching and counting references\<close>

lemma find_code_Some: "find_code c xs = Some x \<Longrightarrow> x \<in> set xs \<and> abl_code x = c"
  by (induction xs) (auto split: if_splits)

lemma find_code_None: "find_code c xs = None \<longleftrightarrow> (\<forall>x \<in> set xs. abl_code x \<noteq> c)"
  by (induction xs) auto

lemma count_reference_plain [simp]: "map plain (count_reference c xs) = map plain xs"
  by (induction xs) auto

text \<open>A table whose chains keep their entries, up to what \<open>plain\<close> forgets, is as good as before.\<close>

lemma same_plain_ok:
  assumes ok: "buckets_ok ht" and es: "tb_entries ht = Some es" and same: "map (map plain) es1 = map (map plain) es"
  shows "buckets_ok (ht\<lparr>tb_entries := Some es1\<rparr>)" "contents (ht\<lparr>tb_entries := Some es1\<rparr>) = contents ht"
    "not_too_large (ht\<lparr>tb_entries := Some es1\<rparr>) = not_too_large ht"
proof -
  show "not_too_large (ht\<lparr>tb_entries := Some es1\<rparr>) = not_too_large ht" by (simp add: not_too_large_def)
  have all: "plain ` set (concat xss) = set (concat (map (map plain) xss))" for xss by auto
  show "contents (ht\<lparr>tb_entries := Some es1\<rparr>) = contents ht"
    unfolding contents_def using es all [of es1] all [of es] same by simp
  have lens: "map length es1 = map length es"
    using arg_cong [OF same, of "map length"] by (simp add: comp_def)
  have "length es1 = length (map length es1)" by simp
  then have len: "length es1 = length es" "length (concat es1) = length (concat es)"
    by (simp_all add: length_concat lens)
  have old: "hash_of (length es) (abl_code x) = h \<and> h \<le> tb_highest_used_entry ht"
    if "h < length es" "x \<in> set (es ! h)" for h x
    using ok es that by (auto simp: buckets_ok_def)
  have "hash_of (length es) (abl_code y) = j \<and> j \<le> tb_highest_used_entry ht"
    if j: "j < length es" and y: "y \<in> set (es1 ! j)" for j y
  proof -
    have "map plain (es1 ! j) = map plain (es ! j)"
      using arg_cong [OF same, of "\<lambda>xs. xs ! j"] j len(1) by simp
    then have "plain y \<in> plain ` set (es ! j)" using y by (metis image_eqI set_map)
    then obtain z where "z \<in> set (es ! j)" "plain y = plain z" by auto
    moreover from this(2) have "abl_code y = abl_code z" by (metis plain_simps(1))
    ultimately show ?thesis using old [OF j, of z] by simp
  qed
  then show "buckets_ok (ht\<lparr>tb_entries := Some es1\<rparr>)" using ok es len by (auto simp: buckets_ok_def)
qed

lemma update_same_plain:
  "map plain (f (es ! h)) = map plain (es ! h) \<Longrightarrow> map (map plain) (es[h := f (es ! h)]) = map (map plain) es"
  by (cases "h < length es") (simp_all add: map_update list_update_same_conv list_update_beyond)

lemma referenced_ok:
  assumes "buckets_ok ht"
  shows "buckets_ok (referenced c h ht)" "contents (referenced c h ht) = contents ht"
    "not_too_large (referenced c h ht) = not_too_large ht"
    "tb_total_abbrev_count (referenced c h ht) = tb_total_abbrev_count ht"
proof -
  obtain es where es: "tb_entries ht = Some es" using assms by (auto simp: buckets_ok_def split: option.splits)
  have "referenced c h ht = ht\<lparr>tb_entries := Some (es[h := count_reference c (es ! h)])\<rparr>"
    by (simp add: referenced_def es)
  then show "buckets_ok (referenced c h ht)" "contents (referenced c h ht) = contents ht"
    "not_too_large (referenced c h ht) = not_too_large ht"
    using same_plain_ok [OF assms es update_same_plain, of "count_reference c" h] by simp_all
  show "tb_total_abbrev_count (referenced c h ht) = tb_total_abbrev_count ht"
    by (simp add: referenced_def)
qed

text \<open>A search of the right bucket answers for the whole table.\<close>

lemma search_Some:
  "buckets_ok ht \<Longrightarrow> tb_table_entry_count ht < 2 ^ 64 \<Longrightarrow> tb_entries ht = Some es \<Longrightarrow>
   find_code c (es ! hash_of (tb_table_entry_count ht) c) = Some x \<Longrightarrow> plain x \<in> contents ht \<and> abl_code x = c"
  using hash_less [of "length es" c]
  by (fastforce simp: buckets_ok_def contents_def dest: find_code_Some)

lemma search_None:
  "buckets_ok ht \<Longrightarrow> tb_entries ht = Some es \<Longrightarrow>
   find_code c (es ! hash_of (tb_table_entry_count ht) c) = None \<Longrightarrow> \<forall>x \<in> contents ht. abl_code x \<noteq> c"
proof
  fix x
  assume b: "buckets_ok ht" and es: "tb_entries ht = Some es"
    and none: "find_code c (es ! hash_of (tb_table_entry_count ht) c) = None" and x: "x \<in> contents ht"
  obtain y where y: "y \<in> set (concat es)" "x = plain y" using x es by (auto simp: contents_def)
  then obtain xs where "xs \<in> set es" "y \<in> set xs" by auto
  then obtain h where h: "h < length es" "y \<in> set (es ! h)" by (metis in_set_conv_nth)
  then have "hash_of (length es) (abl_code y) = h" using b es by (auto simp: buckets_ok_def)
  then show "abl_code x \<noteq> c"
    using none h y(2) b es by (auto simp: find_code_None buckets_ok_def)
qed

subsection \<open>The declarations of a unit\<close>

record abbrev_decl =
  dc_code :: u64
  dc_tag :: u64
  dc_child :: byte
  dc_attrs :: "abbrev_attr list"

definition decl_bytes :: "abbrev_decl \<Rightarrow> byte list" where
  "decl_bytes d = uleb (dc_code d) @ uleb (dc_tag d) @ [dc_child d] @ attrs_bytes (dc_attrs d)"

definition valid_decl :: "abbrev_decl \<Rightarrow> bool" where
  "valid_decl d \<longleftrightarrow> dc_code d \<noteq> 0 \<and> dc_tag d \<le> DW_TAG_hi_user \<and> (\<forall>a \<in> set (dc_attrs d). valid_attr a)"

text \<open>The entry a declaration at offset \<open>p\<close> becomes.\<close>

definition decl_entry :: "nat \<Rightarrow> abbrev_decl \<Rightarrow> abbrev_list" where
  "decl_entry p d = \<lparr>abl_code = dc_code d, abl_tag = ucast (dc_tag d), abl_has_child = ucast (dc_child d),
     abl_reference_count = 0, abl_goffset = p,
     abl_abbrev_ptr = p + length (uleb (dc_code d)) + length (uleb (dc_tag d)) + 1,
     abl_abbrev_count = length (dc_attrs d), abl_implicit_const_count = implicit_consts (dc_attrs d),
     abl_attr = None, abl_form = None, abl_implicit_const = None\<rparr>"

definition decl_start :: "nat \<Rightarrow> abbrev_decl list \<Rightarrow> nat \<Rightarrow> nat" where
  "decl_start off ds k = off + length (concat (map decl_bytes (take k ds)))"

definition entry_of :: "nat \<Rightarrow> abbrev_decl list \<Rightarrow> nat \<Rightarrow> abbrev_list" where
  "entry_of off ds k = decl_entry (decl_start off ds k) (ds ! k)"

text \<open>
  The section from \<open>off\<close> holds the declarations \<open>ds\<close>, with different codes, and then the byte 0,
  or nothing when the unit's part of the section ends with them.
\<close>

definition unit_at :: "byte list \<Rightarrow> nat \<Rightarrow> nat \<Rightarrow> abbrev_decl list \<Rightarrow> bool" where
  "unit_at sec off e ds \<longleftrightarrow> at_bytes sec off e (concat (map decl_bytes ds))
     \<and> (decl_start off ds (length ds) = e \<or> sec ! decl_start off ds (length ds) = 0)
     \<and> (\<forall>d \<in> set ds. valid_decl d) \<and> distinct (map dc_code ds)"

lemma entry_of_simps [simp]: "abl_code (entry_of off ds k) = dc_code (ds ! k)" "plain (entry_of off ds k) = entry_of off ds k"
  by (simp_all add: entry_of_def decl_entry_def plain_def)

lemma uleb_first: "v \<noteq> 0 \<Longrightarrow> hd (uleb v) \<noteq> 0"
  using uleb_spec [of v] by (cases "uleb v") (auto simp: leb_shape_def split: if_splits)

lemma decl_start_Suc: "k < length ds \<Longrightarrow> decl_start off ds (Suc k) = decl_start off ds k + length (decl_bytes (ds ! k))"
  by (simp add: decl_start_def take_Suc_conv_app_nth)

lemma unit_decl:
  assumes u: "unit_at sec off e ds" and k: "k < length ds"
  shows "at_bytes sec (decl_start off ds k) e (decl_bytes (ds ! k))" "valid_decl (ds ! k)"
proof -
  have "ds = take k ds @ ds ! k # drop (Suc k) ds" using k by (rule id_take_nth_drop)
  then have "concat (map decl_bytes ds) =
      concat (map decl_bytes (take k ds)) @ decl_bytes (ds ! k) @ concat (map decl_bytes (drop (Suc k) ds))"
    by (metis concat.simps(2) concat_append list.simps(9) map_append)
  then show "at_bytes sec (decl_start off ds k) e (decl_bytes (ds ! k))"
    using u by (simp add: unit_at_def decl_start_def at_bytes_append)
  show "valid_decl (ds ! k)" using u k by (simp add: unit_at_def)
qed

lemma decl_parts:
  assumes "at_bytes sec p e (decl_bytes d)"
  shows "at_bytes sec p e (uleb (dc_code d))" "at_bytes sec (p + length (uleb (dc_code d))) e (uleb (dc_tag d))"
    "at_bytes sec (p + length (uleb (dc_code d)) + length (uleb (dc_tag d))) e [dc_child d]"
    "at_bytes sec (p + length (uleb (dc_code d)) + length (uleb (dc_tag d)) + 1) e (attrs_bytes (dc_attrs d))"
  using assms unfolding decl_bytes_def at_bytes_append by (simp_all add: add.assoc)

text \<open>The scan goes on exactly at a declaration.\<close>

lemma more_declared:
  assumes u: "unit_at sec off e ds" and k: "k \<le> length ds"
  shows "decl_start off ds k < e \<and> sec ! decl_start off ds k \<noteq> 0 \<longleftrightarrow> k < length ds"
proof (cases "k < length ds")
  case True
  obtain x xs where x: "uleb (dc_code (ds ! k)) = x # xs" by (cases "uleb (dc_code (ds ! k))") auto
  have "x \<noteq> 0" using uleb_first [of "dc_code (ds ! k)"] unit_decl(2) [OF u True] x by (simp add: valid_decl_def)
  moreover have "at_bytes sec (decl_start off ds k) e (x # xs)"
    using decl_parts(1) [OF unit_decl(1) [OF u True]] x by simp
  ultimately show ?thesis using at_bytes_first True by metis
next
  case False
  then show ?thesis using u k by (auto simp: unit_at_def)
qed

lemma scan_step:
  assumes u: "unit_at sec off e ds" and k: "k < length ds"
  shows "scan_loop sec e code (decl_start off ds k) cc mem =
    (if fst (alloc mem)
     then let cc1 = raise_known (dc_code (ds ! k)) cc;
              cc2 = cc1\<lparr>cc_abbrev_hash_table := push_entry (entry_of off ds k) (cc_abbrev_hash_table cc1)\<rparr>
          in if Suc k < length ds \<and> dc_code (ds ! k) \<noteq> code
             then scan_loop sec e code (decl_start off ds (Suc k)) cc2 (snd (alloc mem))
             else (DW_DLV_OK (dc_code (ds ! k), entry_of off ds k, decl_start off ds (Suc k)), True, cc2)
     else (DW_DLV_ERROR DW_DLE_ALLOC_FAIL, False, cc))"
proof -
  let ?d = "ds ! k" and ?p = "decl_start off ds k"
  let ?q = "?p + length (uleb (dc_code ?d)) + length (uleb (dc_tag ?d))"
  note at = unit_decl(1) [OF u k]
  note parts = decl_parts [OF at]
  have v: "\<not> DW_TAG_hi_user < dc_tag ?d" "\<forall>a \<in> set (dc_attrs ?d). valid_attr a"
    using unit_decl(2) [OF u k] by (auto simp: valid_decl_def not_less)
  have q: "\<not> e \<le> ?q" "sec ! ?q = dc_child ?d" using at_bytes_first [OF parts(3)] by simp_all
  have nxt: "decl_start off ds (Suc k) = ?q + 1 + length (attrs_bytes (dc_attrs ?d))"
    by (simp add: decl_start_Suc [OF k] decl_bytes_def)
  have count: "dwarf_count_abbrev_entries sec (?q + 1) e =
      DW_DLV_OK (length (dc_attrs ?d), implicit_consts (dc_attrs ?d), decl_start off ds (Suc k))"
    unfolding nxt by (rule count_entries_at [OF parts(4) v(2)])
  have go: "decl_start off ds (Suc k) < e \<and> sec ! decl_start off ds (Suc k) \<noteq> 0 \<and> dc_code ?d \<noteq> code
      \<longleftrightarrow> Suc k < length ds \<and> dc_code ?d \<noteq> code"
    using more_declared [OF u, of "Suc k"] k by auto
  show ?thesis
    unfolding scan_loop.simps [of sec e code ?p] uword_at [OF parts(1)] uword_at [OF parts(2)]
      dlv.case prod.case if_not_P [OF v(1)] if_not_P [OF q(1)] Let_def count go
    by (simp add: case_prod_unfold q(2) entry_of_def decl_entry_def)
qed

text \<open>
  What the table holds when the first \<open>k\<close> declarations have been scanned: entries of declarations
  of the unit only, the first \<open>k\<close> among them. (A scan cut short by lack of memory leaves
  entries behind the position reached.)
\<close>

definition holds :: "nat \<Rightarrow> abbrev_decl list \<Rightarrow> nat \<Rightarrow> hash_table \<Rightarrow> bool" where
  "holds off ds k ht \<longleftrightarrow> buckets_ok ht \<and> not_too_large ht
     \<and> (\<forall>j < k. entry_of off ds j \<in> contents ht) \<and> contents ht \<subseteq> entry_of off ds ` {..<length ds}"

lemma holds_push:
  assumes "holds off ds k ht" "k < length ds" "tb_total_abbrev_count ht < 2 ^ 63"
  shows "holds off ds (Suc k) (push_entry (entry_of off ds k) ht)"
proof -
  have "tb_table_entry_count ht < 2 ^ 64" using assms by (auto simp: holds_def not_too_large_def)
  note p = push_entry_ok [OF _ this, of "entry_of off ds k"]
  show ?thesis using assms p by (auto simp: holds_def not_too_large_def less_Suc_eq)
qed

lemma holds_less: "holds off ds k ht \<Longrightarrow> j \<le> k \<Longrightarrow> holds off ds j ht"
  by (auto simp: holds_def)

definition same_place :: "abbrev_context \<Rightarrow> abbrev_context \<Rightarrow> bool" where
  "same_place cc cc1 \<longleftrightarrow> cc_last_abbrev_ptr cc1 = cc_last_abbrev_ptr cc
     \<and> cc_last_abbrev_endptr cc1 = cc_last_abbrev_endptr cc \<and> cc_abbrev_offset cc1 = cc_abbrev_offset cc
     \<and> cc_dwp_size cc1 = cc_dwp_size cc"

lemma raise_known_simps [simp]:
  "cc_abbrev_hash_table (raise_known c cc) = cc_abbrev_hash_table cc"
  "same_place cc (raise_known c cc)" "same_place cc (cc1\<lparr>cc_abbrev_hash_table := h\<rparr>) = same_place cc cc1"
  by (simp_all add: raise_known_def same_place_def)

lemma same_place_trans: "same_place a b \<Longrightarrow> same_place b c \<Longrightarrow> same_place a c"
  by (simp add: same_place_def)

text \<open>
  A scan from declaration \<open>k\<close> on ends at the first declaration with the code, at the last one, or
  where memory runs out.
\<close>

definition scan_found :: "nat \<Rightarrow> abbrev_decl list \<Rightarrow> u64 \<Rightarrow> nat \<Rightarrow> abbrev_context
    \<Rightarrow> (dw_error, u64 \<times> abbrev_list \<times> nat) dlv \<times> bool \<times> abbrev_context \<Rightarrow> bool" where
  "scan_found off ds code k cc result \<longleftrightarrow> (\<exists>m cc1.
     result = (DW_DLV_OK (dc_code (ds ! m), entry_of off ds m, decl_start off ds (Suc m)), True, cc1)
     \<and> k \<le> m \<and> m < length ds \<and> (dc_code (ds ! m) = code \<or> Suc m = length ds)
     \<and> (\<forall>j. k \<le> j \<and> j < m \<longrightarrow> dc_code (ds ! j) \<noteq> code)
     \<and> same_place cc cc1 \<and> holds off ds (Suc m) (cc_abbrev_hash_table cc1)
     \<and> tb_total_abbrev_count (cc_abbrev_hash_table cc1) = tb_total_abbrev_count (cc_abbrev_hash_table cc) + (Suc m - k))"

definition scan_stopped :: "nat \<Rightarrow> abbrev_decl list \<Rightarrow> nat \<Rightarrow> abbrev_context
    \<Rightarrow> (dw_error, u64 \<times> abbrev_list \<times> nat) dlv \<times> bool \<times> abbrev_context \<Rightarrow> bool" where
  "scan_stopped off ds k cc result \<longleftrightarrow> (\<exists>cc1. result = (DW_DLV_ERROR DW_DLE_ALLOC_FAIL, False, cc1)
     \<and> same_place cc cc1 \<and> holds off ds k (cc_abbrev_hash_table cc1)
     \<and> tb_total_abbrev_count (cc_abbrev_hash_table cc1) \<le> tb_total_abbrev_count (cc_abbrev_hash_table cc) + (length ds - k))"

lemma scan_found_step:
  assumes "scan_found off ds code (Suc k) cc2 r" "k < length ds" "dc_code (ds ! k) \<noteq> code" "same_place cc cc2"
      "tb_total_abbrev_count (cc_abbrev_hash_table cc2) = tb_total_abbrev_count (cc_abbrev_hash_table cc) + 1"
  shows "scan_found off ds code k cc r"
proof -
  obtain m cc1 where m: "r = (DW_DLV_OK (dc_code (ds ! m), entry_of off ds m, decl_start off ds (Suc m)), True, cc1)"
      "Suc k \<le> m" "m < length ds" "dc_code (ds ! m) = code \<or> Suc m = length ds"
      "\<forall>j. Suc k \<le> j \<and> j < m \<longrightarrow> dc_code (ds ! j) \<noteq> code" "same_place cc2 cc1"
      "holds off ds (Suc m) (cc_abbrev_hash_table cc1)"
      "tb_total_abbrev_count (cc_abbrev_hash_table cc1) = tb_total_abbrev_count (cc_abbrev_hash_table cc2) + (Suc m - Suc k)"
    using assms(1) unfolding scan_found_def by blast
  have "dc_code (ds ! j) \<noteq> code" if "k \<le> j \<and> j < m" for j
    using that m(5) assms(3) by (cases "j = k") auto
  then show ?thesis
    using m assms same_place_trans [OF assms(4) m(6)] unfolding scan_found_def
    by (intro exI [of _ m] exI [of _ cc1]) simp
qed

lemma scan_stopped_step:
  assumes "scan_stopped off ds (Suc k) cc2 r" "k < length ds" "same_place cc cc2"
      "tb_total_abbrev_count (cc_abbrev_hash_table cc2) = tb_total_abbrev_count (cc_abbrev_hash_table cc) + 1"
  shows "scan_stopped off ds k cc r"
  using assms holds_less [of off ds "Suc k" _ k] unfolding scan_stopped_def
  by (fastforce intro: same_place_trans)

lemma alloc_subset: "set (snd (alloc mem)) \<subseteq> set mem" "\<not> fst (alloc mem) \<Longrightarrow> False \<in> set mem"
  by (cases mem; auto)+

lemma scan_from:
  assumes "unit_at sec off e ds" "k < length ds" "holds off ds k (cc_abbrev_hash_table cc)"
      and "tb_total_abbrev_count (cc_abbrev_hash_table cc) + (length ds - k) < 2 ^ 63"
  shows "scan_found off ds code k cc (scan_loop sec e code (decl_start off ds k) cc mem)
    \<or> False \<in> set mem \<and> scan_stopped off ds k cc (scan_loop sec e code (decl_start off ds k) cc mem)"
  using assms(2-4)
proof (induction "length ds - k" arbitrary: k cc mem)
  case (Suc n)
  note u = assms(1)
  define cc2 where "cc2 = (raise_known (dc_code (ds ! k)) cc)
    \<lparr>cc_abbrev_hash_table := push_entry (entry_of off ds k) (cc_abbrev_hash_table cc)\<rparr>"
  have small: "tb_total_abbrev_count (cc_abbrev_hash_table cc) < 2 ^ 63" using Suc.prems(3) by simp
  have h: "holds off ds (Suc k) (cc_abbrev_hash_table cc2)"
    using holds_push [OF Suc.prems(2,1) small] by (simp add: cc2_def)
  have total: "tb_total_abbrev_count (cc_abbrev_hash_table cc2) = tb_total_abbrev_count (cc_abbrev_hash_table cc) + 1"
    by (simp add: cc2_def push_entry_def Let_def)
  have place: "same_place cc cc2" by (simp add: cc2_def)
  have step: "scan_loop sec e code (decl_start off ds k) cc mem =
    (if fst (alloc mem)
     then if Suc k < length ds \<and> dc_code (ds ! k) \<noteq> code
          then scan_loop sec e code (decl_start off ds (Suc k)) cc2 (snd (alloc mem))
          else (DW_DLV_OK (dc_code (ds ! k), entry_of off ds k, decl_start off ds (Suc k)), True, cc2)
     else (DW_DLV_ERROR DW_DLE_ALLOC_FAIL, False, cc))"
    unfolding scan_step [OF u Suc.prems(1)] by (simp add: Let_def cc2_def)
  consider (no_memory) "\<not> fst (alloc mem)"
    | (on) "fst (alloc mem)" "Suc k < length ds" "dc_code (ds ! k) \<noteq> code"
    | (last) "fst (alloc mem)" "\<not> (Suc k < length ds \<and> dc_code (ds ! k) \<noteq> code)" by blast
  then show ?case
  proof cases
    case no_memory
    then show ?thesis
      using Suc.prems step alloc_subset(2) by (auto simp: scan_stopped_def same_place_def)
  next
    case on
    have n: "n = length ds - Suc k" using Suc.hyps(2) by simp
    have "tb_total_abbrev_count (cc_abbrev_hash_table cc2) + (length ds - Suc k) < 2 ^ 63"
      using Suc.prems(1,3) total by simp
    note IH = Suc.hyps(1) [OF n on(2) h this, of "snd (alloc mem)"]
    have go: "scan_loop sec e code (decl_start off ds k) cc mem =
        scan_loop sec e code (decl_start off ds (Suc k)) cc2 (snd (alloc mem))"
      using step on by simp
    show ?thesis unfolding go
      using IH alloc_subset(1) [of mem] scan_found_step [OF _ Suc.prems(1) on(3) place total]
        scan_stopped_step [OF _ Suc.prems(1) place total] by blast
  next
    case last
    have "scan_found off ds code k cc
        (DW_DLV_OK (dc_code (ds ! k), entry_of off ds k, decl_start off ds (Suc k)), True, cc2)"
      unfolding scan_found_def
      using Suc.prems(1) last(2) h total place by (intro exI [of _ k] exI [of _ cc2]) auto
    then show ?thesis unfolding step if_P [OF last(1)] if_not_P [OF last(2)] by blast
  qed
qed simp

subsection \<open>Requests\<close>

text \<open>
  The state of a unit between requests, when \<open>n\<close> requests have been made: so much has been
  scanned, and the position kept is where the next declaration starts. When memory has never run
  out (\<open>exact\<close>), no declaration is in the table twice.
\<close>

definition unit_state :: "bool \<Rightarrow> byte list \<Rightarrow> nat \<Rightarrow> nat \<Rightarrow> abbrev_decl list \<Rightarrow> nat \<Rightarrow> abbrev_context \<Rightarrow> bool" where
  "unit_state exact sec off e ds n cc \<longleftrightarrow>
     cc_abbrev_offset cc = off \<and> (case cc_dwp_size cc of None \<Rightarrow> e = length sec | Some s \<Rightarrow> e = off + s)
     \<and> tb_total_abbrev_count (cc_abbrev_hash_table cc) \<le> n * length ds
     \<and> table_ok (cc_abbrev_hash_table cc)
     \<and> (\<exists>k \<le> length ds. (cc_last_abbrev_ptr cc = None \<and> k = 0
           \<or> cc_last_abbrev_ptr cc = Some (decl_start off ds k) \<and> cc_last_abbrev_endptr cc = e)
         \<and> (\<forall>j < k. entry_of off ds j \<in> contents (cc_abbrev_hash_table cc))
         \<and> contents (cc_abbrev_hash_table cc) \<subseteq> entry_of off ds ` {..<length ds}
         \<and> (exact \<longrightarrow> tb_total_abbrev_count (cc_abbrev_hash_table cc) \<le> k))"

text \<open>The declaration of a code, and what a request may answer.\<close>

definition declared :: "nat \<Rightarrow> abbrev_decl list \<Rightarrow> u64 \<Rightarrow> (dw_error, abbrev_list) dlv" where
  "declared off ds code = (case find (\<lambda>k. dc_code (ds ! k) = code) [0..<length ds] of
     None \<Rightarrow> DW_DLV_NO_ENTRY | Some k \<Rightarrow> DW_DLV_OK (entry_of off ds k))"

definition answers :: "nat \<Rightarrow> abbrev_decl list \<Rightarrow> u64 \<Rightarrow> allocs \<Rightarrow> (dw_error, abbrev_list) dlv \<Rightarrow> bool" where
  "answers off ds code mem r \<longleftrightarrow>
     map_dlv id plain r = declared off ds code
     \<or> False \<in> set mem \<and> (r = DW_DLV_NO_ENTRY \<or> r = DW_DLV_ERROR DW_DLE_ALLOC_FAIL)"

lemma declared_Some:
  "distinct (map dc_code ds) \<Longrightarrow> k < length ds \<Longrightarrow> declared off ds (dc_code (ds ! k)) = DW_DLV_OK (entry_of off ds k)"
proof -
  assume d: "distinct (map dc_code ds)" and k: "k < length ds"
  have same: "dc_code (ds ! j) = dc_code (ds ! k) \<Longrightarrow> j < length ds \<Longrightarrow> j = k" for j
    using d k by (simp add: distinct_conv_nth) metis
  have "dc_code (ds ! j) \<noteq> dc_code (ds ! k)" if "j < k" for j using same [of j] that k by auto
  then have "find (\<lambda>j. dc_code (ds ! j) = dc_code (ds ! k)) [0..<length ds] = Some k"
    unfolding find_Some_iff using k by (intro exI [of _ k]) auto
  then show ?thesis by (simp add: declared_def)
qed

lemma declared_None: "\<forall>k < length ds. dc_code (ds ! k) \<noteq> code \<Longrightarrow> declared off ds code = DW_DLV_NO_ENTRY"
  by (auto simp: declared_def find_None_iff split: option.splits dest: iffD1 [OF find_Some_iff])

lemma answer_from_contents:
  assumes u: "unit_at sec off e ds" and sub: "contents ht \<subseteq> entry_of off ds ` {..<length ds}"
      and x: "plain x \<in> contents ht" "abl_code x = code"
  shows "DW_DLV_OK (plain x) = declared off ds code"
proof -
  obtain k where k: "k < length ds" "plain x = entry_of off ds k" using sub x(1) by auto
  then have "dc_code (ds ! k) = code" using x(2) by (metis entry_of_simps(1) plain_simps(1))
  then show ?thesis using declared_Some [of ds k off] u k by (simp add: unit_at_def)
qed

lemma request_answered:
  assumes u: "unit_at sec off e ds" and st: "unit_state exact sec off e ds n cc"
      and size: "Suc n * length ds < 2 ^ 63" and memory: "exact \<longrightarrow> False \<notin> set mem"
  shows "\<exists>r known cc1. dwarf_get_abbrev_for_code sec cc code mem = Some (r, known, cc1)
    \<and> answers off ds code mem r \<and> unit_state exact sec off e ds (Suc n) cc1"
proof -
  let ?ht = "cc_abbrev_hash_table cc"
  obtain r0 ht1 mem1 where ready: "ready_table ?ht mem = (r0, ht1, mem1)" by (metis prod_cases3)
  have total: "tb_total_abbrev_count ?ht \<le> n * length ds" and ok: "table_ok ?ht"
    using st by (simp_all add: unit_state_def)
  have small: "tb_total_abbrev_count ?ht < 2 ^ 63" using total size by simp
  note kept = ready_table_keeps [OF ok small ready]
  have less: "tb_total_abbrev_count ht1 \<le> tb_total_abbrev_count ?ht" using kept by simp
  have total1: "tb_total_abbrev_count ht1 \<le> n * length ds" using less total by simp
  obtain k where k: "k \<le> length ds" "cc_last_abbrev_ptr cc = None \<and> k = 0
        \<or> cc_last_abbrev_ptr cc = Some (decl_start off ds k) \<and> cc_last_abbrev_endptr cc = e"
      "\<forall>j < k. entry_of off ds j \<in> contents ?ht" "contents ?ht \<subseteq> entry_of off ds ` {..<length ds}"
      "exact \<longrightarrow> tb_total_abbrev_count ?ht \<le> k"
    using st unfolding unit_state_def by blast
  have state: "unit_state exact sec off e ds (Suc n) cc2" if "same_place cc cc2" "table_ok (cc_abbrev_hash_table cc2)"
      "contents (cc_abbrev_hash_table cc2) = contents ?ht"
      "tb_total_abbrev_count (cc_abbrev_hash_table cc2) \<le> tb_total_abbrev_count ?ht" for cc2
    using that k st by (auto simp: unit_state_def same_place_def intro!: exI [of _ k])
  show ?thesis
  proof (cases r0)
    case (Inl f)
    have a: "answers off ds code mem f"
      using kept Inl by (auto simp: answers_def)
    have s: "unit_state exact sec off e ds (Suc n) (cc\<lparr>cc_abbrev_hash_table := ht1\<rparr>)"
      by (rule state) (use kept Inl less in \<open>simp_all add: same_place_def\<close>)
    show ?thesis using a s by (simp add: dwarf_get_abbrev_for_code_def ready Inl)
  next
    case (Inr x)
    have ht1: "not_too_large ht1" "buckets_ok ht1" "contents ht1 = contents ?ht" "tb_table_entry_count ht1 < 2 ^ 64"
      using kept Inr by simp_all
    obtain es where es: "tb_entries ht1 = Some es" using ht1(2) by (auto simp: buckets_ok_def split: option.splits)
    define h where "h = hash_of (tb_table_entry_count ht1) code"
    define cc1 where "cc1 = (raise_known code cc)\<lparr>cc_abbrev_hash_table := note_hash h ht1\<rparr>"
    have place: "same_place cc cc1" by (simp add: cc1_def)
    have "0 < tb_table_entry_count ht1" using ht1(2) es by (auto simp: buckets_ok_def)
    then have ht1' [simp]: "buckets_ok (note_hash h ht1)"
      using ht1(2,4) hash_less by (simp add: h_def)
    have tab: "cc_abbrev_hash_table cc1 = note_hash h ht1" by (simp add: cc1_def)
    show ?thesis
    proof (cases "find_code code (es ! h)")
      case (Some y)
      have y: "plain y \<in> contents ?ht" "abl_code y = code"
        using search_Some [OF ht1(2,4) es, of code y] Some ht1(3) by (simp_all add: h_def)
      have a: "answers off ds code mem (DW_DLV_OK (y\<lparr>abl_reference_count := m\<rparr>))" for m
        using answer_from_contents [OF u k(4) y] by (simp add: answers_def)
      have s: "unit_state exact sec off e ds (Suc n) (cc1\<lparr>cc_abbrev_hash_table := referenced code h (note_hash h ht1)\<rparr>)"
        by (rule state) (use place ht1 less in \<open>simp_all add: table_ok_def referenced_ok\<close>)
      show ?thesis using a s Some
        by (simp add: dwarf_get_abbrev_for_code_def ready Inr es flip: h_def cc1_def) (simp add: tab)
    next
      case None
      note absent = search_None [OF ht1(2) es None [unfolded h_def]]
      have not_yet: "dc_code (ds ! j) \<noteq> code" if "j < k" for j
        using absent k(3) that unfolding ht1(3) by (metis entry_of_simps(1))
      define p where "p = decl_start off ds k"
      have from_p: "(case cc_last_abbrev_ptr cc1 of Some q \<Rightarrow> (q, cc_last_abbrev_endptr cc1)
          | None \<Rightarrow> (cc_abbrev_offset cc1, case cc_dwp_size cc1 of None \<Rightarrow> length sec | Some n \<Rightarrow> cc_abbrev_offset cc1 + n)) = (p, e)"
        using k(2) place st by (auto simp: p_def same_place_def unit_state_def decl_start_def split: option.splits)
      have e: "\<not> length sec < e" using u by (simp add: unit_at_def at_bytes_def)
      have s1: "unit_state exact sec off e ds (Suc n) cc1"
        by (rule state) (use place ht1 less in \<open>simp_all add: table_ok_def tab\<close>)
      have start: "dwarf_get_abbrev_for_code sec cc code mem =
          (if e \<le> p then Some (DW_DLV_NO_ENTRY, None, cc1)
           else if sec ! p = 0 then Some (DW_DLV_NO_ENTRY, Some (cc_highest_known_code cc1), cc1)
           else (case scan_loop sec e code p cc1 mem1 of
                        (DW_DLV_OK (abbrev_code, inner, p1), w, cc2) \<Rightarrow>
                          let known = Some (cc_highest_known_code cc2);
                              cc3 = cc2\<lparr>cc_last_abbrev_ptr := Some p1, cc_last_abbrev_endptr := e\<rparr>
                          in if abbrev_code = code
                             then Some (DW_DLV_OK (inner\<lparr>abl_reference_count := abl_reference_count inner + 1\<rparr>), known,
                               cc3\<lparr>cc_abbrev_hash_table := referenced code h (cc_abbrev_hash_table cc3)\<rparr>)
                             else Some (DW_DLV_NO_ENTRY, known, cc3)
                      | (DW_DLV_NO_ENTRY, w, cc2) \<Rightarrow>
                          Some (DW_DLV_NO_ENTRY, if w then Some (cc_highest_known_code cc2) else None, cc2)
                      | (DW_DLV_ERROR err, w, cc2) \<Rightarrow>
                          Some (DW_DLV_ERROR err, if w then Some (cc_highest_known_code cc2) else None, cc2)))"
        unfolding dwarf_get_abbrev_for_code_def ready Inr prod.case sum.case Let_def es option.case
          h_def [symmetric] cc1_def [symmetric] None from_p if_not_P [OF e] ..
      show ?thesis
      proof (cases "k < length ds")
        case False
        then have a: "answers off ds code mem DW_DLV_NO_ENTRY"
          using not_yet k(1) declared_None [of ds code off] by (simp add: answers_def)
        have "e \<le> p \<or> sec ! p = 0" using more_declared [OF u k(1)] False by (auto simp: p_def)
        then show ?thesis using a s1 None e
          unfolding start by auto
      next
        case True
        then have more: "\<not> e \<le> p" "sec ! p \<noteq> 0" using more_declared [OF u k(1)] by (auto simp: p_def)
        have h1: "holds off ds k (cc_abbrev_hash_table cc1)"
          using ht1 k(3,4) by (simp add: holds_def tab)
        have room: "tb_total_abbrev_count (cc_abbrev_hash_table cc1) + (length ds - k) < 2 ^ 63"
          using total1 size by (simp add: tab)
        have eq: "dwarf_get_abbrev_for_code sec cc code mem = (case scan_loop sec e code p cc1 mem1 of
                        (DW_DLV_OK (abbrev_code, inner, p1), w, cc2) \<Rightarrow>
                          let known = Some (cc_highest_known_code cc2);
                              cc3 = cc2\<lparr>cc_last_abbrev_ptr := Some p1, cc_last_abbrev_endptr := e\<rparr>
                          in if abbrev_code = code
                             then Some (DW_DLV_OK (inner\<lparr>abl_reference_count := abl_reference_count inner + 1\<rparr>), known,
                               cc3\<lparr>cc_abbrev_hash_table := referenced code h (cc_abbrev_hash_table cc3)\<rparr>)
                             else Some (DW_DLV_NO_ENTRY, known, cc3)
                      | (DW_DLV_NO_ENTRY, w, cc2) \<Rightarrow>
                          Some (DW_DLV_NO_ENTRY, if w then Some (cc_highest_known_code cc2) else None, cc2)
                      | (DW_DLV_ERROR err, w, cc2) \<Rightarrow>
                          Some (DW_DLV_ERROR err, if w then Some (cc_highest_known_code cc2) else None, cc2))"
          using more unfolding start by simp
        from scan_from [OF u True h1 room, of code mem1]
        show ?thesis
        proof
          assume "scan_found off ds code k cc1 (scan_loop sec e code (decl_start off ds k) cc1 mem1)"
          then obtain m cc2 where
              m: "scan_loop sec e code p cc1 mem1 =
                (DW_DLV_OK (dc_code (ds ! m), entry_of off ds m, decl_start off ds (Suc m)), True, cc2)"
              "k \<le> m" "m < length ds" "dc_code (ds ! m) = code \<or> Suc m = length ds"
              "\<forall>j. k \<le> j \<and> j < m \<longrightarrow> dc_code (ds ! j) \<noteq> code"
              "same_place cc1 cc2" "holds off ds (Suc m) (cc_abbrev_hash_table cc2)"
              "tb_total_abbrev_count (cc_abbrev_hash_table cc2) =
                tb_total_abbrev_count (cc_abbrev_hash_table cc1) + (Suc m - k)"
            unfolding scan_found_def p_def by blast
          have st2: "unit_state exact sec off e ds (Suc n) (cc2\<lparr>cc_last_abbrev_ptr := Some (decl_start off ds (Suc m)),
              cc_last_abbrev_endptr := e, cc_abbrev_hash_table := ht2\<rparr>)"
            if "holds off ds (Suc m) ht2" "tb_total_abbrev_count ht2 = tb_total_abbrev_count (cc_abbrev_hash_table cc2)" for ht2
          proof -
            have "Suc m - k \<le> length ds" using m(3) by simp
            then have "tb_total_abbrev_count ht2 \<le> Suc n * length ds" using that(2) m(8) total1 by (simp add: tab)
            moreover have "exact \<longrightarrow> tb_total_abbrev_count ht2 \<le> Suc m"
              using that(2) m(2,8) less k(5) by (auto simp: tab)
            moreover have "cc_abbrev_offset cc2 = off" "cc_dwp_size cc2 = cc_dwp_size cc"
              using m(6) place st by (simp_all add: same_place_def unit_state_def)
            ultimately show ?thesis
              using that(1) st m(3) unfolding unit_state_def
              by (auto simp: holds_def table_ok_def intro!: exI [of _ "Suc m"])
          qed
          have hr: "holds off ds (Suc m) (referenced code h (cc_abbrev_hash_table cc2))"
            using m(7) by (simp add: holds_def referenced_ok)
          have tr: "tb_total_abbrev_count (referenced code h (cc_abbrev_hash_table cc2)) =
              tb_total_abbrev_count (cc_abbrev_hash_table cc2)"
            by (simp add: referenced_def)
          show ?thesis
          proof (cases "dc_code (ds ! m) = code")
            case True
            have "answers off ds code mem (DW_DLV_OK ((entry_of off ds m)\<lparr>abl_reference_count := i\<rparr>))" for i
              using declared_Some [of ds m off] u m(3) True by (simp add: answers_def unit_at_def)
            then show ?thesis unfolding eq m(1) using True st2 [OF hr tr] by simp
          next
            case False
            have "dc_code (ds ! j) \<noteq> code" if "j < length ds" for j
              using not_yet [of j] m(4,5) False that by (cases "j < k"; cases "j = m") auto
            then have "answers off ds code mem DW_DLV_NO_ENTRY"
              using declared_None [of ds code off] by (simp add: answers_def)
            then show ?thesis unfolding eq m(1) using False st2 [OF m(7) refl] by simp
          qed
        next
          assume s: "False \<in> set mem1 \<and> scan_stopped off ds k cc1 (scan_loop sec e code (decl_start off ds k) cc1 mem1)"
          then obtain cc2 where c: "scan_loop sec e code p cc1 mem1 = (DW_DLV_ERROR DW_DLE_ALLOC_FAIL, False, cc2)"
              "same_place cc1 cc2" "holds off ds k (cc_abbrev_hash_table cc2)"
              "tb_total_abbrev_count (cc_abbrev_hash_table cc2)
                \<le> tb_total_abbrev_count (cc_abbrev_hash_table cc1) + (length ds - k)"
            unfolding scan_stopped_def p_def by blast
          have "answers off ds code mem (DW_DLV_ERROR DW_DLE_ALLOC_FAIL)"
            using s kept by (auto simp: answers_def)
          moreover have "unit_state exact sec off e ds (Suc n) cc2"
          proof -
            have "tb_total_abbrev_count (cc_abbrev_hash_table cc2) \<le> Suc n * length ds" using c(4) total1 by (simp add: tab)
            moreover have "same_place cc cc2" by (rule same_place_trans [OF place c(2)])
            moreover have "\<not> exact" using s kept memory by auto
            ultimately show ?thesis
              using c(3) st k(1,2) unfolding unit_state_def
              by (auto simp: holds_def table_ok_def same_place_def intro!: exI [of _ k])
          qed
          ultimately show ?thesis unfolding eq c(1) by simp
        qed
      qed
    qed
  qed
qed

text \<open>A sequence of requests, each with the outcomes of its allocations.\<close>

fun requests ::
    "byte list \<Rightarrow> abbrev_context \<Rightarrow> (u64 \<times> allocs) list
     \<Rightarrow> ((dw_error, abbrev_list) dlv list \<times> abbrev_context) option" where
  "requests sec cc [] = Some ([], cc)"
| "requests sec cc ((code, mem) # rs) =
     (case dwarf_get_abbrev_for_code sec cc code mem of
        None \<Rightarrow> None
      | Some (r, known, cc1) \<Rightarrow> map_option (\<lambda>(out, cc2). (r # out, cc2)) (requests sec cc1 rs))"

definition fresh_unit :: "nat \<Rightarrow> nat option \<Rightarrow> abbrev_context" where
  "fresh_unit off dwp = \<lparr>cc_abbrev_hash_table = \<lparr>tb_table_entry_count = 0, tb_total_abbrev_count = 0,
       tb_highest_used_entry = 0, tb_entries = None\<rparr>, cc_highest_known_code = 0, cc_last_abbrev_ptr = None,
     cc_last_abbrev_endptr = 0, cc_abbrev_offset = off, cc_dwp_size = dwp\<rparr>"

definition unit_end :: "byte list \<Rightarrow> nat \<Rightarrow> nat option \<Rightarrow> nat" where
  "unit_end sec off dwp = (case dwp of None \<Rightarrow> length sec | Some n \<Rightarrow> off + n)"

lemma fresh_unit_state: "unit_state False sec off (unit_end sec off dwp) ds 0 (fresh_unit off dwp)"
  by (auto simp: unit_state_def fresh_unit_def unit_end_def table_ok_def contents_def split: option.splits)

lemma requests_answered:
  "unit_at sec off e ds \<Longrightarrow> unit_state False sec off e ds n cc \<Longrightarrow> (n + length rs) * length ds < 2 ^ 63 \<Longrightarrow>
   \<exists>out cc1. requests sec cc rs = Some (out, cc1) \<and> unit_state False sec off e ds (n + length rs) cc1
     \<and> list_all2 (\<lambda>(code, mem) r. answers off ds code mem r) rs out"
proof (induction rs arbitrary: n cc)
  case (Cons q rs)
  obtain code mem where q: "q = (code, mem)" by (cases q)
  have "Suc n * length ds \<le> (n + length (q # rs)) * length ds" by (rule mult_le_mono1) simp
  then have "Suc n * length ds < 2 ^ 63" using Cons.prems(3) by linarith
  then obtain r known cc1 where r: "dwarf_get_abbrev_for_code sec cc code mem = Some (r, known, cc1)"
      "answers off ds code mem r" "unit_state False sec off e ds (Suc n) cc1"
    using request_answered [OF Cons.prems(1,2)] by blast
  have "(Suc n + length rs) * length ds < 2 ^ 63" using Cons.prems(3) by simp
  from Cons.IH [OF Cons.prems(1) r(3) this] obtain out cc2 where
      "requests sec cc1 rs = Some (out, cc2)" "unit_state False sec off e ds (Suc n + length rs) cc2"
      "list_all2 (\<lambda>(code, mem) r. answers off ds code mem r) rs out" by blast
  then show ?case using r q by simp
qed simp

text \<open>
  C9: Looking abbreviations up by code implements the map from codes to declarations. For every
  unit whose declarations have different codes, every sequence of requests and every outcome of the
  allocations, no request reads outside the section, and each one answers with exactly the
  declaration of its code (tag, children flag, counts, offset and position), or with no entry when
  the unit declares no such code, whatever has been scanned, hashed and moved to larger
  tables before; the one exception is a request that itself runs out of memory, which answers with
  no entry or the allocation error and disturbs no later one.
\<close>

theorem codes_found:
  assumes unit: "unit_at sec off (unit_end sec off dwp) ds" and size: "length rs * length ds < 2 ^ 63"
  shows "\<exists>out cc. requests sec (fresh_unit off dwp) rs = Some (out, cc)
    \<and> list_all2 (\<lambda>(code, mem) r. map_dlv id plain r = declared off ds code
        \<or> False \<in> set mem \<and> (r = DW_DLV_NO_ENTRY \<or> r = DW_DLV_ERROR DW_DLE_ALLOC_FAIL)) rs out"
proof -
  have "(0 + length rs) * length ds < 2 ^ 63" using size by simp
  from requests_answered [OF unit fresh_unit_state this] show ?thesis
    unfolding answers_def by blast
qed

definition example_decls :: "abbrev_decl list" where
  "example_decls = [\<lparr>dc_code = 1, dc_tag = 0x11, dc_child = 1, dc_attrs = example_attrs\<rparr>,
     \<lparr>dc_code = 2, dc_tag = 0x34, dc_child = 0, dc_attrs = []\<rparr>]"

definition example_section :: "byte list" where
  "example_section = concat (map decl_bytes example_decls) @ [0]"

lemma example_unit: "unit_at example_section 0 (unit_end example_section 0 None) example_decls"
proof -
  have "decl_start 0 example_decls (length example_decls) = length (concat (map decl_bytes example_decls))"
    by (simp add: decl_start_def)
  then have "example_section ! decl_start 0 example_decls (length example_decls) = 0"
    by (simp add: example_section_def nth_append)
  moreover have "\<forall>d \<in> set example_decls. valid_decl d"
    using example_attrs_valid by (simp add: example_decls_def valid_decl_def DW_TAG_hi_user_def)
  moreover have "distinct (map dc_code example_decls)" by (simp add: example_decls_def)
  ultimately show ?thesis
    by (simp add: unit_at_def unit_end_def at_bytes_def) (simp add: example_section_def)
qed

theorem codes_found_witness:
  "\<exists>r1 r2 r3 x. map_option fst (requests example_section (fresh_unit 0 None) [(2, []), (7, []), (1, [])]) = Some [r1, r2, r3]
    \<and> map_dlv id plain r1 = DW_DLV_OK (entry_of 0 example_decls 1) \<and> map_dlv id plain r2 = DW_DLV_NO_ENTRY
    \<and> map_dlv id plain r3 = DW_DLV_OK x \<and> abl_tag x = 0x11 \<and> abl_abbrev_count x = 2"
proof -
  have d: "declared 0 example_decls 2 = DW_DLV_OK (entry_of 0 example_decls 1)"
    "declared 0 example_decls 7 = DW_DLV_NO_ENTRY"
    "declared 0 example_decls 1 = DW_DLV_OK (entry_of 0 example_decls 0)"
    by (simp_all add: declared_def example_decls_def upt_rec)
  have e: "abl_tag (entry_of 0 example_decls 0) = 0x11" "abl_abbrev_count (entry_of 0 example_decls 0) = 2"
    using example_attrs_facts by (simp_all add: entry_of_def decl_entry_def example_decls_def)
  have "length [(2 :: u64, [] :: allocs), (7, []), (1, [])] * length example_decls < 2 ^ 63"
    by (simp add: example_decls_def)
  from codes_found [OF example_unit this] obtain out cc where
      "requests example_section (fresh_unit 0 None) [(2, []), (7, []), (1, [])] = Some (out, cc)"
      "list_all2 (\<lambda>(code, mem) r. map_dlv id plain r = declared 0 example_decls code
        \<or> False \<in> set mem \<and> (r = DW_DLV_NO_ENTRY \<or> r = DW_DLV_ERROR DW_DLE_ALLOC_FAIL))
        [(2, []), (7, []), (1, [])] out" by blast
  then show ?thesis using d e by (auto simp: list_all2_Cons1)
qed

subsection \<open>Freeing the table\<close>

text \<open>The entries \<open>_dwarf_free_abbrev_hash_table_contents\<close> frees, and the table after it.\<close>

definition dwarf_free_abbrev_hash_table_contents :: "hash_table option \<Rightarrow> bool \<Rightarrow> abbrev_list list \<times> hash_table option" where
  "dwarf_free_abbrev_hash_table_contents table keep_abbrev_list =
     (case table of
        None \<Rightarrow> ([], None)
      | Some ht \<Rightarrow>
          (case tb_entries ht of
             None \<Rightarrow> ([], Some ht)
           | Some es \<Rightarrow>
               (if keep_abbrev_list then [] else concat (map (\<lambda>h. es ! h) [0..<tb_highest_used_entry ht + 1]),
                Some (ht\<lparr>tb_entries := None\<rparr>))))"

lemma concat_take_used:
  "(\<And>h. h < length es \<Longrightarrow> es ! h \<noteq> [] \<Longrightarrow> h \<le> k) \<Longrightarrow> k < length es \<Longrightarrow>
   concat (map (\<lambda>h. es ! h) [0..<k + 1]) = concat es"
proof -
  assume used: "\<And>h. h < length es \<Longrightarrow> es ! h \<noteq> [] \<Longrightarrow> h \<le> k" and k: "k < length es"
  have "map (\<lambda>h. es ! h) [0..<k + 1] = take (k + 1) es"
    using k by (intro nth_equalityI) (simp_all del: upt_Suc)
  moreover have "xs = []" if "xs \<in> set (drop (k + 1) es)" for xs
  proof -
    obtain i where i: "i < length (drop (k + 1) es)" "xs = drop (k + 1) es ! i"
      using \<open>xs \<in> set (drop (k + 1) es)\<close> by (metis in_set_conv_nth)
    then have "k + 1 + i < length es" by simp
    then show ?thesis using used [of "k + 1 + i"] i k by auto
  qed
  then have "concat (drop (k + 1) es) = []" by simp
  ultimately show ?thesis by (metis append.right_neutral append_take_drop_id concat_append)
qed

text \<open>
  C25: Nothing leaks and nothing is freed that is not there: after any requests to a unit, freeing its
  table frees exactly the entries of the table, each once, and looks at no bucket behind the last
  one. Stopping at the highest bucket used is therefore enough, also after the table has been
  replaced by larger ones.
\<close>

theorem table_freed:
  assumes unit: "unit_at sec off (unit_end sec off dwp) ds" and size: "length rs * length ds < 2 ^ 63"
      and run: "requests sec (fresh_unit off dwp) rs = Some (out, cc)"
      and es: "tb_entries (cc_abbrev_hash_table cc) = Some es"
  shows "tb_highest_used_entry (cc_abbrev_hash_table cc) < length es
    \<and> fst (dwarf_free_abbrev_hash_table_contents (Some (cc_abbrev_hash_table cc)) False) = concat es
    \<and> length (concat es) = tb_total_abbrev_count (cc_abbrev_hash_table cc)"
proof -
  have "(0 + length rs) * length ds < 2 ^ 63" using size by simp
  from requests_answered [OF unit fresh_unit_state this]
  have "table_ok (cc_abbrev_hash_table cc)" using run by (auto simp: unit_state_def)
  then have b: "buckets_ok (cc_abbrev_hash_table cc)" using es by (simp add: table_ok_def)
  have below: "tb_highest_used_entry (cc_abbrev_hash_table cc) < length es"
    using b es by (simp add: buckets_ok_def)
  have "h \<le> tb_highest_used_entry (cc_abbrev_hash_table cc)" if "h < length es" "es ! h \<noteq> []" for h
    using b es that by (auto simp: buckets_ok_def neq_Nil_conv)
  then show ?thesis
    using concat_take_used [of es "tb_highest_used_entry (cc_abbrev_hash_table cc)"] below b es
    by (simp add: dwarf_free_abbrev_hash_table_contents_def buckets_ok_def)
qed

theorem table_freed_witness:
  "\<exists>cc n. map_option snd (requests example_section (fresh_unit 0 None) [(2, [])]) = Some cc
    \<and> (case tb_entries (cc_abbrev_hash_table cc) of None \<Rightarrow> True
       | Some es \<Rightarrow> fst (dwarf_free_abbrev_hash_table_contents (Some (cc_abbrev_hash_table cc)) False) = concat es
           \<and> length (concat es) = n)"
proof -
  have "(0 + length [(2 :: u64, [] :: allocs)]) * length example_decls < 2 ^ 63" by (simp add: example_decls_def)
  from requests_answered [OF example_unit fresh_unit_state this] obtain out cc where
      run: "requests example_section (fresh_unit 0 None) [(2, [])] = Some (out, cc)" by blast
  have size: "length [(2 :: u64, [] :: allocs)] * length example_decls < 2 ^ 63" by (simp add: example_decls_def)
  show ?thesis
    using run table_freed [OF example_unit size run]
    by (intro exI [of _ cc] exI [of _ "tb_total_abbrev_count (cc_abbrev_hash_table cc)"])
      (auto split: option.splits)
qed

subsection \<open>A declaration that cannot be counted\<close>

lemma fresh_ready:
  "ready_table (cc_abbrev_hash_table (fresh_unit off dwp)) [] = (Inr (), empty_table 128 0, [])"
  by (simp add: ready_table_def fresh_unit_def Let_def HT_DEFAULT_TABLE_SIZE_def empty_table_def)

text \<open>
  An error is forgotten: when the pairs of a unit's first declaration are corrupt, the request
  for its code fails with that error, but its entry is already in the table; the
  next request for the same code succeeds and answers with a declaration that has no attributes.
\<close>

theorem half_made_entry_answers:
  assumes decl: "at_bytes sec off (length sec) (uleb code @ uleb tag @ [child])" and "code \<noteq> 0" "tag \<le> DW_TAG_hi_user"
      and corrupt: "dwarf_count_abbrev_entries sec (off + length (uleb code @ uleb tag @ [child])) (length sec) =
        DW_DLV_ERROR err"
  shows "\<exists>k1 cc1 k2 cc2 x.
      dwarf_get_abbrev_for_code sec (fresh_unit off None) code [] = Some (DW_DLV_ERROR err, k1, cc1)
    \<and> dwarf_get_abbrev_for_code sec cc1 code [] = Some (DW_DLV_OK x, k2, cc2)
    \<and> abl_code x = code \<and> abl_tag x = ucast tag \<and> abl_abbrev_count x = 0"
proof -
  let ?e = "length sec" and ?q = "off + length (uleb code) + length (uleb tag)" and ?h = "hash_of 128 code"
  have parts: "at_bytes sec off ?e (uleb code)" "at_bytes sec (off + length (uleb code)) ?e (uleb tag)"
      "at_bytes sec ?q ?e [child]"
    using decl unfolding at_bytes_append by (simp_all add: add.assoc)
  have q: "\<not> ?e \<le> ?q" "sec ! ?q = child" using at_bytes_first [OF parts(3)] by simp_all
  have tag: "\<not> DW_TAG_hi_user < tag" using assms(3) by (simp add: not_less)
  obtain x xs where x: "uleb code = x # xs" by (cases "uleb code") auto
  have nz: "off < ?e" "sec ! off \<noteq> 0"
    using at_bytes_first [of sec off ?e x xs] parts(1) uleb_first [OF assms(2)] x by simp_all
  have h: "?h < 128" by (rule hash_less) simp_all
  define inner where "inner = \<lparr>abl_code = code, abl_tag = ucast tag, abl_has_child = ucast child,
      abl_reference_count = 0, abl_goffset = off, abl_abbrev_ptr = ?q + 1, abl_abbrev_count = 0,
      abl_implicit_const_count = 0, abl_attr = None, abl_form = None, abl_implicit_const = None\<rparr>"
  define start where "start = (raise_known code (fresh_unit off None))\<lparr>cc_abbrev_hash_table := note_hash ?h (empty_table 128 0)\<rparr>"
  define cc1 where "cc1 = (raise_known code start)\<lparr>cc_abbrev_hash_table := push_entry inner (note_hash ?h (empty_table 128 0))\<rparr>"
  have count: "dwarf_count_abbrev_entries sec (Suc ?q) ?e = DW_DLV_ERROR err"
    using corrupt by (simp add: add.assoc)
  have scan: "scan_loop sec ?e code off start [] = (DW_DLV_ERROR err, True, cc1)"
    unfolding scan_loop.simps [of sec ?e code off] uword_at [OF parts(1)] uword_at [OF parts(2)]
      dlv.case prod.case if_not_P [OF tag] if_not_P [OF q(1)] Let_def
    by (simp add: q(2) count cc1_def inner_def start_def)
  have place: "cc_last_abbrev_ptr start = None" "cc_abbrev_offset start = off" "cc_dwp_size start = None"
    by (simp_all add: start_def raise_known_def fresh_unit_def)
  have first: "dwarf_get_abbrev_for_code sec (fresh_unit off None) code [] =
      Some (DW_DLV_ERROR err, Some (cc_highest_known_code cc1), cc1)"
    unfolding dwarf_get_abbrev_for_code_def fresh_ready prod.case sum.case Let_def
    using nz h place scan
    by (simp add: empty_table_def flip: start_def [unfolded empty_table_def])
  obtain es where pushed: "tb_entries (cc_abbrev_hash_table cc1) = Some es" "es ! ?h = [inner]"
      "tb_table_entry_count (cc_abbrev_hash_table cc1) = 128" "tb_total_abbrev_count (cc_abbrev_hash_table cc1) = 1"
    using h by (simp add: cc1_def push_entry_def Let_def empty_table_def inner_def)
  have again: "ready_table (cc_abbrev_hash_table cc1) [] = (Inr (), cc_abbrev_hash_table cc1, [])"
    by (simp add: ready_table_def pushed HT_MULTIPLE_def)
  have "\<exists>k2 cc2. dwarf_get_abbrev_for_code sec cc1 code [] =
      Some (DW_DLV_OK (inner\<lparr>abl_reference_count := 1\<rparr>), k2, cc2)"
    unfolding dwarf_get_abbrev_for_code_def again prod.case sum.case Let_def
    by (simp add: pushed) (simp add: inner_def)
  then show ?thesis using first by (auto simp: inner_def)
qed

text \<open>A declaration of code 1 whose first attribute, 0x4000, is too large.\<close>

definition corrupt_section :: "byte list" where
  "corrupt_section = [1, 0x11, 1, 0x80, 0x80, 1, 8, 0, 0, 0]"

theorem half_made_entry_answers_witness:
  "\<exists>k1 cc1 k2 cc2 x.
      dwarf_get_abbrev_for_code corrupt_section (fresh_unit 0 None) 1 [] = Some (DW_DLV_ERROR DW_DLE_ATTR_CORRUPT, k1, cc1)
    \<and> dwarf_get_abbrev_for_code corrupt_section cc1 1 [] = Some (DW_DLV_OK x, k2, cc2) \<and> abl_abbrev_count x = 0"
proof -
  have small: "uleb 1 = [1]" "uleb 0x11 = [0x11]" unfolding uleb_def by code_simp+
  have "dwarf_count_abbrev_entries corrupt_section 3 (length corrupt_section) = DW_DLV_ERROR DW_DLE_ATTR_CORRUPT"
    by code_simp
  then have corrupt: "dwarf_count_abbrev_entries corrupt_section (0 + length (uleb 1 @ uleb 0x11 @ [1])) (length corrupt_section) =
      DW_DLV_ERROR DW_DLE_ATTR_CORRUPT"
    unfolding small by (simp add: eval_nat_numeral)
  have decl: "at_bytes corrupt_section 0 (length corrupt_section) (uleb 1 @ uleb 0x11 @ [1])"
    by (simp add: small at_bytes_def corrupt_section_def)
  show ?thesis
    using half_made_entry_answers [OF decl _ _ corrupt] by (simp add: DW_TAG_hi_user_def) blast
qed

end
