(* ===== verification/Reading.thy ===== *)
theory Reading
  imports Abbrev
begin

text \<open>
  Fixed-size numbers and initial lengths: \<open>dwarf_memcpy_swap.c\<close>, the macros \<open>READ_UNALIGNED_CK\<close> and
  \<open>READ_AREA_LENGTH_CK\<close> of \<open>dwarf_util.h\<close> as they are on a little-endian host, and the check of a
  string's end in \<open>dwarf_util.c\<close>.
\<close>

subsection \<open>Copying a word\<close>

definition dwarf_memcpy_noswap_bytes :: "byte list \<Rightarrow> byte list \<Rightarrow> nat \<Rightarrow> byte list" where
  "dwarf_memcpy_noswap_bytes s1 s2 len = take len s2 @ drop len s1"

text \<open>The loop of \<open>_dwarf_memcpy_swap_bytes\<close> with \<open>len - i\<close> rounds left; \<open>n\<close> is \<open>len - 1 - i\<close> in the loop.\<close>

fun swap_loop :: "nat \<Rightarrow> byte list \<Rightarrow> byte list \<Rightarrow> nat \<Rightarrow> nat \<Rightarrow> byte list" where
  "swap_loop 0 targ src i n = targ"
| "swap_loop (Suc left) targ src i n = swap_loop left (targ[n := src ! i]) src (i + 1) (n - 1)"

definition dwarf_memcpy_swap_bytes :: "byte list \<Rightarrow> byte list \<Rightarrow> nat \<Rightarrow> byte list" where
  "dwarf_memcpy_swap_bytes s1 s2 len =
     (if 8 < len then take len s2 @ drop len s1 else swap_loop len s1 s2 0 (len - 1))"

lemma swap_loop_reverses:
  "left \<le> length targ \<Longrightarrow> i + left \<le> length src \<Longrightarrow>
   swap_loop left targ src i (left - 1) = rev (take left (drop i src)) @ drop left targ"
proof (induction left arbitrary: targ i)
  case (Suc left)
  let ?t = "targ[left := src ! i]"
  have IH: "swap_loop left ?t src (i + 1) (left - 1) = rev (take left (drop (i + 1) src)) @ drop left ?t"
    by (rule Suc.IH) (use Suc.prems in simp_all)
  have "drop left ?t = src ! i # drop (Suc left) targ"
    using Suc.prems(1) by (simp add: drop_update_swap Cons_nth_drop_Suc [symmetric])
  moreover have "take (Suc left) (drop i src) = src ! i # take left (drop (i + 1) src)"
    using Suc.prems(2) by (simp add: Cons_nth_drop_Suc [symmetric])
  ultimately show ?case using IH by simp
qed simp

text \<open>
  The swapping copy reverses a number of up to eight bytes and leaves the bytes behind it
  alone; more than eight bytes are copied as they are.
\<close>

theorem swap_reverses:
  assumes "len \<le> length s1" "len \<le> length s2"
  shows "dwarf_memcpy_swap_bytes s1 s2 len =
    (if len \<le> 8 then rev (take len s2) else take len s2) @ drop len s1"
  using assms swap_loop_reverses [of len s1 0 s2] by (simp add: dwarf_memcpy_swap_bytes_def)

theorem swap_reverses_witness: "dwarf_memcpy_swap_bytes [0, 0, 0, 0] [1, 2] 2 = [2, 1, 0, 0]"
  using swap_reverses [of 2 "[0, 0, 0, 0]" "[1, 2]"] by (simp add: eval_nat_numeral)

subsection \<open>Reading a number\<close>

text \<open>
  What reading uses of the \<open>Dwarf_Debug\<close>: whether the object's byte order is not the host's, whether it
  is big-endian, the length size, and whether strings are taken to be in bounds.
\<close>

record dwarf_debug =
  de_swap :: bool
  de_big_endian_object :: bool
  de_length_size :: nat
  de_pointer_size :: u64
  de_assume_string_in_bounds :: bool

definition de_copy_word :: "dwarf_debug \<Rightarrow> byte list \<Rightarrow> byte list \<Rightarrow> nat \<Rightarrow> byte list" where
  "de_copy_word dbg = (if de_swap dbg then dwarf_memcpy_swap_bytes else dwarf_memcpy_noswap_bytes)"

text \<open>The value of a word in memory on a little-endian host.\<close>

primrec host_word :: "byte list \<Rightarrow> u64" where
  "host_word [] = 0"
| "host_word (b # bs) = ucast b OR push_bit 8 (host_word bs)"

definition READ_UNALIGNED_CK :: "dwarf_debug \<Rightarrow> byte list \<Rightarrow> nat \<Rightarrow> nat \<Rightarrow> nat \<Rightarrow> (dw_error, u64) dlv" where
  "READ_UNALIGNED_CK dbg sec source len endptr =
     (if endptr < source + len then DW_DLV_ERROR DW_DLE_READ_LITTLEENDIAN_ERROR
      else DW_DLV_OK (host_word (de_copy_word dbg (replicate 8 0) (drop source sec) len)))"

text \<open>How a producer writes a number of \<open>len\<close> bytes, in the object's byte order.\<close>

primrec le_bytes :: "nat \<Rightarrow> u64 \<Rightarrow> byte list" where
  "le_bytes 0 v = []"
| "le_bytes (Suc n) v = ucast v # le_bytes n (drop_bit 8 v)"

definition number_bytes :: "dwarf_debug \<Rightarrow> nat \<Rightarrow> u64 \<Rightarrow> byte list" where
  "number_bytes dbg len v = (if de_swap dbg then rev (le_bytes len v) else le_bytes len v)"

lemma length_le_bytes [simp]: "length (le_bytes n v) = n"
  by (induction n arbitrary: v) simp_all

lemma length_number_bytes [simp]: "length (number_bytes dbg n v) = n"
  by (simp add: number_bytes_def)

lemma host_word_zeros [simp]: "host_word (replicate n 0) = 0"
  by (induction n) simp_all

lemma host_word_le_bytes: "host_word (le_bytes n v @ replicate k 0) = take_bit (8 * n) v"
proof (induction n arbitrary: v)
  case (Suc n)
  show ?case
  proof (rule bit_word_eqI)
    fix i assume "i < LENGTH(64)"
    then show "bit (host_word (le_bytes (Suc n) v @ replicate k 0)) i \<longleftrightarrow> bit (take_bit (8 * Suc n) v) i"
      using Suc.IH [of "drop_bit 8 v"] by (cases "i < 8") (auto simp: bit_simps)
  qed
qed simp

lemma read_number:
  assumes at: "at_bytes sec p e (number_bytes dbg n v)" and n: "n \<le> 8"
  shows "READ_UNALIGNED_CK dbg sec p n e = DW_DLV_OK (take_bit (8 * n) v)"
proof -
  have len: "p + n \<le> e" "e \<le> length sec" "take n (drop p sec) = number_bytes dbg n v"
    using at by (simp_all add: at_bytes_def)
  then have l: "n \<le> length (drop p sec)" by simp
  have "de_copy_word dbg (replicate 8 0) (drop p sec) n = le_bytes n v @ replicate (8 - n) 0"
    using len(3) n l swap_loop_reverses [of n "replicate 8 0" 0 "drop p sec"]
    by (simp add: de_copy_word_def number_bytes_def dwarf_memcpy_noswap_bytes_def dwarf_memcpy_swap_bytes_def)
  then show ?thesis using len(1) by (simp add: READ_UNALIGNED_CK_def host_word_le_bytes)
qed

lemma less_mask_take: "v < 2 ^ n \<Longrightarrow> n < 64 \<Longrightarrow> take_bit n v = v" for v :: u64
proof -
  assume v: "v < 2 ^ n" and n: "n < 64"
  have "(2 :: u64) ^ n \<noteq> 0" using n by (simp add: exp_eq_zero_iff)
  then have "uint (2 ^ n :: u64) = 2 ^ n" by (intro uint_2p) (simp add: word_gt_0)
  then have "uint v < 2 ^ n" using v by (simp add: word_less_def)
  then have "take_bit n (uint v) = uint v" by (simp add: take_bit_int_eq_self)
  then show ?thesis by (simp add: word_uint_eq_iff unsigned_take_bit_eq)
qed

subsection \<open>Initial lengths\<close>

text \<open>
  The result is \<open>w_target\<close>, \<open>w_length_size\<close>, \<open>w_exten_size\<close> and the new \<open>rw_src_data_p\<close>.
  The error of a length larger than the section is \<open>DW_DLE_HEADER_LEN_BIGGER_THAN_SECSIZE\<close>.
\<close>

definition DISTINGUISHED_VALUE :: u64 where "DISTINGUISHED_VALUE = 0xffffffff"

definition READ_AREA_LENGTH_CK ::
    "dwarf_debug \<Rightarrow> byte list \<Rightarrow> nat \<Rightarrow> u64 \<Rightarrow> nat \<Rightarrow> (dw_error, u64 \<times> nat \<times> nat \<times> nat) dlv" where
  "READ_AREA_LENGTH_CK dbg sec p r_sectionlen endptr =
     dlv_bind (READ_UNALIGNED_CK dbg sec p 4 endptr) (\<lambda>w.
       if w = DISTINGUISHED_VALUE
       then dlv_bind (READ_UNALIGNED_CK dbg sec (p + 4) 8 endptr) (\<lambda>w.
         if r_sectionlen < w then DW_DLV_ERROR DW_DLE_HEADER_LEN_BIGGER_THAN_SECSIZE
         else DW_DLV_OK (w, 8, 4, p + 12))
       else if w = 0 \<and> de_big_endian_object dbg
       then if de_length_size dbg = 8
            then dlv_bind (READ_UNALIGNED_CK dbg sec p 8 endptr) (\<lambda>w.
              if r_sectionlen < w then DW_DLV_ERROR DW_DLE_HEADER_LEN_BIGGER_THAN_SECSIZE
              else DW_DLV_OK (w, 8, 0, p + 8))
            else DW_DLV_OK (w, 4, 0, p + 4)
       else if r_sectionlen < w then DW_DLV_ERROR DW_DLE_HEADER_LEN_BIGGER_THAN_SECSIZE
       else DW_DLV_OK (w, 4, 0, p + 4))"

text \<open>An initial length as DWARF defines it: four bytes, or the escape value and eight bytes.\<close>

definition initial_length :: "dwarf_debug \<Rightarrow> bool \<Rightarrow> u64 \<Rightarrow> byte list" where
  "initial_length dbg dwarf64 v =
     (if dwarf64 then number_bytes dbg 4 DISTINGUISHED_VALUE @ number_bytes dbg 8 v else number_bytes dbg 4 v)"

lemma read_area_length:
  assumes at: "at_bytes sec p e (initial_length dbg dwarf64 v)"
      and small: "\<not> dwarf64 \<Longrightarrow> v < DISTINGUISHED_VALUE \<and> (v = 0 \<longrightarrow> \<not> de_big_endian_object dbg)"
  shows "READ_AREA_LENGTH_CK dbg sec p seclen e =
    (if seclen < v then DW_DLV_ERROR DW_DLE_HEADER_LEN_BIGGER_THAN_SECSIZE
     else DW_DLV_OK (v, if dwarf64 then 8 else 4, if dwarf64 then 4 else 0,
                     p + length (initial_length dbg dwarf64 v)))"
proof (cases dwarf64)
  case True
  then have "at_bytes sec p e (number_bytes dbg 4 DISTINGUISHED_VALUE)" "at_bytes sec (p + 4) e (number_bytes dbg 8 v)"
    using at by (simp_all add: initial_length_def at_bytes_append)
  moreover have "take_bit 32 DISTINGUISHED_VALUE = DISTINGUISHED_VALUE" by (simp add: DISTINGUISHED_VALUE_def)
  moreover have "take_bit 64 v = v" by (rule bit_word_eqI) (simp add: bit_simps)
  ultimately show ?thesis using True
    by (simp add: READ_AREA_LENGTH_CK_def read_number initial_length_def)
next
  case False
  then have "at_bytes sec p e (number_bytes dbg 4 v)" using at by (simp add: initial_length_def)
  moreover have v: "v < DISTINGUISHED_VALUE" "v = 0 \<longrightarrow> \<not> de_big_endian_object dbg" using small False by blast+
  then have "v < 2 ^ 32" by (simp add: DISTINGUISHED_VALUE_def) (erule less_trans, simp)
  then have "take_bit 32 v = v" by (intro less_mask_take) simp_all
  ultimately show ?thesis using False v
    by (auto simp: READ_AREA_LENGTH_CK_def read_number initial_length_def)
qed

text \<open>
  An initial length of either DWARF format, in either byte order, is read back: the value, the
  size of offsets in the unit (4 or 8), the size of the escape and the position behind it, and a
  value beyond the section's length is refused. The 32-bit values taken by the escapes, and the zero that stands
  for the 64-bit IRIX format in big-endian objects, are excluded.
\<close>

theorem initial_length_read:
  assumes at: "at_bytes sec p e (initial_length dbg dwarf64 v)"
      and small: "\<not> dwarf64 \<Longrightarrow> v < DISTINGUISHED_VALUE \<and> (v = 0 \<longrightarrow> \<not> de_big_endian_object dbg)"
  shows "READ_AREA_LENGTH_CK dbg sec p seclen e =
    (if seclen < v then DW_DLV_ERROR DW_DLE_HEADER_LEN_BIGGER_THAN_SECSIZE
     else DW_DLV_OK (v, if dwarf64 then 8 else 4, if dwarf64 then 4 else 0,
                     p + length (initial_length dbg dwarf64 v)))"
  using assms by (rule read_area_length)

definition example_dbg :: dwarf_debug where
  "example_dbg = \<lparr>de_swap = True, de_big_endian_object = True, de_length_size = 4, de_pointer_size = 8,
     de_assume_string_in_bounds = False\<rparr>"

theorem initial_length_read_witness:
  "READ_AREA_LENGTH_CK example_dbg (initial_length example_dbg True 300 @ [7]) 0 1000 13 = DW_DLV_OK (300, 8, 4, 12)"
proof -
  have len: "length (initial_length example_dbg True 300) = 12" by (simp add: initial_length_def)
  then have "at_bytes (initial_length example_dbg True 300 @ [7]) 0 13 (initial_length example_dbg True 300)"
    by (simp add: at_bytes_def)
  from initial_length_read [OF this, of 1000] len show ?thesis by simp
qed

subsection \<open>Strings\<close>

function string_end_loop :: "byte list \<Rightarrow> nat \<Rightarrow> nat \<Rightarrow> bool" where
  "string_end_loop sec p e =
     (if p < e then if sec ! p = 0 then True else string_end_loop sec (p + 1) e else False)"
  by pat_completeness auto
termination by (relation "measure (\<lambda>(sec, p, e). e - p)") auto

declare string_end_loop.simps [simp del]

definition dwarf_check_string_valid ::
    "dwarf_debug \<Rightarrow> byte list \<Rightarrow> nat \<Rightarrow> nat \<Rightarrow> nat \<Rightarrow> dw_error \<Rightarrow> (dw_error, unit) dlv" where
  "dwarf_check_string_valid dbg sec areaptr strptr areaendptr suggested_error =
     (if strptr < areaptr then DW_DLV_ERROR suggested_error
      else if areaendptr \<le> strptr then DW_DLV_ERROR suggested_error
      else if de_assume_string_in_bounds dbg then DW_DLV_OK ()
      else if string_end_loop sec strptr areaendptr then DW_DLV_OK ()
      else DW_DLV_ERROR DW_DLE_STRING_NOT_TERMINATED)"

lemma string_end_iff: "string_end_loop sec p e \<longleftrightarrow> (\<exists>q. p \<le> q \<and> q < e \<and> sec ! q = 0)"
proof (induction sec p e rule: string_end_loop.induct)
  case (1 sec p e)
  have split: "p \<le> q \<longleftrightarrow> q = p \<or> p + 1 \<le> q" for q by linarith
  show ?case using 1 unfolding string_end_loop.simps [of sec p e] split by auto
qed

end
