(* ===== verification/Forms.thy ===== *)
theory Forms
  imports Reading
begin

text \<open>
  The size of an attribute's value: \<open>_dwarf_get_size_of_val\<close> (\<open>dwarf_util.c\<close>), against a grammar of
  the values as DWARF defines them.
\<close>

subsection \<open>The forms\<close>

definition DW_FORM_addr :: u64 where "DW_FORM_addr = 0x01"
definition DW_FORM_block2 :: u64 where "DW_FORM_block2 = 0x03"
definition DW_FORM_block4 :: u64 where "DW_FORM_block4 = 0x04"
definition DW_FORM_data2 :: u64 where "DW_FORM_data2 = 0x05"
definition DW_FORM_data4 :: u64 where "DW_FORM_data4 = 0x06"
definition DW_FORM_data8 :: u64 where "DW_FORM_data8 = 0x07"
definition DW_FORM_string :: u64 where "DW_FORM_string = 0x08"
definition DW_FORM_block :: u64 where "DW_FORM_block = 0x09"
definition DW_FORM_block1 :: u64 where "DW_FORM_block1 = 0x0a"
definition DW_FORM_data1 :: u64 where "DW_FORM_data1 = 0x0b"
definition DW_FORM_flag :: u64 where "DW_FORM_flag = 0x0c"
definition DW_FORM_sdata :: u64 where "DW_FORM_sdata = 0x0d"
definition DW_FORM_strp :: u64 where "DW_FORM_strp = 0x0e"
definition DW_FORM_udata :: u64 where "DW_FORM_udata = 0x0f"
definition DW_FORM_ref_addr :: u64 where "DW_FORM_ref_addr = 0x10"
definition DW_FORM_ref1 :: u64 where "DW_FORM_ref1 = 0x11"
definition DW_FORM_ref2 :: u64 where "DW_FORM_ref2 = 0x12"
definition DW_FORM_ref4 :: u64 where "DW_FORM_ref4 = 0x13"
definition DW_FORM_ref8 :: u64 where "DW_FORM_ref8 = 0x14"
definition DW_FORM_ref_udata :: u64 where "DW_FORM_ref_udata = 0x15"
definition DW_FORM_indirect :: u64 where "DW_FORM_indirect = 0x16"
definition DW_FORM_sec_offset :: u64 where "DW_FORM_sec_offset = 0x17"
definition DW_FORM_exprloc :: u64 where "DW_FORM_exprloc = 0x18"
definition DW_FORM_flag_present :: u64 where "DW_FORM_flag_present = 0x19"
definition DW_FORM_strx :: u64 where "DW_FORM_strx = 0x1a"
definition DW_FORM_addrx :: u64 where "DW_FORM_addrx = 0x1b"
definition DW_FORM_ref_sup4 :: u64 where "DW_FORM_ref_sup4 = 0x1c"
definition DW_FORM_strp_sup :: u64 where "DW_FORM_strp_sup = 0x1d"
definition DW_FORM_data16 :: u64 where "DW_FORM_data16 = 0x1e"
definition DW_FORM_line_strp :: u64 where "DW_FORM_line_strp = 0x1f"
definition DW_FORM_ref_sig8 :: u64 where "DW_FORM_ref_sig8 = 0x20"
definition DW_FORM_loclistx :: u64 where "DW_FORM_loclistx = 0x22"
definition DW_FORM_rnglistx :: u64 where "DW_FORM_rnglistx = 0x23"
definition DW_FORM_ref_sup8 :: u64 where "DW_FORM_ref_sup8 = 0x24"
definition DW_FORM_strx1 :: u64 where "DW_FORM_strx1 = 0x25"
definition DW_FORM_strx2 :: u64 where "DW_FORM_strx2 = 0x26"
definition DW_FORM_strx3 :: u64 where "DW_FORM_strx3 = 0x27"
definition DW_FORM_strx4 :: u64 where "DW_FORM_strx4 = 0x28"
definition DW_FORM_addrx1 :: u64 where "DW_FORM_addrx1 = 0x29"
definition DW_FORM_addrx2 :: u64 where "DW_FORM_addrx2 = 0x2a"
definition DW_FORM_addrx3 :: u64 where "DW_FORM_addrx3 = 0x2b"
definition DW_FORM_LLVM_addrx_offset :: u64 where "DW_FORM_LLVM_addrx_offset = 0x2001"

lemmas form_codes =
  DW_FORM_addr_def DW_FORM_block2_def DW_FORM_block4_def DW_FORM_data2_def
  DW_FORM_data4_def DW_FORM_data8_def DW_FORM_string_def DW_FORM_block_def
  DW_FORM_block1_def DW_FORM_data1_def DW_FORM_flag_def DW_FORM_sdata_def
  DW_FORM_strp_def DW_FORM_udata_def DW_FORM_ref_addr_def DW_FORM_ref1_def
  DW_FORM_ref2_def DW_FORM_ref4_def DW_FORM_ref8_def DW_FORM_ref_udata_def
  DW_FORM_indirect_def DW_FORM_sec_offset_def DW_FORM_exprloc_def DW_FORM_flag_present_def
  DW_FORM_strx_def DW_FORM_addrx_def DW_FORM_ref_sup4_def DW_FORM_strp_sup_def
  DW_FORM_data16_def DW_FORM_line_strp_def DW_FORM_ref_sig8_def DW_FORM_loclistx_def
  DW_FORM_rnglistx_def DW_FORM_ref_sup8_def DW_FORM_strx1_def DW_FORM_strx2_def
  DW_FORM_strx3_def DW_FORM_strx4_def DW_FORM_addrx1_def DW_FORM_addrx2_def
  DW_FORM_addrx3_def DW_FORM_LLVM_addrx_offset_def DW_FORM_GNU_addr_index_def DW_FORM_GNU_ref_alt_def
  DW_FORM_GNU_str_index_def DW_FORM_GNU_strp_alt_def DW_FORM_addrx4_def DW_FORM_implicit_const_def

subsection \<open>The size of a value\<close>

text \<open>
  The macros \<open>SKIP_LEB128_LEN_CK\<close> and \<open>DECODE_LEB128_UWORD_LEN_CK\<close> assign the length (and the value), and advance
  \<open>ptr\<close> over the number; the result is the values assigned, the pointer last.
\<close>

definition SKIP_LEB128_LEN_CK :: "byte list \<Rightarrow> nat \<Rightarrow> nat \<Rightarrow> (dw_error, nat \<times> nat) dlv" where
  "SKIP_LEB128_LEN_CK sec p e =
     (case dwarf_skip_leb128 (data_between sec p e) of
        DW_DLV_OK leblen \<Rightarrow> DW_DLV_OK (leblen, p + leblen)
      | _ \<Rightarrow> DW_DLV_ERROR DW_DLE_LEB_IMPROPER)"

definition DECODE_LEB128_UWORD_LEN_CK :: "byte list \<Rightarrow> nat \<Rightarrow> nat \<Rightarrow> (dw_error, u64 \<times> nat \<times> nat) dlv" where
  "DECODE_LEB128_UWORD_LEN_CK sec p e =
     (case dwarf_decode_leb128 (data_between sec p e) of
        DW_DLV_OK (leblen, v) \<Rightarrow> DW_DLV_OK (v, leblen, p + leblen)
      | _ \<Rightarrow> DW_DLV_ERROR DW_DLE_LEB_IMPROPER)"

definition c_strlen_at :: "byte list \<Rightarrow> nat \<Rightarrow> nat" where
  "c_strlen_at sec p = length (takeWhile (\<lambda>b. b \<noteq> 0) (drop p sec))"

text \<open>
  \<open>size0\<close> is what \<open>*size_out\<close> holds at the call: the form 0 does not write it. (Where strings are
  assumed to be in bounds, the caller vouches that a terminating byte is in the section.)
\<close>

function dwarf_get_size_of_val ::
    "dwarf_debug \<Rightarrow> byte list \<Rightarrow> u64 \<Rightarrow> u64 \<Rightarrow> u64 \<Rightarrow> nat \<Rightarrow> u64 \<Rightarrow> u64 \<Rightarrow> nat \<Rightarrow> (dw_error, u64) dlv" where
  "dwarf_get_size_of_val dbg sec form cu_version address_size p v_length_size size0 e =
     (if form = 0 then DW_DLV_OK size0
      else if form = DW_FORM_GNU_ref_alt \<or> form = DW_FORM_GNU_strp_alt \<or> form = DW_FORM_strp_sup
      then DW_DLV_OK v_length_size
      else if form = DW_FORM_addr
      then DW_DLV_OK (if address_size \<noteq> 0 then address_size else de_pointer_size dbg)
      else if form = DW_FORM_ref_sig8 then DW_DLV_OK 8
      else if form = DW_FORM_ref_addr
      then DW_DLV_OK (if cu_version = 2 then address_size else v_length_size)
      else if form = DW_FORM_block1
      then if e \<le> p then DW_DLV_ERROR DW_DLE_FORM_BLOCK_LENGTH_ERROR
           else let ret_value = ucast (sec ! p) in
                if e - p < unat ret_value then DW_DLV_ERROR DW_DLE_FORM_BLOCK_LENGTH_ERROR
                else DW_DLV_OK (ret_value + 1)
      else if form = DW_FORM_block2
      then dlv_bind (READ_UNALIGNED_CK dbg sec p 2 e) (\<lambda>ret_value.
             if e - p < unat ret_value then DW_DLV_ERROR DW_DLE_FORM_BLOCK_LENGTH_ERROR
             else DW_DLV_OK (ret_value + 2))
      else if form = DW_FORM_block4
      then dlv_bind (READ_UNALIGNED_CK dbg sec p 4 e) (\<lambda>ret_value.
             if e - p < unat ret_value then DW_DLV_ERROR DW_DLE_FORM_BLOCK_LENGTH_ERROR
             else DW_DLV_OK (ret_value + 4))
      else if form = DW_FORM_data1 then DW_DLV_OK 1
      else if form = DW_FORM_data2 then DW_DLV_OK 2
      else if form = DW_FORM_data4 then DW_DLV_OK 4
      else if form = DW_FORM_data8 then DW_DLV_OK 8
      else if form = DW_FORM_data16 then DW_DLV_OK 16
      else if form = DW_FORM_string
      then dlv_bind (dwarf_check_string_valid dbg sec p p e DW_DLE_FORM_STRING_BAD_STRING) (\<lambda>_.
             DW_DLV_OK (of_nat (c_strlen_at sec p) + 1))
      else if form = DW_FORM_block \<or> form = DW_FORM_exprloc
      then dlv_bind (DECODE_LEB128_UWORD_LEN_CK sec p e) (\<lambda>(length, leb128_length, val_ptr).
             DW_DLV_OK (length + of_nat leb128_length))
      else if form = DW_FORM_flag_present then DW_DLV_OK 0
      else if form = DW_FORM_flag then DW_DLV_OK 1
      else if form = DW_FORM_sec_offset then DW_DLV_OK v_length_size
      else if form = DW_FORM_ref_udata
      then dlv_bind (SKIP_LEB128_LEN_CK sec p e) (\<lambda>(leb128_length, val_ptr). DW_DLV_OK (of_nat leb128_length))
      else if form = DW_FORM_indirect
      then dlv_bind (DECODE_LEB128_UWORD_LEN_CK sec p e) (\<lambda>(form_indirect, indir_len, val_ptr).
             if form_indirect = DW_FORM_indirect then DW_DLV_ERROR DW_DLE_NESTED_FORM_INDIRECT_ERROR
             else dlv_bind (dwarf_get_size_of_val dbg sec form_indirect cu_version address_size
                    (val_ptr + indir_len) v_length_size 0 e) (\<lambda>info_data_len.
               DW_DLV_OK (of_nat indir_len + info_data_len)))
      else if form = DW_FORM_ref1 then DW_DLV_OK 1
      else if form = DW_FORM_ref2 then DW_DLV_OK 2
      else if form = DW_FORM_ref4 then DW_DLV_OK 4
      else if form = DW_FORM_ref8 then DW_DLV_OK 8
      else if form = DW_FORM_implicit_const then DW_DLV_OK 0
      else if form = DW_FORM_sdata
      then dlv_bind (SKIP_LEB128_LEN_CK sec p e) (\<lambda>(leb128_length, val_ptr). DW_DLV_OK (of_nat leb128_length))
      else if form = DW_FORM_ref_sup4 then DW_DLV_OK 4
      else if form = DW_FORM_ref_sup8 then DW_DLV_OK 8
      else if form = DW_FORM_addrx1 then DW_DLV_OK 1
      else if form = DW_FORM_addrx2 then DW_DLV_OK 2
      else if form = DW_FORM_addrx3 then DW_DLV_OK 3
      else if form = DW_FORM_addrx4 then DW_DLV_OK 4
      else if form = DW_FORM_strx1 then DW_DLV_OK 1
      else if form = DW_FORM_strx2 then DW_DLV_OK 2
      else if form = DW_FORM_strx3 then DW_DLV_OK 3
      else if form = DW_FORM_strx4 then DW_DLV_OK 4
      else if form = DW_FORM_loclistx \<or> form = DW_FORM_rnglistx \<or> form = DW_FORM_addrx
        \<or> form = DW_FORM_GNU_addr_index \<or> form = DW_FORM_strx \<or> form = DW_FORM_GNU_str_index
      then dlv_bind (SKIP_LEB128_LEN_CK sec p e) (\<lambda>(leb128_length, val_ptr). DW_DLV_OK (of_nat leb128_length))
      else if form = DW_FORM_line_strp \<or> form = DW_FORM_strp then DW_DLV_OK v_length_size
      else if form = DW_FORM_LLVM_addrx_offset
      then dlv_bind (SKIP_LEB128_LEN_CK sec p e) (\<lambda>(leb128_length, val_ptr). DW_DLV_OK (of_nat leb128_length + 4))
      else if form = DW_FORM_udata
      then dlv_bind (SKIP_LEB128_LEN_CK sec p e) (\<lambda>(leb128_length, val_ptr). DW_DLV_OK (of_nat leb128_length))
      else DW_DLV_ERROR DW_DLE_DEBUG_FORM_HANDLING_INCOMPLETE)"
  by pat_completeness auto
termination
  by (relation "measure (\<lambda>(dbg, sec, form, v, a, p, l, s, e). if form = DW_FORM_indirect then 1 else 0)") auto

declare dwarf_get_size_of_val.simps [simp del]

subsection \<open>The values as DWARF defines them\<close>

definition fixed_size :: "dwarf_debug \<Rightarrow> u64 \<Rightarrow> u64 \<Rightarrow> u64 \<Rightarrow> u64 \<Rightarrow> u64 option" where
  "fixed_size dbg cu_version address_size offset_size form =
     (if form \<in> {DW_FORM_flag_present, DW_FORM_implicit_const} then Some 0
      else if form \<in> {DW_FORM_data1, DW_FORM_flag, DW_FORM_ref1, DW_FORM_addrx1, DW_FORM_strx1} then Some 1
      else if form \<in> {DW_FORM_data2, DW_FORM_ref2, DW_FORM_addrx2, DW_FORM_strx2} then Some 2
      else if form \<in> {DW_FORM_addrx3, DW_FORM_strx3} then Some 3
      else if form \<in> {DW_FORM_data4, DW_FORM_ref4, DW_FORM_ref_sup4, DW_FORM_addrx4, DW_FORM_strx4} then Some 4
      else if form \<in> {DW_FORM_data8, DW_FORM_ref8, DW_FORM_ref_sup8, DW_FORM_ref_sig8} then Some 8
      else if form = DW_FORM_data16 then Some 16
      else if form \<in> {DW_FORM_sec_offset, DW_FORM_strp, DW_FORM_line_strp, DW_FORM_strp_sup,
          DW_FORM_GNU_ref_alt, DW_FORM_GNU_strp_alt} then Some offset_size
      else if form = DW_FORM_ref_addr then Some (if cu_version = 2 then address_size else offset_size)
      else if form = DW_FORM_addr then Some (if address_size = 0 then de_pointer_size dbg else address_size)
      else None)"

definition leb_forms :: "u64 list" where
  "leb_forms = [DW_FORM_udata, DW_FORM_sdata, DW_FORM_ref_udata, DW_FORM_loclistx, DW_FORM_rnglistx,
     DW_FORM_addrx, DW_FORM_strx, DW_FORM_GNU_addr_index, DW_FORM_GNU_str_index]"

text \<open>
  \<open>form_value ... form bs\<close>: the bytes \<open>bs\<close> are a value of the form. The forms are those that say themselves how
  their value looks; a value of \<open>DW_FORM_indirect\<close> is the code of such a form and the value of that form.
\<close>

inductive form_value :: "dwarf_debug \<Rightarrow> u64 \<Rightarrow> u64 \<Rightarrow> u64 \<Rightarrow> u64 \<Rightarrow> byte list \<Rightarrow> bool"
  for dbg cu_version address_size offset_size where
  fixed: "fixed_size dbg cu_version address_size offset_size form = Some n \<Longrightarrow> length bs = unat n \<Longrightarrow>
    form_value dbg cu_version address_size offset_size form bs"
| block1: "length bs < 2 ^ 8 \<Longrightarrow>
    form_value dbg cu_version address_size offset_size DW_FORM_block1 (of_nat (length bs) # bs)"
| block2: "length bs < 2 ^ 16 \<Longrightarrow>
    form_value dbg cu_version address_size offset_size DW_FORM_block2 (number_bytes dbg 2 (of_nat (length bs)) @ bs)"
| block4: "length bs < 2 ^ 32 \<Longrightarrow>
    form_value dbg cu_version address_size offset_size DW_FORM_block4 (number_bytes dbg 4 (of_nat (length bs)) @ bs)"
| block: "form \<in> {DW_FORM_block, DW_FORM_exprloc} \<Longrightarrow> length bs < 2 ^ 64 \<Longrightarrow>
    form_value dbg cu_version address_size offset_size form (uleb (of_nat (length bs)) @ bs)"
| string: "0 \<notin> set bs \<Longrightarrow> form_value dbg cu_version address_size offset_size DW_FORM_string (bs @ [0])"
| leb: "form \<in> set leb_forms \<Longrightarrow> leb_shape bs \<Longrightarrow> length bs \<le> 24 \<Longrightarrow>
    form_value dbg cu_version address_size offset_size form bs"
| leb_and_4: "leb_shape bs \<Longrightarrow> length bs \<le> 24 \<Longrightarrow> length off = 4 \<Longrightarrow>
    form_value dbg cu_version address_size offset_size DW_FORM_LLVM_addrx_offset (bs @ off)"

subsection \<open>Every value is measured\<close>

lemma unat_ucast_byte: "unat (ucast (b :: byte) :: u64) = unat b"
proof -
  have "unat b < 2 ^ 64" using unsigned_less [of b, where 'a = nat] by simp
  then show ?thesis by (simp add: unsigned_ucast_eq take_bit_nat_eq_self)
qed

lemma size_of_fixed:
  "dwarf_get_size_of_val dbg sec DW_FORM_flag_present v a p l s e = DW_DLV_OK 0"
  "dwarf_get_size_of_val dbg sec DW_FORM_implicit_const v a p l s e = DW_DLV_OK 0"
  "dwarf_get_size_of_val dbg sec DW_FORM_data1 v a p l s e = DW_DLV_OK 1"
  "dwarf_get_size_of_val dbg sec DW_FORM_flag v a p l s e = DW_DLV_OK 1"
  "dwarf_get_size_of_val dbg sec DW_FORM_ref1 v a p l s e = DW_DLV_OK 1"
  "dwarf_get_size_of_val dbg sec DW_FORM_addrx1 v a p l s e = DW_DLV_OK 1"
  "dwarf_get_size_of_val dbg sec DW_FORM_strx1 v a p l s e = DW_DLV_OK 1"
  "dwarf_get_size_of_val dbg sec DW_FORM_data2 v a p l s e = DW_DLV_OK 2"
  "dwarf_get_size_of_val dbg sec DW_FORM_ref2 v a p l s e = DW_DLV_OK 2"
  "dwarf_get_size_of_val dbg sec DW_FORM_addrx2 v a p l s e = DW_DLV_OK 2"
  "dwarf_get_size_of_val dbg sec DW_FORM_strx2 v a p l s e = DW_DLV_OK 2"
  "dwarf_get_size_of_val dbg sec DW_FORM_addrx3 v a p l s e = DW_DLV_OK 3"
  "dwarf_get_size_of_val dbg sec DW_FORM_strx3 v a p l s e = DW_DLV_OK 3"
  "dwarf_get_size_of_val dbg sec DW_FORM_data4 v a p l s e = DW_DLV_OK 4"
  "dwarf_get_size_of_val dbg sec DW_FORM_ref4 v a p l s e = DW_DLV_OK 4"
  "dwarf_get_size_of_val dbg sec DW_FORM_ref_sup4 v a p l s e = DW_DLV_OK 4"
  "dwarf_get_size_of_val dbg sec DW_FORM_addrx4 v a p l s e = DW_DLV_OK 4"
  "dwarf_get_size_of_val dbg sec DW_FORM_strx4 v a p l s e = DW_DLV_OK 4"
  "dwarf_get_size_of_val dbg sec DW_FORM_data8 v a p l s e = DW_DLV_OK 8"
  "dwarf_get_size_of_val dbg sec DW_FORM_ref8 v a p l s e = DW_DLV_OK 8"
  "dwarf_get_size_of_val dbg sec DW_FORM_ref_sup8 v a p l s e = DW_DLV_OK 8"
  "dwarf_get_size_of_val dbg sec DW_FORM_ref_sig8 v a p l s e = DW_DLV_OK 8"
  "dwarf_get_size_of_val dbg sec DW_FORM_data16 v a p l s e = DW_DLV_OK 16"
  "dwarf_get_size_of_val dbg sec DW_FORM_sec_offset v a p l s e = DW_DLV_OK l"
  "dwarf_get_size_of_val dbg sec DW_FORM_strp v a p l s e = DW_DLV_OK l"
  "dwarf_get_size_of_val dbg sec DW_FORM_line_strp v a p l s e = DW_DLV_OK l"
  "dwarf_get_size_of_val dbg sec DW_FORM_strp_sup v a p l s e = DW_DLV_OK l"
  "dwarf_get_size_of_val dbg sec DW_FORM_GNU_ref_alt v a p l s e = DW_DLV_OK l"
  "dwarf_get_size_of_val dbg sec DW_FORM_GNU_strp_alt v a p l s e = DW_DLV_OK l"
  "dwarf_get_size_of_val dbg sec DW_FORM_ref_addr v a p l s e = DW_DLV_OK (if v = 2 then a else l)"
  "dwarf_get_size_of_val dbg sec DW_FORM_addr v a p l s e = DW_DLV_OK (if a = 0 then de_pointer_size dbg else a)"
  by (subst dwarf_get_size_of_val.simps; simp add: form_codes)+

lemma size_fixed:
  "fixed_size dbg v a l form = Some n \<Longrightarrow> dwarf_get_size_of_val dbg sec form v a p l s e = DW_DLV_OK n"
  unfolding fixed_size_def by (auto simp: size_of_fixed split: if_splits)

lemma size_of_leb:
  "dwarf_get_size_of_val dbg sec DW_FORM_udata v a p l s e = dlv_bind (SKIP_LEB128_LEN_CK sec p e) (\<lambda>(n, q). DW_DLV_OK (of_nat n))"
  "dwarf_get_size_of_val dbg sec DW_FORM_sdata v a p l s e = dlv_bind (SKIP_LEB128_LEN_CK sec p e) (\<lambda>(n, q). DW_DLV_OK (of_nat n))"
  "dwarf_get_size_of_val dbg sec DW_FORM_ref_udata v a p l s e = dlv_bind (SKIP_LEB128_LEN_CK sec p e) (\<lambda>(n, q). DW_DLV_OK (of_nat n))"
  "dwarf_get_size_of_val dbg sec DW_FORM_loclistx v a p l s e = dlv_bind (SKIP_LEB128_LEN_CK sec p e) (\<lambda>(n, q). DW_DLV_OK (of_nat n))"
  "dwarf_get_size_of_val dbg sec DW_FORM_rnglistx v a p l s e = dlv_bind (SKIP_LEB128_LEN_CK sec p e) (\<lambda>(n, q). DW_DLV_OK (of_nat n))"
  "dwarf_get_size_of_val dbg sec DW_FORM_addrx v a p l s e = dlv_bind (SKIP_LEB128_LEN_CK sec p e) (\<lambda>(n, q). DW_DLV_OK (of_nat n))"
  "dwarf_get_size_of_val dbg sec DW_FORM_strx v a p l s e = dlv_bind (SKIP_LEB128_LEN_CK sec p e) (\<lambda>(n, q). DW_DLV_OK (of_nat n))"
  "dwarf_get_size_of_val dbg sec DW_FORM_GNU_addr_index v a p l s e = dlv_bind (SKIP_LEB128_LEN_CK sec p e) (\<lambda>(n, q). DW_DLV_OK (of_nat n))"
  "dwarf_get_size_of_val dbg sec DW_FORM_GNU_str_index v a p l s e = dlv_bind (SKIP_LEB128_LEN_CK sec p e) (\<lambda>(n, q). DW_DLV_OK (of_nat n))"
  by (subst dwarf_get_size_of_val.simps; simp add: form_codes)+

lemma size_leb:
  "form \<in> set leb_forms \<Longrightarrow> dwarf_get_size_of_val dbg sec form v a p l s e =
     dlv_bind (SKIP_LEB128_LEN_CK sec p e) (\<lambda>(n, q). DW_DLV_OK (of_nat n))"
  unfolding leb_forms_def by (auto simp: size_of_leb)

lemma size_special:
  "dwarf_get_size_of_val dbg sec DW_FORM_block1 v a p l s e =
     (if e \<le> p then DW_DLV_ERROR DW_DLE_FORM_BLOCK_LENGTH_ERROR
      else if e - p < unat (sec ! p) then DW_DLV_ERROR DW_DLE_FORM_BLOCK_LENGTH_ERROR
      else DW_DLV_OK (ucast (sec ! p) + 1))"
  "dwarf_get_size_of_val dbg sec DW_FORM_block2 v a p l s e =
     dlv_bind (READ_UNALIGNED_CK dbg sec p 2 e) (\<lambda>n.
       if e - p < unat n then DW_DLV_ERROR DW_DLE_FORM_BLOCK_LENGTH_ERROR else DW_DLV_OK (n + 2))"
  "dwarf_get_size_of_val dbg sec DW_FORM_block4 v a p l s e =
     dlv_bind (READ_UNALIGNED_CK dbg sec p 4 e) (\<lambda>n.
       if e - p < unat n then DW_DLV_ERROR DW_DLE_FORM_BLOCK_LENGTH_ERROR else DW_DLV_OK (n + 4))"
  "dwarf_get_size_of_val dbg sec DW_FORM_block v a p l s e =
     dlv_bind (DECODE_LEB128_UWORD_LEN_CK sec p e) (\<lambda>(n, len, q). DW_DLV_OK (n + of_nat len))"
  "dwarf_get_size_of_val dbg sec DW_FORM_exprloc v a p l s e =
     dlv_bind (DECODE_LEB128_UWORD_LEN_CK sec p e) (\<lambda>(n, len, q). DW_DLV_OK (n + of_nat len))"
  "dwarf_get_size_of_val dbg sec DW_FORM_string v a p l s e =
     dlv_bind (dwarf_check_string_valid dbg sec p p e DW_DLE_FORM_STRING_BAD_STRING) (\<lambda>_.
       DW_DLV_OK (of_nat (c_strlen_at sec p) + 1))"
  "dwarf_get_size_of_val dbg sec DW_FORM_LLVM_addrx_offset v a p l s e =
     dlv_bind (SKIP_LEB128_LEN_CK sec p e) (\<lambda>(n, q). DW_DLV_OK (of_nat n + 4))"
  "dwarf_get_size_of_val dbg sec DW_FORM_indirect v a p l s e =
     dlv_bind (DECODE_LEB128_UWORD_LEN_CK sec p e) (\<lambda>(form, len, q).
       if form = DW_FORM_indirect then DW_DLV_ERROR DW_DLE_NESTED_FORM_INDIRECT_ERROR
       else dlv_bind (dwarf_get_size_of_val dbg sec form v a (q + len) l 0 e) (\<lambda>n. DW_DLV_OK (of_nat len + n)))"
  by (subst dwarf_get_size_of_val.simps; simp add: form_codes Let_def unat_ucast_byte)+

lemma skip_len_at:
  "at_bytes sec p e bs \<Longrightarrow> leb_shape bs \<Longrightarrow> length bs \<le> 24 \<Longrightarrow> SKIP_LEB128_LEN_CK sec p e = DW_DLV_OK (length bs, p + length bs)"
  using at_bytes_between [of sec p e bs] skip_shape [of bs] by (auto simp: SKIP_LEB128_LEN_CK_def)

lemma uword_len_at:
  "at_bytes sec p e (uleb v) \<Longrightarrow> DECODE_LEB128_UWORD_LEN_CK sec p e = DW_DLV_OK (v, length (uleb v), p + length (uleb v))"
  using at_bytes_between [of sec p e "uleb v"] uleb_spec [of v]
  by (auto simp: DECODE_LEB128_UWORD_LEN_CK_def decode_shape)

lemma at_bytes_Cons: "at_bytes sec p e (x # xs) \<longleftrightarrow> at_bytes sec p e [x] \<and> at_bytes sec (p + 1) e xs"
  using at_bytes_append [of sec p e "[x]" xs] by simp

lemma string_at:
  assumes at: "at_bytes sec p e (bs @ [0])" and s: "0 \<notin> set bs"
  shows "dwarf_check_string_valid dbg sec p p e err = DW_DLV_OK ()" "c_strlen_at sec p = length bs"
proof -
  have last: "at_bytes sec (p + length bs) e [0]" using at by (simp add: at_bytes_append)
  have "sec ! (p + length bs) = 0" "p + length bs < e"
    using last by (auto simp: at_bytes_def take_Suc_conv_app_nth)
  then have "string_end_loop sec p e" by (auto simp: string_end_iff intro: exI [of _ "p + length bs"])
  then show "dwarf_check_string_valid dbg sec p p e err = DW_DLV_OK ()"
    using \<open>p + length bs < e\<close> by (simp add: dwarf_check_string_valid_def)
  have "take (length bs + 1) (drop p sec) = bs @ [0]" using at by (simp add: at_bytes_def)
  then have d: "drop p sec = bs @ 0 # drop (length bs + 1) (drop p sec)"
    by (metis append.assoc append_Cons append_Nil append_take_drop_id)
  show "c_strlen_at sec p = length bs"
    unfolding c_strlen_at_def by (subst d) (use s in \<open>simp add: takeWhile_append\<close>)
qed

lemma small_length: "length bs < 2 ^ 64 \<Longrightarrow> unat (of_nat (length bs) :: u64) = length bs"
  by (simp add: unat_of_nat take_bit_nat_eq_self)

lemma read_block_length:
  assumes "at_bytes sec p e (number_bytes dbg n (of_nat k))" "k < 2 ^ (8 * n)" "n = 2 \<or> n = 4"
  shows "READ_UNALIGNED_CK dbg sec p n e = DW_DLV_OK (of_nat k)"
proof -
  have "take_bit (8 * n) (of_nat k :: u64) = of_nat k"
    using assms(2) by (simp add: take_bit_nat_eq_self flip: of_nat_take_bit)
  then show ?thesis using read_number [OF assms(1)] assms(3) by auto
qed

lemma measured:
  assumes "form_value dbg v a l form bs" "at_bytes sec p e bs" "length bs < 2 ^ 63"
  shows "dwarf_get_size_of_val dbg sec form v a p l s e = DW_DLV_OK (of_nat (length bs))"
  using assms
proof (induction form bs arbitrary: p s rule: form_value.induct)
  case (fixed form n bs)
  then show ?case by (simp add: size_fixed)
next
  case (block1 bs)
  have "sec ! p = of_nat (length bs)" "p < e" "p + 1 + length bs \<le> e"
    using at_bytes_first [OF block1.prems(1)] block1.prems(1) by (auto simp: at_bytes_def)
  moreover have "unat (of_nat (length bs) :: byte) = length bs"
    using block1.hyps by (simp add: unat_of_nat take_bit_nat_eq_self)
  moreover have "(ucast (of_nat (length bs) :: byte) :: u64) = of_nat (length bs)"
    using block1.hyps by (simp add: unsigned_of_nat take_bit_nat_eq_self)
  ultimately show ?case by (simp add: size_special)
next
  case (block2 bs)
  have at: "at_bytes sec p e (number_bytes dbg 2 (of_nat (length bs)))" "p + 2 + length bs \<le> e"
    using block2.prems(1) unfolding at_bytes_append by (simp, simp add: at_bytes_def)
  show ?case
    using read_block_length [OF at(1)] block2 at(2) small_length [of bs] by (simp add: size_special)
next
  case (block4 bs)
  have at: "at_bytes sec p e (number_bytes dbg 4 (of_nat (length bs)))" "p + 4 + length bs \<le> e"
    using block4.prems(1) unfolding at_bytes_append by (simp, simp add: at_bytes_def)
  show ?case
    using read_block_length [OF at(1)] block4 at(2) small_length [of bs] by (simp add: size_special)
next
  case (block form bs)
  have at: "at_bytes sec p e (uleb (of_nat (length bs)))" using block.prems(1) by (simp add: at_bytes_append)
  show ?case using block.hyps(1) uword_len_at [OF at] by (auto simp: size_special)
next
  case (string bs)
  show ?case using string_at [OF string.prems(1) string.hyps] by (simp add: size_special add.commute)
next
  case (leb form bs)
  show ?case using skip_len_at [OF leb.prems(1) leb.hyps(2,3)] leb.hyps(1) by (simp add: size_leb)
next
  case (leb_and_4 bs off)
  have "at_bytes sec p e bs" using leb_and_4.prems(1) by (simp add: at_bytes_append)
  then show ?case using skip_len_at leb_and_4.hyps by (simp add: size_special)
qed

text \<open>
  An indirect value: \<open>DECODE_LEB128_UWORD_LEN_CK\<close> has moved \<open>val_ptr\<close> over the code of the form already when the
  length of the code is added to it again.
\<close>

lemma indirect_size:
  assumes "at_bytes sec p e (uleb form)" "form \<noteq> DW_FORM_indirect"
    and "dwarf_get_size_of_val dbg sec form v a (p + 2 * length (uleb form)) l 0 e = DW_DLV_OK n"
  shows "dwarf_get_size_of_val dbg sec DW_FORM_indirect v a p l s e = DW_DLV_OK (of_nat (length (uleb form)) + n)"
  using assms uword_len_at [OF assms(1)] by (simp add: size_special mult_2 add.assoc)

lemma value_not_indirect: "form_value dbg v a l form bs \<Longrightarrow> form \<noteq> DW_FORM_indirect"
  by (erule form_value.cases) (auto simp: fixed_size_def form_codes leb_forms_def)

text \<open>
  C13: Every value is measured exactly: wherever a value of any form that DWARF defines (fixed sizes, the four
  kinds of blocks, strings, LEB128 numbers) stands in a section, in either byte order, the size found is the
  number of its bytes. Under \<open>DW_FORM_indirect\<close> that is so for the forms of a fixed size only: for the others the
  size found is that of the code of the form and of the value that stands one length of that code behind the
  place where the value begins.
\<close>

theorem value_measured:
  assumes "form_value dbg cu_version address_size offset_size form bs" "length bs < 2 ^ 63"
  shows "(at_bytes sec p e bs \<longrightarrow>
      dwarf_get_size_of_val dbg sec form cu_version address_size p offset_size size0 e = DW_DLV_OK (of_nat (length bs)))
    \<and> (at_bytes sec p e (uleb form @ bs) \<and> fixed_size dbg cu_version address_size offset_size form \<noteq> None \<longrightarrow>
      dwarf_get_size_of_val dbg sec DW_FORM_indirect cu_version address_size p offset_size size0 e =
        DW_DLV_OK (of_nat (length (uleb form @ bs))))
    \<and> (at_bytes sec p e (uleb form @ skipped @ bs) \<and> length skipped = length (uleb form) \<longrightarrow>
      dwarf_get_size_of_val dbg sec DW_FORM_indirect cu_version address_size p offset_size size0 e =
        DW_DLV_OK (of_nat (length (uleb form @ bs))))"
proof (intro conjI impI)
  have form: "form \<noteq> DW_FORM_indirect" using assms(1) by (rule value_not_indirect)
  show "at_bytes sec p e bs \<Longrightarrow> dwarf_get_size_of_val dbg sec form cu_version address_size p offset_size size0 e =
      DW_DLV_OK (of_nat (length bs))"
    using assms by (intro measured)
  show "dwarf_get_size_of_val dbg sec DW_FORM_indirect cu_version address_size p offset_size size0 e =
      DW_DLV_OK (of_nat (length (uleb form @ bs)))"
    if *: "at_bytes sec p e (uleb form @ bs) \<and> fixed_size dbg cu_version address_size offset_size form \<noteq> None"
  proof -
    obtain n where n: "fixed_size dbg cu_version address_size offset_size form = Some n" using * by auto
    have at: "at_bytes sec p e (uleb form)" "at_bytes sec (p + length (uleb form)) e bs"
      using * by (simp_all add: at_bytes_append)
    have "n = of_nat (length bs)"
      using measured [OF assms(1) at(2) assms(2)] size_fixed [OF n] by simp
    then show ?thesis using indirect_size [OF at(1) form size_fixed [OF n]] by simp
  qed
  show "dwarf_get_size_of_val dbg sec DW_FORM_indirect cu_version address_size p offset_size size0 e =
      DW_DLV_OK (of_nat (length (uleb form @ bs)))"
    if *: "at_bytes sec p e (uleb form @ skipped @ bs) \<and> length skipped = length (uleb form)"
  proof -
    have at: "at_bytes sec p e (uleb form)" "at_bytes sec (p + 2 * length (uleb form)) e bs"
      using * by (auto simp: at_bytes_append mult_2 add.assoc)
    show ?thesis using indirect_size [OF at(1) form measured [OF assms(1) at(2) assms(2)]] by simp
  qed
qed

lemma uleb_string: "uleb DW_FORM_string = [8]"
  unfolding uleb_def DW_FORM_string_def by code_simp

theorem value_measured_witness:
  "dwarf_get_size_of_val example_dbg [8, 0x61, 0x62, 0, 9] DW_FORM_string 5 8 1 4 0 5 = DW_DLV_OK 3
    \<and> dwarf_get_size_of_val example_dbg [8, 0x61, 0x62, 0, 9] DW_FORM_indirect 5 8 0 4 0 5 = DW_DLV_OK 3"
proof
  have "form_value example_dbg 5 8 4 DW_FORM_string ([0x61, 0x62] @ [0])"
    by (intro form_value.string) simp
  then show "dwarf_get_size_of_val example_dbg [8, 0x61, 0x62, 0, 9] DW_FORM_string 5 8 1 4 0 5 = DW_DLV_OK 3"
    using value_measured [of example_dbg 5 8 4 DW_FORM_string "[0x61, 0x62, 0]" "[8, 0x61, 0x62, 0, 9]" 1 5 0 "[]"]
    by (simp add: at_bytes_def)
  have "form_value example_dbg 5 8 4 DW_FORM_string ([0x62] @ [0])"
    by (intro form_value.string) simp
  then show "dwarf_get_size_of_val example_dbg [8, 0x61, 0x62, 0, 9] DW_FORM_indirect 5 8 0 4 0 5 = DW_DLV_OK 3"
    using value_measured [of example_dbg 5 8 4 DW_FORM_string "[0x62, 0]" "[8, 0x61, 0x62, 0, 9]" 0 5 0 "[0x61]"]
    by (simp add: at_bytes_def uleb_string)
qed

subsection \<open>What a size promises\<close>

lemma skip_len_bound: "SKIP_LEB128_LEN_CK sec p e = DW_DLV_OK (n, q) \<Longrightarrow> p + n \<le> e \<and> n \<le> 24"
  using skip_bounds [of "data_between sec p e"]
  by (fastforce simp: SKIP_LEB128_LEN_CK_def data_between_def BYTESLEBMAX_def split: dlv.splits)

lemma strlen_bound:
  assumes "string_end_loop sec p e" "e \<le> length sec"
  shows "p + c_strlen_at sec p + 1 \<le> e"
proof -
  obtain q where q: "p \<le> q" "q < e" "sec ! q = 0" using assms(1) by (auto simp: string_end_iff)
  then have zero: "drop p sec ! (q - p) = 0" using assms(2) by simp
  have "\<not> q - p < c_strlen_at sec p"
  proof
    assume l: "q - p < c_strlen_at sec p"
    let ?t = "takeWhile (\<lambda>b. b \<noteq> 0) (drop p sec)"
    have l': "q - p < length ?t" using l by (simp only: c_strlen_at_def)
    have "?t ! (q - p) \<in> set ?t" by (rule nth_mem [OF l'])
    then have "?t ! (q - p) \<noteq> 0" by (blast dest: set_takeWhileD)
    then show False using zero takeWhile_nth [OF l'] by simp
  qed
  then show ?thesis using q by linarith
qed

lemma of_nat_small: "n < 2 ^ 64 \<Longrightarrow> unat (of_nat n :: u64) = n"
  by (simp add: unat_of_nat take_bit_nat_eq_self)

definition overshoot :: "u64 \<Rightarrow> nat" where
  "overshoot form = (if form = DW_FORM_block1 then 1 else if form = DW_FORM_block2 then 2
     else if form = DW_FORM_block4 then 4 else 0)"

text \<open>
  C37: What the bounds checks of the variable-size forms are worth: a size found for a string or a
  LEB128 number ends before the end of the section; for \<open>DW_FORM_block1\<close>, \<open>block2\<close> and \<open>block4\<close> the
  check forgets the length field itself, so the value may end that many bytes (1, 2 or 4), and no
  more, behind the end.
\<close>

theorem size_in_section:
  assumes ok: "dwarf_get_size_of_val dbg sec form v a p l s e = DW_DLV_OK n"
      and form: "form \<in> {DW_FORM_block1, DW_FORM_block2, DW_FORM_block4, DW_FORM_string} \<union> set leb_forms"
      and mem: "e \<le> length sec" "length sec < 2 ^ 63" and checked: "\<not> de_assume_string_in_bounds dbg"
  shows "p + unat n \<le> e + overshoot form"
proof -
  consider "form = DW_FORM_block1" | "form = DW_FORM_block2" | "form = DW_FORM_block4"
    | "form = DW_FORM_string" | "form \<in> set leb_forms" using form by blast
  then show ?thesis
  proof cases
    case 1
    have u: "unat (ucast (sec ! p) + 1 :: u64) = unat (sec ! p) + 1"
      using unsigned_less [of "sec ! p", where 'a = nat]
      by (simp add: unat_word_ariths(1) unat_ucast_byte)
    show ?thesis using ok 1 u by (auto simp: size_special overshoot_def split: if_splits)
  next
    case 2
    then obtain m where m: "READ_UNALIGNED_CK dbg sec p 2 e = DW_DLV_OK m" "\<not> e - p < unat m" "n = m + 2"
      using ok by (auto simp: size_special dlv_bind_OK_iff split: if_splits)
    then have "p + 2 \<le> e" by (auto simp: READ_UNALIGNED_CK_def split: if_splits)
    moreover have "unat n = unat m + 2" using m mem by (simp add: unat_word_ariths(1))
    ultimately show ?thesis using m 2 by (simp add: overshoot_def form_codes)
  next
    case 3
    then obtain m where m: "READ_UNALIGNED_CK dbg sec p 4 e = DW_DLV_OK m" "\<not> e - p < unat m" "n = m + 4"
      using ok by (auto simp: size_special dlv_bind_OK_iff split: if_splits)
    then have "p + 4 \<le> e" by (auto simp: READ_UNALIGNED_CK_def split: if_splits)
    moreover have "unat n = unat m + 4" using m mem by (simp add: unat_word_ariths(1))
    ultimately show ?thesis using m 3 by (simp add: overshoot_def form_codes)
  next
    case 4
    then have m: "string_end_loop sec p e" "n = of_nat (c_strlen_at sec p) + 1"
      using ok checked
      by (auto simp: size_special dlv_bind_OK_iff dwarf_check_string_valid_def split: if_splits)
    have b: "p + c_strlen_at sec p + 1 \<le> e" by (rule strlen_bound [OF m(1) mem(1)])
    then have "unat n = c_strlen_at sec p + 1"
      using mem of_nat_small [of "c_strlen_at sec p + 1"] m(2) by (simp add: add.commute)
    then show ?thesis using b by simp
  next
    case 5
    then obtain m q where "SKIP_LEB128_LEN_CK sec p e = DW_DLV_OK (m, q)" "n = of_nat m"
      using ok by (auto simp: size_leb dlv_bind_OK_iff)
    then show ?thesis using skip_len_bound of_nat_small [of m] by fastforce
  qed
qed

theorem size_in_section_witness:
  "dwarf_get_size_of_val example_dbg [0, 2, 7] DW_FORM_block2 4 8 1 4 0 3 = DW_DLV_ERROR DW_DLE_FORM_BLOCK_LENGTH_ERROR
    \<and> dwarf_get_size_of_val example_dbg [0, 2, 7] DW_FORM_block2 4 8 0 4 0 3 = DW_DLV_OK 4
    \<and> (0 :: nat) + unat (4 :: u64) \<le> 3 + overshoot DW_FORM_block2"
proof -
  have r: "READ_UNALIGNED_CK example_dbg [0, 2, 7] 1 2 3 = DW_DLV_OK 0x0207"
    "READ_UNALIGNED_CK example_dbg [0, 2, 7] 0 2 3 = DW_DLV_OK 2" by code_simp+
  have "dwarf_get_size_of_val example_dbg [0, 2, 7] DW_FORM_block2 4 8 0 4 0 3 = DW_DLV_OK 4"
    by (simp add: size_special r)
  moreover have "\<not> de_assume_string_in_bounds example_dbg" by (simp add: example_dbg_def)
  moreover have "dwarf_get_size_of_val example_dbg [0, 2, 7] DW_FORM_block2 4 8 1 4 0 3 =
      DW_DLV_ERROR DW_DLE_FORM_BLOCK_LENGTH_ERROR"
    by (simp only: size_special r) simp
  ultimately show ?thesis
    using size_in_section [of example_dbg "[0, 2, 7]" DW_FORM_block2 4 8 0 4 0 3 4] by simp
qed

text \<open>
  The sizes of \<open>DW_FORM_block\<close> and \<open>DW_FORM_exprloc\<close> are not checked at all and wrap around: a
  block whose length is \<open>2 ^ 64\<close> minus the number of bytes that encode it is found to have the size 0,
  so what walks over the entry's values stays where it is and takes the length for the next value.
\<close>

theorem block_size_wraps:
  assumes "at_bytes sec p e (uleb n)" "n + of_nat (length (uleb n)) = 0"
  shows "dwarf_get_size_of_val dbg sec DW_FORM_block v a p l s e = DW_DLV_OK 0
    \<and> dwarf_get_size_of_val dbg sec DW_FORM_exprloc v a p l s e = DW_DLV_OK 0"
  using assms by (simp add: size_special uword_len_at)

lemma uleb_huge: "uleb 0xfffffffffffffff6 = [0xf6, 0xff, 0xff, 0xff, 0xff, 0xff, 0xff, 0xff, 0xff, 1]"
  unfolding uleb_def by code_simp

theorem block_size_wraps_witness:
  "dwarf_get_size_of_val example_dbg [0xf6, 0xff, 0xff, 0xff, 0xff, 0xff, 0xff, 0xff, 0xff, 1] DW_FORM_exprloc 4 8 0 4 0 10 =
     DW_DLV_OK 0"
  using block_size_wraps [of "uleb 0xfffffffffffffff6" 0 10 "0xfffffffffffffff6"]
  by (simp add: uleb_huge at_bytes_def)

subsection \<open>The forms accepted and the forms measured\<close>

text \<open>The forms with a case of their own, in the order of their codes.\<close>

definition measured_forms :: "u64 list" where
  "measured_forms = map of_nat ([0, 1] @ [3..<0x2d] @ [0x1f01, 0x1f02, 0x1f20, 0x1f21, 0x2001])"

lemma small_word: "(w :: u64) \<le> of_nat n \<Longrightarrow> n < 2 ^ 64 \<Longrightarrow> w \<in> of_nat ` {0..n}"
proof -
  assume w: "w \<le> of_nat n" and n: "n < 2 ^ 64"
  then have "unat w \<le> n" by (simp add: word_le_nat_alt of_nat_small)
  moreover have "w = of_nat (unat w)" by simp
  ultimately show ?thesis by (intro image_eqI [of _ _ "unat w"]) auto
qed

lemma unknown_form:
  "form \<notin> set measured_forms \<Longrightarrow>
   dwarf_get_size_of_val dbg sec form v a p l s e = DW_DLV_ERROR DW_DLE_DEBUG_FORM_HANDLING_INCOMPLETE"
  by (subst dwarf_get_size_of_val.simps) (simp add: measured_forms_def form_codes upt_rec)

lemma measured_form_kinds:
  "form \<in> set measured_forms \<Longrightarrow> form = 0 \<or> fixed_size dbg v a l form \<noteq> None \<or> form \<in> set leb_forms
     \<or> form \<in> {DW_FORM_block1, DW_FORM_block2, DW_FORM_block4, DW_FORM_block, DW_FORM_exprloc, DW_FORM_string,
          DW_FORM_LLVM_addrx_offset, DW_FORM_indirect}"
  by (auto simp: measured_forms_def fixed_size_def form_codes leb_forms_def upt_rec)

lemma size_of_zero: "dwarf_get_size_of_val dbg sec 0 v a p l s e = DW_DLV_OK s"
  by (subst dwarf_get_size_of_val.simps) simp

lemma measured_form:
  assumes "form \<in> set measured_forms" "form \<noteq> DW_FORM_indirect"
  shows "dwarf_get_size_of_val dbg sec form v a p l s e \<noteq> DW_DLV_ERROR DW_DLE_DEBUG_FORM_HANDLING_INCOMPLETE"
proof -
  consider "form = 0" | n where "fixed_size dbg v a l form = Some n" | "form \<in> set leb_forms"
    | "form \<in> {DW_FORM_block1, DW_FORM_block2, DW_FORM_block4, DW_FORM_block, DW_FORM_exprloc, DW_FORM_string,
          DW_FORM_LLVM_addrx_offset}"
    using measured_form_kinds [OF assms(1), of dbg v a l] assms(2) by blast
  then show ?thesis
    by cases (auto simp: size_of_zero size_fixed size_leb size_special SKIP_LEB128_LEN_CK_def READ_UNALIGNED_CK_def
        DECODE_LEB128_UWORD_LEN_CK_def dwarf_check_string_valid_def split: dlv.splits if_splits)
qed

lemma valid_forms:
  "name \<noteq> 0 \<Longrightarrow> dwarf_valid_form_we_know form name \<longleftrightarrow>
     form \<in> insert 2 (set measured_forms - {DW_FORM_LLVM_addrx_offset})"
proof -
  assume "name \<noteq> 0"
  then have v: "dwarf_valid_form_we_know form name \<longleftrightarrow> form \<le> of_nat 44 \<or> form \<in> {0x1f01, 0x1f02, 0x1f20, 0x1f21}"
    by (auto simp: dwarf_valid_form_we_know_def form_codes)
  have range: "{0..44 :: nat} = set [0..<45]" by auto
  have low: "form \<le> of_nat 44 \<longleftrightarrow> form \<in> of_nat ` set [0..<45]"
  proof
    show "form \<in> of_nat ` set [0..<45] \<Longrightarrow> form \<le> of_nat 44"
      by (auto simp: word_le_nat_alt of_nat_small)
  next
    show "form \<le> of_nat 44 \<Longrightarrow> form \<in> of_nat ` set [0..<45]"
      unfolding range [symmetric] by (rule small_word) simp_all
  qed
  have "of_nat ` set [0..<45] \<union> {0x1f01, 0x1f02, 0x1f20, 0x1f21 :: u64} =
      insert 2 (set measured_forms - {DW_FORM_LLVM_addrx_offset})"
    by (simp add: measured_forms_def form_codes upt_rec insert_Diff_if insert_commute)
  then show ?thesis using v low by blast
qed

text \<open>
  The forms an abbreviation may name and the forms whose values can be measured are the same up to two:
  the code 2, which no DWARF version defines, is accepted but cannot be measured, and
  \<open>DW_FORM_LLVM_addrx_offset\<close> can be measured but is refused. (For \<open>DW_FORM_indirect\<close> the form is in the value.)
\<close>

theorem forms_accepted_and_measured:
  assumes "name \<noteq> 0" "form \<noteq> DW_FORM_indirect"
  shows "dwarf_get_size_of_val dbg sec form v a p l s e = DW_DLV_ERROR DW_DLE_DEBUG_FORM_HANDLING_INCOMPLETE
    \<longleftrightarrow> (if form = 2 then dwarf_valid_form_we_know form name
         else \<not> dwarf_valid_form_we_know form name \<and> form \<noteq> DW_FORM_LLVM_addrx_offset)"
proof -
  have two: "2 \<notin> set measured_forms" by (simp add: measured_forms_def upt_rec)
  have llvm: "DW_FORM_LLVM_addrx_offset \<in> set measured_forms" "DW_FORM_LLVM_addrx_offset \<noteq> 2"
    by (simp_all add: measured_forms_def form_codes)
  show ?thesis
    using unknown_form measured_form assms valid_forms [OF assms(1), of form] two llvm by (cases "form = 2") auto
qed

theorem forms_accepted_and_measured_witness:
  "dwarf_valid_form_we_know 2 0x49 \<and> dwarf_get_size_of_val example_dbg [] 2 5 8 0 4 0 0 =
     DW_DLV_ERROR DW_DLE_DEBUG_FORM_HANDLING_INCOMPLETE"
  using forms_accepted_and_measured [of "0x49" 2 example_dbg "[]" 5 8 0 4 0 0]
  by (simp add: dwarf_valid_form_we_know_def form_codes)

end
