(* ===== verification/Die_Walk.thy ===== *)
theory Die_Walk
  imports Abbrev_Table Forms
begin

text \<open>
  Walking the tree of debugging information entries: \<open>_dwarf_next_die_info_ptr\<close>,
  \<open>dwarf_siblingof_b\<close>, \<open>dwarf_child\<close> and \<open>dwarf_validate_die_sibling\<close> (\<open>dwarf_die_deliv.c\<close>) over the
  abbreviations of the unit and the sizes of its values. Pointers into \<open>.debug_info\<close> are offsets
  into its data \<open>info\<close>.
\<close>

subsection \<open>The unit\<close>

record cu_context =
  cc_abbrevs :: abbrev_context
  cc_length :: nat
  cc_length_size :: nat
  cc_extension_size :: nat
  cc_version_stamp :: "16 word"
  cc_address_size :: byte
  cc_debug_offset :: nat
  cc_cu_die_offset_present :: bool
  cc_cu_die_global_sec_offset :: nat

definition dwarf_calculate_info_section_end_ptr :: "cu_context \<Rightarrow> nat" where
  "dwarf_calculate_info_section_end_ptr cu =
     cc_debug_offset cu + cc_length cu + cc_length_size cu + cc_extension_size cu"

definition dwarf_calculate_abbrev_section_end_ptr :: "byte list \<Rightarrow> nat" where
  "dwarf_calculate_abbrev_section_end_ptr absec = length absec"

text \<open>
  The entry of a code is shared: what filling it in writes is seen by every later lookup. It is the
  first one of its code in its chain.
\<close>

fun replace_code :: "u64 \<Rightarrow> abbrev_list \<Rightarrow> abbrev_list list \<Rightarrow> abbrev_list list" where
  "replace_code code al [] = []"
| "replace_code code al (x # xs) = (if abl_code x = code then al # xs else x # replace_code code al xs)"

definition write_entry :: "u64 \<Rightarrow> abbrev_list \<Rightarrow> abbrev_context \<Rightarrow> abbrev_context" where
  "write_entry code al cc =
     (let ht = cc_abbrev_hash_table cc; h = hash_of (tb_table_entry_count ht) code
      in cc\<lparr>cc_abbrev_hash_table :=
           ht\<lparr>tb_entries := map_option (\<lambda>es. es[h := replace_code code al (es ! h)]) (tb_entries ht)\<rparr>\<rparr>)"

text \<open>
  The outcomes of the allocations of one lookup: those of the table and those of the arrays. A
  walk consumes a list of them; when it is used up they all succeed.
\<close>

type_synonym walk_allocs = "(allocs \<times> allocs) list"

fun next_allocs :: "walk_allocs \<Rightarrow> (allocs \<times> allocs) \<times> walk_allocs" where
  "next_allocs [] = (([], []), [])"
| "next_allocs (m # ms) = (m, ms)"

text \<open>
  The lookup every caller makes: the entry of a code, with its attributes filled in the first time. 
  \<open>missing\<close> is the caller's error for a code that is not declared. \<open>None\<close>: the program reads outside the
  section or through a null pointer.
\<close>

definition filled_abbrev ::
    "byte list \<Rightarrow> dw_error \<Rightarrow> abbrev_context \<Rightarrow> u64 \<Rightarrow> allocs \<times> allocs
     \<Rightarrow> ((dw_error, abbrev_list) dlv \<times> abbrev_context) option" where
  "filled_abbrev absec missing cc code mems =
     (case dwarf_get_abbrev_for_code absec cc code (fst mems) of
        None \<Rightarrow> None
      | Some (DW_DLV_ERROR err, known, cc1) \<Rightarrow> Some (DW_DLV_ERROR err, cc1)
      | Some (DW_DLV_NO_ENTRY, known, cc1) \<Rightarrow> Some (DW_DLV_ERROR missing, cc1)
      | Some (DW_DLV_OK al, known, cc1) \<Rightarrow>
          if abl_attr al = None
          then (case dwarf_fill_in_attr_form_abtable absec (abl_abbrev_ptr al)
                       (dwarf_calculate_abbrev_section_end_ptr absec) (snd mems) al of
                  None \<Rightarrow> None
                | Some (DW_DLV_OK _, al1) \<Rightarrow> Some (DW_DLV_OK al1, write_entry code al1 cc1)
                | Some (DW_DLV_NO_ENTRY, al1) \<Rightarrow> Some (DW_DLV_NO_ENTRY, write_entry code al1 cc1)
                | Some (DW_DLV_ERROR err, al1) \<Rightarrow> Some (DW_DLV_ERROR err, write_entry code al1 cc1))
          else Some (DW_DLV_OK al, cc1))"

subsection \<open>Behind an entry\<close>

definition DW_AT_sibling :: "16 word" where "DW_AT_sibling = 0x01"

text \<open>
  The offset in a \<open>DW_AT_sibling\<close>: \<open>None\<close> for \<open>DW_FORM_ref_addr\<close>, which is passed over.
\<close>

definition sibling_offset ::
    "dwarf_debug \<Rightarrow> byte list \<Rightarrow> nat \<Rightarrow> nat \<Rightarrow> u64 \<Rightarrow> (dw_error, u64 option) dlv" where
  "sibling_offset dbg info info_ptr die_info_end attr_form =
     (if attr_form = DW_FORM_ref1
      then dlv_bind (READ_UNALIGNED_CK dbg info info_ptr 1 die_info_end) (\<lambda>v. DW_DLV_OK (Some v))
      else if attr_form = DW_FORM_ref2
      then dlv_bind (READ_UNALIGNED_CK dbg info info_ptr 2 die_info_end) (\<lambda>v. DW_DLV_OK (Some v))
      else if attr_form = DW_FORM_ref4
      then dlv_bind (READ_UNALIGNED_CK dbg info info_ptr 4 die_info_end) (\<lambda>v. DW_DLV_OK (Some v))
      else if attr_form = DW_FORM_ref8
      then dlv_bind (READ_UNALIGNED_CK dbg info info_ptr 8 die_info_end) (\<lambda>v. DW_DLV_OK (Some v))
      else if attr_form = DW_FORM_ref_udata
      then dlv_bind (DECODE_LEB128_UWORD_CK info info_ptr die_info_end) (\<lambda>(v, p). DW_DLV_OK (Some v))
      else if attr_form = DW_FORM_ref_addr then DW_DLV_OK None
      else DW_DLV_ERROR DW_DLE_NEXT_DIE_WRONG_FORM)"

text \<open>The loop over the attributes with \<open>left\<close> of them to go; the result is \<open>*has_die_child\<close> and the next entry.\<close>

fun attr_loop ::
    "dwarf_debug \<Rightarrow> byte list \<Rightarrow> byte list \<Rightarrow> cu_context \<Rightarrow> nat \<Rightarrow> nat \<Rightarrow> nat \<Rightarrow> bool \<Rightarrow> abbrev_list \<Rightarrow> bool
     \<Rightarrow> nat \<Rightarrow> nat \<Rightarrow> nat \<Rightarrow> nat \<Rightarrow> (dw_error, bool \<times> nat) dlv option" where
  "attr_loop dbg info absec cu die_info_ptr die_info_end cu_info_start want_AT_sibling al has_die_child
     i 0 info_ptr abbrev_ptr = Some (DW_DLV_OK (has_die_child, info_ptr))"
| "attr_loop dbg info absec cu die_info_ptr die_info_end cu_info_start want_AT_sibling al has_die_child
     i (Suc left) info_ptr abbrev_ptr =
     (case (abl_attr al, abl_form al) of
        (Some attrs, Some forms) \<Rightarrow>
          let attr = attrs ! i;
              indirect = (if ucast (forms ! i) = DW_FORM_indirect
                then dlv_bind (DECODE_LEB128_UWORD_CK info info_ptr die_info_end) (\<lambda>(utmp6, p).
                       let form = ucast (ucast utmp6 :: 16 word) in
                       if form = DW_FORM_implicit_const \<or> form = DW_FORM_indirect
                       then DW_DLV_ERROR DW_DLE_NEXT_DIE_WRONG_FORM else DW_DLV_OK (form, p))
                else DW_DLV_OK (ucast (forms ! i), info_ptr))
          in (case indirect of
                DW_DLV_NO_ENTRY \<Rightarrow> Some DW_DLV_NO_ENTRY
              | DW_DLV_ERROR err \<Rightarrow> Some (DW_DLV_ERROR err)
              | DW_DLV_OK (attr_form, info_ptr1) \<Rightarrow>
                  (case (if attr_form = DW_FORM_implicit_const
                         then SKIP_LEB128_CK absec abbrev_ptr (dwarf_calculate_abbrev_section_end_ptr absec)
                         else DW_DLV_OK abbrev_ptr) of
                     DW_DLV_NO_ENTRY \<Rightarrow> Some DW_DLV_NO_ENTRY
                   | DW_DLV_ERROR err \<Rightarrow> Some (DW_DLV_ERROR err)
                   | DW_DLV_OK abbrev_ptr1 \<Rightarrow>
                       (case (if want_AT_sibling \<and> attr = DW_AT_sibling
                              then sibling_offset dbg info info_ptr1 die_info_end attr_form
                              else DW_DLV_OK None) of
                          DW_DLV_NO_ENTRY \<Rightarrow> Some DW_DLV_NO_ENTRY
                        | DW_DLV_ERROR err \<Rightarrow> Some (DW_DLV_ERROR err)
                        | DW_DLV_OK (Some offset) \<Rightarrow>
                            Some (if die_info_end - cu_info_start < unat offset
                                  then DW_DLV_ERROR DW_DLE_SIBLING_OFFSET_WRONG
                                  else if cu_info_start + unat offset \<le> die_info_ptr
                                  then DW_DLV_ERROR DW_DLE_SIBLING_OFFSET_WRONG
                                  else DW_DLV_OK (False, cu_info_start + unat offset))
                        | DW_DLV_OK None \<Rightarrow>
                            if attr_form \<noteq> 0 \<and> attr_form \<noteq> DW_FORM_implicit_const
                            then (case dwarf_get_size_of_val dbg info attr_form (ucast (cc_version_stamp cu))
                                         (ucast (cc_address_size cu)) info_ptr1 (of_nat (cc_length_size cu)) 0 die_info_end of
                                    DW_DLV_NO_ENTRY \<Rightarrow> Some DW_DLV_NO_ENTRY
                                  | DW_DLV_ERROR err \<Rightarrow> Some (DW_DLV_ERROR err)
                                  | DW_DLV_OK sizeofval \<Rightarrow>
                                      if die_info_end - info_ptr1 < unat sizeofval
                                      then Some (DW_DLV_ERROR DW_DLE_NEXT_DIE_PAST_END)
                                      else if die_info_end < info_ptr1 + unat sizeofval
                                      then Some (DW_DLV_ERROR DW_DLE_NEXT_DIE_PAST_END)
                                      else attr_loop dbg info absec cu die_info_ptr die_info_end cu_info_start
                                             want_AT_sibling al has_die_child (i + 1) left
                                             (info_ptr1 + unat sizeofval) abbrev_ptr1)
                            else attr_loop dbg info absec cu die_info_ptr die_info_end cu_info_start
                                   want_AT_sibling al has_die_child (i + 1) left info_ptr1 abbrev_ptr1)))
      | _ \<Rightarrow> None)"

text \<open>The result is the outcome with \<open>*has_die_child\<close> and \<open>*next_die_ptr_out\<close>, and the unit.\<close>

definition dwarf_next_die_info_ptr ::
    "dwarf_debug \<Rightarrow> byte list \<Rightarrow> byte list \<Rightarrow> nat \<Rightarrow> cu_context \<Rightarrow> nat \<Rightarrow> nat \<Rightarrow> bool \<Rightarrow> allocs \<times> allocs
     \<Rightarrow> ((dw_error, bool \<times> nat) dlv \<times> cu_context) option" where
  "dwarf_next_die_info_ptr dbg info absec die_info_ptr cu die_info_end cu_info_start want_AT_sibling mems =
     (case DECODE_LEB128_UWORD_CK info die_info_ptr die_info_end of
        DW_DLV_OK (abbrev_code, info_ptr) \<Rightarrow>
          if abbrev_code = 0 then Some (DW_DLV_ERROR DW_DLE_NEXT_DIE_PTR_NULL, cu)
          else (case filled_abbrev absec DW_DLE_NEXT_DIE_NO_ABBREV_LIST (cc_abbrevs cu) abbrev_code mems of
                  None \<Rightarrow> None
                | Some (DW_DLV_OK al, cc1) \<Rightarrow>
                    (let cu1 = cu\<lparr>cc_abbrevs := cc1\<rparr> in
                     map_option (\<lambda>r. (r, cu1))
                       (attr_loop dbg info absec cu1 die_info_ptr die_info_end cu_info_start want_AT_sibling al
                          (abl_has_child al \<noteq> 0) 0 (abl_abbrev_count al) info_ptr (abl_abbrev_ptr al)))
                | Some (DW_DLV_NO_ENTRY, cc1) \<Rightarrow> Some (DW_DLV_NO_ENTRY, cu\<lparr>cc_abbrevs := cc1\<rparr>)
                | Some (DW_DLV_ERROR err, cc1) \<Rightarrow> Some (DW_DLV_ERROR err, cu\<lparr>cc_abbrevs := cc1\<rparr>))
      | _ \<Rightarrow> Some (DW_DLV_ERROR DW_DLE_LEB_IMPROPER, cu))"

subsection \<open>The next sibling\<close>

text \<open>
  Out of the lists that end at \<open>p\<close>: the inner loop. \<open>None\<close>: the end of the unit comes first.
\<close>

fun out_loop :: "byte list \<Rightarrow> nat \<Rightarrow> nat \<Rightarrow> nat \<Rightarrow> (nat \<times> nat) option" where
  "out_loop info die_info_end p 0 = Some (p, 0)"
| "out_loop info die_info_end p (Suc child_depth) =
     (if p = die_info_end then None
      else if info ! p \<noteq> 0 then Some (p, Suc child_depth)
      else out_loop info die_info_end (p + 1) child_depth)"

lemma out_loop_forward: "out_loop info e p d = Some (q, d') \<Longrightarrow> p \<le> q"
  by (induction d arbitrary: p) (auto split: if_splits dest: Suc_leD)

text \<open>The loop of \<open>_dwarf_siblingof_internal\<close>; the result is the entry it ends at.\<close>

function sibling_loop ::
    "dwarf_debug \<Rightarrow> byte list \<Rightarrow> byte list \<Rightarrow> nat \<Rightarrow> nat \<Rightarrow> nat \<Rightarrow> nat \<Rightarrow> cu_context \<Rightarrow> walk_allocs
     \<Rightarrow> ((dw_error, nat) dlv \<times> cu_context \<times> walk_allocs) option" where
  "sibling_loop dbg info absec die_info_end cu_info_start die_info_ptr child_depth cu ms =
     (let (m, ms1) = next_allocs ms in
      case dwarf_next_die_info_ptr dbg info absec die_info_ptr cu die_info_end cu_info_start True m of
        None \<Rightarrow> None
      | Some (DW_DLV_NO_ENTRY, cu1) \<Rightarrow> Some (DW_DLV_NO_ENTRY, cu1, ms1)
      | Some (DW_DLV_ERROR err, cu1) \<Rightarrow> Some (DW_DLV_ERROR err, cu1, ms1)
      | Some (DW_DLV_OK (has_child, ptr2), cu1) \<Rightarrow>
          if ptr2 \<le> die_info_ptr then Some (DW_DLV_ERROR DW_DLE_NEXT_DIE_LOW_ERROR, cu1, ms1)
          else if die_info_end < ptr2 then Some (DW_DLV_ERROR DW_DLE_NEXT_DIE_PAST_END, cu1, ms1)
          else let (ptr3, has_child1) = (if ptr2 < die_info_end \<and> info ! ptr2 = 0 \<and> has_child
                                         then (ptr2 + 1, False) else (ptr2, has_child))
          in if ptr3 = die_info_end \<or> info ! ptr3 = 0
             then (case out_loop info die_info_end ptr3 child_depth of
                     None \<Rightarrow> Some (DW_DLV_NO_ENTRY, cu1, ms1)
                   | Some (ptr4, depth) \<Rightarrow>
                       if depth \<noteq> 0
                       then sibling_loop dbg info absec die_info_end cu_info_start ptr4 depth cu1 ms1
                       else Some (DW_DLV_OK ptr4, cu1, ms1))
             else let depth = (if has_child1 then child_depth + 1 else child_depth) in
                  if depth \<noteq> 0
                  then sibling_loop dbg info absec die_info_end cu_info_start ptr3 depth cu1 ms1
                  else Some (DW_DLV_OK ptr3, cu1, ms1))"
  by pat_completeness auto
termination
  by (relation "measure (\<lambda>(dbg, info, absec, e, c, p, d, cu, ms). e - p)")
    (auto split: if_splits dest!: out_loop_forward)

declare sibling_loop.simps [simp del]

text \<open>An entry, and the state of the reading: its unit, and where \<open>dwarf_child\<close> was last.\<close>

record die =
  di_debug_ptr :: nat
  di_abbrev_code :: u64
  di_abbrev_list :: abbrev_list

record reading =
  de_cu_context :: cu_context
  de_last_die :: "die option"
  de_last_di_ptr :: "nat option"

definition is_cu_tag :: "16 word \<Rightarrow> bool" where
  "is_cu_tag t \<longleftrightarrow> t = 0x11 \<or> t = 0x3c \<or> t = 0x4a \<or> t = 0x41"

text \<open>
  The end of \<open>_dwarf_siblingof_internal\<close> and of \<open>dwarf_child\<close>: the entry at \<open>p\<close>. \<open>first\<close> is that a unit's first
  entry is asked for; \<open>ok\<close> is the outcome of the allocation of the entry.
\<close>

definition die_at_ptr ::
    "dwarf_debug \<Rightarrow> byte list \<Rightarrow> byte list \<Rightarrow> cu_context \<Rightarrow> nat \<Rightarrow> nat \<Rightarrow> dw_error \<Rightarrow> bool \<Rightarrow> bool \<Rightarrow> allocs \<times> allocs
     \<Rightarrow> ((dw_error, die) dlv \<times> cu_context) option" where
  "die_at_ptr dbg info absec cu p die_info_end missing first ok mems =
     (if \<not> ok then Some (DW_DLV_ERROR DW_DLE_ALLOC_FAIL, cu)
      else (case DECODE_LEB128_UWORD_CK info p die_info_end of
        DW_DLV_OK (abbrev_code, p1) \<Rightarrow>
          if die_info_end < p1 then Some (DW_DLV_ERROR DW_DLE_ABBREV_DECODE_ERROR, cu)
          else if abbrev_code = 0 then Some (DW_DLV_NO_ENTRY, cu)
          else (case filled_abbrev absec missing (cc_abbrevs cu) abbrev_code mems of
                  None \<Rightarrow> None
                | Some (DW_DLV_NO_ENTRY, cc1) \<Rightarrow> Some (DW_DLV_NO_ENTRY, cu\<lparr>cc_abbrevs := cc1\<rparr>)
                | Some (DW_DLV_ERROR err, cc1) \<Rightarrow> Some (DW_DLV_ERROR err, cu\<lparr>cc_abbrevs := cc1\<rparr>)
                | Some (DW_DLV_OK al, cc1) \<Rightarrow>
                    Some (if first \<and> \<not> is_cu_tag (abl_tag al) then DW_DLV_ERROR DW_DLE_FIRST_DIE_NOT_CU
                          else DW_DLV_OK \<lparr>di_debug_ptr = p, di_abbrev_code = abbrev_code, di_abbrev_list = al\<rparr>,
                          cu\<lparr>cc_abbrevs := cc1\<rparr>))
      | _ \<Rightarrow> Some (DW_DLV_ERROR DW_DLE_LEB_IMPROPER, cu)))"

text \<open>The length of a unit's header; the type units of DWARF 4 stand in \<open>.debug_types\<close>, not \<open>is_info\<close>.\<close>

definition dwarf_length_of_cu_header ::
    "dwarf_debug \<Rightarrow> byte list \<Rightarrow> nat \<Rightarrow> bool \<Rightarrow> (dw_error, nat) dlv" where
  "dwarf_length_of_cu_header dbg info offset is_info =
     (let e = length info in
      dlv_bind (READ_AREA_LENGTH_CK dbg info offset (of_nat e) e) (\<lambda>(len, local_length_size, local_extension_size, p).
        if of_nat e < len \<or> of_nat e < len + of_nat local_length_size + of_nat local_extension_size
        then DW_DLV_ERROR DW_DLE_HEADER_LEN_BIGGER_THAN_SECSIZE
        else dlv_bind (READ_UNALIGNED_CK dbg info p 2 e) (\<lambda>version.
          if version = 5
          then dlv_bind (READ_UNALIGNED_CK dbg info (p + 2) 1 e) (\<lambda>unit_type.
            if unit_type = 1 \<or> unit_type = 3
            then DW_DLV_OK (local_extension_size + local_length_size + 2 + 1 + 1 + local_length_size)
            else if unit_type = 2 \<or> unit_type = 6
            then DW_DLV_OK (local_extension_size + local_length_size + 2 + 1 + 1 + local_length_size + 8 + local_length_size)
            else if unit_type = 4 \<or> unit_type = 5
            then DW_DLV_OK (local_extension_size + local_length_size + 2 + 1 + 1 + local_length_size + 8)
            else DW_DLV_ERROR DW_DLE_UNIT_TYPE_NOT_HANDLED)
          else if version = 4
          then DW_DLV_OK (local_extension_size + local_length_size + 2 + local_length_size + 1
                 + (if is_info then 0 else 8 + local_length_size))
          else if version < 4
          then DW_DLV_OK (local_extension_size + local_length_size + 2 + local_length_size + 1)
          else DW_DLV_OK 0)))"

text \<open>
  The sections and a unit have been loaded, and the entry belongs to this unit. \<open>die\<close> is \<open>None\<close> for the unit's first
  entry; \<open>mems\<close> are the allocations of the lookup at the end, \<open>ms\<close> those of the walk.
\<close>

definition dwarf_siblingof_b ::
    "dwarf_debug \<Rightarrow> byte list \<Rightarrow> byte list \<Rightarrow> bool \<Rightarrow> reading \<Rightarrow> die option \<Rightarrow> bool \<Rightarrow> allocs \<times> allocs \<Rightarrow> walk_allocs
     \<Rightarrow> ((dw_error, die) dlv \<times> reading) option" where
  "dwarf_siblingof_b dbg info absec is_info rd die ok mems ms =
     (let cu = de_cu_context rd;
          die_info_end = dwarf_calculate_info_section_end_ptr cu;
          finish = (\<lambda>p cu1.
            if die_info_end \<le> p then Some (DW_DLV_NO_ENTRY, rd\<lparr>de_cu_context := cu1\<rparr>)
            else if info ! p = 0 then Some (DW_DLV_NO_ENTRY, rd\<lparr>de_cu_context := cu1\<rparr>)
            else map_option (\<lambda>(r, cu2). (r, rd\<lparr>de_cu_context := cu2\<rparr>))
                   (die_at_ptr dbg info absec cu1 p die_info_end DW_DLE_DIE_ABBREV_LIST_NULL (die = None) ok mems))
      in case die of
           None \<Rightarrow>
             (case dwarf_length_of_cu_header dbg info (cc_debug_offset cu) is_info of
                DW_DLV_OK headerlen \<Rightarrow>
                  let off2 = cc_debug_offset cu in
                  finish (off2 + headerlen)
                    (cu\<lparr>cc_cu_die_offset_present := True, cc_cu_die_global_sec_offset := off2 + headerlen\<rparr>)
              | DW_DLV_NO_ENTRY \<Rightarrow> Some (DW_DLV_NO_ENTRY, rd)
              | DW_DLV_ERROR err \<Rightarrow> Some (DW_DLV_ERROR err, rd))
         | Some d \<Rightarrow>
             if info ! di_debug_ptr d = 0 then Some (DW_DLV_NO_ENTRY, rd)
             else (case sibling_loop dbg info absec die_info_end (cc_debug_offset cu) (di_debug_ptr d) 0 cu ms of
                     None \<Rightarrow> None
                   | Some (DW_DLV_OK p, cu1, ms1) \<Rightarrow> finish p cu1
                   | Some (DW_DLV_NO_ENTRY, cu1, ms1) \<Rightarrow> Some (DW_DLV_NO_ENTRY, rd\<lparr>de_cu_context := cu1\<rparr>)
                   | Some (DW_DLV_ERROR err, cu1, ms1) \<Rightarrow> Some (DW_DLV_ERROR err, rd\<lparr>de_cu_context := cu1\<rparr>)))"

subsection \<open>The first child\<close>

text \<open>The loop that looks for the end of a sibling chain.\<close>

function skip_zeros :: "byte list \<Rightarrow> nat \<Rightarrow> nat \<Rightarrow> nat" where
  "skip_zeros info p die_info_end =
     (if p < die_info_end then if info ! p \<noteq> 0 then p else skip_zeros info (p + 1) die_info_end else p)"
  by pat_completeness auto
termination by (relation "measure (\<lambda>(info, p, e). e - p)") auto

declare skip_zeros.simps [simp del]

definition dwarf_child ::
    "dwarf_debug \<Rightarrow> byte list \<Rightarrow> byte list \<Rightarrow> reading \<Rightarrow> die \<Rightarrow> bool \<Rightarrow> allocs \<times> allocs \<Rightarrow> allocs \<times> allocs
     \<Rightarrow> ((dw_error, die) dlv \<times> reading) option" where
  "dwarf_child dbg info absec rd die ok mems1 mems2 =
     (let p = di_debug_ptr die;
          rd1 = rd\<lparr>de_last_die := Some die, de_last_di_ptr := Some p\<rparr>;
          cu = de_cu_context rd;
          die_info_end = dwarf_calculate_info_section_end_ptr cu
      in if info ! p = 0 then Some (DW_DLV_NO_ENTRY, rd1)
         else (case dwarf_next_die_info_ptr dbg info absec p cu die_info_end 0 False mems1 of
           None \<Rightarrow> None
         | Some (DW_DLV_NO_ENTRY, cu1) \<Rightarrow> Some (DW_DLV_NO_ENTRY, rd1\<lparr>de_cu_context := cu1\<rparr>)
         | Some (DW_DLV_ERROR err, cu1) \<Rightarrow> Some (DW_DLV_ERROR err, rd1\<lparr>de_cu_context := cu1\<rparr>)
         | Some (DW_DLV_OK (has_die_child, p2), cu1) \<Rightarrow>
             if p = die_info_end then Some (DW_DLV_NO_ENTRY, rd1\<lparr>de_cu_context := cu1\<rparr>)
             else if \<not> has_die_child
             then Some (DW_DLV_NO_ENTRY,
                    rd1\<lparr>de_cu_context := cu1, de_last_di_ptr := Some (skip_zeros info p2 die_info_end)\<rparr>)
             else if \<not> ok
             then Some (DW_DLV_ERROR DW_DLE_ALLOC_FAIL, rd1\<lparr>de_cu_context := cu1, de_last_di_ptr := Some p2\<rparr>)
             else (case DECODE_LEB128_UWORD_CK info p2 die_info_end of
                     DW_DLV_OK (abbrev_code, p3) \<Rightarrow>
                       if abbrev_code = 0
                       then Some (DW_DLV_NO_ENTRY,
                              rd1\<lparr>de_cu_context := cu1, de_last_di_ptr := Some (skip_zeros info p3 die_info_end)\<rparr>)
                       else map_option (\<lambda>(r, cu2). (r, rd1\<lparr>de_cu_context := cu2, de_last_di_ptr := Some p3\<rparr>))
                              (die_at_ptr dbg info absec cu1 p2 die_info_end DW_DLE_ABBREV_MISSING False True mems2)
                   | _ \<Rightarrow> Some (DW_DLV_ERROR DW_DLE_LEB_IMPROPER,
                            rd1\<lparr>de_cu_context := cu1, de_last_di_ptr := Some p2\<rparr>))))"

text \<open>
  The result is whether the sibling is where \<open>dwarf_child\<close> left off, and \<open>*offset\<close> (\<open>None\<close>: computed from a null
  pointer).
\<close>

definition dwarf_validate_die_sibling :: "reading \<Rightarrow> die \<Rightarrow> bool \<times> nat option" where
  "dwarf_validate_die_sibling rd sibling =
     (if de_last_die rd \<noteq> None \<and> de_last_di_ptr rd = Some (di_debug_ptr sibling) then (True, Some 0)
      else (False, de_last_di_ptr rd))"

subsection \<open>Filled entries stay right\<close>

text \<open>
  A property of the entries that does not look at the count of references holds of every entry in the table, if it
  holds of entries not yet filled in.
\<close>

definition entries_all :: "(abbrev_list \<Rightarrow> bool) \<Rightarrow> hash_table \<Rightarrow> bool" where
  "entries_all P ht \<longleftrightarrow> (case tb_entries ht of None \<Rightarrow> True | Some es \<Rightarrow> \<forall>xs \<in> set es. \<forall>x \<in> set xs. P x)"

definition entry_property :: "(abbrev_list \<Rightarrow> bool) \<Rightarrow> bool" where
  "entry_property P \<longleftrightarrow> (\<forall>x n. P (x\<lparr>abl_reference_count := n\<rparr>) = P x)
     \<and> (\<forall>x. abl_attr x = None \<and> abl_form x = None \<and> abl_implicit_const x = None \<longrightarrow> P x)"

lemma update_all:
  assumes all: "\<forall>xs \<in> set es. \<forall>x \<in> set xs. P x"
      and new: "h < length es \<Longrightarrow> \<forall>x \<in> set (es ! h). P x \<Longrightarrow> \<forall>x \<in> set ys. P x"
  shows "\<forall>xs \<in> set (es[h := ys]). \<forall>x \<in> set xs. P x"
proof (cases "h < length es")
  case True
  then have "\<forall>x \<in> set ys. P x" using new all nth_mem [OF True] by blast
  then show ?thesis using all set_update_subset_insert [of es h ys] by blast
qed (use all in \<open>simp add: list_update_beyond\<close>)

lemma entries_all_update:
  assumes all: "entries_all P ht" and ht1: "tb_entries ht1 = map_option (\<lambda>es. es[h := f (es ! h)]) (tb_entries ht)"
      and new: "\<And>xs. \<forall>x \<in> set xs. P x \<Longrightarrow> \<forall>x \<in> set (f xs). P x"
  shows "entries_all P ht1"
proof (cases "tb_entries ht")
  case (Some es)
  have "\<forall>xs \<in> set (es[h := f (es ! h)]). \<forall>x \<in> set xs. P x"
    by (rule update_all) (use all Some new in \<open>simp_all add: entries_all_def\<close>)
  then show ?thesis using ht1 Some by (simp add: entries_all_def)
qed (use ht1 in \<open>simp add: entries_all_def\<close>)

lemma entries_all_push: "entries_all P ht \<Longrightarrow> P x \<Longrightarrow> entries_all P (push_entry x ht)"
  by (rule entries_all_update [where f = "\<lambda>xs. x # xs" and h = "hash_of (tb_table_entry_count ht) (abl_code x)"])
    (simp_all add: push_entry_def Let_def)

lemma entries_all_push_all: "entries_all P ht \<Longrightarrow> \<forall>x \<in> set xs. P x \<Longrightarrow> entries_all P (fold push_entry xs ht)"
  by (induction xs arbitrary: ht) (simp_all add: entries_all_push)

lemma entries_all_note [simp]: "entries_all P (note_hash h ht) = entries_all P ht"
  by (simp add: entries_all_def)

lemma entries_all_ready:
  assumes "entries_all P ht" "ready_table ht mem = (r, ht1, mem1)"
  shows "entries_all P ht1"
proof (cases "tb_entries ht")
  case None
  then show ?thesis using assms
    by (cases mem) (auto simp: ready_table_def entries_all_def Let_def split: if_splits)
next
  case (Some es)
  have "entries_all P (fold push_entry (concat es)
      \<lparr>tb_table_entry_count = n, tb_total_abbrev_count = 0, tb_highest_used_entry = 0, tb_entries = Some (replicate n [])\<rparr>)" for n
    by (rule entries_all_push_all) (use assms(1) Some in \<open>auto simp: entries_all_def\<close>)
  then show ?thesis using assms Some
    by (auto simp: ready_table_def Let_def case_prod_unfold copy_is_push_all split: if_splits)
qed

lemma count_reference_all:
  assumes P: "entry_property P" and xs: "\<forall>x \<in> set xs. P x"
  shows "\<forall>x \<in> set (count_reference c xs). P x"
  using xs
proof (induction xs)
  case (Cons x xs)
  have "P (x\<lparr>abl_reference_count := abl_reference_count x + 1\<rparr>)"
    using P Cons.prems unfolding entry_property_def by (metis list.set_intros(1))
  then show ?case using Cons by simp
qed simp

lemma entries_all_referenced: "entry_property P \<Longrightarrow> entries_all P ht \<Longrightarrow> entries_all P (referenced c h ht)"
  by (rule entries_all_update [where f = "count_reference c" and h = h])
    (simp_all add: referenced_def count_reference_all)

lemma raise_known_table [simp]: "cc_abbrev_hash_table (raise_known c cc) = cc_abbrev_hash_table cc"
  by (simp add: raise_known_def)

lemma entries_all_scan:
  assumes P: "entry_property P"
  shows "entries_all P (cc_abbrev_hash_table cc) \<Longrightarrow> scan_loop sec e code p cc mem = (r, w, cc1) \<Longrightarrow>
    entries_all P (cc_abbrev_hash_table cc1)
    \<and> (case r of DW_DLV_OK (c, x, q) \<Rightarrow> P x \<and> abl_code x = c | _ \<Rightarrow> True)"
proof (induction "e - p" arbitrary: p cc mem rule: less_induct)
  case less
  have fresh: "P x" if "abl_attr x = None" "abl_form x = None" "abl_implicit_const x = None" for x
    using P that unfolding entry_property_def by blast
  note pushed = entries_all_push [OF less.prems(1)]
  show ?case
  proof (cases "DECODE_LEB128_UWORD_CK sec p e")
    case (DW_DLV_OK r1)
    obtain c p1 where d1: "DECODE_LEB128_UWORD_CK sec p e = DW_DLV_OK (c, p1)" using DW_DLV_OK by (cases r1) simp
    show ?thesis
    proof (cases "DECODE_LEB128_UWORD_CK sec p1 e")
      case (DW_DLV_OK r2)
      obtain t p2 where d2: "DECODE_LEB128_UWORD_CK sec p1 e = DW_DLV_OK (t, p2)" using DW_DLV_OK by (cases r2) simp
      show ?thesis
      proof (cases "DW_TAG_hi_user < t \<or> e \<le> p2 \<or> \<not> fst (alloc mem)")
        case True
        then show ?thesis
          using less.prems unfolding scan_loop.simps [of sec e code p]
          by (auto simp: d1 d2 case_prod_unfold split: if_splits)
      next
        case False
        define inner where "inner = \<lparr>abl_code = c, abl_tag = ucast t,
                       abl_has_child = ucast (sec ! p2), abl_reference_count = 0, abl_goffset = p,
                       abl_abbrev_ptr = p2 + 1, abl_abbrev_count = 0, abl_implicit_const_count = 0,
                       abl_attr = None, abl_form = None, abl_implicit_const = None\<rparr>"
        have in1: "P (inner\<lparr>abl_implicit_const_count := m, abl_abbrev_count := n\<rparr>)" "P inner" for m n
          by (rule fresh; simp add: inner_def)+
        show ?thesis
        proof (cases "dwarf_count_abbrev_entries sec (p2 + 1) e")
          case (DW_DLV_OK r3)
          obtain n m p3 where d3: "dwarf_count_abbrev_entries sec (p2 + 1) e = DW_DLV_OK (n, m, p3)"
            using DW_DLV_OK by (cases r3) simp
          define x where "x = inner\<lparr>abl_implicit_const_count := m, abl_abbrev_count := n\<rparr>"
          have x: "P x" "abl_code x = c" unfolding x_def by (rule in1(1)) (simp add: inner_def)
          define cc2 where "cc2 = (raise_known c cc)\<lparr>cc_abbrev_hash_table := push_entry x (cc_abbrev_hash_table cc)\<rparr>"
          have eq: "scan_loop sec e code p cc mem = (if p3 < e \<and> sec ! p3 \<noteq> 0 \<and> c \<noteq> code
              then scan_loop sec e code p3 cc2 (snd (alloc mem)) else (DW_DLV_OK (c, x, p3), True, cc2))"
            using False d1 d2 d3 by (subst scan_loop.simps) (simp add: Let_def case_prod_unfold inner_def cc2_def x_def)
          have p: "e - p3 < e - p"
            by (rule diff_less_mono2)
              (use uword_advances [OF d1] uword_advances [OF d2] count_entries_advances [OF d3] in simp_all)
          have all2: "entries_all P (cc_abbrev_hash_table cc2)" using pushed [OF x(1)] by (simp add: cc2_def)
          show ?thesis
            using less.hyps [OF p all2, of "snd (alloc mem)"] less.prems(2) all2 x unfolding eq
            by (cases "p3 < e \<and> sec ! p3 \<noteq> 0 \<and> c \<noteq> code") auto
        next
          case DW_DLV_NO_ENTRY
          then show ?thesis
            using less.prems False d1 d2 pushed [OF in1(2)] unfolding scan_loop.simps [of sec e code p] inner_def
            by (auto simp: Let_def case_prod_unfold)
        next
          case (DW_DLV_ERROR err)
          then show ?thesis
            using less.prems False d1 d2 pushed [OF in1(2)] unfolding scan_loop.simps [of sec e code p] inner_def
            by (auto simp: Let_def case_prod_unfold)
        qed
      qed
    qed (use less.prems d1 in \<open>auto simp: scan_loop.simps [of sec e code p]\<close>)
  qed (use less.prems in \<open>auto simp: scan_loop.simps [of sec e code p]\<close>)
qed

lemma entries_all_get:
  assumes P: "entry_property P" and start: "entries_all P (cc_abbrev_hash_table cc)"
      and ok: "table_ok (cc_abbrev_hash_table cc)" and small: "tb_total_abbrev_count (cc_abbrev_hash_table cc) < 2 ^ 63"
      and get: "dwarf_get_abbrev_for_code sec cc code mem = Some (r, known, cc1)"
  shows "entries_all P (cc_abbrev_hash_table cc1) \<and> (\<forall>x. r = DW_DLV_OK x \<longrightarrow> P x \<and> abl_code x = code)"
proof -
  obtain r0 ht1 mem1 where ready: "ready_table (cc_abbrev_hash_table cc) mem = (r0, ht1, mem1)" by (metis prod_cases3)
  have all1: "entries_all P ht1" by (rule entries_all_ready [OF start ready])
  note kept = ready_table_keeps [OF ok small ready]
  have bump: "P (x\<lparr>abl_reference_count := n\<rparr>)" if "P x" for x n
    using P that unfolding entry_property_def by blast
  show ?thesis
  proof (cases r0)
    case (Inl f)
    then have "r = f" "cc_abbrev_hash_table cc1 = ht1" using get ready by (auto simp: dwarf_get_abbrev_for_code_def)
    then show ?thesis using all1 kept Inl by auto
  next
    case (Inr u)
    have ht1: "buckets_ok ht1" "tb_table_entry_count ht1 < 2 ^ 64" using kept Inr by simp_all
    obtain es where es: "tb_entries ht1 = Some es" using ht1(1) by (auto simp: buckets_ok_def split: option.splits)
    define h where "h = hash_of (tb_table_entry_count ht1) code"
    have count: "length es = tb_table_entry_count ht1" "es \<noteq> []" using ht1(1) es by (simp_all add: buckets_ok_def)
    have "h < tb_table_entry_count ht1" unfolding h_def by (rule hash_less [OF _ ht1(2)]) (use count in \<open>simp flip: count(1)\<close>)
    then have h: "h < length es" using count(1) by simp
    define cc2 where "cc2 = (raise_known code cc)\<lparr>cc_abbrev_hash_table := note_hash h ht1\<rparr>"
    have tab: "cc_abbrev_hash_table cc2 = note_hash h ht1" by (simp add: cc2_def)
    have all2: "entries_all P (cc_abbrev_hash_table cc2)" using all1 by (simp add: tab)
    note unfold1 = dwarf_get_abbrev_for_code_def ready Inr prod.case sum.case Let_def es option.case
          h_def [symmetric] cc2_def [symmetric]
    show ?thesis
    proof (cases "find_code code (es ! h)")
      case (Some x)
      have x: "abl_code x = code" "x \<in> set (es ! h)" using find_code_Some [OF Some] by simp_all
      then have "P x" using all1 es nth_mem [OF h] by (auto simp: entries_all_def)
      moreover have "r = DW_DLV_OK (x\<lparr>abl_reference_count := abl_reference_count x + 1\<rparr>)"
          "cc_abbrev_hash_table cc1 = referenced code h (cc_abbrev_hash_table cc2)"
        using get unfolding unfold1 Some by auto
      ultimately show ?thesis using bump x entries_all_referenced [OF P all2] by auto
    next
      case None
      obtain p e where pe: "(case cc_last_abbrev_ptr cc2 of Some q \<Rightarrow> (q, cc_last_abbrev_endptr cc2)
          | None \<Rightarrow> (cc_abbrev_offset cc2, case cc_dwp_size cc2 of None \<Rightarrow> length sec
               | Some n \<Rightarrow> cc_abbrev_offset cc2 + n)) = (p, e)" by (metis surj_pair)
      obtain r1 w cc3 where scan: "scan_loop sec e code p cc2 mem1 = (r1, w, cc3)" by (metis prod_cases3)
      note all3 = entries_all_scan [OF P all2 scan]
      from get show ?thesis
        unfolding unfold1 None pe scan
        using all2 all3 bump entries_all_referenced [OF P, of "cc_abbrev_hash_table cc3" code h]
        by (cases r1) (auto split: if_splits)
    qed
  qed
qed

subsection \<open>Lookups during a walk\<close>

text \<open>An entry that is not filled in, or that holds the attributes and forms of its declaration.\<close>

definition fill_ok :: "abbrev_decl list \<Rightarrow> abbrev_list \<Rightarrow> bool" where
  "fill_ok ds x \<longleftrightarrow> abl_attr x = None \<and> abl_form x = None \<and> abl_implicit_const x = None
     \<or> (\<exists>k < length ds. abl_code x = dc_code (ds ! k)
          \<and> abl_attr x = Some (map (\<lambda>a. ucast (at_name a)) (dc_attrs (ds ! k)))
          \<and> abl_form x = Some (map (\<lambda>a. ucast (at_form a)) (dc_attrs (ds ! k))))"

lemma fill_ok_property: "entry_property (fill_ok ds)"
  by (simp add: entry_property_def fill_ok_def)

text \<open>The state of a unit's abbreviations during a walk in which memory does not run out.\<close>

definition unit_ok :: "byte list \<Rightarrow> nat \<Rightarrow> nat \<Rightarrow> abbrev_decl list \<Rightarrow> abbrev_context \<Rightarrow> bool" where
  "unit_ok absec off e ds cc \<longleftrightarrow> unit_state True absec off e ds 1 cc
     \<and> entries_all (fill_ok ds) (cc_abbrev_hash_table cc)"

definition unit_declares :: "byte list \<Rightarrow> nat \<Rightarrow> nat \<Rightarrow> abbrev_decl list \<Rightarrow> bool" where
  "unit_declares absec off e ds \<longleftrightarrow> unit_at absec off e ds \<and> 2 * length ds < 2 ^ 63"

lemma unit_state_exact: "unit_state True absec off e ds n cc \<Longrightarrow> unit_state True absec off e ds 1 cc"
  by (auto simp: unit_state_def)

lemma at_bytes_mono: "at_bytes sec p e bs \<Longrightarrow> e \<le> e1 \<Longrightarrow> e1 \<le> length sec \<Longrightarrow> at_bytes sec p e1 bs"
  by (auto simp: at_bytes_def)

lemma replace_code_plain:
  "\<forall>x \<in> set xs. abl_code x = code \<longrightarrow> plain x = plain al \<Longrightarrow> map plain (replace_code code al xs) = map plain xs"
  by (induction xs) auto

lemma replace_code_all: "\<forall>x \<in> set xs. P x \<Longrightarrow> P al \<Longrightarrow> \<forall>x \<in> set (replace_code code al xs). P x"
  by (induction xs) auto

lemma unit_state_table:
  "unit_state b absec off e ds n cc \<Longrightarrow> table_ok ht1 \<Longrightarrow> contents ht1 = contents (cc_abbrev_hash_table cc) \<Longrightarrow>
   tb_total_abbrev_count ht1 = tb_total_abbrev_count (cc_abbrev_hash_table cc) \<Longrightarrow>
   unit_state b absec off e ds n (cc\<lparr>cc_abbrev_hash_table := ht1\<rparr>)"
  by (simp add: unit_state_def)

lemma unit_code_unique:
  "unit_at absec off e ds \<Longrightarrow> j < length ds \<Longrightarrow> k < length ds \<Longrightarrow> dc_code (ds ! j) = dc_code (ds ! k) \<Longrightarrow> j = k"
  unfolding unit_at_def using nth_eq_iff_index_eq [of "map dc_code ds" j k] by simp

lemma unit_contents:
  "unit_state b absec off e ds n cc \<Longrightarrow> contents (cc_abbrev_hash_table cc) \<subseteq> entry_of off ds ` {..<length ds}"
  unfolding unit_state_def by blast

lemma in_contents: "tb_entries ht = Some es \<Longrightarrow> h < length es \<Longrightarrow> x \<in> set (es ! h) \<Longrightarrow> plain x \<in> contents ht"
proof -
  assume es: "tb_entries ht = Some es" and h: "h < length es" and x: "x \<in> set (es ! h)"
  then have "x \<in> set (concat es)" using nth_mem [OF h] by auto
  then show ?thesis using es by (simp add: contents_def del: set_concat)
qed

lemma same_code_same_plain:
  assumes u: "unit_at absec off e ds" and sub: "contents ht \<subseteq> entry_of off ds ` {..<length ds}"
      and x: "plain x \<in> contents ht" "abl_code x = dc_code (ds ! k)" and k: "k < length ds"
  shows "plain x = entry_of off ds k"
proof -
  obtain j where j: "j < length ds" "plain x = entry_of off ds j" using sub x(1) by auto
  then have "dc_code (ds ! j) = dc_code (ds ! k)" using x(2) by (metis entry_of_simps(1) plain_simps(1))
  then show ?thesis using unit_code_unique [OF u j(1) k] j(2) by simp
qed

lemma write_entry_Some:
  "tb_entries (cc_abbrev_hash_table cc) = Some es \<Longrightarrow> h = hash_of (tb_table_entry_count (cc_abbrev_hash_table cc)) c \<Longrightarrow>
   write_entry c al cc = cc\<lparr>cc_abbrev_hash_table :=
     (cc_abbrev_hash_table cc)\<lparr>tb_entries := Some (es[h := replace_code c al (es ! h)])\<rparr>\<rparr>"
  by (simp add: write_entry_def Let_def)

lemma write_entry_None: "tb_entries (cc_abbrev_hash_table cc) = None \<Longrightarrow> write_entry c al cc = cc"
  by (simp add: write_entry_def Let_def)

lemma replaced_same_plain:
  assumes u: "unit_at absec off e ds" and st: "unit_state b absec off e ds n cc"
      and al: "plain al = entry_of off ds k" "k < length ds"
      and es: "tb_entries (cc_abbrev_hash_table cc) = Some es"
  shows "map (map plain) (es[h := replace_code (dc_code (ds ! k)) al (es ! h)]) = map (map plain) es"
proof (cases "h < length es")
  case True
  have "\<forall>x \<in> set (es ! h). abl_code x = dc_code (ds ! k) \<longrightarrow> plain x = plain al"
    using same_code_same_plain [OF u unit_contents [OF st] in_contents [OF es True] _ al(2)] al(1) by simp
  then show ?thesis by (rule update_same_plain [where f = "replace_code (dc_code (ds ! k)) al", OF replace_code_plain])
qed (simp add: list_update_beyond)

lemma write_entry_keeps:
  assumes u: "unit_at absec off e ds" and st: "unit_state b absec off e ds n cc"
      and all: "entries_all (fill_ok ds) (cc_abbrev_hash_table cc)"
      and al: "plain al = entry_of off ds k" "k < length ds" "fill_ok ds al"
  shows "unit_state b absec off e ds n (write_entry (dc_code (ds ! k)) al cc)
    \<and> entries_all (fill_ok ds) (cc_abbrev_hash_table (write_entry (dc_code (ds ! k)) al cc))"
proof (cases "tb_entries (cc_abbrev_hash_table cc)")
  case None
  show ?thesis unfolding write_entry_None [OF None] using st all by (rule conjI)
next
  case (Some es)
  let ?ht = "cc_abbrev_hash_table cc" and ?code = "dc_code (ds ! k)"
  let ?h = "hash_of (tb_table_entry_count ?ht) ?code"
  let ?ht1 = "?ht\<lparr>tb_entries := Some (es[?h := replace_code ?code al (es ! ?h)])\<rparr>"
  have tab: "table_ok ?ht" using st by (simp add: unit_state_def)
  have b: "buckets_ok ?ht" "not_too_large ?ht" using tab Some by (simp_all add: table_ok_def)
  note ok = same_plain_ok [OF b(1) Some replaced_same_plain [OF u st al(1,2) Some, of ?h]]
  have ent: "tb_entries ?ht1 = map_option (\<lambda>es. es[?h := replace_code ?code al (es ! ?h)]) (tb_entries ?ht)"
    by (simp add: Some)
  have all1: "entries_all (fill_ok ds) ?ht1"
    by (rule entries_all_update [OF all ent]) (erule replace_code_all, rule al(3))
  have tab1: "table_ok ?ht1" unfolding table_ok_def using ok(1,3) b(2) by blast
  have total: "tb_total_abbrev_count ?ht1 = tb_total_abbrev_count ?ht" by simp
  have st1: "unit_state b absec off e ds n (cc\<lparr>cc_abbrev_hash_table := ?ht1\<rparr>)"
    by (rule unit_state_table [OF st tab1 ok(2) total])
  show ?thesis unfolding write_entry_Some [OF Some refl] using st1 all1 by simp
qed

lemma filled_abbrev_found:
  assumes u: "unit_declares absec off e ds" and st: "unit_ok absec off e ds cc" and k: "k < length ds"
      and mem: "False \<notin> set (fst mems)" "False \<notin> set (snd mems)"
  shows "\<exists>al cc1. filled_abbrev absec missing cc (dc_code (ds ! k)) mems = Some (DW_DLV_OK al, cc1)
    \<and> plain al = entry_of off ds k \<and> unit_ok absec off e ds cc1
    \<and> abl_attr al = Some (map (\<lambda>a. ucast (at_name a)) (dc_attrs (ds ! k)))
    \<and> abl_form al = Some (map (\<lambda>a. ucast (at_form a)) (dc_attrs (ds ! k)))"
proof -
  let ?d = "ds ! k"
  have ua: "unit_at absec off e ds" and size: "Suc 1 * length ds < 2 ^ 63"
    using u by (simp_all add: unit_declares_def)
  have st1: "unit_state True absec off e ds 1 cc" and all: "entries_all (fill_ok ds) (cc_abbrev_hash_table cc)"
    using st by (simp_all add: unit_ok_def)
  have distinct: "distinct (map dc_code ds)" using ua by (simp add: unit_at_def)
  have "True \<longrightarrow> False \<notin> set (fst mems)" using mem(1) by simp
  from request_answered [OF ua st1 size this, of "dc_code ?d"] obtain r known cc1 where
      get: "dwarf_get_abbrev_for_code absec cc (dc_code ?d) (fst mems) = Some (r, known, cc1)"
      and ans: "answers off ds (dc_code ?d) (fst mems) r" and st2: "unit_state True absec off e ds (Suc 1) cc1" by blast
  have "map_dlv id plain r = DW_DLV_OK (entry_of off ds k)"
    using ans mem(1) declared_Some [OF distinct k] by (simp add: answers_def)
  then obtain al where al: "r = DW_DLV_OK al" "plain al = entry_of off ds k" by (cases r) auto
  have t: "table_ok (cc_abbrev_hash_table cc)" "tb_total_abbrev_count (cc_abbrev_hash_table cc) < 2 ^ 63"
    using st1 size by (auto simp: unit_state_def)
  note kept = entries_all_get [OF fill_ok_property all t get]
  have fill: "fill_ok ds al" "abl_code al = dc_code ?d" using kept al(1) by auto
  show ?thesis
  proof (cases "abl_attr al = None")
    case False
    then obtain j where j: "j < length ds" "abl_code al = dc_code (ds ! j)"
        "abl_attr al = Some (map (\<lambda>a. ucast (at_name a)) (dc_attrs (ds ! j)))"
        "abl_form al = Some (map (\<lambda>a. ucast (at_form a)) (dc_attrs (ds ! j)))"
      using fill(1) by (auto simp: fill_ok_def)
    have "j = k" using distinct j(1,2) k fill(2) nth_eq_iff_index_eq [of "map dc_code ds" j k] by simp
    then show ?thesis
      using get al j False kept unit_state_exact [OF st2]
      by (auto simp: filled_abbrev_def unit_ok_def)
  next
    case True
    then have none: "abl_implicit_const al = None" "abl_form al = None" using fill(1) by (auto simp: fill_ok_def)
    have "al = (plain al)\<lparr>abl_reference_count := abl_reference_count al\<rparr>"
      using True none by (simp add: plain_def)
    then have same: "al = (entry_of off ds k)\<lparr>abl_reference_count := abl_reference_count al\<rparr>" by (simp only: al(2))
    have parts: "abl_abbrev_count al = length (dc_attrs ?d)" "abl_implicit_const_count al = implicit_consts (dc_attrs ?d)"
        "abl_abbrev_ptr al = decl_start off ds k + length (uleb (dc_code ?d)) + length (uleb (dc_tag ?d)) + 1"
      by (subst same, simp add: entry_of_def decl_entry_def)+
    have e: "e \<le> length absec" using ua by (simp add: unit_at_def at_bytes_def)
    have bytes: "at_bytes absec (abl_abbrev_ptr al) (length absec) (attrs_bytes (dc_attrs ?d))"
      unfolding parts(3) by (rule at_bytes_mono [OF decl_parts(4) [OF unit_decl(1) [OF ua k]] e]) simp
    have valid: "\<forall>a \<in> set (dc_attrs ?d). valid_attr a" using unit_decl(2) [OF ua k] by (simp add: valid_decl_def)
    have m2: "\<forall>b \<in> set (snd mems). b" using mem(2) by (metis (full_types))
    define al1 where "al1 = al\<lparr>abl_attr := Some (map (\<lambda>a. ucast (at_name a)) (dc_attrs ?d)),
           abl_form := Some (map (\<lambda>a. ucast (at_form a)) (dc_attrs ?d)),
           abl_implicit_const_count := 2 * implicit_consts (dc_attrs ?d),
           abl_implicit_const := (if implicit_consts (dc_attrs ?d) = 0 then None else Some (map at_const (dc_attrs ?d)))\<rparr>"
    have filled: "dwarf_fill_in_attr_form_abtable absec (abl_abbrev_ptr al) (length absec) (snd mems) al =
        Some (DW_DLV_OK (), al1)"
      unfolding al1_def by (rule filled_in_at [OF bytes valid parts(1,2) none(1) m2])
    have "plain al1 = plain al" using True none parts(2) by (simp add: plain_def al1_def)
    then have p1: "plain al1 = entry_of off ds k" by (simp add: al(2))
    have f1: "fill_ok ds al1" unfolding fill_ok_def using k fill(2) by (intro disjI2 exI [of _ k]) (simp add: al1_def)
    have all1: "entries_all (fill_ok ds) (cc_abbrev_hash_table cc1)" using kept by blast
    note w = write_entry_keeps [OF ua unit_state_exact [OF st2] all1 p1 k f1]
    have "filled_abbrev absec missing cc (dc_code ?d) mems = Some (DW_DLV_OK al1, write_entry (dc_code ?d) al1 cc1)"
      using get al(1) True filled by (simp add: filled_abbrev_def dwarf_calculate_abbrev_section_end_ptr_def)
    then show ?thesis using w p1 by (simp add: unit_ok_def al1_def)
  qed
qed

end
