(* ===== verification/Die_Tree.thy ===== *)
theory Die_Tree
  imports Die_Walk
begin

text \<open>
  The walk of \<open>Die_Walk\<close> against the tree of entries a producer writes: where the calls go from an entry is where
  the tree has its next sibling and its first child, whatever was asked for before.
\<close>

subsection \<open>The tree as bytes\<close>

text \<open>
  An entry: its declaration, its values with their forms (which differ from the declared ones for
  \<open>DW_FORM_indirect\<close>), and its children.
\<close>

datatype die_tree = Die nat "(u64 \<times> byte list) list" "die_tree list"

fun value_bytes :: "abbrev_attr \<times> u64 \<times> byte list \<Rightarrow> byte list" where
  "value_bytes (a, f, v) = (if at_form a = DW_FORM_indirect then uleb f else []) @ v"

definition head_bytes :: "abbrev_decl \<Rightarrow> (u64 \<times> byte list) list \<Rightarrow> byte list" where
  "head_bytes d vals = uleb (dc_code d) @ concat (map value_bytes (zip (dc_attrs d) vals))"

primrec die_bytes :: "abbrev_decl list \<Rightarrow> die_tree \<Rightarrow> byte list" where
  "die_bytes ds (Die k vals children) = head_bytes (ds ! k) vals
     @ (if dc_child (ds ! k) \<noteq> 0 then concat (map (die_bytes ds) children) @ [0] else [])"

text \<open>
  A value of an attribute; that of \<open>DW_AT_sibling\<close> is the distance \<open>n\<close> of the sibling from the start of the unit,
  or an address, which is not used.
\<close>

definition sibling_value :: "dwarf_debug \<Rightarrow> nat \<Rightarrow> u64 \<Rightarrow> byte list \<Rightarrow> bool" where
  "sibling_value dbg n f v \<longleftrightarrow> f = DW_FORM_ref_addr \<or> f = DW_FORM_ref_udata \<and> v = uleb (of_nat n)
     \<or> (\<exists>(g, size) \<in> set [(DW_FORM_ref1, 1), (DW_FORM_ref2, 2), (DW_FORM_ref4, 4), (DW_FORM_ref8, 8)].
          f = g \<and> n < 2 ^ (8 * size) \<and> v = number_bytes dbg size (of_nat n))"

definition unit_value :: "dwarf_debug \<Rightarrow> cu_context \<Rightarrow> u64 \<Rightarrow> byte list \<Rightarrow> bool" where
  "unit_value dbg cu = form_value dbg (ucast (cc_version_stamp cu)) (ucast (cc_address_size cu)) (of_nat (cc_length_size cu))"

definition value_ok :: "dwarf_debug \<Rightarrow> cu_context \<Rightarrow> nat \<Rightarrow> abbrev_attr \<Rightarrow> u64 \<times> byte list \<Rightarrow> bool" where
  "value_ok dbg cu n a = (\<lambda>(f, v). unit_value dbg cu f v
     \<and> (if at_form a = DW_FORM_indirect then f \<noteq> DW_FORM_indirect \<and> f \<noteq> DW_FORM_implicit_const else f = at_form a)
     \<and> (ucast (at_name a) = DW_AT_sibling \<longrightarrow> sibling_value dbg n f v))"

text \<open>The tree is well-formed at the position \<open>p\<close>.\<close>

definition head_ok :: "dwarf_debug \<Rightarrow> cu_context \<Rightarrow> abbrev_decl list \<Rightarrow> nat \<Rightarrow> nat \<Rightarrow> (u64 \<times> byte list) list \<Rightarrow> bool" where
  "head_ok dbg cu ds q k vals \<longleftrightarrow> k < length ds
     \<and> list_all2 (value_ok dbg cu (q - cc_debug_offset cu)) (dc_attrs (ds ! k)) vals"

fun placed :: "dwarf_debug \<Rightarrow> cu_context \<Rightarrow> abbrev_decl list \<Rightarrow> nat \<Rightarrow> die_tree \<Rightarrow> bool"
  and placed_all :: "dwarf_debug \<Rightarrow> cu_context \<Rightarrow> abbrev_decl list \<Rightarrow> nat \<Rightarrow> die_tree list \<Rightarrow> bool" where
  "placed dbg cu ds p (Die k vals children) \<longleftrightarrow>
     head_ok dbg cu ds (p + length (die_bytes ds (Die k vals children))) k vals
     \<and> (dc_child (ds ! k) = 0 \<longrightarrow> children = [])
     \<and> placed_all dbg cu ds (p + length (head_bytes (ds ! k) vals)) children"
| "placed_all dbg cu ds p [] \<longleftrightarrow> True"
| "placed_all dbg cu ds p (t # ts) \<longleftrightarrow>
     placed dbg cu ds p t \<and> placed_all dbg cu ds (p + length (die_bytes ds t)) ts"

subsection \<open>Behind an entry\<close>

lemma form_value_small: "form_value dbg v a l f bs \<Longrightarrow> ucast (ucast f :: 16 word) = f \<and> f \<noteq> 0"
proof (induction rule: form_value.induct)
  case (fixed form n bs)
  then show ?case unfolding fixed_size_def by (auto simp: form_codes split: if_splits)
next
  case (leb form bs)
  then show ?case unfolding leb_forms_def by (auto simp: form_codes)
qed (auto simp: form_codes)

lemma implicit_no_bytes: "form_value dbg v a l DW_FORM_implicit_const bs \<Longrightarrow> bs = []"
  by (erule form_value.cases) (auto simp: fixed_size_def form_codes leb_forms_def)

text \<open>The numbers of a declaration can be skipped one after the other.\<close>

fun skippable :: "byte list \<Rightarrow> nat \<Rightarrow> nat \<Rightarrow> bool" where
  "skippable absec p 0 \<longleftrightarrow> True"
| "skippable absec p (Suc n) \<longleftrightarrow>
     (case SKIP_LEB128_CK absec p (length absec) of DW_DLV_OK q \<Rightarrow> skippable absec q n | _ \<Rightarrow> False)"

lemma skip_uleb: "at_bytes sec p e (uleb v) \<Longrightarrow> SKIP_LEB128_CK sec p e = DW_DLV_OK (p + length (uleb v))"
  using at_bytes_between [of sec p e "uleb v"] uleb_spec [of v] skip_shape [of "uleb v"]
  by (auto simp: SKIP_LEB128_CK_def)

lemma skippable_lebs:
  "at_bytes absec p (length absec) (concat xs @ rest) \<Longrightarrow> \<forall>x \<in> set xs. x \<in> range uleb \<union> range sleb \<Longrightarrow> n \<le> length xs
   \<Longrightarrow> skippable absec p n"
proof (induction n arbitrary: p xs)
  case (Suc n)
  then obtain x ys where xs: "xs = x # ys" by (cases xs) auto
  have at: "at_bytes absec p (length absec) x" "at_bytes absec (p + length x) (length absec) (concat ys @ rest)"
    using Suc.prems(1) by (simp_all add: xs at_bytes_append add.assoc)
  have "SKIP_LEB128_CK absec p (length absec) = DW_DLV_OK (p + length x)"
    using at(1) Suc.prems(2) skip_uleb skip_at by (auto simp: xs)
  then show ?case using Suc.IH [OF at(2)] Suc.prems by (simp add: xs)
qed simp

definition attr_lebs :: "abbrev_attr \<Rightarrow> byte list list" where
  "attr_lebs a = [uleb (at_name a), uleb (at_form a)] @ (if at_form a = DW_FORM_implicit_const then [sleb (at_const a)] else [])"

lemma attrs_skippable:
  assumes "at_bytes absec p (length absec) (attrs_bytes as)"
  shows "skippable absec p (implicit_consts as)"
proof (rule skippable_lebs)
  have "concat (concat (map attr_lebs as)) = concat (map attr_bytes as)"
    by (induction as) (simp_all add: attr_lebs_def attr_bytes_def)
  then show "at_bytes absec p (length absec) (concat (concat (map attr_lebs as)) @ [0, 0])"
    using assms by (simp add: attrs_bytes_def)
  show "\<forall>x \<in> set (concat (map attr_lebs as)). x \<in> range uleb \<union> range sleb"
    by (auto simp: attr_lebs_def split: if_splits)
  show "implicit_consts as \<le> length (concat (map attr_lebs as))"
    by (induction as) (auto simp: implicit_consts_def attr_lebs_def)
qed

text \<open>The values of these attributes say where the sibling is.\<close>

definition jumps :: "abbrev_attr list \<Rightarrow> (u64 \<times> byte list) list \<Rightarrow> bool" where
  "jumps as vals \<longleftrightarrow> (\<exists>(a, f, v) \<in> set (zip as vals). ucast (at_name a) = DW_AT_sibling \<and> f \<noteq> DW_FORM_ref_addr)"

lemma sibling_offset_at:
  assumes v: "sibling_value dbg n f v" and at: "at_bytes info p e v" and n: "n < 2 ^ 63"
  shows "sibling_offset dbg info p e f =
    DW_DLV_OK (if f = DW_FORM_ref_addr then None else Some (of_nat n))"
proof -
  have read: "READ_UNALIGNED_CK dbg info p size e = DW_DLV_OK (of_nat n)"
    if "at_bytes info p e (number_bytes dbg size (of_nat n))" "n < 2 ^ (8 * size)" "size \<in> {1, 2, 4, 8}" for size
  proof -
    have "take_bit (8 * size) (of_nat n :: u64) = of_nat n"
      using that(2) by (simp add: take_bit_nat_eq_self flip: of_nat_take_bit)
    then show ?thesis using read_number [OF that(1)] that(3) by auto
  qed
  from v consider "f = DW_FORM_ref_addr" | "f = DW_FORM_ref_udata" "v = uleb (of_nat n)"
    | g size where "(g, size) \<in> set [(DW_FORM_ref1, 1), (DW_FORM_ref2, 2), (DW_FORM_ref4, 4), (DW_FORM_ref8, 8)]"
        "f = g" "n < 2 ^ (8 * size)" "v = number_bytes dbg size (of_nat n)"
    unfolding sibling_value_def by blast
  then show ?thesis
  proof cases
    case 3
    then have r: "READ_UNALIGNED_CK dbg info p size e = DW_DLV_OK (of_nat n)"
      by (intro read) (use at in auto)
    show ?thesis using 3(1,2) r by (auto simp: sibling_offset_def form_codes)
  qed (use at in \<open>simp_all add: sibling_offset_def form_codes\<close>)
qed

definition decl_filled :: "abbrev_decl \<Rightarrow> abbrev_list \<Rightarrow> bool" where
  "decl_filled d al \<longleftrightarrow> abl_attr al = Some (map (\<lambda>a. ucast (at_name a)) (dc_attrs d))
     \<and> abl_form al = Some (map (\<lambda>a. ucast (at_form a)) (dc_attrs d))"

lemma attr_loop_step:
  assumes filled: "decl_filled d al" and i: "i < length (dc_attrs d)" and a: "a = dc_attrs d ! i"
      and small: "ucast (ucast (at_form a) :: 16 word) = at_form a"
      and f: "value_ok dbg cu n a (f, v)" and at: "at_bytes info p e (value_bytes (a, f, v))"
      and n: "n < 2 ^ 63" and ap: "f = DW_FORM_implicit_const \<Longrightarrow> SKIP_LEB128_CK absec ap (length absec) = DW_DLV_OK ap1"
      and ap1: "f \<noteq> DW_FORM_implicit_const \<Longrightarrow> ap1 = ap" and info: "length info < 2 ^ 63"
  shows "attr_loop dbg info absec cu p0 e start want al hc i (Suc left) p ap =
    (if want \<and> ucast (at_name a) = DW_AT_sibling \<and> f \<noteq> DW_FORM_ref_addr
     then Some (if e - start < n then DW_DLV_ERROR DW_DLE_SIBLING_OFFSET_WRONG
                else if start + n \<le> p0 then DW_DLV_ERROR DW_DLE_SIBLING_OFFSET_WRONG
                else DW_DLV_OK (False, start + n))
     else attr_loop dbg info absec cu p0 e start want al hc (i + 1) left (p + length (value_bytes (a, f, v))) ap1)"
proof -
  have u: "unit_value dbg cu f v" and form: "if at_form a = DW_FORM_indirect
        then f \<noteq> DW_FORM_indirect \<and> f \<noteq> DW_FORM_implicit_const else f = at_form a"
    and sib: "ucast (at_name a) = DW_AT_sibling \<longrightarrow> sibling_value dbg n f v"
    using f by (simp_all add: value_ok_def)
  have fs: "ucast (ucast f :: 16 word) = f" "f \<noteq> 0" using u form_value_small by (auto simp: unit_value_def)
  define q where "q = p + (if at_form a = DW_FORM_indirect then length (uleb f) else 0)"
  have atv: "at_bytes info q e v" and atf: "at_form a = DW_FORM_indirect \<Longrightarrow> at_bytes info p e (uleb f)"
    using at by (auto simp: q_def at_bytes_append)
  have len: "p + length (value_bytes (a, f, v)) = q + length v" by (simp add: q_def)
  have fit: "q + length v \<le> e" "e \<le> length info" using atv by (simp_all add: at_bytes_def)
  have un: "unat (of_nat n :: u64) = n" using n by (intro of_nat_small) simp
  have vs: "length v < 2 ^ 63" using fit info by simp
  have uv: "unat (of_nat (length v) :: u64) = length v" using vs by (intro of_nat_small) simp
  have arrays: "abl_attr al = Some (map (\<lambda>a. ucast (at_name a)) (dc_attrs d))"
      "abl_form al = Some (map (\<lambda>a. ucast (at_form a)) (dc_attrs d))"
      "map (\<lambda>a. ucast (at_name a)) (dc_attrs d) ! i = (ucast (at_name a) :: 16 word)"
      "map (\<lambda>a. ucast (at_form a)) (dc_attrs d) ! i = (ucast (at_form a) :: 16 word)"
    using filled i a by (simp_all add: decl_filled_def)
  have step1: "(if ucast (ucast (at_form a) :: 16 word) = DW_FORM_indirect
      then dlv_bind (DECODE_LEB128_UWORD_CK info p e) (\<lambda>(utmp6, p).
             if ucast (ucast utmp6 :: 16 word) = DW_FORM_implicit_const \<or> ucast (ucast utmp6 :: 16 word) = DW_FORM_indirect
             then DW_DLV_ERROR DW_DLE_NEXT_DIE_WRONG_FORM else DW_DLV_OK (ucast (ucast utmp6 :: 16 word), p))
      else DW_DLV_OK (ucast (ucast (at_form a) :: 16 word), p)) = DW_DLV_OK (f, q)"
    unfolding small using form fs atf by (auto simp: q_def)
  have step2: "(if f = DW_FORM_implicit_const then SKIP_LEB128_CK absec ap (dwarf_calculate_abbrev_section_end_ptr absec)
      else DW_DLV_OK ap) = DW_DLV_OK ap1"
    using ap ap1 by (simp add: dwarf_calculate_abbrev_section_end_ptr_def)
  show ?thesis
  proof (cases "want \<and> ucast (at_name a) = DW_AT_sibling \<and> f \<noteq> DW_FORM_ref_addr")
    case True
    then have "sibling_offset dbg info q e f = DW_DLV_OK (Some (of_nat n))"
      using sib sibling_offset_at [OF _ atv n] by simp
    then show ?thesis
      unfolding attr_loop.simps arrays option.case prod.case Let_def step1 dlv.case step2
      using True un by simp
  next
    case False
    then have step3: "(if want \<and> ucast (at_name a) = DW_AT_sibling then sibling_offset dbg info q e f
        else DW_DLV_OK None) = DW_DLV_OK None"
      using sib sibling_offset_at [OF _ atv n] by auto
    have size: "dwarf_get_size_of_val dbg info f (ucast (cc_version_stamp cu)) (ucast (cc_address_size cu)) q
        (of_nat (cc_length_size cu)) 0 e = DW_DLV_OK (of_nat (length v))"
      by (rule measured [OF u [unfolded unit_value_def] atv vs])
    have none: "f = DW_FORM_implicit_const \<Longrightarrow> v = []" using u implicit_no_bytes by (auto simp: unit_value_def)
    show ?thesis
      unfolding attr_loop.simps arrays option.case prod.case Let_def step1 dlv.case step2 step3 if_not_P [OF False] size uv len
      using fs(2) fit none by auto
  qed
qed

lemma ucast_take: "ucast (ucast f :: 16 word) = take_bit 16 f" for f :: u64
  by (rule bit_word_eqI) (auto simp: bit_simps)

lemma half_word: "\<not> f > 0xffff \<Longrightarrow> ucast (ucast f :: 16 word) = f" for f :: u64
proof -
  assume "\<not> f > 0xffff"
  then have "f < 2 ^ 16" by (simp add: not_less) (erule le_less_trans, simp)
  then show ?thesis using less_mask_take [of f 16] by (simp add: ucast_take)
qed

text \<open>What lies behind the values of an entry at \<open>p0\<close>, or behind the entry where a value tells it.\<close>

lemma attr_loop_at:
  assumes "decl_filled d al" "\<forall>a \<in> set (dc_attrs d). valid_attr a" "as = drop i (dc_attrs d)"
      and "list_all2 (value_ok dbg cu n) as vals" "at_bytes info p e (concat (map value_bytes (zip as vals)))"
      and "skippable absec ap (implicit_consts as)" "length info < 2 ^ 63"
      and "want \<Longrightarrow> p0 < start + n \<and> start + n \<le> e" "n < 2 ^ 63"
  shows "attr_loop dbg info absec cu p0 e start want al hc i (length as) p ap =
    Some (DW_DLV_OK (if want \<and> jumps as vals then (False, start + n)
                     else (hc, p + length (concat (map value_bytes (zip as vals))))))"
  using assms
proof (induction as arbitrary: i vals p ap)
  case Nil
  then show ?case by (simp add: jumps_def)
next
  case (Cons a as)
  obtain f v vs where vals: "vals = (f, v) # vs" using Cons.prems(4) by (cases vals) auto
  have i: "i < length (dc_attrs d)" "dc_attrs d ! i = a" "as = drop (i + 1) (dc_attrs d)"
    using Cons.prems(3) by (cases "i < length (dc_attrs d)"; simp add: Cons_nth_drop_Suc [symmetric])+
  then have "valid_attr a" using Cons.prems(2) nth_mem by auto
  then have small: "ucast (ucast (at_form a) :: 16 word) = at_form a"
    using valid_attr_small half_word by blast
  define ap1 where "ap1 = (case SKIP_LEB128_CK absec ap (length absec) of DW_DLV_OK q \<Rightarrow> q | _ \<Rightarrow> ap)"
  have v: "value_ok dbg cu n a (f, v)" "list_all2 (value_ok dbg cu n) as vs" using Cons.prems(4) by (simp_all add: vals)
  then have same: "f = DW_FORM_implicit_const \<longleftrightarrow> at_form a = DW_FORM_implicit_const"
    by (auto simp: value_ok_def form_codes split: if_splits)
  have at: "at_bytes info p e (value_bytes (a, f, v))"
      "at_bytes info (p + length (value_bytes (a, f, v))) e (concat (map value_bytes (zip as vs)))"
    using Cons.prems(5) unfolding vals zip_Cons_Cons list.map concat.simps at_bytes_append by blast+
  define ap2 where "ap2 = (if f = DW_FORM_implicit_const then ap1 else ap)"
  have ap: "f = DW_FORM_implicit_const \<Longrightarrow> SKIP_LEB128_CK absec ap (length absec) = DW_DLV_OK ap2"
      "skippable absec ap2 (implicit_consts as)"
    using Cons.prems(6) same by (auto simp: implicit_consts_def ap1_def ap2_def split: dlv.splits)
  have ap2: "f \<noteq> DW_FORM_implicit_const \<Longrightarrow> ap2 = ap" by (simp add: ap2_def)
  note step = attr_loop_step [OF Cons.prems(1) i(1) i(2) [symmetric] small v(1) at(1) Cons.prems(9) ap(1) ap2 Cons.prems(7)]
  have jumps: "jumps (a # as) vals \<longleftrightarrow> ucast (at_name a) = DW_AT_sibling \<and> f \<noteq> DW_FORM_ref_addr \<or> jumps as vs"
    by (auto simp: jumps_def vals)
  show ?case
  proof (cases "want \<and> ucast (at_name a) = DW_AT_sibling \<and> f \<noteq> DW_FORM_ref_addr")
    case True
    show ?thesis
      unfolding length_Cons by (subst step) (use True Cons.prems(8) jumps in auto)
  next
    case False
    note IH = Cons.IH [OF Cons.prems(1,2) i(3) v(2) at(2) ap(2) Cons.prems(7,8,9)]
    have len: "length (concat (map value_bytes (zip (a # as) vals))) =
        length (value_bytes (a, f, v)) + length (concat (map value_bytes (zip as vs)))" by (simp add: vals)
    have j: "want \<and> jumps (a # as) vals \<longleftrightarrow> want \<and> jumps as vs" using False jumps by blast
    have "attr_loop dbg info absec cu p0 e start want al hc i (length (a # as)) p ap =
        attr_loop dbg info absec cu p0 e start want al hc (i + 1) (length as) (p + length (value_bytes (a, f, v))) ap2"
      unfolding length_Cons by (rule trans [OF step if_not_P [OF False]])
    also have "\<dots> = Some (DW_DLV_OK (if want \<and> jumps as vs then (False, start + n)
        else (hc, p + length (value_bytes (a, f, v)) + length (concat (map value_bytes (zip as vs))))))" by (rule IH)
    finally show ?thesis unfolding j len by (simp only: add.assoc)
  qed
qed

subsection \<open>The walk\<close>

text \<open>The sections and the unit; the unit's state during a walk; memory does not run out.\<close>

definition walkable :: "byte list \<Rightarrow> byte list \<Rightarrow> nat \<Rightarrow> nat \<Rightarrow> abbrev_decl list \<Rightarrow> cu_context \<Rightarrow> bool" where
  "walkable info absec off ae ds cu0 \<longleftrightarrow> unit_declares absec off ae ds \<and> length info < 2 ^ 63
     \<and> dwarf_calculate_info_section_end_ptr cu0 \<le> length info"

definition in_walk :: "byte list \<Rightarrow> nat \<Rightarrow> nat \<Rightarrow> abbrev_decl list \<Rightarrow> cu_context \<Rightarrow> cu_context \<Rightarrow> bool" where
  "in_walk absec off ae ds cu0 cu \<longleftrightarrow>
     (\<exists>present pos. cu = cu0\<lparr>cc_abbrevs := cc_abbrevs cu, cc_cu_die_offset_present := present,
        cc_cu_die_global_sec_offset := pos\<rparr>) \<and> unit_ok absec off ae ds (cc_abbrevs cu)"

definition no_failure :: "allocs \<times> allocs \<Rightarrow> bool" where
  "no_failure m \<longleftrightarrow> False \<notin> set (fst m) \<and> False \<notin> set (snd m)"

definition tree_at ::
    "dwarf_debug \<Rightarrow> byte list \<Rightarrow> abbrev_decl list \<Rightarrow> cu_context \<Rightarrow> nat \<Rightarrow> die_tree \<Rightarrow> bool" where
  "tree_at dbg info ds cu0 p t \<longleftrightarrow> cc_debug_offset cu0 \<le> p \<and> placed dbg cu0 ds p t
     \<and> at_bytes info p (dwarf_calculate_info_section_end_ptr cu0) (die_bytes ds t)"

lemma in_walk_same:
  assumes "in_walk absec off ae ds cu0 cu"
  shows "cc_debug_offset cu = cc_debug_offset cu0"
    and "dwarf_calculate_info_section_end_ptr cu = dwarf_calculate_info_section_end_ptr cu0"
    and "value_ok dbg cu = value_ok dbg cu0" and "unit_ok absec off ae ds (cc_abbrevs cu)"
proof -
  obtain present pos where cu: "cu = cu0\<lparr>cc_abbrevs := cc_abbrevs cu, cc_cu_die_offset_present := present,
      cc_cu_die_global_sec_offset := pos\<rparr>" using assms unfolding in_walk_def by blast
  show "cc_debug_offset cu = cc_debug_offset cu0" by (subst cu) simp
  show "dwarf_calculate_info_section_end_ptr cu = dwarf_calculate_info_section_end_ptr cu0"
    by (subst cu) (simp add: dwarf_calculate_info_section_end_ptr_def)
  show "value_ok dbg cu = value_ok dbg cu0" by (subst cu) (simp add: value_ok_def unit_value_def fun_eq_iff)
  show "unit_ok absec off ae ds (cc_abbrevs cu)" using assms by (simp add: in_walk_def)
qed

lemma in_walk_next:
  assumes w: "in_walk absec off ae ds cu0 cu" and ok: "unit_ok absec off ae ds cc"
  shows "in_walk absec off ae ds cu0 (cu\<lparr>cc_abbrevs := cc\<rparr>)"
proof -
  obtain present pos where cu: "cu = cu0\<lparr>cc_abbrevs := cc_abbrevs cu, cc_cu_die_offset_present := present,
      cc_cu_die_global_sec_offset := pos\<rparr>" using w unfolding in_walk_def by blast
  have "cu\<lparr>cc_abbrevs := cc\<rparr> = cu0\<lparr>cc_abbrevs := cc, cc_cu_die_offset_present := present,
      cc_cu_die_global_sec_offset := pos\<rparr>" by (subst cu) simp
  then show ?thesis using ok unfolding in_walk_def by auto
qed

lemma in_walk_start:
  "unit_ok absec off ae ds (cc_abbrevs cu) \<Longrightarrow>
   in_walk absec off ae ds cu (cu\<lparr>cc_cu_die_offset_present := present, cc_cu_die_global_sec_offset := pos\<rparr>)"
  "unit_ok absec off ae ds (cc_abbrevs cu) \<Longrightarrow> in_walk absec off ae ds cu cu"
  unfolding in_walk_def by (cases cu; auto)+

lemma flag_kept: "(ucast b :: 16 word) = 0 \<longleftrightarrow> b = 0" for b :: byte
proof
  assume z: "(ucast b :: 16 word) = 0"
  have "unat (ucast b :: 16 word) = unat b"
    using unsigned_less [of b, where 'a = nat] by (simp add: unsigned_ucast_eq take_bit_nat_eq_self)
  then show "b = 0" unfolding z by (simp add: unat_eq_zero)
qed simp

lemma plain_fields:
  assumes "plain al = entry_of off ds k"
  shows "(abl_has_child al \<noteq> 0) = (dc_child (ds ! k) \<noteq> 0)" "abl_abbrev_count al = length (dc_attrs (ds ! k))"
    "abl_abbrev_ptr al = decl_start off ds k + length (uleb (dc_code (ds ! k))) + length (uleb (dc_tag (ds ! k))) + 1"
    "abl_tag al = ucast (dc_tag (ds ! k))" "abl_code al = dc_code (ds ! k)"
proof -
  have "abl_has_child (plain al) = abl_has_child al" "abl_abbrev_count (plain al) = abl_abbrev_count al"
    "abl_abbrev_ptr (plain al) = abl_abbrev_ptr al" "abl_tag (plain al) = abl_tag al" "abl_code (plain al) = abl_code al"
    by (simp_all add: plain_def)
  then show "(abl_has_child al \<noteq> 0) = (dc_child (ds ! k) \<noteq> 0)" "abl_abbrev_count al = length (dc_attrs (ds ! k))"
    "abl_abbrev_ptr al = decl_start off ds k + length (uleb (dc_code (ds ! k))) + length (uleb (dc_tag (ds ! k))) + 1"
    "abl_tag al = ucast (dc_tag (ds ! k))" "abl_code al = dc_code (ds ! k)"
    unfolding assms by (simp_all add: entry_of_def decl_entry_def flip: flag_kept)
qed

lemma die_bytes_head: "\<exists>rest. die_bytes ds (Die k vals children) = head_bytes (ds ! k) vals @ rest"
  by simp

lemma next_die_at:
  assumes set: "walkable info absec off ae ds cu0" and w: "in_walk absec off ae ds cu0 cu"
      and t: "tree_at dbg info ds cu0 p (Die k vals children)" and m: "no_failure m"
      and s: "want \<Longrightarrow> s = cc_debug_offset cu0"
  shows "\<exists>cu1. dwarf_next_die_info_ptr dbg info absec p cu (dwarf_calculate_info_section_end_ptr cu0) s want m =
      Some (DW_DLV_OK (if want \<and> jumps (dc_attrs (ds ! k)) vals
                       then (False, p + length (die_bytes ds (Die k vals children)))
                       else (dc_child (ds ! k) \<noteq> 0, p + length (head_bytes (ds ! k) vals))), cu1)
    \<and> in_walk absec off ae ds cu0 cu1"
proof -
  let ?e = "dwarf_calculate_info_section_end_ptr cu0" and ?d = "ds ! k" and ?t = "Die k vals children"
  let ?n = "p + length (die_bytes ds ?t) - cc_debug_offset cu0"
  have u: "unit_declares absec off ae ds" and info: "length info < 2 ^ 63" "?e \<le> length info"
    using set by (simp_all add: walkable_def)
  have ua: "unit_at absec off ae ds" using u by (simp add: unit_declares_def)
  have k: "k < length ds" and vals: "list_all2 (value_ok dbg cu0 ?n) (dc_attrs ?d) vals"
    and start: "cc_debug_offset cu0 \<le> p" and at: "at_bytes info p ?e (die_bytes ds ?t)"
    using t by (simp_all add: tree_at_def head_ok_def del: die_bytes.simps)
  have at_code: "at_bytes info p ?e (uleb (dc_code ?d))"
    and at_vals: "at_bytes info (p + length (uleb (dc_code ?d))) ?e (concat (map value_bytes (zip (dc_attrs ?d) vals)))"
    using at by (simp_all add: head_bytes_def at_bytes_append add.assoc)
  have d: "valid_decl ?d" by (rule unit_decl(2) [OF ua k])
  then have code: "dc_code ?d \<noteq> 0" and valid: "\<forall>a \<in> set (dc_attrs ?d). valid_attr a" by (simp_all add: valid_decl_def)
  obtain al cc1 where found: "filled_abbrev absec DW_DLE_NEXT_DIE_NO_ABBREV_LIST (cc_abbrevs cu) (dc_code ?d) m =
        Some (DW_DLV_OK al, cc1)" "plain al = entry_of off ds k" "unit_ok absec off ae ds cc1"
      "abl_attr al = Some (map (\<lambda>a. ucast (at_name a)) (dc_attrs ?d))"
      "abl_form al = Some (map (\<lambda>a. ucast (at_form a)) (dc_attrs ?d))"
    using filled_abbrev_found [OF u in_walk_same(4) [OF w] k] m unfolding no_failure_def by blast
  note al = plain_fields [OF found(2)]
  define cu1 where "cu1 = cu\<lparr>cc_abbrevs := cc1\<rparr>"
  have w1: "in_walk absec off ae ds cu0 cu1" unfolding cu1_def by (rule in_walk_next [OF w found(3)])
  have filled: "decl_filled ?d al" using found(4,5) by (simp add: decl_filled_def)
  have ae: "ae \<le> length absec" using ua by (simp add: unit_at_def at_bytes_def)
  have "at_bytes absec (abl_abbrev_ptr al) (length absec) (attrs_bytes (dc_attrs ?d))"
    unfolding al(3) by (rule at_bytes_mono [OF decl_parts(4) [OF unit_decl(1) [OF ua k]] ae]) simp
  then have skip: "skippable absec (abl_abbrev_ptr al) (implicit_consts (dc_attrs ?d))" by (rule attrs_skippable)
  have len: "length (die_bytes ds ?t) > 0" "p + length (die_bytes ds ?t) \<le> ?e"
    using at by (simp add: head_bytes_def, simp add: at_bytes_def)
  have "attr_loop dbg info absec cu1 p ?e s want al (abl_has_child al \<noteq> 0) 0 (length (dc_attrs ?d))
      (p + length (uleb (dc_code ?d))) (abl_abbrev_ptr al) =
    Some (DW_DLV_OK (if want \<and> jumps (dc_attrs ?d) vals then (False, s + ?n)
        else (abl_has_child al \<noteq> 0, p + length (uleb (dc_code ?d)) + length (concat (map value_bytes (zip (dc_attrs ?d) vals))))))"
  proof (rule attr_loop_at [OF filled valid _ _ at_vals skip info(1)])
    show "list_all2 (value_ok dbg cu1 ?n) (dc_attrs ?d) vals" using vals by (simp add: in_walk_same(3) [OF w1])
    show "want \<Longrightarrow> p < s + ?n \<and> s + ?n \<le> ?e" using s start len by simp
    show "?n < 2 ^ 63" using len info by linarith
  qed simp
  then have "dwarf_next_die_info_ptr dbg info absec p cu ?e s want m =
      Some (DW_DLV_OK (if want \<and> jumps (dc_attrs ?d) vals then (False, p + length (die_bytes ds ?t))
        else (dc_child ?d \<noteq> 0, p + length (head_bytes ?d vals))), cu1)"
    using code found(1) start s
    by (simp add: dwarf_next_die_info_ptr_def uword_at [OF at_code] al(1,2) Let_def head_bytes_def add.assoc
        flip: cu1_def del: die_bytes.simps)
  then show ?thesis using w1 by blast
qed

subsection \<open>The next sibling\<close>

text \<open>How the loop goes on from the end \<open>q\<close> of an entry and its children, inside \<open>d\<close> lists.\<close>

definition go_on ::
    "dwarf_debug \<Rightarrow> byte list \<Rightarrow> byte list \<Rightarrow> nat \<Rightarrow> nat \<Rightarrow> nat \<Rightarrow> nat \<Rightarrow> cu_context \<Rightarrow> walk_allocs
     \<Rightarrow> ((dw_error, nat) dlv \<times> cu_context \<times> walk_allocs) option" where
  "go_on dbg info absec e s q d cu ms =
     (case (if q = e \<or> info ! q = 0 then out_loop info e q d else Some (q, d)) of
        None \<Rightarrow> Some (DW_DLV_NO_ENTRY, cu, ms)
      | Some (q1, d1) \<Rightarrow> if d1 \<noteq> 0 then sibling_loop dbg info absec e s q1 d1 cu ms else Some (DW_DLV_OK q1, cu, ms))"

lemma go_on_zero: "q < e \<Longrightarrow> info ! q = 0 \<Longrightarrow>
    go_on dbg info absec e s q (Suc d) cu ms = go_on dbg info absec e s (q + 1) d cu ms"
  by (cases d) (auto simp: go_on_def)

lemma sibling_step:
  assumes "dwarf_next_die_info_ptr dbg info absec p cu e s True (fst (next_allocs ms)) = Some (DW_DLV_OK (has_child, q), cu1)"
      and "p < q" "q \<le> e"
  shows "sibling_loop dbg info absec e s p d cu ms =
    (if has_child \<and> q < e
     then if info ! q = 0 then go_on dbg info absec e s (q + 1) d cu1 (snd (next_allocs ms))
          else sibling_loop dbg info absec e s q (Suc d) cu1 (snd (next_allocs ms))
     else go_on dbg info absec e s q d cu1 (snd (next_allocs ms)))"
  using assms by (subst sibling_loop.simps) (auto simp: case_prod_unfold go_on_def split: option.splits)

definition no_failures :: "walk_allocs \<Rightarrow> bool" where
  "no_failures ms \<longleftrightarrow> (\<forall>m \<in> set ms. no_failure m)"

lemma next_no_failure: "no_failures ms \<Longrightarrow> no_failure (fst (next_allocs ms)) \<and> no_failures (snd (next_allocs ms))"
  by (cases ms) (simp_all add: no_failures_def no_failure_def)

text \<open>Where the walk is after a part of it.\<close>

definition walks_to ::
    "dwarf_debug \<Rightarrow> byte list \<Rightarrow> byte list \<Rightarrow> nat \<Rightarrow> nat \<Rightarrow> abbrev_decl list \<Rightarrow> cu_context
     \<Rightarrow> ((dw_error, nat) dlv \<times> cu_context \<times> walk_allocs) option \<Rightarrow> nat \<Rightarrow> nat \<Rightarrow> bool" where
  "walks_to dbg info absec off ae ds cu0 r q d \<longleftrightarrow> (\<exists>cu1 ms1.
     r = go_on dbg info absec (dwarf_calculate_info_section_end_ptr cu0) (cc_debug_offset cu0) q d cu1 ms1
     \<and> in_walk absec off ae ds cu0 cu1 \<and> no_failures ms1)"

lemma die_first: "tree_at dbg info ds cu0 p (Die k vals children) \<Longrightarrow> unit_at absec off ae ds \<Longrightarrow>
    info ! p \<noteq> 0 \<and> p < dwarf_calculate_info_section_end_ptr cu0"
proof -
  assume t: "tree_at dbg info ds cu0 p (Die k vals children)" and u: "unit_at absec off ae ds"
  have "k < length ds" using t by (simp add: tree_at_def head_ok_def)
  then have c: "dc_code (ds ! k) \<noteq> 0" using unit_decl(2) [OF u] by (simp add: valid_decl_def)
  obtain x xs where x: "uleb (dc_code (ds ! k)) = x # xs" by (cases "uleb (dc_code (ds ! k))") auto
  have "at_bytes info p (dwarf_calculate_info_section_end_ptr cu0) (uleb (dc_code (ds ! k)))"
    using t by (simp add: tree_at_def head_bytes_def at_bytes_append)
  then show ?thesis using at_bytes_first uleb_first [OF c] by (simp add: x)
qed

definition children_at ::
    "dwarf_debug \<Rightarrow> byte list \<Rightarrow> abbrev_decl list \<Rightarrow> cu_context \<Rightarrow> nat \<Rightarrow> die_tree list \<Rightarrow> bool" where
  "children_at dbg info ds cu0 p ts \<longleftrightarrow> cc_debug_offset cu0 \<le> p \<and> placed_all dbg cu0 ds p ts
     \<and> at_bytes info p (dwarf_calculate_info_section_end_ptr cu0) (concat (map (die_bytes ds) ts) @ [0])"

lemma children_at_Cons: "children_at dbg info ds cu0 p (t # ts) \<longleftrightarrow>
    tree_at dbg info ds cu0 p t \<and> children_at dbg info ds cu0 (p + length (die_bytes ds t)) ts"
  by (auto simp: children_at_def tree_at_def at_bytes_append)

lemma children_at_Nil: "children_at dbg info ds cu0 p [] \<Longrightarrow>
    info ! p = 0 \<and> p < dwarf_calculate_info_section_end_ptr cu0"
  by (auto simp: children_at_def dest: at_bytes_first)

lemma tree_children:
  "tree_at dbg info ds cu0 p (Die k vals children) \<Longrightarrow> dc_child (ds ! k) \<noteq> 0 \<Longrightarrow>
   children_at dbg info ds cu0 (p + length (head_bytes (ds ! k) vals)) children"
  by (simp add: tree_at_def children_at_def at_bytes_append)

lemma children_walked:
  assumes IH: "\<And>t p d cu ms. t \<in> set ts \<Longrightarrow> tree_at dbg info ds cu0 p t \<Longrightarrow> in_walk absec off ae ds cu0 cu \<Longrightarrow>
      no_failures ms \<Longrightarrow> walks_to dbg info absec off ae ds cu0
        (sibling_loop dbg info absec (dwarf_calculate_info_section_end_ptr cu0) (cc_debug_offset cu0) p d cu ms)
        (p + length (die_bytes ds t)) d"
      and u: "unit_at absec off ae ds"
      and at: "children_at dbg info ds cu0 p ts" and ne: "ts \<noteq> []"
      and w: "in_walk absec off ae ds cu0 cu" and ms: "no_failures ms"
  shows "walks_to dbg info absec off ae ds cu0
      (sibling_loop dbg info absec (dwarf_calculate_info_section_end_ptr cu0) (cc_debug_offset cu0) p (Suc d) cu ms)
      (p + length (concat (map (die_bytes ds) ts)) + 1) d"
  using IH at ne w ms
proof (induction ts arbitrary: p cu ms)
  case (Cons t ts)
  let ?e = "dwarf_calculate_info_section_end_ptr cu0" and ?s = "cc_debug_offset cu0"
  let ?q = "p + length (die_bytes ds t)"
  have t: "tree_at dbg info ds cu0 p t" and rest: "children_at dbg info ds cu0 ?q ts"
    using Cons.prems(2) by (simp_all add: children_at_Cons)
  obtain cu1 ms1 where one: "sibling_loop dbg info absec ?e ?s p (Suc d) cu ms =
        go_on dbg info absec ?e ?s ?q (Suc d) cu1 ms1" "in_walk absec off ae ds cu0 cu1" "no_failures ms1"
    using Cons.prems(1) [OF _ t Cons.prems(4,5), of "Suc d"] unfolding walks_to_def by auto
  show ?case
  proof (cases ts)
    case Nil
    then have "info ! ?q = 0" "?q < ?e" using rest children_at_Nil by auto
    then show ?thesis using one go_on_zero [of ?q ?e info] Nil unfolding walks_to_def by auto
  next
    case (Cons t2 ts2)
    obtain k vals ch where t2: "t2 = Die k vals ch" by (cases t2)
    have "info ! ?q \<noteq> 0" "?q < ?e"
      using die_first [OF _ u] rest unfolding Cons children_at_Cons t2 by blast+
    then have "go_on dbg info absec ?e ?s ?q (Suc d) cu1 ms1 = sibling_loop dbg info absec ?e ?s ?q (Suc d) cu1 ms1"
      by (simp add: go_on_def)
    moreover have "walks_to dbg info absec off ae ds cu0 (sibling_loop dbg info absec ?e ?s ?q (Suc d) cu1 ms1)
        (?q + length (concat (map (die_bytes ds) ts)) + 1) d"
      by (rule Cons.IH) (use Cons.prems rest one Cons in auto)
    ultimately show ?thesis using one(1) by (simp add: add.assoc)
  qed
qed simp

lemma tree_walked:
  assumes set: "walkable info absec off ae ds cu0"
  shows "tree_at dbg info ds cu0 p t \<Longrightarrow> in_walk absec off ae ds cu0 cu \<Longrightarrow> no_failures ms \<Longrightarrow>
    walks_to dbg info absec off ae ds cu0
      (sibling_loop dbg info absec (dwarf_calculate_info_section_end_ptr cu0) (cc_debug_offset cu0) p d cu ms)
      (p + length (die_bytes ds t)) d"
proof (induction t arbitrary: p d cu ms)
  case (Die k vals children)
  let ?e = "dwarf_calculate_info_section_end_ptr cu0" and ?s = "cc_debug_offset cu0"
  let ?t = "Die k vals children" and ?h = "p + length (head_bytes (ds ! k) vals)"
  have u: "unit_at absec off ae ds" using set by (simp add: walkable_def unit_declares_def)
  note ms = next_no_failure [OF Die.prems(3)]
  obtain cu1 where step: "dwarf_next_die_info_ptr dbg info absec p cu ?e ?s True (fst (next_allocs ms)) =
      Some (DW_DLV_OK (if jumps (dc_attrs (ds ! k)) vals then (False, p + length (die_bytes ds ?t))
                       else (dc_child (ds ! k) \<noteq> 0, ?h)), cu1)" "in_walk absec off ae ds cu0 cu1"
    using next_die_at [OF set Die.prems(2,1), of "fst (next_allocs ms)" True ?s] ms by auto
  have at: "at_bytes info p ?e (die_bytes ds ?t)" using Die.prems(1) by (simp add: tree_at_def)
  have pos: "p < ?h" "?h \<le> p + length (die_bytes ds ?t)" "p + length (die_bytes ds ?t) \<le> ?e"
    using at by (simp add: head_bytes_def, simp, simp add: at_bytes_def del: die_bytes.simps)
  show ?case
  proof (cases "jumps (dc_attrs (ds ! k)) vals \<or> dc_child (ds ! k) = 0")
    case True
    then have "sibling_loop dbg info absec ?e ?s p d cu ms =
        go_on dbg info absec ?e ?s (p + length (die_bytes ds ?t)) d cu1 (snd (next_allocs ms))"
      using sibling_step [of dbg info absec p cu ?e ?s ms] step(1) pos by (auto split: if_splits)
    then show ?thesis using step(2) ms unfolding walks_to_def by blast
  next
    case False
    then have ch: "children_at dbg info ds cu0 ?h children" using tree_children [OF Die.prems(1)] by simp
    have next_step: "dwarf_next_die_info_ptr dbg info absec p cu ?e ?s True (fst (next_allocs ms)) =
        Some (DW_DLV_OK (True, ?h), cu1)" using step(1) False by simp
    have len: "p + length (die_bytes ds ?t) = ?h + length (concat (map (die_bytes ds) children)) + 1"
      using False by simp
    have h: "?h < ?e" using pos len by linarith
    note one = sibling_step [OF next_step pos(1), of d]
    show ?thesis
    proof (cases children)
      case Nil
      then have "info ! ?h = 0" using ch children_at_Nil by simp
      then show ?thesis using one h step(2) ms Nil len unfolding walks_to_def by auto
    next
      case (Cons t2 ts2)
      obtain k2 vals2 ch2 where t2: "t2 = Die k2 vals2 ch2" by (cases t2)
      have "info ! ?h \<noteq> 0" using die_first [OF _ u] ch unfolding Cons children_at_Cons t2 by blast
      then have "sibling_loop dbg info absec ?e ?s p d cu ms =
          sibling_loop dbg info absec ?e ?s ?h (Suc d) cu1 (snd (next_allocs ms))" using one h by simp
      moreover have "walks_to dbg info absec off ae ds cu0
          (sibling_loop dbg info absec ?e ?s ?h (Suc d) cu1 (snd (next_allocs ms)))
          (?h + length (concat (map (die_bytes ds) children)) + 1) d"
        by (rule children_walked [OF Die.IH u ch _ step(2)]) (use Cons ms in auto)
      ultimately show ?thesis unfolding len by simp
    qed
  qed
qed

subsection \<open>The calls\<close>

text \<open>The entries of a level from \<open>p\<close>: what follows them is the byte 0 or the end of the unit.\<close>

definition level_at ::
    "dwarf_debug \<Rightarrow> byte list \<Rightarrow> abbrev_decl list \<Rightarrow> cu_context \<Rightarrow> nat \<Rightarrow> die_tree list \<Rightarrow> bool" where
  "level_at dbg info ds cu0 p ts \<longleftrightarrow> cc_debug_offset cu0 \<le> p \<and> placed_all dbg cu0 ds p ts
     \<and> at_bytes info p (dwarf_calculate_info_section_end_ptr cu0) (concat (map (die_bytes ds) ts))
     \<and> (let q = p + length (concat (map (die_bytes ds) ts))
        in q = dwarf_calculate_info_section_end_ptr cu0 \<or> info ! q = 0)"

lemma level_at_Cons: "level_at dbg info ds cu0 p (t # ts) \<longleftrightarrow>
    tree_at dbg info ds cu0 p t \<and> level_at dbg info ds cu0 (p + length (die_bytes ds t)) ts"
  by (auto simp: level_at_def tree_at_def at_bytes_append add.assoc Let_def)

lemma children_level: "children_at dbg info ds cu0 p ts \<Longrightarrow> level_at dbg info ds cu0 p ts"
  by (auto simp: children_at_def level_at_def Let_def at_bytes_append dest: at_bytes_first)

text \<open>What a call that looks for the first of these entries gives.\<close>

fun found_at :: "nat \<Rightarrow> abbrev_decl list \<Rightarrow> nat \<Rightarrow> die_tree list \<Rightarrow> (dw_error, die) dlv \<Rightarrow> bool" where
  "found_at off ds p [] r \<longleftrightarrow> r = DW_DLV_NO_ENTRY"
| "found_at off ds p (Die k vals children # ts) r \<longleftrightarrow> (\<exists>al.
     r = DW_DLV_OK \<lparr>di_debug_ptr = p, di_abbrev_code = dc_code (ds ! k), di_abbrev_list = al\<rparr>
     \<and> plain al = entry_of off ds k \<and> decl_filled (ds ! k) al)"

lemma die_at_found:
  assumes set: "walkable info absec off ae ds cu0" and w: "in_walk absec off ae ds cu0 cu"
      and t: "tree_at dbg info ds cu0 p (Die k vals children)" and m: "no_failure m"
      and first: "first \<Longrightarrow> is_cu_tag (ucast (dc_tag (ds ! k)))"
  shows "\<exists>r cu1. die_at_ptr dbg info absec cu p (dwarf_calculate_info_section_end_ptr cu0) missing first True m = Some (r, cu1)
    \<and> found_at off ds p (Die k vals children # ts) r \<and> in_walk absec off ae ds cu0 cu1"
proof -
  let ?e = "dwarf_calculate_info_section_end_ptr cu0" and ?d = "ds ! k"
  have u: "unit_declares absec off ae ds" "unit_at absec off ae ds" using set by (simp_all add: walkable_def unit_declares_def)
  have k: "k < length ds" and at: "at_bytes info p ?e (uleb (dc_code ?d))"
    using t by (simp_all add: tree_at_def head_ok_def head_bytes_def at_bytes_append)
  have code: "dc_code ?d \<noteq> 0" using unit_decl(2) [OF u(2) k] by (simp add: valid_decl_def)
  have fit: "p + length (uleb (dc_code ?d)) \<le> ?e" using at by (simp add: at_bytes_def)
  obtain al cc1 where found: "filled_abbrev absec missing (cc_abbrevs cu) (dc_code ?d) m = Some (DW_DLV_OK al, cc1)"
      "plain al = entry_of off ds k" "unit_ok absec off ae ds cc1"
      "abl_attr al = Some (map (\<lambda>a. ucast (at_name a)) (dc_attrs ?d))"
      "abl_form al = Some (map (\<lambda>a. ucast (at_form a)) (dc_attrs ?d))"
    using filled_abbrev_found [OF u(1) in_walk_same(4) [OF w] k] m unfolding no_failure_def by blast
  have tag: "abl_tag al = ucast (dc_tag ?d)" by (rule plain_fields(4) [OF found(2)])
  have "die_at_ptr dbg info absec cu p ?e missing first True m =
      Some (DW_DLV_OK \<lparr>di_debug_ptr = p, di_abbrev_code = dc_code ?d, di_abbrev_list = al\<rparr>, cu\<lparr>cc_abbrevs := cc1\<rparr>)"
    using code fit found(1) first by (simp add: die_at_ptr_def uword_at [OF at] tag)
  then show ?thesis using in_walk_next [OF w found(3)] found by (auto simp: decl_filled_def)
qed

lemma level_first: "level_at dbg info ds cu0 p ts \<Longrightarrow> unit_at absec off ae ds \<Longrightarrow>
    p \<le> dwarf_calculate_info_section_end_ptr cu0
    \<and> (p = dwarf_calculate_info_section_end_ptr cu0 \<or> info ! p = 0 \<longleftrightarrow> ts = [])"
proof (cases ts)
  case (Cons t ts')
  assume "level_at dbg info ds cu0 p ts" "unit_at absec off ae ds"
  then show ?thesis using die_first by (cases t) (fastforce simp: Cons level_at_Cons)
qed (auto simp: level_at_def at_bytes_def)

text \<open>
  \<open>dwarf_siblingof_b\<close> on an entry gives the entry's next sibling in the tree, with its declaration filled
  in, or no entry when it is the last of its level: it passes over all of the entry's
  descendants, by the values of \<open>DW_AT_sibling\<close> or by walking through them, whatever the state of the unit's abbreviations
  after earlier calls.
\<close>

lemma sibling_is_next:
  assumes set: "walkable info absec off ae ds cu0" and w: "in_walk absec off ae ds cu0 (de_cu_context rd)"
      and lev: "level_at dbg info ds cu0 p (t # ts)" and d: "di_debug_ptr d = p"
      and mem: "no_failure m" "no_failures ms"
  shows "\<exists>r rd1. dwarf_siblingof_b dbg info absec is_info rd (Some d) True m ms = Some (r, rd1)
    \<and> found_at off ds (p + length (die_bytes ds t)) ts r \<and> in_walk absec off ae ds cu0 (de_cu_context rd1)"
proof -
  let ?cu = "de_cu_context rd" and ?e = "dwarf_calculate_info_section_end_ptr cu0" and ?q = "p + length (die_bytes ds t)"
  have u: "unit_at absec off ae ds" using set by (simp add: walkable_def unit_declares_def)
  have t: "tree_at dbg info ds cu0 p t" and rest: "level_at dbg info ds cu0 ?q ts" using lev by (simp_all add: level_at_Cons)
  have p: "info ! p \<noteq> 0" using t die_first [OF _ u] by (cases t) blast
  note same = in_walk_same [OF w]
  obtain cu1 ms1 where walk: "sibling_loop dbg info absec ?e (cc_debug_offset cu0) p 0 ?cu ms =
        go_on dbg info absec ?e (cc_debug_offset cu0) ?q 0 cu1 ms1" and w1: "in_walk absec off ae ds cu0 cu1"
    using tree_walked [OF set t w mem(2)] unfolding walks_to_def by blast
  have loop: "sibling_loop dbg info absec ?e (cc_debug_offset cu0) p 0 ?cu ms = Some (DW_DLV_OK ?q, cu1, ms1)"
    using walk by (auto simp: go_on_def split: if_splits)
  note q = level_first [OF rest u]
  show ?thesis
  proof (cases ts)
    case Nil
    then show ?thesis using q p loop w1 d by (auto simp: dwarf_siblingof_b_def same Let_def)
  next
    case (Cons t2 ts2)
    obtain k vals ch where t2: "t2 = Die k vals ch" by (cases t2)
    have t2_at: "tree_at dbg info ds cu0 ?q (Die k vals ch)" using rest by (simp add: Cons t2 level_at_Cons)
    obtain r cu2 where die: "die_at_ptr dbg info absec cu1 ?q ?e DW_DLE_DIE_ABBREV_LIST_NULL False True m = Some (r, cu2)"
        "found_at off ds ?q (Die k vals ch # ts2) r" "in_walk absec off ae ds cu0 cu2"
      using die_at_found [OF set w1 t2_at mem(1), of False] by blast
    have "dwarf_siblingof_b dbg info absec is_info rd (Some d) True m ms = Some (r, rd\<lparr>de_cu_context := cu2\<rparr>)"
      using q p loop d die(1) Cons by (simp add: dwarf_siblingof_b_def same Let_def)
    then show ?thesis using die(2,3) by (auto simp: Cons t2)
  qed
qed

text \<open>\<open>dwarf_child\<close> gives an entry's first child; the last line is the position it keeps for an entry without children.\<close>

lemma skip_zeros_stop: "p = e \<or> info ! p \<noteq> 0 \<Longrightarrow> skip_zeros info p e = p"
  by (subst skip_zeros.simps) auto

lemma skip_zeros_step: "p < e \<Longrightarrow> info ! p = 0 \<Longrightarrow> skip_zeros info p e = skip_zeros info (p + 1) e"
  by (subst skip_zeros.simps) simp

lemma child_is_first:
  assumes set: "walkable info absec off ae ds cu0" and w: "in_walk absec off ae ds cu0 (de_cu_context rd)"
      and t: "tree_at dbg info ds cu0 p (Die k vals children)" and d: "di_debug_ptr d = p"
      and mem: "no_failure m1" "no_failure m2"
  shows "\<exists>r rd1. dwarf_child dbg info absec rd d True m1 m2 = Some (r, rd1)
    \<and> found_at off ds (p + length (head_bytes (ds ! k) vals)) children r \<and> in_walk absec off ae ds cu0 (de_cu_context rd1)
    \<and> de_last_die rd1 = Some d
    \<and> (children = [] \<longrightarrow> de_last_di_ptr rd1 =
        Some (skip_zeros info (p + length (die_bytes ds (Die k vals children))) (dwarf_calculate_info_section_end_ptr cu0)))"
proof -
  let ?cu = "de_cu_context rd" and ?e = "dwarf_calculate_info_section_end_ptr cu0"
  let ?h = "p + length (head_bytes (ds ! k) vals)"
  have u: "unit_at absec off ae ds" using set by (simp add: walkable_def unit_declares_def)
  note same = in_walk_same [OF w] and p = die_first [OF t u]
  obtain cu1 where step: "dwarf_next_die_info_ptr dbg info absec p ?cu ?e 0 False m1 =
      Some (DW_DLV_OK (dc_child (ds ! k) \<noteq> 0, ?h), cu1)" "in_walk absec off ae ds cu0 cu1"
    using next_die_at [OF set w t mem(1), of False 0] by auto
  show ?thesis
  proof (cases "dc_child (ds ! k) = 0")
    case True
    then have none: "children = []" "die_bytes ds (Die k vals children) = head_bytes (ds ! k) vals"
      using t by (simp_all add: tree_at_def)
    show ?thesis
      using p step d True none by (simp add: dwarf_child_def same Let_def del: die_bytes.simps)
  next
    case False
    have ch: "children_at dbg info ds cu0 ?h children" using tree_children [OF t False] .
    show ?thesis
    proof (cases children)
      case Nil
      have z: "info ! ?h = 0" "?h < ?e" using ch children_at_Nil by (auto simp: Nil)
      have "at_bytes info ?h ?e (uleb 0)" using ch by (simp add: children_at_def Nil uleb_zero)
      from uword_at [OF this] have dec: "DECODE_LEB128_UWORD_CK info ?h ?e = DW_DLV_OK (0, ?h + 1)" by (simp add: uleb_zero)
      show ?thesis using p step d False z dec by (simp add: dwarf_child_def same Let_def Nil)
    next
      case (Cons t2 ts2)
      obtain k2 vals2 ch2 where t2: "t2 = Die k2 vals2 ch2" by (cases t2)
      have t2_at: "tree_at dbg info ds cu0 ?h (Die k2 vals2 ch2)" using ch by (simp add: Cons t2 children_at_Cons)
      have at2: "at_bytes info ?h ?e (uleb (dc_code (ds ! k2)))" and k2: "k2 < length ds"
        using t2_at by (simp_all add: tree_at_def head_ok_def head_bytes_def at_bytes_append)
      have code: "dc_code (ds ! k2) \<noteq> 0" using unit_decl(2) [OF u k2] by (simp add: valid_decl_def)
      obtain r cu2 where die: "die_at_ptr dbg info absec cu1 ?h ?e DW_DLE_ABBREV_MISSING False True m2 = Some (r, cu2)"
          "found_at off ds ?h (Die k2 vals2 ch2 # ts2) r" "in_walk absec off ae ds cu0 cu2"
        using die_at_found [OF set step(2) t2_at mem(2), of False] by blast
      show ?thesis
        using p step(1) d False die code uword_at [OF at2] by (auto simp: dwarf_child_def same Let_def Cons t2)
    qed
  qed
qed

subsection \<open>Reading a tree back\<close>

text \<open>
  A caller that visits all entries of a level and below it with the two calls, as \<open>dwarfdump\<close> does; the number bounds
  the entries visited one below or after the other.
\<close>

datatype code_tree = Entry u64 "code_tree list"

primrec read_level ::
    "dwarf_debug \<Rightarrow> byte list \<Rightarrow> byte list \<Rightarrow> bool \<Rightarrow> nat \<Rightarrow> reading \<Rightarrow> die \<Rightarrow> (code_tree list \<times> reading) option" where
  "read_level dbg info absec is_info 0 rd d = None"
| "read_level dbg info absec is_info (Suc n) rd d =
     (case (case dwarf_child dbg info absec rd d True ([], []) ([], []) of
              Some (DW_DLV_OK c, rd1) \<Rightarrow> read_level dbg info absec is_info n rd1 c
            | Some (DW_DLV_NO_ENTRY, rd1) \<Rightarrow> Some ([], rd1)
            | _ \<Rightarrow> None) of
        None \<Rightarrow> None
      | Some (below, rd2) \<Rightarrow>
          (case dwarf_siblingof_b dbg info absec is_info rd2 (Some d) True ([], []) [] of
             Some (DW_DLV_OK s, rd3) \<Rightarrow>
               map_option (\<lambda>(more, rd4). (Entry (di_abbrev_code d) below # more, rd4))
                 (read_level dbg info absec is_info n rd3 s)
           | Some (DW_DLV_NO_ENTRY, rd3) \<Rightarrow> Some ([Entry (di_abbrev_code d) below], rd3)
           | _ \<Rightarrow> None))"

primrec codes :: "abbrev_decl list \<Rightarrow> die_tree \<Rightarrow> code_tree" where
  "codes ds (Die k vals children) = Entry (dc_code (ds ! k)) (map (codes ds) children)"

fun entries :: "die_tree \<Rightarrow> nat" where
  "entries (Die k vals children) = Suc (sum_list (map entries children))"

lemma no_failure_Nil: "no_failure ([], [])" "no_failures []"
  by (simp_all add: no_failure_def no_failures_def)

lemma level_read:
  assumes set: "walkable info absec off ae ds cu0"
  shows "in_walk absec off ae ds cu0 (de_cu_context rd) \<Longrightarrow> level_at dbg info ds cu0 p ts \<Longrightarrow>
    found_at off ds p ts (DW_DLV_OK d) \<Longrightarrow> sum_list (map entries ts) \<le> n \<Longrightarrow>
    \<exists>rd1. read_level dbg info absec is_info n rd d = Some (map (codes ds) ts, rd1)
      \<and> in_walk absec off ae ds cu0 (de_cu_context rd1)"
proof (induction n arbitrary: rd p ts d)
  case 0
  then show ?case by (cases ts; cases "hd ts") auto
next
  case (Suc n)
  obtain k vals ch ts' where ts: "ts = Die k vals ch # ts'"
    using Suc.prems(3) by (cases ts; cases "hd ts") auto
  let ?t = "Die k vals ch"
  have d: "di_debug_ptr d = p" "di_abbrev_code d = dc_code (ds ! k)" using Suc.prems(3) by (auto simp: ts)
  have t: "tree_at dbg info ds cu0 p ?t" and rest: "level_at dbg info ds cu0 (p + length (die_bytes ds ?t)) ts'"
    using Suc.prems(2) by (simp_all add: ts level_at_Cons)
  let ?h = "p + length (head_bytes (ds ! k) vals)"
  obtain r rd1 where child: "dwarf_child dbg info absec rd d True ([], []) ([], []) = Some (r, rd1)"
      "found_at off ds ?h ch r" "in_walk absec off ae ds cu0 (de_cu_context rd1)"
    using child_is_first [OF set Suc.prems(1) t d(1) no_failure_Nil(1) no_failure_Nil(1)] by blast
  have size: "sum_list (map entries ch) \<le> n" "sum_list (map entries ts') \<le> n" using Suc.prems(4) by (simp_all add: ts)
  have below: "\<exists>rd2. (case r of DW_DLV_OK c \<Rightarrow> read_level dbg info absec is_info n rd1 c
            | DW_DLV_NO_ENTRY \<Rightarrow> Some ([], rd1) | DW_DLV_ERROR e \<Rightarrow> None) = Some (map (codes ds) ch, rd2) \<and> in_walk absec off ae ds cu0 (de_cu_context rd2)"
  proof (cases ch)
    case Nil
    then show ?thesis using child(2,3) by simp
  next
    case (Cons t2 ts2)
    obtain c where c: "r = DW_DLV_OK c" using child(2) by (cases t2) (auto simp: Cons)
    have "dc_child (ds ! k) \<noteq> 0" using t by (auto simp: tree_at_def Cons)
    then have "level_at dbg info ds cu0 ?h ch" by (rule children_level [OF tree_children [OF t]])
    from Suc.IH [OF child(3) this] child(2) size(1) c show ?thesis by simp
  qed
  then obtain rd2 where b: "(case r of DW_DLV_OK c \<Rightarrow> read_level dbg info absec is_info n rd1 c
            | DW_DLV_NO_ENTRY \<Rightarrow> Some ([], rd1) | DW_DLV_ERROR e \<Rightarrow> None) = Some (map (codes ds) ch, rd2)" and w2: "in_walk absec off ae ds cu0 (de_cu_context rd2)"
    by blast
  obtain r3 rd3 where sib: "dwarf_siblingof_b dbg info absec is_info rd2 (Some d) True ([], []) [] = Some (r3, rd3)"
      "found_at off ds (p + length (die_bytes ds ?t)) ts' r3" "in_walk absec off ae ds cu0 (de_cu_context rd3)"
    using sibling_is_next [OF set w2 Suc.prems(2) [unfolded ts] d(1) no_failure_Nil] by blast
  show ?case
  proof (cases ts')
    case Nil
    then show ?thesis
      unfolding read_level.simps child(1) option.case prod.case b sib(1) using sib(2,3) d by (simp add: ts)
  next
    case (Cons t2 ts2)
    obtain s where s: "r3 = DW_DLV_OK s" using sib(2) by (cases t2) (auto simp: Cons)
    obtain rd4 where "read_level dbg info absec is_info n rd3 s = Some (map (codes ds) ts', rd4)"
        "in_walk absec off ae ds cu0 (de_cu_context rd4)"
      using Suc.IH [OF sib(3) rest _ size(2)] sib(2) unfolding s by blast
    then show ?thesis
      unfolding read_level.simps child(1) option.case prod.case b sib(1) s dlv.case using d by (simp add: ts)
  qed
qed

text \<open>
  The header of a unit as DWARF defines it: \<open>ut\<close> is the unit type of DWARF 5, \<open>rest\<close> holds the address size, the offset of the
  abbreviations, and what the unit's kind adds.
\<close>

definition header_bytes :: "dwarf_debug \<Rightarrow> cu_context \<Rightarrow> byte \<Rightarrow> byte list \<Rightarrow> byte list" where
  "header_bytes dbg cu ut rest =
     initial_length dbg (cc_length_size cu = 8) (of_nat (cc_length cu)) @ number_bytes dbg 2 (ucast (cc_version_stamp cu))
     @ (if cc_version_stamp cu = 5 then [ut] else []) @ rest"

definition header_ok :: "dwarf_debug \<Rightarrow> bool \<Rightarrow> cu_context \<Rightarrow> byte \<Rightarrow> byte list \<Rightarrow> bool" where
  "header_ok dbg is_info cu ut rest \<longleftrightarrow>
     (cc_length_size cu = 8 \<and> cc_extension_size cu = 4
      \<or> cc_length_size cu = 4 \<and> cc_extension_size cu = 0 \<and> 0 < cc_length cu \<and> cc_length cu < 0xfffffff0)
     \<and> cc_version_stamp cu \<in> {2, 3, 4, 5}
     \<and> length rest = cc_length_size cu + 1
         + (if cc_version_stamp cu = 5
            then if ut \<in> {2, 6} then 8 + cc_length_size cu else if ut \<in> {4, 5} then 8 else 0
            else if cc_version_stamp cu = 4 \<and> \<not> is_info then 8 + cc_length_size cu else 0)
     \<and> (cc_version_stamp cu = 5 \<longrightarrow> ut \<in> {1, 2, 3, 4, 5, 6})"

lemma read_byte: "at_bytes info p e [b] \<Longrightarrow> READ_UNALIGNED_CK dbg info p 1 e = DW_DLV_OK (ucast b)"
proof -
  assume at: "at_bytes info p e [b]"
  have "ucast (ucast b :: u64) = b" by (rule bit_word_eqI) (simp add: bit_simps)
  then have "number_bytes dbg 1 (ucast b) = [b]" by (simp add: number_bytes_def)
  then have "READ_UNALIGNED_CK dbg info p 1 e = DW_DLV_OK (take_bit (8 * 1) (ucast b))"
    using at by (intro read_number) simp_all
  moreover have "take_bit 8 (ucast b :: u64) = ucast b"
    by (rule bit_word_eqI) (auto simp: bit_simps dest: bit_imp_le_length)
  ultimately show ?thesis by simp
qed

lemma header_measured:
  assumes ok: "header_ok dbg is_info cu ut rest" and info: "length info < 2 ^ 63"
      and at: "at_bytes info (cc_debug_offset cu) (length info) (header_bytes dbg cu ut rest)"
      and fits: "dwarf_calculate_info_section_end_ptr cu \<le> length info"
  shows "dwarf_length_of_cu_header dbg info (cc_debug_offset cu) is_info = DW_DLV_OK (length (header_bytes dbg cu ut rest))"
proof -
  let ?e = "length info" and ?p = "cc_debug_offset cu" and ?d64 = "cc_length_size cu = 8"
  let ?il = "initial_length dbg ?d64 (of_nat (cc_length cu))" and ?v = "ucast (cc_version_stamp cu) :: u64"
  have parts: "at_bytes info ?p ?e ?il" "at_bytes info (?p + length ?il) ?e (number_bytes dbg 2 ?v)"
    and ut: "cc_version_stamp cu = 5 \<Longrightarrow> at_bytes info (?p + length ?il + 2) ?e [ut]"
    using at unfolding header_bytes_def at_bytes_append by (auto simp: at_bytes_append)
  have len: "cc_length cu < 2 ^ 63" "cc_length cu + cc_length_size cu + cc_extension_size cu \<le> ?e"
    using fits info by (simp_all add: dwarf_calculate_info_section_end_ptr_def)
  have sizes: "cc_length_size cu = 8 \<and> cc_extension_size cu = 4 \<or> cc_length_size cu = 4 \<and> cc_extension_size cu = 0
      \<and> 0 < cc_length cu \<and> cc_length cu < 0xfffffff0" using ok by (simp add: header_ok_def)
  have un: "unat (of_nat (cc_length cu) :: u64) = cc_length cu" "unat (of_nat ?e :: u64) = ?e"
    using len info by (simp_all add: of_nat_small)
  have no: "\<not> (of_nat ?e :: u64) < of_nat (cc_length cu)" using un len by (simp add: word_less_nat_alt)
  have small: "\<not> ?d64 \<Longrightarrow> (of_nat (cc_length cu) :: u64) < DISTINGUISHED_VALUE \<and> (of_nat (cc_length cu) :: u64) \<noteq> 0"
    using sizes un(1) by (auto simp: word_less_nat_alt DISTINGUISHED_VALUE_def unat_eq_zero)
  have area: "READ_AREA_LENGTH_CK dbg info ?p (of_nat ?e) ?e =
      DW_DLV_OK (of_nat (cc_length cu), cc_length_size cu, cc_extension_size cu, ?p + length ?il)"
    using read_area_length [OF parts(1), of "of_nat ?e"] small no sizes by auto
  have sum: "\<not> (of_nat ?e :: u64) < of_nat (cc_length cu) + of_nat (cc_length_size cu) + of_nat (cc_extension_size cu)"
  proof -
    have "(of_nat (cc_length cu) + of_nat (cc_length_size cu) + of_nat (cc_extension_size cu) :: u64) =
        of_nat (cc_length cu + cc_length_size cu + cc_extension_size cu)" by simp
    then show ?thesis using len(2) info un(2) of_nat_small [of "cc_length cu + cc_length_size cu + cc_extension_size cu"]
      by (simp only: word_less_nat_alt) simp
  qed
  have version: "READ_UNALIGNED_CK dbg info (?p + length ?il) 2 ?e = DW_DLV_OK ?v"
  proof -
    have "take_bit 16 ?v = ?v" by (rule bit_word_eqI) (auto simp: bit_simps dest: bit_imp_le_length)
    then show ?thesis using read_number [OF parts(2)] by simp
  qed
  have il: "length ?il = cc_length_size cu + cc_extension_size cu" using sizes by (auto simp: initial_length_def)
  have unit_type: "cc_version_stamp cu = 5 \<Longrightarrow> READ_UNALIGNED_CK dbg info (?p + length ?il + 2) 1 ?e = DW_DLV_OK (ucast ut)"
    by (rule read_byte [OF ut])
  have total: "length (header_bytes dbg cu ut rest) =
      length ?il + 2 + (if cc_version_stamp cu = 5 then 1 else 0) + length rest" by (simp add: header_bytes_def)
  have rest: "length rest = cc_length_size cu + 1
         + (if cc_version_stamp cu = 5
            then if ut \<in> {2, 6} then 8 + cc_length_size cu else if ut \<in> {4, 5} then 8 else 0
            else if cc_version_stamp cu = 4 \<and> \<not> is_info then 8 + cc_length_size cu else 0)"
    using ok by (simp add: header_ok_def)
  have fits: "((of_nat ?e :: u64) < of_nat (cc_length cu) \<or> (of_nat ?e :: u64) <
      of_nat (cc_length cu) + of_nat (cc_length_size cu) + of_nat (cc_extension_size cu)) = False" using no sum by blast
  note start = dwarf_length_of_cu_header_def Let_def area dlv_bind.simps prod.case fits if_False version
  consider "cc_version_stamp cu = 5" "ut \<in> {1, 2, 3, 4, 5, 6}" | "cc_version_stamp cu = 4"
    | "cc_version_stamp cu = 2 \<or> cc_version_stamp cu = 3" using ok by (auto simp: header_ok_def)
  then show ?thesis
  proof cases
    case 1
    then show ?thesis unfolding start using unit_type by (auto simp: total rest il)
  next
    case 2
    then show ?thesis unfolding start by (simp add: total rest il)
  next
    case 3
    then show ?thesis unfolding start by (auto simp: total rest il)
  qed
qed

lemma unit_ok_fresh: "unit_ok absec off (unit_end absec off dwp) ds (fresh_unit off dwp)"
  by (auto simp: unit_ok_def unit_state_def fresh_unit_def unit_end_def table_ok_def contents_def entries_all_def
      split: option.splits)

text \<open>
  C2: A unit's whole tree of entries is read back. Whatever tree a producer writes after the unit's header (DWARF 2 to 5,
  either offset size, in \<open>.debug_info\<close> or \<open>.debug_types\<close>), in any mixture of forms, with or without values of
  \<open>DW_AT_sibling\<close>, \<open>dwarf_siblingof_b\<close> without an entry gives its root, and visiting children and siblings with
  \<open>dwarf_child\<close> and \<open>dwarf_siblingof_b\<close> visits exactly the entries of the tree, each with its code, in the producer's order
  and nesting, without reading outside the sections; no call needs more than the entries' number as its bound.
\<close>

theorem tree_read_back:
  fixes cu rd
  defines "cu \<equiv> de_cu_context rd"
  assumes decls: "unit_declares absec off (unit_end absec off dwp) ds" and fresh: "cc_abbrevs cu = fresh_unit off dwp"
      and header: "header_ok dbg is_info cu ut rest"
        "at_bytes info (cc_debug_offset cu) (length info) (header_bytes dbg cu ut rest)"
      and tree: "level_at dbg info ds cu (cc_debug_offset cu + length (header_bytes dbg cu ut rest)) [t]"
      and root: "t = Die k vals children" "is_cu_tag (ucast (dc_tag (ds ! k)))"
      and size: "length info < 2 ^ 63"
  shows "\<exists>d rd1 rd2. dwarf_siblingof_b dbg info absec is_info rd None True ([], []) [] = Some (DW_DLV_OK d, rd1)
    \<and> read_level dbg info absec is_info (entries t) rd1 d = Some ([codes ds t], rd2)"
proof -
  let ?p = "cc_debug_offset cu + length (header_bytes dbg cu ut rest)" and ?e = "dwarf_calculate_info_section_end_ptr cu"
  let ?ae = "unit_end absec off dwp"
  have end_in: "?e \<le> length info" using tree by (simp add: level_at_Cons tree_at_def at_bytes_def)
  have set: "walkable info absec off ?ae ds cu" using decls size end_in by (simp add: walkable_def)
  have u: "unit_at absec off ?ae ds" using decls by (simp add: unit_declares_def)
  let ?cu = "cu\<lparr>cc_cu_die_offset_present := True, cc_cu_die_global_sec_offset := ?p\<rparr>"
  have w: "in_walk absec off ?ae ds cu ?cu" by (rule in_walk_start) (simp add: fresh unit_ok_fresh)
  have t: "tree_at dbg info ds cu ?p (Die k vals children)" using tree by (simp add: level_at_Cons root(1))
  obtain r cu1 where die: "die_at_ptr dbg info absec ?cu ?p ?e DW_DLE_DIE_ABBREV_LIST_NULL True True ([], []) = Some (r, cu1)"
      "found_at off ds ?p [Die k vals children] r" "in_walk absec off ?ae ds cu cu1"
    using die_at_found [OF set w t no_failure_Nil(1) root(2)] by blast
  obtain d where d: "r = DW_DLV_OK d" using die(2) by auto
  have "dwarf_length_of_cu_header dbg info (cc_debug_offset cu) is_info = DW_DLV_OK (length (header_bytes dbg cu ut rest))"
    by (rule header_measured [OF header(1) size header(2) end_in])
  then have first: "dwarf_siblingof_b dbg info absec is_info rd None True ([], []) [] =
      Some (DW_DLV_OK d, rd\<lparr>de_cu_context := cu1\<rparr>)"
    using die(1) d die_first [OF t u] by (simp add: dwarf_siblingof_b_def Let_def flip: cu_def)
  have "\<exists>rd2. read_level dbg info absec is_info (entries t) (rd\<lparr>de_cu_context := cu1\<rparr>) d = Some (map (codes ds) [t], rd2)
      \<and> in_walk absec off ?ae ds cu (de_cu_context rd2)"
    by (rule level_read [OF set _ tree]) (use die d root(1) in simp_all)
  then show ?thesis using first by auto
qed

text \<open>Little-endian DWARF 4: a unit with a function (with \<open>DW_AT_sibling\<close>) that has a variable, and a variable.\<close>

definition walk_decls :: "abbrev_decl list" where
  "walk_decls = [\<lparr>dc_code = 1, dc_tag = 0x11, dc_child = 1, dc_attrs = [\<lparr>at_name = 0x13, at_form = 0x0b, at_const = 0\<rparr>]\<rparr>,
     \<lparr>dc_code = 2, dc_tag = 0x2e, dc_child = 1, dc_attrs = [\<lparr>at_name = 0x01, at_form = 0x11, at_const = 0\<rparr>]\<rparr>,
     \<lparr>dc_code = 3, dc_tag = 0x34, dc_child = 0, dc_attrs = []\<rparr>]"

definition walk_absec :: "byte list" where
  "walk_absec = concat (map decl_bytes walk_decls) @ [0]"

definition walk_tree :: die_tree where
  "walk_tree = Die 0 [(0x0b, [12])] [Die 1 [(0x11, [17])] [Die 2 [] []], Die 2 [] []]"

definition walk_info :: "byte list" where
  "walk_info = [15, 0, 0, 0, 4, 0, 0, 0, 0, 0, 8, 1, 12, 2, 17, 3, 0, 3, 0]"

definition walk_dbg :: dwarf_debug where
  "walk_dbg = \<lparr>de_swap = False, de_big_endian_object = False, de_length_size = 4, de_pointer_size = 8,
     de_assume_string_in_bounds = False\<rparr>"

definition walk_reading :: reading where
  "walk_reading = \<lparr>de_cu_context = \<lparr>cc_abbrevs = fresh_unit 0 None, cc_length = 15, cc_length_size = 4,
       cc_extension_size = 0, cc_version_stamp = 4, cc_address_size = 8, cc_debug_offset = 0,
       cc_cu_die_offset_present = False, cc_cu_die_global_sec_offset = 0\<rparr>,
     de_last_die = None, de_last_di_ptr = None\<rparr>"

lemma walk_unit: "unit_declares walk_absec 0 (unit_end walk_absec 0 None) walk_decls"
proof -
  have "decl_start 0 walk_decls (length walk_decls) = length (concat (map decl_bytes walk_decls))"
    by (simp add: decl_start_def)
  then have "walk_absec ! decl_start 0 walk_decls (length walk_decls) = 0" by (simp add: walk_absec_def nth_append)
  moreover have "\<forall>d \<in> set walk_decls. valid_decl d"
    by (simp add: walk_decls_def valid_decl_def valid_attr_def DW_TAG_hi_user_def DW_AT_hi_user_def
        dwarf_valid_form_we_know_def form_codes)
  moreover have "distinct (map dc_code walk_decls)" by (simp add: walk_decls_def)
  ultimately have "unit_at walk_absec 0 (unit_end walk_absec 0 None) walk_decls"
    by (simp add: unit_at_def unit_end_def at_bytes_def) (simp add: walk_absec_def)
  then show ?thesis by (simp add: unit_declares_def walk_decls_def)
qed

lemma uleb_small: "uleb 1 = [1]" "uleb 2 = [2]" "uleb 3 = [3]"
  unfolding uleb_def by code_simp+

lemma walk_bytes: "die_bytes walk_decls walk_tree = [1, 12, 2, 17, 3, 0, 3, 0]"
  by (simp add: walk_tree_def walk_decls_def head_bytes_def uleb_small form_codes)

lemma walk_header: "header_bytes walk_dbg (de_cu_context walk_reading) 0 [0, 0, 0, 0, 8] = [15, 0, 0, 0, 4, 0, 0, 0, 0, 0, 8]"
proof -
  have "number_bytes walk_dbg 4 15 = [15, 0, 0, 0]" "number_bytes walk_dbg 2 4 = [4, 0]" by code_simp+
  then show ?thesis by (simp add: header_bytes_def walk_reading_def initial_length_def)
qed

lemma walk_offset: "cc_debug_offset (de_cu_context walk_reading) = 0" "cc_abbrevs (de_cu_context walk_reading) = fresh_unit 0 None"
  by (simp_all add: walk_reading_def)

lemma walk_values: "fixed_size dbg v a l 0x0b = Some 1" "fixed_size dbg v a l 0x11 = Some 1"
  by (simp_all add: fixed_size_def form_codes)

lemma walk_level: "level_at walk_dbg walk_info walk_decls (de_cu_context walk_reading) 11 [walk_tree]"
proof -
  have vals: "unit_value dbg cu 0x0b [b]" "unit_value dbg cu 0x11 [b]" for dbg cu b
    unfolding unit_value_def by (rule form_value.fixed [OF walk_values(1)], simp, rule form_value.fixed [OF walk_values(2)], simp)
  have sib: "sibling_value walk_dbg 17 0x11 [17]"
    by (simp add: sibling_value_def form_codes number_bytes_def walk_dbg_def)
  show ?thesis
    unfolding level_at_Cons tree_at_def walk_bytes
    by (simp add: walk_tree_def walk_decls_def head_ok_def head_bytes_def uleb_small form_codes value_ok_def vals sib
        DW_AT_sibling_def walk_reading_def level_at_def at_bytes_def dwarf_calculate_info_section_end_ptr_def walk_info_def)
qed

theorem tree_read_back_witness:
  "\<exists>d rd1 rd2. dwarf_siblingof_b walk_dbg walk_info walk_absec True walk_reading None True ([], []) [] = Some (DW_DLV_OK d, rd1)
    \<and> read_level walk_dbg walk_info walk_absec True 4 rd1 d = Some ([Entry 1 [Entry 2 [Entry 3 []], Entry 3 []]], rd2)"
proof -
  let ?cu = "de_cu_context walk_reading" and ?rest = "[0, 0, 0, 0, 8]"
  have ok: "header_ok walk_dbg True ?cu 0 ?rest" by (simp add: header_ok_def walk_reading_def)
  have at: "at_bytes walk_info (cc_debug_offset ?cu) (length walk_info) (header_bytes walk_dbg ?cu 0 ?rest)"
    unfolding walk_header walk_offset by (simp add: at_bytes_def walk_info_def)
  have len: "length (header_bytes walk_dbg ?cu 0 ?rest) = 11" unfolding walk_header by simp
  have level: "level_at walk_dbg walk_info walk_decls ?cu (cc_debug_offset ?cu + length (header_bytes walk_dbg ?cu 0 ?rest)) [walk_tree]"
    unfolding walk_offset len add_0 by (rule walk_level)
  have root: "is_cu_tag (ucast (dc_tag (walk_decls ! 0)))" by (simp add: is_cu_tag_def walk_decls_def)
  have size: "length walk_info < 2 ^ 63" by (simp add: walk_info_def)
  have shape: "entries walk_tree = 4" "codes walk_decls walk_tree = Entry 1 [Entry 2 [Entry 3 []], Entry 3 []]"
    by (simp_all add: walk_tree_def walk_decls_def)
  show ?thesis
    using tree_read_back [OF walk_unit walk_offset(2) ok at level walk_tree_def root size] unfolding shape .
qed

subsection \<open>Where a depth-first walk ends\<close>

text \<open>The position of the last entry below an entry.\<close>

function last_leaf :: "abbrev_decl list \<Rightarrow> nat \<Rightarrow> die_tree \<Rightarrow> nat"
  and last_in :: "abbrev_decl list \<Rightarrow> nat \<Rightarrow> die_tree \<Rightarrow> die_tree list \<Rightarrow> nat" where
  "last_leaf ds p (Die k vals []) = p"
| "last_leaf ds p (Die k vals (t # ts)) = last_in ds (p + length (head_bytes (ds ! k) vals)) t ts"
| "last_in ds p t [] = last_leaf ds p t"
| "last_in ds p t (u # us) = last_in ds (p + length (die_bytes ds t)) u us"
  by pat_completeness auto
termination
  by (relation "measure (\<lambda>x. case x of Inl (ds, p, t) \<Rightarrow> size t | Inr (ds, p, t, ts) \<Rightarrow> Suc (size t + size_list size ts))") auto

text \<open>An entry without children at \<open>l\<close>, and only terminating bytes from its end to \<open>r\<close>.\<close>

definition leaf_before ::
    "dwarf_debug \<Rightarrow> byte list \<Rightarrow> abbrev_decl list \<Rightarrow> cu_context \<Rightarrow> nat \<Rightarrow> nat \<Rightarrow> bool" where
  "leaf_before dbg info ds cu0 l r \<longleftrightarrow> (\<exists>k vals. tree_at dbg info ds cu0 l (Die k vals [])
     \<and> l + length (die_bytes ds (Die k vals [])) \<le> r
     \<and> (\<forall>x. l + length (die_bytes ds (Die k vals [])) \<le> x \<and> x < r \<longrightarrow> info ! x = 0))"

lemma leaf_before_Suc: "leaf_before dbg info ds cu0 l r \<Longrightarrow> info ! r = 0 \<Longrightarrow> leaf_before dbg info ds cu0 l (r + 1)"
  unfolding leaf_before_def by (metis Suc_eq_plus1 le_SucI less_SucE)

lemma last_leaf_before:
  "tree_at dbg info ds cu0 p t \<Longrightarrow> leaf_before dbg info ds cu0 (last_leaf ds p t) (p + length (die_bytes ds t))"
  "children_at dbg info ds cu0 p (t # ts) \<Longrightarrow>
   leaf_before dbg info ds cu0 (last_in ds p t ts) (p + length (concat (map (die_bytes ds) (t # ts))) + 1)"
proof (induction ds p t and ds p t ts rule: last_leaf_last_in.induct)
  case (1 ds p k vals)
  then show ?case
    unfolding leaf_before_def last_leaf.simps by (intro exI [of _ k] exI [of _ vals] conjI) (auto simp del: die_bytes.simps)
next
  case (2 ds p k vals t ts)
  then have c: "dc_child (ds ! k) \<noteq> 0" by (auto simp: tree_at_def)
  show ?case using 2(1) [OF tree_children [OF 2(2) c]] c by (simp add: add.assoc)
next
  case (3 ds p t)
  then show ?case using leaf_before_Suc by (fastforce simp: children_at_Cons dest: children_at_Nil)
next
  case (4 ds p t u us)
  then show ?case by (simp add: children_at_Cons add.assoc)
qed

lemma skip_zeros_to: "q \<le> r \<Longrightarrow> r \<le> e \<Longrightarrow> \<forall>x. q \<le> x \<and> x < r \<longrightarrow> info ! x = 0 \<Longrightarrow> r = e \<or> info ! r \<noteq> 0 \<Longrightarrow>
    skip_zeros info q e = r"
proof (induction "r - q" arbitrary: q)
  case 0
  then show ?case using skip_zeros_stop [of r e info] by simp
next
  case (Suc n)
  then have "skip_zeros info q e = skip_zeros info (q + 1) e" by (intro skip_zeros_step) auto
  also have "\<dots> = r" by (rule Suc.hyps(1)) (use Suc in auto)
  finally show ?case .
qed

text \<open>
  C21: A depth-first walk can check each \<open>DW_AT_sibling\<close> it meets: when it has asked for the children of the last entry below
  an entry (and got none), the position kept by \<open>dwarf_child\<close> is that of the entry's next sibling, so that
  \<open>dwarf_validate_die_sibling\<close> accepts exactly this sibling and no entry elsewhere.
\<close>

theorem walk_ends_at_sibling:
  assumes "walkable info absec off ae ds cu0" "in_walk absec off ae ds cu0 (de_cu_context rd)"
      and "level_at dbg info ds cu0 p (t # t2 # ts)" "di_debug_ptr d = last_leaf ds p t"
  shows "\<exists>rd1. dwarf_child dbg info absec rd d True ([], []) ([], []) = Some (DW_DLV_NO_ENTRY, rd1)
    \<and> (\<forall>s. fst (dwarf_validate_die_sibling rd1 s) \<longleftrightarrow> di_debug_ptr s = p + length (die_bytes ds t))"
proof -
  let ?q = "p + length (die_bytes ds t)" and ?e = "dwarf_calculate_info_section_end_ptr cu0"
  have u: "unit_at absec off ae ds" using assms(1) by (simp add: walkable_def unit_declares_def)
  have t: "tree_at dbg info ds cu0 p t" and rest: "level_at dbg info ds cu0 ?q (t2 # ts)"
    using assms(3) by (simp_all add: level_at_Cons)
  obtain k vals where leaf: "tree_at dbg info ds cu0 (last_leaf ds p t) (Die k vals [])"
      "last_leaf ds p t + length (die_bytes ds (Die k vals [])) \<le> ?q"
      "\<forall>x. last_leaf ds p t + length (die_bytes ds (Die k vals [])) \<le> x \<and> x < ?q \<longrightarrow> info ! x = 0"
    using last_leaf_before(1) [OF t] unfolding leaf_before_def by blast
  note q = level_first [OF rest u]
  have stop: "skip_zeros info (last_leaf ds p t + length (die_bytes ds (Die k vals []))) ?e = ?q"
    by (rule skip_zeros_to [OF leaf(2) _ leaf(3)]) (use q in auto)
  obtain r rd1 where "dwarf_child dbg info absec rd d True ([], []) ([], []) = Some (r, rd1)" "r = DW_DLV_NO_ENTRY"
      "de_last_die rd1 = Some d" "de_last_di_ptr rd1 = Some ?q"
    using child_is_first [OF assms(1,2) leaf(1) assms(4) no_failure_Nil(1) no_failure_Nil(1)] stop by auto
  then show ?thesis by (auto simp: dwarf_validate_die_sibling_def)
qed

theorem walk_ends_at_sibling_witness:
  "\<exists>rd1. dwarf_child walk_dbg walk_info walk_absec walk_reading
       \<lparr>di_debug_ptr = 15, di_abbrev_code = 3, di_abbrev_list = entry_of 0 walk_decls 2\<rparr> True ([], []) ([], [])
       = Some (DW_DLV_NO_ENTRY, rd1)
    \<and> fst (dwarf_validate_die_sibling rd1 \<lparr>di_debug_ptr = 17, di_abbrev_code = 3, di_abbrev_list = entry_of 0 walk_decls 2\<rparr>)"
proof -
  let ?cu = "de_cu_context walk_reading"
  have "children_at walk_dbg walk_info walk_decls ?cu (11 + 2) [Die 1 [(0x11, [17])] [Die 2 [] []], Die 2 [] []]"
  proof -
    have t: "tree_at walk_dbg walk_info walk_decls ?cu 11 walk_tree" using walk_level by (simp add: level_at_Cons)
    have "length (head_bytes (walk_decls ! 0) [(0x0b, [12])]) = 2" "dc_child (walk_decls ! 0) \<noteq> 0"
      by (simp_all add: head_bytes_def walk_decls_def uleb_small form_codes)
    then show ?thesis using tree_children [OF t [unfolded walk_tree_def]] by simp
  qed
  then have level: "level_at walk_dbg walk_info walk_decls ?cu 13 [Die 1 [(0x11, [17])] [Die 2 [] []], Die 2 [] []]"
    using children_level by simp
  have bytes: "die_bytes walk_decls (Die 1 [(0x11, [17])] [Die 2 [] []]) = [2, 17, 3, 0]"
    "length (head_bytes (walk_decls ! 1) [(0x11, [17])]) = 2"
    by (simp_all add: walk_decls_def head_bytes_def uleb_small form_codes)
  have set: "walkable walk_info walk_absec 0 (unit_end walk_absec 0 None) walk_decls ?cu"
    unfolding walkable_def using walk_unit
    by (simp add: walk_info_def dwarf_calculate_info_section_end_ptr_def walk_reading_def)
  have w: "in_walk walk_absec 0 (unit_end walk_absec 0 None) walk_decls ?cu (de_cu_context walk_reading)"
    by (rule in_walk_start(2)) (simp add: walk_offset unit_ok_fresh)
  show ?thesis
    using walk_ends_at_sibling [OF set w level,
        of "\<lparr>di_debug_ptr = 15, di_abbrev_code = 3, di_abbrev_list = entry_of 0 walk_decls 2\<rparr>"]
    unfolding bytes(1) by (auto simp: bytes(2) [simplified])
qed

end
