(* ===== verification/Line_Program.thy ===== *)
theory Line_Program
  imports Forms
begin

text \<open>
  Running a line number program: \<open>read_line_table_program\<close> (\<open>dwarf_line_table_reader_common.h\<close>, compiled without
  \<open>PRINTING_DETAILS\<close> in \<open>dwarf_line.c\<close>) with the structures and macros of \<open>dwarf_line.h\<close>. The chain of rows is a
  list, the first row first. After an error the rows are freed and the caller gives the context up, so errors carry no state.
\<close>

subsection \<open>Registers, rows, context\<close>

definition DW_LNS_copy :: byte where "DW_LNS_copy = 0x01"
definition DW_LNS_advance_pc :: byte where "DW_LNS_advance_pc = 0x02"
definition DW_LNS_advance_line :: byte where "DW_LNS_advance_line = 0x03"
definition DW_LNS_set_file :: byte where "DW_LNS_set_file = 0x04"
definition DW_LNS_set_column :: byte where "DW_LNS_set_column = 0x05"
definition DW_LNS_negate_stmt :: byte where "DW_LNS_negate_stmt = 0x06"
definition DW_LNS_set_basic_block :: byte where "DW_LNS_set_basic_block = 0x07"
definition DW_LNS_const_add_pc :: byte where "DW_LNS_const_add_pc = 0x08"
definition DW_LNS_fixed_advance_pc :: byte where "DW_LNS_fixed_advance_pc = 0x09"
definition DW_LNS_set_prologue_end :: byte where "DW_LNS_set_prologue_end = 0x0a"
definition DW_LNS_set_epilogue_begin :: byte where "DW_LNS_set_epilogue_begin = 0x0b"
definition DW_LNS_set_isa :: byte where "DW_LNS_set_isa = 0x0c"
definition DW_LNS_set_subprogram :: byte where "DW_LNS_set_subprogram = 0x0d"
definition DW_LNS_inlined_call :: byte where "DW_LNS_inlined_call = 0x0e"
definition DW_LNS_pop_context :: byte where "DW_LNS_pop_context = 0x0f"
definition DW_LNE_end_sequence :: byte where "DW_LNE_end_sequence = 0x01"
definition DW_LNE_set_address :: byte where "DW_LNE_set_address = 0x02"
definition DW_LNE_define_file :: byte where "DW_LNE_define_file = 0x03"
definition DW_LNE_set_discriminator :: byte where "DW_LNE_set_discriminator = 0x04"
definition DW_LNE_LEN_MAX :: u64 where "DW_LNE_LEN_MAX = 100"
definition MAX_LINE_OP_CODE :: byte where "MAX_LINE_OP_CODE = 255"

lemmas line_codes =
  DW_LNS_copy_def DW_LNS_advance_pc_def DW_LNS_advance_line_def DW_LNS_set_file_def DW_LNS_set_column_def
  DW_LNS_negate_stmt_def DW_LNS_set_basic_block_def DW_LNS_const_add_pc_def DW_LNS_fixed_advance_pc_def
  DW_LNS_set_prologue_end_def DW_LNS_set_epilogue_begin_def DW_LNS_set_isa_def DW_LNS_set_subprogram_def
  DW_LNS_inlined_call_def DW_LNS_pop_context_def DW_LNE_end_sequence_def DW_LNE_set_address_def
  DW_LNE_define_file_def DW_LNE_set_discriminator_def

record line_registers =
  lr_address :: u64
  lr_file :: u64
  lr_line :: u64
  lr_column :: u64
  lr_is_stmt :: u32
  lr_basic_block :: bool
  lr_end_sequence :: bool
  lr_prologue_end :: bool
  lr_epilogue_begin :: bool
  lr_isa :: byte
  lr_op_index :: u64
  lr_discriminator :: u64
  lr_call_context :: u64
  lr_subprogram :: u64

record line_row =
  li_address :: u64
  li_discriminator :: u64
  li_file :: u64
  li_line :: u64
  li_column :: "16 word"
  li_isa :: byte
  li_call_context :: u64
  li_subprogram :: u64
  li_is_stmt :: bool
  li_basic_block :: bool
  li_end_sequence :: bool
  li_prologue_end :: bool
  li_epilogue_begin :: bool
  li_is_addr_set :: bool
  li_is_actuals_table :: bool

text \<open>The file name is its position in the section.\<close>

record file_entry =
  fi_file_name :: nat
  fi_dir_index :: u64
  fi_time_last_mod :: u64
  fi_file_length :: u64
  fi_dir_index_present :: bool
  fi_time_last_mod_present :: bool
  fi_file_length_present :: bool

text \<open>The pointers of the context are positions in the section as well.\<close>

record line_context =
  lc_section_offset :: u64
  lc_version_number :: "16 word"
  lc_total_length :: u64
  lc_length_field_length :: nat
  lc_address_size :: byte
  lc_segment_selector_size :: byte
  lc_prologue_length :: u64
  lc_actuals_table_offset :: u64
  lc_minimum_instruction_length :: byte
  lc_maximum_ops_per_instruction :: byte
  lc_line_ptr_start :: nat
  lc_line_ptr_end :: nat
  lc_line_prologue_start :: nat
  lc_default_is_stmt :: byte
  lc_line_base :: byte
  lc_line_range :: byte
  lc_opcode_base :: byte
  lc_opcode_length_table :: nat
  lc_std_op_count :: byte
  lc_include_directories :: "nat list"
  lc_file_entries :: "file_entry list"
  lc_file_entry_baseindex :: nat
  lc_file_entry_endindex :: nat
  lc_table_count :: nat
  lc_linebuf_logicals :: "line_row list"
  lc_linebuf_actuals :: "line_row list"

definition dwarf_set_line_table_regs_default_values :: "byte \<Rightarrow> line_registers" where
  "dwarf_set_line_table_regs_default_values is_stmt =
     \<lparr>lr_address = 0, lr_file = 1, lr_line = 1, lr_column = 0, lr_is_stmt = ucast is_stmt, lr_basic_block = False,
      lr_end_sequence = False, lr_prologue_end = False, lr_epilogue_begin = False, lr_isa = 0, lr_op_index = 0,
      lr_discriminator = 0, lr_call_context = 0, lr_subprogram = 0\<rparr>"

definition dwarf_add_to_files_list :: "file_entry \<Rightarrow> line_context \<Rightarrow> line_context" where
  "dwarf_add_to_files_list fe ctx =
     (let n = length (lc_file_entries ctx) + 1 in
      ctx\<lparr>lc_file_entries := lc_file_entries ctx @ [fe],
          lc_file_entry_baseindex := (if lc_version_number ctx = 5 then 0 else 1),
          lc_file_entry_endindex := (if lc_version_number ctx = 5 then n else n + 1)\<rparr>)"

text \<open>The arguments that do not change, and the state of a run.\<close>

record line_args =
  la_dbg :: dwarf_debug
  la_section :: "byte list"
  la_end :: nat
  la_address_size :: nat
  la_doaddrs :: bool
  la_dolines :: bool
  la_is_single_table :: bool
  la_is_actuals_table :: bool

record line_state =
  ls_regs :: line_registers
  ls_rows :: "line_row list"
  ls_is_addr_set :: bool
  ls_context :: line_context
  ls_mem :: allocs

type_synonym line_result = "(dw_error, nat \<times> line_state) dlv"

definition read_uword_de :: "line_args \<Rightarrow> nat \<Rightarrow> (dw_error, u64 \<times> nat) dlv" where
  "read_uword_de a p = DECODE_LEB128_UWORD_CK (la_section a) p (la_end a)"

definition read_sword_de :: "line_args \<Rightarrow> nat \<Rightarrow> (dw_error, u64 \<times> nat) dlv" where
  "read_sword_de a p = DECODE_LEB128_SWORD_CK (la_section a) p (la_end a)"

subsection \<open>Adding a row\<close>

text \<open>The flags of a row are fields of one bit.\<close>

definition row_of :: "line_registers \<Rightarrow> bool \<Rightarrow> bool \<Rightarrow> bool \<Rightarrow> line_row" where
  "row_of regs end_sequence is_addr_set is_actuals =
     \<lparr>li_address = lr_address regs, li_discriminator = lr_discriminator regs, li_file = lr_file regs,
      li_line = lr_line regs, li_column = ucast (lr_column regs), li_isa = lr_isa regs,
      li_call_context = lr_call_context regs, li_subprogram = lr_subprogram regs, li_is_stmt = bit (lr_is_stmt regs) 0,
      li_basic_block = lr_basic_block regs, li_end_sequence = end_sequence, li_prologue_end = lr_prologue_end regs,
      li_epilogue_begin = lr_epilogue_begin regs, li_is_addr_set = is_addr_set, li_is_actuals_table = is_actuals\<rparr>"

text \<open>The row and its link are allocated.\<close>

definition add_row :: "line_row \<Rightarrow> line_state \<Rightarrow> (dw_error, line_state) dlv" where
  "add_row row st =
     (let (ok1, mem1) = alloc (ls_mem st) in
      if \<not> ok1 then DW_DLV_ERROR DW_DLE_ALLOC_FAIL
      else let (ok2, mem2) = alloc mem1 in
           if \<not> ok2 then DW_DLV_ERROR DW_DLE_ALLOC_FAIL
           else DW_DLV_OK (st\<lparr>ls_rows := ls_rows st @ [row], ls_mem := mem2\<rparr>))"

text \<open>A row that takes up the mark of \<open>DW_LNE_set_address\<close>, and the registers reset behind a row.\<close>

definition add_marked_row :: "line_args \<Rightarrow> bool \<Rightarrow> line_state \<Rightarrow> (dw_error, line_state) dlv" where
  "add_marked_row a end_sequence st =
     (if la_dolines a
      then add_row (row_of (ls_regs st) end_sequence (ls_is_addr_set st) (la_is_actuals_table a))
             (st\<lparr>ls_is_addr_set := False\<rparr>)
      else DW_DLV_OK st)"

definition after_row :: "line_state \<Rightarrow> line_state" where
  "after_row st = st\<lparr>ls_regs := (ls_regs st)\<lparr>lr_basic_block := False, lr_prologue_end := False,
     lr_epilogue_begin := False, lr_discriminator := 0\<rparr>\<rparr>"

subsection \<open>Special opcodes\<close>

definition advance_address :: "line_context \<Rightarrow> u64 \<Rightarrow> line_registers \<Rightarrow> line_registers" where
  "advance_address ctx operation_advance regs =
     (let min_length = ucast (lc_minimum_instruction_length ctx); max_ops = ucast (lc_maximum_ops_per_instruction ctx) in
      if lc_maximum_ops_per_instruction ctx < 2
      then regs\<lparr>lr_address := lr_address regs + operation_advance * min_length\<rparr>
      else regs\<lparr>lr_address := lr_address regs + min_length * ((lr_op_index regs + operation_advance) div max_ops),
                lr_op_index := (lr_op_index regs + operation_advance) mod max_ops\<rparr>)"

definition special_op :: "line_args \<Rightarrow> byte \<Rightarrow> nat \<Rightarrow> line_state \<Rightarrow> line_result" where
  "special_op a opcode p st =
     (let ctx = ls_context st;
          op = opcode - lc_opcode_base ctx;
          regs = advance_address ctx (ucast (op div lc_line_range ctx)) (ls_regs st);
          line = lr_line regs + scast (lc_line_base ctx) + ucast (op mod lc_line_range ctx)
      in if sint line < 0 then DW_DLV_ERROR DW_DLE_LINE_TABLE_LINENO_ERROR
         else dlv_bind (add_marked_row a (lr_epilogue_begin regs) (st\<lparr>ls_regs := regs\<lparr>lr_line := line\<rparr>\<rparr>)) (\<lambda>st1.
           DW_DLV_OK (p, after_row st1)))"

subsection \<open>Standard opcodes\<close>

definition lns_copy :: "line_args \<Rightarrow> nat \<Rightarrow> line_state \<Rightarrow> line_result" where
  "lns_copy a p st =
     dlv_bind (add_marked_row a (lr_end_sequence (ls_regs st)) st) (\<lambda>st1. DW_DLV_OK (p, after_row st1))"

definition lns_advance_pc :: "line_args \<Rightarrow> nat \<Rightarrow> line_state \<Rightarrow> line_result" where
  "lns_advance_pc a p st =
     dlv_bind (read_uword_de a p) (\<lambda>(leb128_num, p1).
       let regs = ls_regs st in
       DW_DLV_OK (p1, st\<lparr>ls_regs := regs\<lparr>lr_address := lr_address regs
         + ucast (lc_minimum_instruction_length (ls_context st)) * leb128_num\<rparr>\<rparr>))"

definition lns_advance_line :: "line_args \<Rightarrow> nat \<Rightarrow> line_state \<Rightarrow> line_result" where
  "lns_advance_line a p st =
     dlv_bind (read_sword_de a p) (\<lambda>(advance_line, p1).
       let regs = ls_regs st; line = lr_line regs + advance_line in
       if sint line < 0 then DW_DLV_ERROR DW_DLE_LINE_TABLE_LINENO_ERROR
       else DW_DLV_OK (p1, st\<lparr>ls_regs := regs\<lparr>lr_line := line\<rparr>\<rparr>))"

definition lns_set_file :: "line_args \<Rightarrow> nat \<Rightarrow> line_state \<Rightarrow> line_result" where
  "lns_set_file a p st =
     dlv_bind (read_uword_de a p) (\<lambda>(v, p1).
       if sint v < 0 then DW_DLV_ERROR DW_DLE_LINE_INDEX_WRONG
       else DW_DLV_OK (p1, st\<lparr>ls_regs := (ls_regs st)\<lparr>lr_file := v\<rparr>\<rparr>))"

definition lns_set_column :: "line_args \<Rightarrow> nat \<Rightarrow> line_state \<Rightarrow> line_result" where
  "lns_set_column a p st =
     dlv_bind (read_uword_de a p) (\<lambda>(v, p1).
       if sint v < 0 then DW_DLV_ERROR DW_DLE_LINE_INDEX_WRONG
       else DW_DLV_OK (p1, st\<lparr>ls_regs := (ls_regs st)\<lparr>lr_column := v\<rparr>\<rparr>))"

definition lns_const_add_pc :: "nat \<Rightarrow> line_state \<Rightarrow> line_result" where
  "lns_const_add_pc p st =
     (let ctx = ls_context st; op = MAX_LINE_OP_CODE - lc_opcode_base ctx in
      DW_DLV_OK (p, st\<lparr>ls_regs := advance_address ctx (ucast (op div lc_line_range ctx)) (ls_regs st)\<rparr>))"

definition lns_fixed_advance_pc :: "line_args \<Rightarrow> nat \<Rightarrow> line_state \<Rightarrow> line_result" where
  "lns_fixed_advance_pc a p st =
     dlv_bind (READ_UNALIGNED_CK (la_dbg a) (la_section a) p 2 (la_end a)) (\<lambda>fpc.
       if la_end a < p + 2 then DW_DLV_ERROR DW_DLE_LINE_TABLE_BAD
       else let regs = ls_regs st; fixed_advance_pc = ucast fpc :: 16 word in
            DW_DLV_OK (p + 2, st\<lparr>ls_regs := regs\<lparr>lr_address := lr_address regs + ucast fixed_advance_pc,
              lr_op_index := 0\<rparr>\<rparr>))"

definition lns_set_isa :: "line_args \<Rightarrow> nat \<Rightarrow> line_state \<Rightarrow> line_result" where
  "lns_set_isa a p st =
     dlv_bind (read_uword_de a p) (\<lambda>(v, p1).
       let isa = ucast v :: byte in
       if ucast isa \<noteq> v then DW_DLV_ERROR DW_DLE_LINE_NUM_OPERANDS_BAD
       else DW_DLV_OK (p1, st\<lparr>ls_regs := (ls_regs st)\<lparr>lr_isa := isa\<rparr>\<rparr>))"

text \<open>\<open>DW_LNS_set_address_from_logical\<close> in an actuals table, \<open>DW_LNS_set_subprogram\<close> otherwise.\<close>

definition lns_set_subprogram :: "line_args \<Rightarrow> nat \<Rightarrow> line_state \<Rightarrow> line_result" where
  "lns_set_subprogram a p st =
     (if la_is_actuals_table a
      then dlv_bind (read_sword_de a p) (\<lambda>(advance_line, p1).
             let regs = ls_regs st; line = lr_line regs + advance_line;
                 logicals = lc_linebuf_logicals (ls_context st)
             in if sint line < 0 then DW_DLV_ERROR DW_DLE_LINE_TABLE_LINENO_ERROR
                else if 1 \<le> line \<and> unat (line - 1) < length logicals
                then DW_DLV_OK (p1, st\<lparr>ls_regs := regs\<lparr>lr_line := line,
                       lr_address := li_address (logicals ! unat (line - 1)), lr_op_index := 0\<rparr>\<rparr>)
                else DW_DLV_OK (p1, st\<lparr>ls_regs := regs\<lparr>lr_line := line\<rparr>\<rparr>))
      else dlv_bind (read_uword_de a p) (\<lambda>(v, p1).
             DW_DLV_OK (p1, st\<lparr>ls_regs := (ls_regs st)\<lparr>lr_call_context := 0, lr_subprogram := v\<rparr>\<rparr>)))"

definition lns_inlined_call :: "line_args \<Rightarrow> nat \<Rightarrow> line_state \<Rightarrow> line_result" where
  "lns_inlined_call a p st =
     dlv_bind (read_sword_de a p) (\<lambda>(stmp, p1).
       dlv_bind (read_uword_de a p1) (\<lambda>(ilcuw, p2).
         DW_DLV_OK (p2, st\<lparr>ls_regs := (ls_regs st)\<lparr>lr_call_context := of_nat (length (ls_rows st)) + stmp,
           lr_subprogram := ilcuw\<rparr>\<rparr>)))"

definition lns_pop_context :: "nat \<Rightarrow> line_state \<Rightarrow> line_result" where
  "lns_pop_context p st =
     (let regs = ls_regs st; logical_num = lr_call_context regs in
      if 0 < logical_num \<and> unat logical_num \<le> length (ls_rows st)
      then let row = ls_rows st ! (unat logical_num - 1) in
           DW_DLV_OK (p, st\<lparr>ls_regs := regs\<lparr>lr_file := li_file row, lr_line := li_line row,
             lr_column := ucast (li_column row), lr_discriminator := li_discriminator row, lr_is_stmt := of_bool (li_is_stmt row),
             lr_call_context := li_call_context row, lr_subprogram := li_subprogram row\<rparr>\<rparr>)
      else DW_DLV_OK (p, st))"

definition standard_op :: "line_args \<Rightarrow> byte \<Rightarrow> nat \<Rightarrow> line_state \<Rightarrow> line_result" where
  "standard_op a opcode p st =
     (let regs = ls_regs st in
      if opcode = DW_LNS_copy then lns_copy a p st
      else if opcode = DW_LNS_advance_pc then lns_advance_pc a p st
      else if opcode = DW_LNS_advance_line then lns_advance_line a p st
      else if opcode = DW_LNS_set_file then lns_set_file a p st
      else if opcode = DW_LNS_set_column then lns_set_column a p st
      else if opcode = DW_LNS_negate_stmt then DW_DLV_OK (p, st\<lparr>ls_regs := regs\<lparr>lr_is_stmt := of_bool (lr_is_stmt regs = 0)\<rparr>\<rparr>)
      else if opcode = DW_LNS_set_basic_block then DW_DLV_OK (p, st\<lparr>ls_regs := regs\<lparr>lr_basic_block := True\<rparr>\<rparr>)
      else if opcode = DW_LNS_const_add_pc then lns_const_add_pc p st
      else if opcode = DW_LNS_fixed_advance_pc then lns_fixed_advance_pc a p st
      else if opcode = DW_LNS_set_prologue_end then DW_DLV_OK (p, st\<lparr>ls_regs := regs\<lparr>lr_prologue_end := True\<rparr>\<rparr>)
      else if opcode = DW_LNS_set_epilogue_begin then DW_DLV_OK (p, st\<lparr>ls_regs := regs\<lparr>lr_epilogue_begin := True\<rparr>\<rparr>)
      else if opcode = DW_LNS_set_isa then lns_set_isa a p st
      else if opcode = DW_LNS_set_subprogram then lns_set_subprogram a p st
      else if opcode = DW_LNS_inlined_call then lns_inlined_call a p st
      else if opcode = DW_LNS_pop_context then lns_pop_context p st
      else DW_DLV_ERROR DW_DLE_LINE_TABLE_BAD)"

subsection \<open>Extended opcodes\<close>

definition lne_end_sequence :: "line_args \<Rightarrow> nat \<Rightarrow> line_state \<Rightarrow> line_result" where
  "lne_end_sequence a p st =
     (let regs = (ls_regs st)\<lparr>lr_end_sequence := True\<rparr>;
          fresh = dwarf_set_line_table_regs_default_values (lc_default_is_stmt (ls_context st))
      in dlv_bind (if la_dolines a then add_row (row_of regs True False (la_is_actuals_table a)) st
                   else DW_DLV_OK st) (\<lambda>st1. DW_DLV_OK (p, st1\<lparr>ls_regs := fresh\<rparr>)))"

text \<open>The row of \<open>doaddrs\<close> has only an address.\<close>

definition lne_set_address :: "line_args \<Rightarrow> nat \<Rightarrow> line_state \<Rightarrow> line_result" where
  "lne_set_address a p st =
     dlv_bind (READ_UNALIGNED_CK (la_dbg a) (la_section a) p (la_address_size a) (la_end a)) (\<lambda>address.
       let regs = (ls_regs st)\<lparr>lr_address := address\<rparr>;
           row = \<lparr>li_address = address, li_discriminator = 0, li_file = 0, li_line = 0, li_column = 0, li_isa = 0,
             li_call_context = 0, li_subprogram = 0, li_is_stmt = False, li_basic_block = False,
             li_end_sequence = False, li_prologue_end = False, li_epilogue_begin = False, li_is_addr_set = True,
             li_is_actuals_table = False\<rparr>
       in dlv_bind (if la_doaddrs a then add_row row (st\<lparr>ls_is_addr_set := False\<rparr>)
                    else DW_DLV_OK (st\<lparr>ls_is_addr_set := True\<rparr>)) (\<lambda>st1.
            if la_end a < p + la_address_size a then DW_DLV_ERROR DW_DLE_LINE_TABLE_BAD
            else DW_DLV_OK (p + la_address_size a, st1\<lparr>ls_regs := regs\<lparr>lr_op_index := 0\<rparr>\<rparr>)))"

definition lne_define_file :: "line_args \<Rightarrow> nat \<Rightarrow> line_state \<Rightarrow> line_result" where
  "lne_define_file a p st =
     (if \<not> la_dolines a then DW_DLV_OK (p, st)
      else let (ok, mem1) = alloc (ls_mem st) in
      if \<not> ok then DW_DLV_ERROR DW_DLE_ALLOC_FAIL
      else dlv_bind (dwarf_check_string_valid (la_dbg a) (la_section a) p p (la_end a) DW_DLE_DEFINE_FILE_STRING_BAD) (\<lambda>_.
        dlv_bind (read_uword_de a (p + c_strlen_at (la_section a) p + 1)) (\<lambda>(dir_index, p1).
          dlv_bind (read_uword_de a p1) (\<lambda>(time_last_mod, p2).
            dlv_bind (read_uword_de a p2) (\<lambda>(file_length, p3).
              DW_DLV_OK (p3, st\<lparr>ls_mem := mem1, ls_context := dwarf_add_to_files_list
                \<lparr>fi_file_name = p, fi_dir_index = dir_index, fi_time_last_mod = time_last_mod,
                 fi_file_length = file_length, fi_dir_index_present = True, fi_time_last_mod_present = True,
                 fi_file_length_present = True\<rparr> (ls_context st)\<rparr>))))))"

definition lne_unknown :: "line_args \<Rightarrow> u64 \<Rightarrow> nat \<Rightarrow> line_state \<Rightarrow> line_result" where
  "lne_unknown a instr_length p st =
     (let remaining_bytes = instr_length - 1; space_left = la_end a - p in
      if instr_length < 1 \<or> space_left < unat remaining_bytes \<or> DW_LNE_LEN_MAX < remaining_bytes
      then DW_DLV_ERROR DW_DLE_LINE_TABLE_BAD
      else if la_end a < p + unat remaining_bytes then DW_DLV_ERROR DW_DLE_LINE_TABLE_BAD
      else DW_DLV_OK (p + unat remaining_bytes, st))"

definition extended_op :: "line_args \<Rightarrow> nat \<Rightarrow> line_state \<Rightarrow> line_result" where
  "extended_op a p st =
     dlv_bind (read_uword_de a p) (\<lambda>(instr_length, p1).
       if la_end a \<le> p1 then DW_DLV_ERROR DW_DLE_LINE_TABLE_BAD
       else let ext_opcode = la_section a ! p1; p2 = p1 + 1 in
            if ext_opcode = DW_LNE_end_sequence then lne_end_sequence a p2 st
            else if ext_opcode = DW_LNE_set_address then lne_set_address a p2 st
            else if ext_opcode = DW_LNE_define_file then lne_define_file a p2 st
            else if ext_opcode = DW_LNE_set_discriminator
            then dlv_bind (read_uword_de a p2) (\<lambda>(v, p3).
                   DW_DLV_OK (p3, st\<lparr>ls_regs := (ls_regs st)\<lparr>lr_discriminator := v\<rparr>\<rparr>))
            else lne_unknown a instr_length p2 st)"

subsection \<open>The program\<close>

datatype opcode_kind = LOP_EXTENDED | LOP_DISCARD | LOP_STANDARD | LOP_SPECIAL

definition WHAT_IS_OPCODE :: "byte \<Rightarrow> byte \<Rightarrow> byte \<Rightarrow> opcode_kind" where
  "WHAT_IS_OPCODE opcode base highest_std =
     (if opcode < base
      then if opcode = 0 then LOP_EXTENDED
           else if unat base \<le> unat highest_std + 1 then LOP_STANDARD else LOP_DISCARD
      else LOP_SPECIAL)"

fun discard_operands :: "line_args \<Rightarrow> nat \<Rightarrow> nat \<Rightarrow> (dw_error, nat) dlv" where
  "discard_operands a 0 p = DW_DLV_OK p"
| "discard_operands a (Suc n) p = dlv_bind (read_uword_de a p) (\<lambda>(v, p1). discard_operands a n p1)"

definition line_op :: "line_args \<Rightarrow> nat \<Rightarrow> line_state \<Rightarrow> line_result" where
  "line_op a p st =
     (let opcode = la_section a ! p; ctx = ls_context st in
      case WHAT_IS_OPCODE opcode (lc_opcode_base ctx) (lc_std_op_count ctx) of
        LOP_DISCARD \<Rightarrow>
          dlv_bind (discard_operands a (unat (la_section a ! (lc_opcode_length_table ctx + unat opcode))) (p + 1)) (\<lambda>p1.
            DW_DLV_OK (p1, st))
      | LOP_SPECIAL \<Rightarrow> special_op a opcode (p + 1) st
      | LOP_STANDARD \<Rightarrow> standard_op a opcode (p + 1) st
      | LOP_EXTENDED \<Rightarrow> extended_op a (p + 1) st)"

lemma discard_advances: "discard_operands a n p = DW_DLV_OK q \<Longrightarrow> p \<le> q"
  by (induction n arbitrary: p)
    (fastforce simp: dlv_bind_OK_iff read_uword_de_def dest: uword_advances)+

lemma extended_advances: "extended_op a p st = DW_DLV_OK (q, st1) \<Longrightarrow> p \<le> q"
  by (auto simp: extended_op_def dlv_bind_OK_iff read_uword_de_def lne_end_sequence_def lne_set_address_def
      lne_define_file_def lne_unknown_def Let_def case_prod_unfold split: if_splits dest!: uword_advances)

lemma standard_advances: "standard_op a opcode p st = DW_DLV_OK (q, st1) \<Longrightarrow> p \<le> q"
  unfolding standard_op_def Let_def
  by (auto simp: dlv_bind_OK_iff read_uword_de_def read_sword_de_def lns_copy_def lns_advance_pc_def
      lns_advance_line_def lns_set_file_def lns_set_column_def lns_const_add_pc_def lns_fixed_advance_pc_def
      lns_set_isa_def lns_set_subprogram_def lns_inlined_call_def lns_pop_context_def Let_def
      split: if_splits dest!: uword_advances sword_advances)

lemma special_advances: "special_op a opcode p st = DW_DLV_OK (q, st1) \<Longrightarrow> p \<le> q"
  by (auto simp: special_op_def dlv_bind_OK_iff Let_def split: if_splits)

lemma line_op_advances: "line_op a p st = DW_DLV_OK (q, st1) \<Longrightarrow> p < q"
  by (auto simp: line_op_def Let_def dlv_bind_OK_iff Suc_le_eq split: opcode_kind.splits
      dest!: discard_advances extended_advances standard_advances special_advances)

function line_loop :: "line_args \<Rightarrow> nat \<Rightarrow> line_state \<Rightarrow> (dw_error, line_state) dlv" where
  "line_loop a p st =
     (if p < la_end a
      then dlv_bind (line_op a p st) (\<lambda>(p1, st1). line_loop a p1 st1)
      else DW_DLV_OK st)"
  by pat_completeness auto
termination
  by (relation "measure (\<lambda>(a, p, st). la_end a - p)") (auto dest: line_op_advances)

declare line_loop.simps [simp del]

definition read_line_table_program :: "line_args \<Rightarrow> nat \<Rightarrow> line_context \<Rightarrow> allocs \<Rightarrow> (dw_error, line_context) dlv" where
  "read_line_table_program a line_ptr line_context mem =
     dlv_bind (line_loop a line_ptr
         \<lparr>ls_regs = dwarf_set_line_table_regs_default_values (lc_default_is_stmt line_context), ls_rows = [],
          ls_is_addr_set = False, ls_context = line_context, ls_mem = mem\<rparr>) (\<lambda>st.
       if \<not> fst (alloc (ls_mem st)) then DW_DLV_ERROR DW_DLE_ALLOC_FAIL
       else if la_is_single_table a \<or> \<not> la_is_actuals_table a
       then DW_DLV_OK ((ls_context st)\<lparr>lc_linebuf_logicals := ls_rows st\<rparr>)
       else DW_DLV_OK ((ls_context st)\<lparr>lc_linebuf_actuals := ls_rows st\<rparr>))"

end
