(* ===== verification/Line_Header.thy ===== *)
theory Line_Header
  imports Line_Program
begin

text \<open>
  The header of a line number table: \<open>_dwarf_read_line_table_header\<close> (\<open>dwarf_line_table_reader_common.h\<close>) for the versions
  2, 3 and 4. A table of version 5 or of the experimental version 0xf006 gives \<open>None\<close> behind the fields that all versions
  share: their formats of directories, files and subprograms are not modelled. The warnings of
  \<open>_dwarf_print_header_issue\<close>, which are printed only where the caller counts errors, are left out.
\<close>

record header_args =
  ha_dbg :: dwarf_debug
  ha_section :: "byte list"
  ha_data_start :: nat
  ha_address_size :: byte
  ha_segment_selector_size :: byte

definition line_byte :: "byte list \<Rightarrow> nat \<Rightarrow> nat \<Rightarrow> dw_error \<Rightarrow> (dw_error, byte \<times> nat) dlv" where
  "line_byte sec p e err = (if e \<le> p then DW_DLV_ERROR err else DW_DLV_OK (sec ! p, p + 1))"

subsection \<open>The table of standard opcodes\<close>

definition dwarf_standard_opcode_operand_count :: "byte list" where
  "dwarf_standard_opcode_operand_count = [0, 1, 1, 1, 1, 0, 0, 0, 1, 0, 0, 1, 1, 2, 0]"

definition dwarf_arm_standard_opcode_operand_count :: "byte list" where
  "dwarf_arm_standard_opcode_operand_count = [0, 1, 1, 1, 1, 0, 0, 0, 0, 0, 0, 1]"

definition operandmismatch :: "byte list \<Rightarrow> byte list \<Rightarrow> nat \<Rightarrow> nat \<Rightarrow> bool" where
  "operandmismatch table sec linetable check_count =
     list_ex (\<lambda>i. length table \<le> i \<or> table ! i \<noteq> sec ! (linetable + i)) [0..<check_count]"

definition operand_ck_fail :: "byte list \<Rightarrow> nat \<Rightarrow> byte \<Rightarrow> bool" where
  "operand_ck_fail sec table std_op_count =
     (let tab_count = length dwarf_standard_opcode_operand_count;
          check_count = min (unat std_op_count) tab_count;
          arm_count = length dwarf_arm_standard_opcode_operand_count
      in operandmismatch dwarf_standard_opcode_operand_count sec table check_count
         \<and> operandmismatch dwarf_arm_standard_opcode_operand_count sec table (min check_count arm_count))"

subsection \<open>Directories and files\<close>

text \<open>The array of directories has room for \<open>room\<close> pointers and doubles when it is full.\<close>

function dir_loop :: "dwarf_debug \<Rightarrow> byte list \<Rightarrow> nat \<Rightarrow> nat \<Rightarrow> nat \<Rightarrow> nat \<Rightarrow> nat list \<Rightarrow> allocs \<Rightarrow>
    (dw_error, nat list \<times> nat \<times> allocs) dlv" where
  "dir_loop dbg sec start p e room dirs mem =
     (if sec ! p = 0 then DW_DLV_OK (dirs, p + 1, mem)
      else let (ok, mem1) = (if room \<le> length dirs then alloc mem else (True, mem)) in
      if \<not> ok then DW_DLV_ERROR DW_DLE_ALLOC_FAIL
      else dlv_bind (dwarf_check_string_valid dbg sec start p e DW_DLE_LINE_STRING_BAD) (\<lambda>_.
        let p1 = p + c_strlen_at sec p + 1 in
        if e \<le> p1 then DW_DLV_ERROR DW_DLE_LINE_NUMBER_HEADER_ERROR
        else dir_loop dbg sec start p1 e (if room \<le> length dirs then 2 * room else room) (dirs @ [p]) mem1))"
  by pat_completeness auto
termination
  by (relation "measure (\<lambda>(dbg, sec, start, p, e, room, dirs, mem). e - p)") auto

declare dir_loop.simps [simp del]

definition read_file_entry :: "dwarf_debug \<Rightarrow> byte list \<Rightarrow> nat \<Rightarrow> nat \<Rightarrow> nat \<Rightarrow> nat \<Rightarrow> (dw_error, file_entry \<times> nat) dlv" where
  "read_file_entry dbg sec start p e dir_count =
     dlv_bind (dwarf_check_string_valid dbg sec start p e DW_DLE_LINE_STRING_BAD) (\<lambda>_.
     dlv_bind (DECODE_LEB128_UWORD_CK sec (p + c_strlen_at sec p + 1) e) (\<lambda>(dir_index, p1).
       if dir_count < unat dir_index then DW_DLV_ERROR DW_DLE_DIR_INDEX_BAD
       else dlv_bind (DECODE_LEB128_UWORD_CK sec p1 e) (\<lambda>(lastmod, p2).
       dlv_bind (DECODE_LEB128_UWORD_CK sec p2 e) (\<lambda>(file_length, p3).
         if e \<le> p3 then DW_DLV_ERROR DW_DLE_LINE_NUMBER_HEADER_ERROR
         else DW_DLV_OK (\<lparr>fi_file_name = p, fi_dir_index = dir_index, fi_time_last_mod = lastmod,
           fi_file_length = file_length, fi_dir_index_present = True, fi_time_last_mod_present = True,
           fi_file_length_present = True\<rparr>, p3)))))"

lemma read_file_entry_advances:
  "read_file_entry dbg sec start p e n = DW_DLV_OK (f, q) \<Longrightarrow> p < q \<and> q < e"
  by (auto simp: read_file_entry_def dlv_bind_OK_iff not_le split: if_splits dest!: uword_advances)

function file_loop :: "dwarf_debug \<Rightarrow> byte list \<Rightarrow> nat \<Rightarrow> nat \<Rightarrow> nat \<Rightarrow> line_context \<Rightarrow> allocs \<Rightarrow>
    (dw_error, line_context \<times> nat \<times> allocs) dlv" where
  "file_loop dbg sec start p e ctx mem =
     (if sec ! p = 0 then DW_DLV_OK (ctx, p + 1, mem)
      else let (ok, mem1) = alloc mem in
      if \<not> ok then DW_DLV_ERROR DW_DLE_ALLOC_FAIL
      else dlv_bind (read_file_entry dbg sec start p e (length (lc_include_directories ctx))) (\<lambda>(fe, p1).
        file_loop dbg sec start p1 e (dwarf_add_to_files_list fe ctx) mem1))"
  by pat_completeness auto
termination
  by (relation "measure (\<lambda>(dbg, sec, start, p, e, ctx, mem). e - p)") (auto dest!: read_file_entry_advances)

declare file_loop.simps [simp del]

subsection \<open>The header\<close>

text \<open>The fields up to the table of standard opcodes; the position behind that table.\<close>

definition read_header_fields :: "header_args \<Rightarrow> line_context \<Rightarrow> (dw_error, line_context \<times> nat) dlv" where
  "read_header_fields h ctx =
     (let dbg = ha_dbg h; sec = ha_section h; section_end = length sec; data_start = ha_data_start h in
      dlv_bind (READ_AREA_LENGTH_CK dbg sec data_start (of_nat section_end) section_end)
        (\<lambda>(total_length, local_length_size, local_extension_size, p1).
      let e = p1 + unat total_length in
      if section_end < e then DW_DLV_ERROR DW_DLE_DEBUG_LINE_LENGTH_BAD
      else dlv_bind (READ_UNALIGNED_CK dbg sec p1 2 e) (\<lambda>htmp.
      let version = ucast htmp :: 16 word; p2 = p1 + 2 in
      if version \<notin> {2, 3, 4, 5, 0xf006} then DW_DLV_ERROR DW_DLE_VERSION_STAMP_ERROR
      else dlv_bind (if version = 5
        then dlv_bind (line_byte sec p2 e DW_DLE_DEBUG_LINE_LENGTH_BAD) (\<lambda>(asize, q1).
             dlv_bind (line_byte sec q1 e DW_DLE_DEBUG_LINE_LENGTH_BAD) (\<lambda>(ssize, q2). DW_DLV_OK (asize, ssize, q2)))
        else DW_DLV_OK (ha_address_size h, ha_segment_selector_size h, p2)) (\<lambda>(address_size, selector_size, p3).
      dlv_bind (READ_UNALIGNED_CK dbg sec p3 local_length_size e) (\<lambda>prologue_length.
      if total_length < prologue_length then DW_DLV_ERROR DW_DLE_DEBUG_LINE_LENGTH_BAD
      else let p4 = p3 + local_length_size in
      dlv_bind (line_byte sec p4 e DW_DLE_DEBUG_LINE_LENGTH_BAD) (\<lambda>(min_length, p5).
      dlv_bind (if version = 4 \<or> version = 5 \<or> version = 0xf006 then line_byte sec p5 e DW_DLE_DEBUG_LINE_LENGTH_BAD
                else DW_DLV_OK (lc_maximum_ops_per_instruction ctx, p5)) (\<lambda>(max_ops, p6).
      dlv_bind (line_byte sec p6 e DW_DLE_DEBUG_LINE_LENGTH_BAD) (\<lambda>(default_is_stmt, p7).
      dlv_bind (line_byte sec p7 e DW_DLE_DEBUG_LINE_LENGTH_BAD) (\<lambda>(line_base, p8).
      dlv_bind (line_byte sec p8 e DW_DLE_LINE_OFFSET_BAD) (\<lambda>(line_range, p9).
      if line_range = 0 then DW_DLV_ERROR DW_DLE_DEBUG_LINE_RANGE_ZERO
      else dlv_bind (line_byte sec p9 e DW_DLE_LINE_OFFSET_BAD) (\<lambda>(opcode_base, p10).
      let p11 = p10 + unat opcode_base - 1; std_op_count = opcode_base - 1 in
      if e \<le> p11 then DW_DLV_ERROR DW_DLE_LINE_OFFSET_BAD
      else if section_end \<le> p10 + min (unat std_op_count) (length dwarf_standard_opcode_operand_count)
      then DW_DLV_ERROR DW_DLE_LINE_NUM_OPERANDS_BAD
      else if operand_ck_fail sec p10 std_op_count then DW_DLV_ERROR DW_DLE_LINE_NUM_OPERANDS_BAD
      else DW_DLV_OK (ctx\<lparr>lc_section_offset := of_nat data_start, lc_version_number := version,
        lc_total_length := total_length, lc_length_field_length := local_length_size + local_extension_size,
        lc_address_size := address_size, lc_segment_selector_size := selector_size,
        lc_prologue_length := prologue_length, lc_minimum_instruction_length := min_length,
        lc_maximum_ops_per_instruction := max_ops, lc_line_ptr_start := data_start, lc_line_ptr_end := e,
        lc_line_prologue_start := p4, lc_default_is_stmt := default_is_stmt, lc_line_base := line_base,
        lc_line_range := line_range, lc_opcode_base := opcode_base, lc_opcode_length_table := p10,
        lc_std_op_count := std_op_count\<rparr>, p11))))))))))))"

text \<open>The end of the header; bytes that the header's length leaves to the program too many are reported.\<close>

definition finish_header :: "line_context \<Rightarrow> nat \<Rightarrow> allocs \<Rightarrow>
    (dw_error, line_context \<times> nat \<times> (nat \<times> u64) option \<times> allocs) dlv" where
  "finish_header ctx p mem =
     (let lp_begin = lc_line_prologue_start ctx + unat (lc_prologue_length ctx); e = lc_line_ptr_end ctx in
      if e < p then DW_DLV_ERROR DW_DLE_LINE_OFFSET_BAD
      else if lp_begin < p then DW_DLV_ERROR DW_DLE_LINE_PROLOG_LENGTH_BAD
      else DW_DLV_OK (ctx\<lparr>lc_line_ptr_start := p,
             lc_table_count := (if lc_actuals_table_offset ctx \<noteq> 0 then 2 else if p < e then 1 else 0)\<rparr>, p,
             (if p < lp_begin then Some (p, of_nat (lp_begin - p)) else None), mem))"

definition read_line_table_header :: "header_args \<Rightarrow> line_context \<Rightarrow> allocs \<Rightarrow>
    (dw_error, line_context \<times> nat \<times> (nat \<times> u64) option \<times> allocs) dlv option" where
  "read_line_table_header h line_context mem =
     (let dbg = ha_dbg h; sec = ha_section h in
      case read_header_fields h line_context of
        DW_DLV_ERROR err \<Rightarrow> Some (DW_DLV_ERROR err)
      | DW_DLV_NO_ENTRY \<Rightarrow> Some DW_DLV_NO_ENTRY
      | DW_DLV_OK (ctx, p) \<Rightarrow>
          if 5 \<le> lc_version_number ctx then None
          else let e = lc_line_ptr_end ctx; (ok, mem1) = alloc mem in
          Some (if \<not> ok then DW_DLV_ERROR DW_DLE_ALLOC_FAIL
            else dlv_bind (dir_loop dbg sec (ha_data_start h) p e 5 [] mem1) (\<lambda>(dirs, p1, mem2).
              if e < p1 then DW_DLV_ERROR DW_DLE_LINE_OFFSET_BAD
              else if e \<le> p1 then DW_DLV_ERROR DW_DLE_LINE_NUMBER_HEADER_ERROR
              else dlv_bind (file_loop dbg sec (ha_data_start h) p1 e (ctx\<lparr>lc_include_directories := dirs\<rparr>) mem2)
                (\<lambda>(ctx1, p2, mem3).
                  if e < p2 then DW_DLV_ERROR DW_DLE_LINE_OFFSET_BAD else finish_header ctx1 p2 mem3))))"

subsection \<open>The lines of a unit\<close>

text \<open>
  \<open>_dwarf_internal_srclines\<close> (\<open>dwarf_line.c\<close>) from the place where the position of the table is known: a context, its
  header and the program, as one table. (A table of two levels has the version 0xf006.)
\<close>

definition new_line_context :: line_context where
  "new_line_context = \<lparr>lc_section_offset = 0, lc_version_number = 0, lc_total_length = 0, lc_length_field_length = 0,
     lc_address_size = 0, lc_segment_selector_size = 0, lc_prologue_length = 0, lc_actuals_table_offset = 0,
     lc_minimum_instruction_length = 0, lc_maximum_ops_per_instruction = 0, lc_line_ptr_start = 0, lc_line_ptr_end = 0,
     lc_line_prologue_start = 0, lc_default_is_stmt = 0, lc_line_base = 0, lc_line_range = 0, lc_opcode_base = 0,
     lc_opcode_length_table = 0, lc_std_op_count = 0, lc_include_directories = [], lc_file_entries = [],
     lc_file_entry_baseindex = 0, lc_file_entry_endindex = 0, lc_table_count = 0, lc_linebuf_logicals = [],
     lc_linebuf_actuals = []\<rparr>"

definition single_table_args :: "header_args \<Rightarrow> nat \<Rightarrow> nat \<Rightarrow> bool \<Rightarrow> bool \<Rightarrow> line_args" where
  "single_table_args h line_ptr_end address_size doaddrs dolines =
     \<lparr>la_dbg = ha_dbg h, la_section = ha_section h, la_end = line_ptr_end, la_address_size = address_size,
      la_doaddrs = doaddrs, la_dolines = dolines, la_is_single_table = True, la_is_actuals_table = False\<rparr>"

definition srclines_at :: "header_args \<Rightarrow> nat \<Rightarrow> bool \<Rightarrow> bool \<Rightarrow> allocs \<Rightarrow> (dw_error, line_context) dlv option" where
  "srclines_at h address_size doaddrs dolines mem =
     (let (ok, mem1) = alloc mem in
      if \<not> ok then Some (DW_DLV_ERROR DW_DLE_ALLOC_FAIL)
      else map_option (\<lambda>r. dlv_bind r (\<lambda>(ctx, line_ptr, bogus, mem2).
          read_line_table_program (single_table_args h (lc_line_ptr_end ctx) address_size doaddrs dolines) line_ptr ctx mem2))
        (read_line_table_header h new_line_context mem1))"

end
