(* ===== verification/Line_Producer.thy ===== *)
theory Line_Producer
  imports Line_Program
begin

text \<open>
  Producing a line number table: \<open>dwarf_pro_line.c\<close> of \<open>libdwarfp\<close>, with which the rows, directories and files are
  declared, and the line number program that \<open>_dwarf_pro_generate_debugline\<close> (\<open>dwarf_pro_section.c\<close>) makes of the rows.
  The chained records are lists, the last record last, so \<open>de_last_line\<close>, \<open>de_last_inc_dir\<close> and \<open>de_last_file_entry\<close>
  are the ends of the lists. The \<open>swap\<close> flag stands for \<open>de_copy_word\<close>; \<open>pd_swap\<close> and \<open>pd_pointer_size\<close> are the
  fields of the producer, \<open>de_output_version\<close> is kept as the \<open>Dwarf_Half\<close> it is read into; a name is its bytes without the terminating zero. The output chunks are one list of bytes; that \<open>_dwarf_pro_buffer\<close> gets no memory for a chunk
  is not modelled. A relocation is recorded with its offset, symbol and size.
\<close>

subsection \<open>State of the producer\<close>

record p_line =
  dpl_address :: u64
  dpl_file :: u64
  dpl_line :: u64
  dpl_column :: u64
  dpl_is_stmt :: byte
  dpl_basic_block :: byte
  dpl_opc :: byte
  dpl_r_symidx :: u64
  dpl_prologue_end :: byte
  dpl_epilogue_begin :: byte
  dpl_isa :: u64
  dpl_discriminator :: u64

record line_inits =
  pi_linetable_version :: u32
  pi_default_is_stmt :: u32
  pi_minimum_instruction_length :: u32
  pi_opcode_base :: u32
  pi_line_base :: u32
  pi_line_range :: u32
  pi_maximum_operations_per_instruction :: u32

text \<open>A name is \<open>None\<close> where the pointer stayed null.\<close>

record p_f_entry =
  dfe_name :: "byte list option"
  dfe_args :: "byte list"

record p_debug =
  de_lines :: "p_line list"
  de_inc_dirs :: "p_f_entry list"
  de_n_inc_dirs :: u64
  de_file_entries :: "p_f_entry list"
  de_n_file_entries :: u64
  de_line_inits :: line_inits
  de_output_version :: "16 word"
  de_dwarf_offset_size :: nat
  de_64bit_extension :: bool
  pd_pointer_size :: byte
  pd_swap :: bool
  de_mem :: allocs

definition dwarf_pro_reg_init :: "p_debug \<Rightarrow> p_line" where
  "dwarf_pro_reg_init dbg =
     \<lparr>dpl_address = 0, dpl_file = 1, dpl_line = 1, dpl_column = 0,
      dpl_is_stmt = ucast (pi_default_is_stmt (de_line_inits dbg)), dpl_basic_block = 0, dpl_opc = 0, dpl_r_symidx = 0,
      dpl_prologue_end = 0, dpl_epilogue_begin = 0, dpl_isa = 0, dpl_discriminator = 0\<rparr>"

definition MIN_INST_LENGTH :: u32 where "MIN_INST_LENGTH = 1"
definition LINE_BASE :: u32 where "LINE_BASE = - 1"
definition LINE_RANGE :: u32 where "LINE_RANGE = 4"
definition OPCODE_BASE :: u32 where "OPCODE_BASE = 10"

definition dwarf_init_default_line_header_vals :: "p_debug \<Rightarrow> p_debug" where
  "dwarf_init_default_line_header_vals dbg = dbg\<lparr>de_line_inits :=
     \<lparr>pi_linetable_version = ucast (de_output_version dbg), pi_default_is_stmt = 0,
      pi_minimum_instruction_length = MIN_INST_LENGTH, pi_opcode_base = OPCODE_BASE, pi_line_base = LINE_BASE,
      pi_line_range = LINE_RANGE, pi_maximum_operations_per_instruction = 1\<rparr>\<rparr>"

subsection \<open>Declaring rows\<close>

definition dwarf_pro_add_line_entry ::
    "u64 \<Rightarrow> u64 \<Rightarrow> u64 \<Rightarrow> u64 \<Rightarrow> u64 \<Rightarrow> u32 \<Rightarrow> u32 \<Rightarrow> byte \<Rightarrow> u32 \<Rightarrow> u32 \<Rightarrow> u64 \<Rightarrow> u64 \<Rightarrow> p_debug \<Rightarrow>
     (dw_error, unit) dlv \<times> p_debug" where
  "dwarf_pro_add_line_entry file_index code_address symidx line_no col_no is_stmt_begin is_bb_begin opc isepilbeg
     isprolend isa discriminator dbg =
     (let (ok, mem) = alloc (de_mem dbg) in
      if \<not> ok then (DW_DLV_ERROR DW_DLE_LINE_ALLOC, dbg\<lparr>de_mem := mem\<rparr>)
      else (DW_DLV_OK (), dbg\<lparr>de_mem := mem, de_lines := de_lines dbg @ [(dwarf_pro_reg_init dbg)
        \<lparr>dpl_address := code_address, dpl_file := file_index, dpl_line := line_no, dpl_column := col_no,
         dpl_is_stmt := ucast is_stmt_begin, dpl_basic_block := ucast is_bb_begin, dpl_opc := opc,
         dpl_r_symidx := symidx, dpl_prologue_end := ucast isprolend, dpl_epilogue_begin := ucast isepilbeg,
         dpl_isa := isa, dpl_discriminator := discriminator\<rparr>]\<rparr>))"

definition dwarf_add_line_entry_c ::
    "u64 \<Rightarrow> u64 \<Rightarrow> u64 \<Rightarrow> u64 \<Rightarrow> u32 \<Rightarrow> u32 \<Rightarrow> u32 \<Rightarrow> u32 \<Rightarrow> u64 \<Rightarrow> u64 \<Rightarrow> p_debug \<Rightarrow> (dw_error, unit) dlv \<times> p_debug" where
  "dwarf_add_line_entry_c file_index code_address line_no col_no is_stmt_begin is_bb_begin isepilbeg isprolend isa
     discriminator dbg =
     dwarf_pro_add_line_entry file_index code_address 0 line_no col_no is_stmt_begin is_bb_begin 0 isepilbeg isprolend
       isa discriminator dbg"

definition dwarf_lne_set_address_a :: "u64 \<Rightarrow> u64 \<Rightarrow> p_debug \<Rightarrow> (dw_error, unit) dlv \<times> p_debug" where
  "dwarf_lne_set_address_a offs symidx dbg =
     dwarf_pro_add_line_entry 0 offs symidx 0 0 0 0 DW_LNE_set_address 0 0 0 0 dbg"

definition dwarf_lne_end_sequence_a :: "u64 \<Rightarrow> p_debug \<Rightarrow> (dw_error, unit) dlv \<times> p_debug" where
  "dwarf_lne_end_sequence_a end_address dbg =
     dwarf_pro_add_line_entry 0 end_address 0 0 0 0 0 DW_LNE_end_sequence 0 0 0 0 dbg"

subsection \<open>Declaring directories and files\<close>

text \<open>
  The entry is in the list before its name is copied, so a failed copy leaves an entry without a name behind; likewise
  for the arguments of a file, where a null pointer goes with a count of 0 bytes.
\<close>

definition dwarf_add_directory_decl_a :: "byte list \<Rightarrow> p_debug \<Rightarrow> (dw_error, u64) dlv \<times> p_debug" where
  "dwarf_add_directory_decl_a name dbg =
     (let (ok1, mem1) = alloc (de_mem dbg) in
      if \<not> ok1 then (DW_DLV_ERROR DW_DLE_INCDIR_ALLOC, dbg\<lparr>de_mem := mem1\<rparr>)
      else let n = (if de_inc_dirs dbg = [] then 1 else de_n_inc_dirs dbg + 1);
               (ok2, mem2) = alloc mem1;
               dbg2 = dbg\<lparr>de_mem := mem2, de_n_inc_dirs := n\<rparr>
           in if \<not> ok2
              then (DW_DLV_ERROR DW_DLE_STRING_ALLOC,
                    dbg2\<lparr>de_inc_dirs := de_inc_dirs dbg @ [\<lparr>dfe_name = None, dfe_args = []\<rparr>]\<rparr>)
              else (DW_DLV_OK n, dbg2\<lparr>de_inc_dirs := de_inc_dirs dbg @ [\<lparr>dfe_name = Some name, dfe_args = []\<rparr>]\<rparr>))"

definition ENCODE_SPACE_NEEDED :: nat where "ENCODE_SPACE_NEEDED = 16"

definition leb_argument :: "u64 \<Rightarrow> (dw_error, byte list) dlv" where
  "leb_argument v =
     (case dwarf_encode_leb128 v ENCODE_SPACE_NEEDED of
        DW_DLV_OK bs \<Rightarrow> DW_DLV_OK bs
      | _ \<Rightarrow> DW_DLV_ERROR DW_DLE_LEB_OUT_ERROR)"

definition dwarf_add_file_decl_a :: "byte list \<Rightarrow> u64 \<Rightarrow> u64 \<Rightarrow> u64 \<Rightarrow> p_debug \<Rightarrow> (dw_error, u64) dlv \<times> p_debug" where
  "dwarf_add_file_decl_a name dir_idx time_mod len dbg =
     (let (ok1, mem1) = alloc (de_mem dbg) in
      if \<not> ok1 then (DW_DLV_ERROR DW_DLE_FILE_ENTRY_ALLOC, dbg\<lparr>de_mem := mem1\<rparr>)
      else let n = (if de_file_entries dbg = [] then 1 else de_n_file_entries dbg + 1);
               (ok2, mem2) = alloc mem1;
               dbg2 = dbg\<lparr>de_mem := mem2, de_n_file_entries := n\<rparr>
           in if \<not> ok2
              then (DW_DLV_ERROR DW_DLE_ALLOC_FAIL,
                    dbg2\<lparr>de_file_entries := de_file_entries dbg @ [\<lparr>dfe_name = None, dfe_args = []\<rparr>]\<rparr>)
              else let named = dbg2\<lparr>de_file_entries := de_file_entries dbg @ [\<lparr>dfe_name = Some name, dfe_args = []\<rparr>]\<rparr>
                   in case dlv_bind (leb_argument dir_idx) (\<lambda>buffidx.
                          dlv_bind (leb_argument time_mod) (\<lambda>bufftime.
                          dlv_bind (leb_argument len) (\<lambda>bufflen. DW_DLV_OK (buffidx @ bufftime @ bufflen)))) of
                        DW_DLV_OK args \<Rightarrow>
                          let (ok3, mem3) = alloc mem2 in
                          if \<not> ok3 then (DW_DLV_ERROR DW_DLE_ALLOC_FAIL, named\<lparr>de_mem := mem3\<rparr>)
                          else (DW_DLV_OK n, dbg2\<lparr>de_mem := mem3, de_file_entries := de_file_entries dbg
                                  @ [\<lparr>dfe_name = Some name, dfe_args = args\<rparr>]\<rparr>)
                      | _ \<Rightarrow> (DW_DLV_ERROR DW_DLE_LEB_OUT_ERROR, named))"

subsection \<open>Writing numbers\<close>

record line_out =
  lo_data :: "byte list"
  lo_relocs :: "(u32 \<times> u64 \<times> nat) list"

type_synonym out_result = "(dw_error, line_out) dlv"

definition emit :: "byte list \<Rightarrow> line_out \<Rightarrow> line_out" where
  "emit bs out = out\<lparr>lo_data := lo_data out @ bs\<rparr>"

definition write_ubyte :: "byte \<Rightarrow> line_out \<Rightarrow> out_result" where
  "write_ubyte val out = DW_DLV_OK (emit [val] out)"

definition pretend_write_uval :: "u64 \<Rightarrow> (dw_error, nat) dlv" where
  "pretend_write_uval val =
     (case dwarf_encode_leb128 val ENCODE_SPACE_NEEDED of
        DW_DLV_OK bs \<Rightarrow> DW_DLV_OK (length bs)
      | _ \<Rightarrow> DW_DLV_ERROR DW_DLE_LEB_OUT_ERROR)"

definition write_sval :: "u64 \<Rightarrow> line_out \<Rightarrow> out_result" where
  "write_sval val out =
     (case dwarf_encode_signed_leb128 val ENCODE_SPACE_NEEDED of
        DW_DLV_OK bs \<Rightarrow> DW_DLV_OK (emit bs out)
      | _ \<Rightarrow> DW_DLV_ERROR DW_DLE_LEB_OUT_ERROR)"

definition write_uval :: "u64 \<Rightarrow> line_out \<Rightarrow> out_result" where
  "write_uval val out =
     (case dwarf_encode_leb128 val ENCODE_SPACE_NEEDED of
        DW_DLV_OK bs \<Rightarrow> DW_DLV_OK (emit bs out)
      | _ \<Rightarrow> DW_DLV_ERROR DW_DLE_LEB_OUT_ERROR)"

definition write_opcode_uval :: "byte \<Rightarrow> u64 \<Rightarrow> line_out \<Rightarrow> out_result" where
  "write_opcode_uval opcode val out =
     dlv_bind (write_ubyte opcode out) (\<lambda>out1.
       case write_uval val out1 of
         DW_DLV_OK out2 \<Rightarrow> DW_DLV_OK out2
       | _ \<Rightarrow> DW_DLV_ERROR DW_DLE_LEB_OUT_ERROR)"

text \<open>\<open>WRITE_UNALIGNED\<close>: the low bytes of a number, in the byte order of the output.\<close>

definition WRITE_UNALIGNED :: "bool \<Rightarrow> u64 \<Rightarrow> nat \<Rightarrow> byte list" where
  "WRITE_UNALIGNED swap val len =
     (if swap then dwarf_memcpy_swap_bytes (replicate len 0) (le_bytes 8 val) len
      else dwarf_memcpy_noswap_bytes (replicate len 0) (le_bytes 8 val) len)"

definition write_fixed_size :: "bool \<Rightarrow> u64 \<Rightarrow> nat \<Rightarrow> line_out \<Rightarrow> out_result" where
  "write_fixed_size swap val len out = DW_DLV_OK (emit (WRITE_UNALIGNED swap val len) out)"

subsection \<open>The special opcode of an advance\<close>

definition OPC_INCS_ZERO :: u32 where "OPC_INCS_ZERO = - 1"
definition OPC_OUT_OF_RANGE :: u32 where "OPC_OUT_OF_RANGE = - 2"
definition LINE_OUT_OF_RANGE :: u32 where "LINE_OUT_OF_RANGE = - 3"

definition dwarf_pro_get_opc :: "line_inits \<Rightarrow> u64 \<Rightarrow> u32 \<Rightarrow> u32" where
  "dwarf_pro_get_opc inits addr_adv line_adv =
     (let line_base = pi_line_base inits; line_range = pi_line_range inits;
          factored_adv = addr_adv div ucast (pi_minimum_instruction_length inits)
      in if line_adv = 0 \<and> factored_adv = 0 then OPC_INCS_ZERO
         else if sint line_base \<le> sint line_adv \<and> sint line_adv < sint (line_base + line_range)
         then let opc = ucast (scast (line_adv - line_base) + factored_adv * scast line_range
                    + ucast (pi_opcode_base inits) :: u64)
              in if 255 < sint opc then OPC_OUT_OF_RANGE else opc
         else LINE_OUT_OF_RANGE)"

subsection \<open>The opcodes of a row\<close>

text \<open>
  Each piece of the loop body gets \<open>prevline\<close> and the output, and gives them back.
\<close>

type_synonym piece = "p_line \<times> line_out \<Rightarrow> (dw_error, p_line \<times> line_out) dlv"

definition writing :: "(line_out \<Rightarrow> out_result) \<Rightarrow> (p_line \<Rightarrow> p_line) \<Rightarrow> piece" where
  "writing w f = (\<lambda>(prevline, out). dlv_bind (w out) (\<lambda>out1. DW_DLV_OK (f prevline, out1)))"

definition write_end_sequence :: "p_debug \<Rightarrow> p_line \<Rightarrow> piece" where
  "write_end_sequence dbg curline = (\<lambda>(prevline, out).
     let addr_adv = dpl_address curline - dpl_address prevline;
         min_length = ucast (pi_minimum_instruction_length (de_line_inits dbg))
     in dlv_bind (if 0 < addr_adv then write_opcode_uval DW_LNS_advance_pc (addr_adv div min_length) out
                  else DW_DLV_OK out) (\<lambda>out1.
        dlv_bind (write_ubyte 0 out1) (\<lambda>out2.
        dlv_bind (write_uval 1 out2) (\<lambda>out3.
        dlv_bind (write_ubyte DW_LNE_end_sequence out3) (\<lambda>out4.
        DW_DLV_OK (dwarf_pro_reg_init dbg, out4))))))"

definition write_set_address :: "p_debug \<Rightarrow> p_line \<Rightarrow> piece" where
  "write_set_address dbg curline = (\<lambda>(prevline, out).
     dlv_bind (write_ubyte 0 out) (\<lambda>out1.
     dlv_bind (write_uval (1 + ucast (pd_pointer_size dbg)) out1) (\<lambda>out2.
     dlv_bind (write_ubyte DW_LNE_set_address out2) (\<lambda>out3.
     let out4 = out3\<lparr>lo_relocs := lo_relocs out3
           @ [(of_nat (length (lo_data out3)), dpl_r_symidx curline, de_dwarf_offset_size dbg)]\<rparr>
     in dlv_bind (write_fixed_size (pd_swap dbg) (dpl_address curline) (unat (pd_pointer_size dbg)) out4) (\<lambda>out5.
     DW_DLV_OK (prevline\<lparr>dpl_address := dpl_address curline\<rparr>, out5))))))"

definition write_discriminator :: "p_line \<Rightarrow> line_out \<Rightarrow> out_result" where
  "write_discriminator curline out =
     dlv_bind (write_ubyte 0 out) (\<lambda>out1.
     dlv_bind (pretend_write_uval (dpl_discriminator curline)) (\<lambda>val_len.
     dlv_bind (write_uval (of_nat (val_len + 1) + 1) out1) (\<lambda>out2.
     dlv_bind (write_ubyte DW_LNE_set_discriminator out2) (\<lambda>out3.
     write_uval (dpl_discriminator curline) out3))))"

definition write_flags :: "line_inits \<Rightarrow> p_line \<Rightarrow> piece" where
  "write_flags inits curline = (\<lambda>(prevline, out).
     if 12 < pi_opcode_base inits
     then dlv_bind (if dpl_epilogue_begin curline \<noteq> 0 then write_ubyte DW_LNS_set_epilogue_begin out
                    else DW_DLV_OK out) (\<lambda>out1.
          dlv_bind (if dpl_prologue_end curline \<noteq> 0 then write_ubyte DW_LNS_set_prologue_end out1
                    else DW_DLV_OK out1) (\<lambda>out2.
          dlv_bind (if dpl_isa curline \<noteq> dpl_isa prevline
                    then write_opcode_uval DW_LNS_set_isa (dpl_isa curline) out2
                    else DW_DLV_OK out2) (\<lambda>out3.
          DW_DLV_OK (prevline, out3))))
     else DW_DLV_OK (prevline, out))"

definition write_set_file :: "p_line \<Rightarrow> piece" where
  "write_set_file curline = (\<lambda>(prevline, out).
     if dpl_file curline \<noteq> dpl_file prevline
     then writing (write_opcode_uval DW_LNS_set_file (dpl_file curline)) (dpl_file_update (\<lambda>_. dpl_file curline))
            (prevline, out)
     else DW_DLV_OK (prevline, out))"

definition write_set_column :: "p_line \<Rightarrow> piece" where
  "write_set_column curline = (\<lambda>(prevline, out).
     if dpl_column curline \<noteq> dpl_column prevline
     then writing (write_opcode_uval DW_LNS_set_column (dpl_column curline))
            (dpl_column_update (\<lambda>_. dpl_column curline)) (prevline, out)
     else DW_DLV_OK (prevline, out))"

definition write_is_stmt :: "p_line \<Rightarrow> piece" where
  "write_is_stmt curline = (\<lambda>(prevline, out).
     if dpl_is_stmt curline \<noteq> dpl_is_stmt prevline
     then writing (write_ubyte DW_LNS_negate_stmt) (dpl_is_stmt_update (\<lambda>_. dpl_is_stmt curline)) (prevline, out)
     else DW_DLV_OK (prevline, out))"

definition write_basic_block :: "p_line \<Rightarrow> piece" where
  "write_basic_block curline = (\<lambda>(prevline, out).
     if dpl_basic_block curline = 1 \<and> dpl_basic_block prevline = 0
     then writing (write_ubyte DW_LNS_set_basic_block) (dpl_basic_block_update (\<lambda>_. dpl_basic_block curline))
            (prevline, out)
     else DW_DLV_OK (prevline, out))"

text \<open>The advance of address and line, with the row: one special opcode, or standard opcodes and \<open>DW_LNS_copy\<close>.\<close>

definition write_copy :: piece where
  "write_copy = writing (write_ubyte DW_LNS_copy) (dpl_basic_block_update (\<lambda>_. 0))"

definition write_advance :: "line_inits \<Rightarrow> p_line \<Rightarrow> piece" where
  "write_advance inits curline = (\<lambda>(prevline, out).
     let addr_adv = dpl_address curline - dpl_address prevline;
         line_adv = ucast (dpl_line curline - dpl_line prevline) :: u32;
         opc = dwarf_pro_get_opc inits addr_adv line_adv;
         min_length = ucast (pi_minimum_instruction_length inits)
     in if addr_adv mod ucast MIN_INST_LENGTH \<noteq> 0 then DW_DLV_ERROR DW_DLE_WRONG_ADDRESS
        else if 0 < sint opc
        then writing (write_ubyte (ucast opc)) (\<lambda>prev. prev\<lparr>dpl_basic_block := 0, dpl_address := dpl_address curline,
               dpl_line := dpl_line curline\<rparr>) (prevline, out)
        else dlv_bind (if 0 < addr_adv
               then writing (write_opcode_uval DW_LNS_advance_pc (addr_adv div min_length))
                      (\<lambda>prev. prev\<lparr>dpl_basic_block := 0, dpl_address := dpl_address curline\<rparr>) (prevline, out)
               else DW_DLV_OK (prevline, out)) (\<lambda>s1.
             dlv_bind (if line_adv \<noteq> 0
               then writing (\<lambda>o1. dlv_bind (write_ubyte DW_LNS_advance_line o1) (write_sval (scast line_adv)))
                      (\<lambda>prev. prev\<lparr>dpl_basic_block := 0, dpl_line := dpl_line curline\<rparr>) s1
               else DW_DLV_OK s1) write_copy))"

definition write_row :: "line_inits \<Rightarrow> p_line \<Rightarrow> piece" where
  "write_row inits curline s =
     dlv_bind (write_flags inits curline s) (\<lambda>s1.
     dlv_bind (write_set_file curline s1) (\<lambda>s2.
     dlv_bind (write_set_column curline s2) (\<lambda>s3.
     dlv_bind (write_is_stmt curline s3) (\<lambda>s4.
     dlv_bind (write_basic_block curline s4) (\<lambda>s5.
     dlv_bind (if dpl_discriminator curline \<noteq> 0 then writing (write_discriminator curline) (\<lambda>prev. prev) s5
               else DW_DLV_OK s5) (\<lambda>s6.
     write_advance inits curline s6))))))"

definition write_line :: "p_debug \<Rightarrow> p_line \<Rightarrow> piece" where
  "write_line dbg curline s =
     (if dpl_opc curline \<noteq> 0
      then if dpl_opc curline = DW_LNE_end_sequence then write_end_sequence dbg curline s
           else if dpl_opc curline = DW_LNE_set_address then write_set_address dbg curline s
           else if dpl_opc curline = DW_LNE_define_file then DW_DLV_OK s
           else if dpl_opc curline = DW_LNE_set_discriminator
           then writing (write_discriminator curline) (\<lambda>prev. prev) s
           else write_copy s
      else write_row (de_line_inits dbg) curline s)"

fun write_lines :: "p_debug \<Rightarrow> p_line list \<Rightarrow> piece" where
  "write_lines dbg [] s = DW_DLV_OK s"
| "write_lines dbg (curline # rest) s = dlv_bind (write_line dbg curline s) (write_lines dbg rest)"

subsection \<open>The header and the whole table\<close>

text \<open>\<open>std_opcode_len\<close> has twelve entries; reading behind them is left open, as in C.\<close>

definition std_opcode_len :: "byte list" where
  "std_opcode_len = [0, 1, 1, 1, 1, 0, 0, 0, 1, 0, 0, 1]"

definition extension_size :: "p_debug \<Rightarrow> nat" where
  "extension_size dbg = (if de_64bit_extension dbg then 4 else 0)"

definition names_set :: "p_debug \<Rightarrow> bool" where
  "names_set dbg \<longleftrightarrow> list_all (\<lambda>e. dfe_name e \<noteq> None) (de_inc_dirs dbg @ de_file_entries dbg)"

definition entry_bytes :: "p_f_entry \<Rightarrow> byte list" where
  "entry_bytes e = the (dfe_name e) @ [0] @ dfe_args e"

text \<open>\<open>prolog_size\<close> is an \<open>unsigned\<close> of 32 bits.\<close>

definition calculate_size_of_line_header4 :: "p_debug \<Rightarrow> u32" where
  "calculate_size_of_line_header4 dbg =
     (let inits = de_line_inits dbg in
      of_nat (de_dwarf_offset_size dbg + extension_size dbg) + 2 + of_nat (de_dwarf_offset_size dbg) + 1 + 1 + 1 + 1 + 1
      + (if pi_linetable_version inits = 4 then 1 else 0) + (pi_opcode_base inits - 1)
      + sum_list (map (\<lambda>e. of_nat (length (the (dfe_name e)) + 1)) (de_inc_dirs dbg)) + 1
      + sum_list (map (\<lambda>e. of_nat (length (the (dfe_name e)) + 1 + length (dfe_args e))) (de_file_entries dbg)) + 1)"

definition line_header4 :: "p_debug \<Rightarrow> u32 \<Rightarrow> byte list" where
  "line_header4 dbg prolog_size =
     (let inits = de_line_inits dbg; offset_size = de_dwarf_offset_size dbg; write = WRITE_UNALIGNED (pd_swap dbg);
          start = (if 0 < extension_size dbg then write DISTINGUISHED_VALUE 4 else []) @ write 0 offset_size
            @ write (ucast (ucast (pi_linetable_version inits) :: 16 word)) 2;
          du = ucast prolog_size - of_nat (length start) - of_nat offset_size
      in start @ write du offset_size @ [ucast (pi_minimum_instruction_length inits)]
         @ (if pi_linetable_version inits = 4 \<or> pi_linetable_version inits = 5
            then [ucast (pi_maximum_operations_per_instruction inits)] else [])
         @ [ucast (pi_default_is_stmt inits), ucast (pi_line_base inits), ucast (pi_line_range inits),
            ucast (pi_opcode_base inits)]
         @ map ((!) std_opcode_len) [0..<unat (pi_opcode_base inits - 1)]
         @ concat (map (\<lambda>e. the (dfe_name e) @ [0]) (de_inc_dirs dbg)) @ [0]
         @ concat (map entry_bytes (de_file_entries dbg)) @ [0])"

text \<open>
  \<open>None\<close> where a null name is followed, and for version 5, whose header is not modelled. The chunk for the header has
  \<open>prolog_size\<close> bytes; a longer header is written over its end before the 64 bits of \<open>sofar\<close>, the number of bytes written,
  are compared with \<open>prolog_size\<close>. What is overwritten then is not modelled, only the error found. \<open>sum_bytes\<close> is an \<open>int\<close>.
\<close>

definition dwarf_pro_generate_debugline :: "p_debug \<Rightarrow> out_result option" where
  "dwarf_pro_generate_debugline dbg =
     (if 5 < de_output_version dbg then Some (DW_DLV_ERROR DW_DLE_VERSION_STAMP_ERROR)
      else if de_output_version dbg = 5 \<or> \<not> names_set dbg then None
      else let prolog_size = calculate_size_of_line_header4 dbg; header = line_header4 dbg prolog_size;
               sofar = of_nat (length header) :: u64;
               offset_size = de_dwarf_offset_size dbg; ext = extension_size dbg
           in Some (if sofar \<noteq> ucast prolog_size then DW_DLV_ERROR DW_DLE_LINE_HEADER_LENGTH_BOTCH
              else if \<not> fst (alloc (de_mem dbg)) then DW_DLV_ERROR DW_DLE_LINE_ALLOC
              else dlv_bind (write_lines dbg (de_lines dbg) (dwarf_pro_reg_init dbg, \<lparr>lo_data = header, lo_relocs = []\<rparr>))
                (\<lambda>(prevline, out).
                  let sum_bytes = of_nat (length (lo_data out)) :: u32; du = scast (sum_bytes - of_nat (offset_size + ext))
                  in DW_DLV_OK (out\<lparr>lo_data := take ext (lo_data out) @ WRITE_UNALIGNED (pd_swap dbg) du offset_size
                       @ drop (ext + offset_size) (lo_data out)\<rparr>))))"

end
