(* ===== verification/Line_Rows.thy ===== *)
theory Line_Rows
  imports Line_Producer
begin

text \<open>
  What the reader makes of a line number program of the producer.
\<close>

subsection \<open>Running a stretch of the program\<close>

definition runs :: "line_args \<Rightarrow> byte list \<Rightarrow> line_state \<Rightarrow> line_state \<Rightarrow> bool" where
  "runs a bs st st1 \<longleftrightarrow> (\<forall>p. at_bytes (la_section a) p (la_end a) bs \<longrightarrow> line_loop a p st = line_loop a (p + length bs) st1)"

lemma runs_nil [simp]: "runs a [] st st"
  by (simp add: runs_def)

lemma runs_append: "runs a bs st st1 \<Longrightarrow> runs a cs st1 st2 \<Longrightarrow> runs a (bs @ cs) st st2"
  by (simp add: runs_def at_bytes_append add.assoc)

lemma runs_op:
  assumes "\<And>p. at_bytes (la_section a) p (la_end a) (b # bs) \<Longrightarrow> line_op a p st = DW_DLV_OK (p + 1 + length bs, st1)"
  shows "runs a (b # bs) st st1"
  using assms at_bytes_first [of "la_section a" _ "la_end a" b bs]
  by (auto simp: runs_def line_loop.simps [of a _ st])

lemma at_bytes_tail: "at_bytes sec p e (b # bs) \<Longrightarrow> at_bytes sec (Suc p) e bs"
  using at_bytes_append [of sec p e "[b]" bs] by simp

lemma line_op_opcode: "at_bytes (la_section a) p (la_end a) (b # bs) \<Longrightarrow> la_section a ! p = b"
  using at_bytes_first by blast

text \<open>A context as the header of the producer's table gives it.\<close>

definition producer_context :: "line_inits \<Rightarrow> line_context \<Rightarrow> bool" where
  "producer_context inits ctx \<longleftrightarrow>
     lc_minimum_instruction_length ctx = ucast (pi_minimum_instruction_length inits)
     \<and> lc_maximum_ops_per_instruction ctx < 2
     \<and> lc_default_is_stmt ctx = ucast (pi_default_is_stmt inits)
     \<and> lc_line_base ctx = ucast (pi_line_base inits) \<and> lc_line_range ctx = ucast (pi_line_range inits)
     \<and> lc_opcode_base ctx = ucast (pi_opcode_base inits) \<and> lc_std_op_count ctx = lc_opcode_base ctx - 1"

definition usable_inits :: "line_inits \<Rightarrow> bool" where
  "usable_inits inits \<longleftrightarrow>
     pi_minimum_instruction_length inits \<noteq> 0 \<and> pi_minimum_instruction_length inits < 256
     \<and> pi_default_is_stmt inits < 2 \<and> - 128 \<le> sint (pi_line_base inits) \<and> sint (pi_line_base inits) < 128
     \<and> 0 < sint (pi_line_range inits) \<and> sint (pi_line_range inits) < 256
     \<and> 10 \<le> pi_opcode_base inits \<and> pi_opcode_base inits \<le> 13"

subsection \<open>Single opcodes\<close>

lemma opcode_standard:
  assumes "lc_std_op_count ctx = lc_opcode_base ctx - 1" "b \<noteq> 0" "b < lc_opcode_base ctx"
  shows "WHAT_IS_OPCODE b (lc_opcode_base ctx) (lc_std_op_count ctx) = LOP_STANDARD"
proof -
  have "lc_opcode_base ctx \<noteq> 0" using assms(3) by auto
  then have "unat (lc_opcode_base ctx) \<le> unat (lc_opcode_base ctx - 1) + 1" by (simp add: unat_minus_one)
  then show ?thesis using assms by (simp add: WHAT_IS_OPCODE_def)
qed

lemma opcode_special: "lc_opcode_base ctx \<le> b \<Longrightarrow> WHAT_IS_OPCODE b (lc_opcode_base ctx) n = LOP_SPECIAL"
  by (simp add: WHAT_IS_OPCODE_def leD)

lemma opcode_extended: "0 < lc_opcode_base ctx \<Longrightarrow> WHAT_IS_OPCODE 0 (lc_opcode_base ctx) n = LOP_EXTENDED"
  by (simp add: WHAT_IS_OPCODE_def)

text \<open>The context knows the opcodes up to \<open>b\<close>.\<close>

definition knows :: "line_context \<Rightarrow> byte \<Rightarrow> bool" where
  "knows ctx b \<longleftrightarrow> lc_std_op_count ctx = lc_opcode_base ctx - 1 \<and> b < lc_opcode_base ctx"

lemma runs_standard:
  assumes "knows (ls_context st) b" "b \<noteq> 0"
    and "\<And>p. at_bytes (la_section a) p (la_end a) bs \<Longrightarrow> standard_op a b p st = DW_DLV_OK (p + length bs, st1)"
  shows "runs a (b # bs) st st1"
proof (rule runs_op)
  fix p assume at: "at_bytes (la_section a) p (la_end a) (b # bs)"
  then show "line_op a p st = DW_DLV_OK (p + 1 + length bs, st1)"
    using assms at_bytes_tail [OF at] line_op_opcode [OF at] opcode_standard [of "ls_context st" b]
    by (simp add: line_op_def knows_def Let_def)
qed

lemma runs_copy:
  assumes "knows (ls_context st) 1" "la_dolines a" "ls_mem st = []"
  shows "runs a [DW_LNS_copy] st (after_row (st\<lparr>ls_is_addr_set := False, ls_rows := ls_rows st
    @ [row_of (ls_regs st) (lr_end_sequence (ls_regs st)) (ls_is_addr_set st) (la_is_actuals_table a)]\<rparr>))"
proof (rule runs_standard)
  fix p assume "at_bytes (la_section a) p (la_end a) []"
  show "standard_op a DW_LNS_copy p st = DW_DLV_OK (p + length [], after_row (st\<lparr>ls_is_addr_set := False, ls_rows := ls_rows st
    @ [row_of (ls_regs st) (lr_end_sequence (ls_regs st)) (ls_is_addr_set st) (la_is_actuals_table a)]\<rparr>))"
    using assms by (cases st) (simp add: standard_op_def lns_copy_def add_marked_row_def add_row_def line_codes)
qed (use assms in \<open>simp_all add: line_codes\<close>)

definition with_regs :: "line_state \<Rightarrow> line_registers \<Rightarrow> line_state" where
  "with_regs st r = st\<lparr>ls_regs := r\<rparr>"

lemma with_regs_simps [simp]:
  "ls_regs (with_regs st r) = r" "ls_context (with_regs st r) = ls_context st" "ls_rows (with_regs st r) = ls_rows st"
  "ls_mem (with_regs st r) = ls_mem st" "ls_is_addr_set (with_regs st r) = ls_is_addr_set st"
  "with_regs (with_regs st r) q = with_regs st q" "with_regs st (ls_regs st) = st"
  by (simp_all add: with_regs_def)

lemma runs_advance_pc:
  assumes "knows (ls_context st) 2"
  shows "runs a (DW_LNS_advance_pc # uleb v) st (with_regs st ((ls_regs st)\<lparr>lr_address := lr_address (ls_regs st)
    + ucast (lc_minimum_instruction_length (ls_context st)) * v\<rparr>))"
  by (rule runs_standard) (use assms in \<open>simp_all add: standard_op_def lns_advance_pc_def read_uword_de_def line_codes
    Let_def with_regs_def\<close>)

lemma runs_advance_line:
  assumes "knows (ls_context st) 3" "0 \<le> sint (lr_line (ls_regs st) + v)"
  shows "runs a (DW_LNS_advance_line # sleb v) st (with_regs st ((ls_regs st)\<lparr>lr_line := lr_line (ls_regs st) + v\<rparr>))"
  by (rule runs_standard) (use assms in \<open>simp_all add: standard_op_def lns_advance_line_def read_sword_de_def line_codes
    Let_def with_regs_def\<close>)

lemma runs_set_file:
  assumes "knows (ls_context st) 4" "0 \<le> sint v"
  shows "runs a (DW_LNS_set_file # uleb v) st (with_regs st ((ls_regs st)\<lparr>lr_file := v\<rparr>))"
  by (rule runs_standard) (use assms in \<open>simp_all add: standard_op_def lns_set_file_def read_uword_de_def line_codes
    Let_def with_regs_def\<close>)

lemma runs_set_column:
  assumes "knows (ls_context st) 5" "0 \<le> sint v"
  shows "runs a (DW_LNS_set_column # uleb v) st (with_regs st ((ls_regs st)\<lparr>lr_column := v\<rparr>))"
  by (rule runs_standard) (use assms in \<open>simp_all add: standard_op_def lns_set_column_def read_uword_de_def line_codes
    Let_def with_regs_def\<close>)

lemma runs_flag:
  assumes "knows (ls_context st) b"
  shows "b = DW_LNS_negate_stmt \<Longrightarrow> runs a [b] st (with_regs st ((ls_regs st)\<lparr>lr_is_stmt := of_bool (lr_is_stmt (ls_regs st) = 0)\<rparr>))"
    and "b = DW_LNS_set_basic_block \<Longrightarrow> runs a [b] st (with_regs st ((ls_regs st)\<lparr>lr_basic_block := True\<rparr>))"
    and "b = DW_LNS_set_prologue_end \<Longrightarrow> runs a [b] st (with_regs st ((ls_regs st)\<lparr>lr_prologue_end := True\<rparr>))"
    and "b = DW_LNS_set_epilogue_begin \<Longrightarrow> runs a [b] st (with_regs st ((ls_regs st)\<lparr>lr_epilogue_begin := True\<rparr>))"
  by (rule runs_standard; use assms in \<open>simp add: standard_op_def line_codes Let_def with_regs_def\<close>)+

lemma ucast_ucast_byte: "ucast (ucast v :: byte) = take_bit 8 v" for v :: u64
  by (rule bit_word_eqI) (auto simp: bit_simps)

lemma runs_set_isa:
  assumes "knows (ls_context st) 12" "v < 256"
  shows "runs a (DW_LNS_set_isa # uleb v) st (with_regs st ((ls_regs st)\<lparr>lr_isa := ucast v\<rparr>))"
proof -
  have "ucast (ucast v :: byte) = v"
    using less_mask_take [of v 8] assms(2) ucast_ucast_byte [of v] by simp
  then show ?thesis
    by (intro runs_standard) (use assms in \<open>simp_all add: standard_op_def lns_set_isa_def read_uword_de_def line_codes
      Let_def with_regs_def\<close>)
qed

text \<open>Extended opcodes: a null byte, the length of what follows, the opcode and its operand.\<close>

lemma runs_extended:
  assumes "0 < lc_opcode_base (ls_context st)"
    and "\<And>p. at_bytes (la_section a) p (la_end a) (uleb n @ b # bs) \<Longrightarrow> extended_op a p st
      = DW_DLV_OK (p + length (uleb n @ b # bs), st1)"
  shows "runs a (0 # uleb n @ b # bs) st st1"
proof (rule runs_op)
  fix p assume at: "at_bytes (la_section a) p (la_end a) (0 # uleb n @ b # bs)"
  then show "line_op a p st = DW_DLV_OK (p + 1 + length (uleb n @ b # bs), st1)"
    using assms(2) [OF at_bytes_tail [OF at]] line_op_opcode [OF at] opcode_extended [OF assms(1)]
    by (simp add: line_op_def Let_def)
qed

lemma extended_operand:
  assumes "at_bytes (la_section a) p (la_end a) (uleb n @ b # bs)"
  shows "at_bytes (la_section a) (p + length (uleb n) + 1) (la_end a) bs"
    and "extended_op a p st = (let p2 = p + length (uleb n) + 1 in
            if b = DW_LNE_end_sequence then lne_end_sequence a p2 st
            else if b = DW_LNE_set_address then lne_set_address a p2 st
            else if b = DW_LNE_define_file then lne_define_file a p2 st
            else if b = DW_LNE_set_discriminator
            then dlv_bind (read_uword_de a p2) (\<lambda>(v, p3).
                   DW_DLV_OK (p3, st\<lparr>ls_regs := (ls_regs st)\<lparr>lr_discriminator := v\<rparr>\<rparr>))
            else lne_unknown a n p2 st)"
proof -
  have at: "at_bytes (la_section a) p (la_end a) (uleb n)" "at_bytes (la_section a) (p + length (uleb n)) (la_end a) (b # bs)"
    using assms by (simp_all add: at_bytes_append)
  then show "at_bytes (la_section a) (p + length (uleb n) + 1) (la_end a) bs" by (simp add: at_bytes_tail)
  show "extended_op a p st = (let p2 = p + length (uleb n) + 1 in
            if b = DW_LNE_end_sequence then lne_end_sequence a p2 st
            else if b = DW_LNE_set_address then lne_set_address a p2 st
            else if b = DW_LNE_define_file then lne_define_file a p2 st
            else if b = DW_LNE_set_discriminator
            then dlv_bind (read_uword_de a p2) (\<lambda>(v, p3).
                   DW_DLV_OK (p3, st\<lparr>ls_regs := (ls_regs st)\<lparr>lr_discriminator := v\<rparr>\<rparr>))
            else lne_unknown a n p2 st)"
    using at_bytes_first [OF at(2)] at(1) by (simp add: extended_op_def read_uword_de_def Let_def)
qed

lemma runs_set_discriminator:
  assumes "0 < lc_opcode_base (ls_context st)"
  shows "runs a (0 # uleb n @ DW_LNE_set_discriminator # uleb v) st
    (with_regs st ((ls_regs st)\<lparr>lr_discriminator := v\<rparr>))"
proof (rule runs_extended [OF assms])
  fix p assume at: "at_bytes (la_section a) p (la_end a) (uleb n @ DW_LNE_set_discriminator # uleb v)"
  show "extended_op a p st = DW_DLV_OK (p + length (uleb n @ DW_LNE_set_discriminator # uleb v),
      with_regs st ((ls_regs st)\<lparr>lr_discriminator := v\<rparr>))"
    unfolding extended_operand(2) [OF at] using extended_operand(1) [OF at]
    by (simp add: line_codes read_uword_de_def with_regs_def)
qed

lemma runs_end_sequence:
  assumes "0 < lc_opcode_base (ls_context st)" "la_dolines a" "ls_mem st = []"
  shows "runs a (0 # uleb n @ [DW_LNE_end_sequence]) st
    (st\<lparr>ls_rows := ls_rows st @ [row_of (ls_regs st) True False (la_is_actuals_table a)],
        ls_regs := dwarf_set_line_table_regs_default_values (lc_default_is_stmt (ls_context st))\<rparr>)"
proof (rule runs_extended [OF assms(1)])
  fix p assume at: "at_bytes (la_section a) p (la_end a) (uleb n @ [DW_LNE_end_sequence])"
  show "extended_op a p st = DW_DLV_OK (p + length (uleb n @ [DW_LNE_end_sequence]),
      st\<lparr>ls_rows := ls_rows st @ [row_of (ls_regs st) True False (la_is_actuals_table a)],
        ls_regs := dwarf_set_line_table_regs_default_values (lc_default_is_stmt (ls_context st))\<rparr>)"
    unfolding extended_operand(2) [OF at] using assms(2,3)
    by (cases st) (simp add: line_codes lne_end_sequence_def add_row_def row_of_def)
qed

lemma runs_set_address:
  assumes "0 < lc_opcode_base (ls_context st)" "\<not> la_doaddrs a" "la_address_size a \<le> 8"
    and "take_bit (8 * la_address_size a) v = v"
  shows "runs a (0 # uleb n @ DW_LNE_set_address # number_bytes (la_dbg a) (la_address_size a) v) st
    (with_regs st ((ls_regs st)\<lparr>lr_address := v, lr_op_index := 0\<rparr>)\<lparr>ls_is_addr_set := True\<rparr>)"
proof (rule runs_extended [OF assms(1)])
  let ?n = "la_address_size a"
  fix p assume at: "at_bytes (la_section a) p (la_end a) (uleb n @ DW_LNE_set_address # number_bytes (la_dbg a) ?n v)"
  have "at_bytes (la_section a) (p + length (uleb n) + 1) (la_end a) (number_bytes (la_dbg a) ?n v)"
    using extended_operand(1) [OF at] .
  then have "READ_UNALIGNED_CK (la_dbg a) (la_section a) (p + length (uleb n) + 1) ?n (la_end a) = DW_DLV_OK v"
    and "\<not> la_end a < p + length (uleb n) + 1 + ?n"
    using read_number [of "la_section a" "p + length (uleb n) + 1" "la_end a" "la_dbg a" ?n v] assms(3,4)
    by (simp_all add: at_bytes_def)
  then show "extended_op a p st = DW_DLV_OK (p + length (uleb n @ DW_LNE_set_address # number_bytes (la_dbg a) ?n v),
      (with_regs st ((ls_regs st)\<lparr>lr_address := v, lr_op_index := 0\<rparr>)\<lparr>ls_is_addr_set := True\<rparr>))"
    unfolding extended_operand(2) [OF at] using assms(2)
    by (cases st) (simp add: line_codes lne_set_address_def with_regs_def)
qed

subsection \<open>What the producer writes\<close>

lemma encode_16:
  "dwarf_encode_leb128 v ENCODE_SPACE_NEEDED = DW_DLV_OK (uleb v)"
  "dwarf_encode_signed_leb128 v ENCODE_SPACE_NEEDED = DW_DLV_OK (sleb v)"
  by (simp_all add: ENCODE_SPACE_NEEDED_def uleb_written sleb_written)

lemma writes [simp]:
  "write_ubyte b out = DW_DLV_OK (emit [b] out)"
  "write_uval v out = DW_DLV_OK (emit (uleb v) out)"
  "write_sval v out = DW_DLV_OK (emit (sleb v) out)"
  "pretend_write_uval v = DW_DLV_OK (length (uleb v))"
  "write_opcode_uval b v out = DW_DLV_OK (emit (b # uleb v) out)"
  by (simp_all add: write_ubyte_def write_uval_def write_sval_def pretend_write_uval_def write_opcode_uval_def
    encode_16) (simp add: emit_def)

lemma emit_emit [simp]: "emit cs (emit bs out) = emit (bs @ cs) out" "emit [] out = out"
  by (simp_all add: emit_def)

lemma write_discriminator_bytes:
  "write_discriminator l out = DW_DLV_OK (emit
     (0 # uleb (of_nat (length (uleb (dpl_discriminator l)) + 1) + 1) @ DW_LNE_set_discriminator
        # uleb (dpl_discriminator l)) out)"
  by (simp add: write_discriminator_def)

lemma take_le_bytes: "n \<le> m \<Longrightarrow> take n (le_bytes m v) = le_bytes n v"
proof (induction n arbitrary: m v)
  case (Suc n)
  then show ?case by (cases m) auto
qed simp

lemma WRITE_UNALIGNED_bytes:
  assumes "n \<le> 8"
  shows "WRITE_UNALIGNED (de_swap dbg) v n = number_bytes dbg n v"
  using assms swap_loop_reverses [of n "replicate n 0" 0 "le_bytes 8 v"]
  by (simp add: WRITE_UNALIGNED_def number_bytes_def dwarf_memcpy_swap_bytes_def dwarf_memcpy_noswap_bytes_def take_le_bytes)

subsection \<open>Numbers of an advance\<close>

lemma sint_of_int: "- (2 ^ (LENGTH('a) - 1)) \<le> k \<Longrightarrow> k < 2 ^ (LENGTH('a) - 1) \<Longrightarrow> sint (of_int k :: 'a::len word) = k"
  by (simp add: signed_of_int signed_take_bit_int_eq_self)

lemma uint_of_int: "0 \<le> k \<Longrightarrow> k < 2 ^ LENGTH('a) \<Longrightarrow> uint (of_int k :: 'a::len word) = k"
  by (simp add: unsigned_of_int take_bit_int_eq_self)

lemma word_cast:
  "ucast w = (of_int (uint w) :: 'b::len word)" "scast w = (of_int (sint w) :: 'b::len word)" for w :: "'a::len word"
  by (simp_all add: unsigned_ucast_eq signed_scast_eq)

lemma ucast_narrow: "LENGTH('b) \<le> LENGTH('a) \<Longrightarrow> ucast (of_int k :: 'a::len word) = (of_int k :: 'b::len word)"
  by (rule bit_word_eqI) (simp add: bit_simps)

lemma line_advance: "c < 2 ^ 31 \<Longrightarrow> p < 2 ^ 31 \<Longrightarrow> p + scast (ucast (c - p) :: u32) = c" for c p :: u64
proof -
  assume b: "c < 2 ^ 31" "p < 2 ^ 31"
  let ?d = "uint c - uint p"
  have u: "0 \<le> uint c" "0 \<le> uint p" "uint c < 2147483648" "uint p < 2147483648"
    using b by (simp_all add: word_less_def)
  then have d: "- 2147483648 \<le> ?d" "?d < 2147483648" by linarith+
  have "c - p = of_int ?d" by simp
  then have "(ucast (c - p) :: u32) = of_int ?d" using ucast_narrow [where 'a = 64 and 'b = 32, of ?d] by simp
  moreover have "sint (of_int ?d :: u32) = ?d" by (rule sint_of_int) (use d in simp_all)
  ultimately have "(scast (ucast (c - p) :: u32) :: u64) = of_int ?d" by (simp only: word_cast)
  then show ?thesis by simp
qed


lemma get_opc_special:
  assumes min: "pi_minimum_instruction_length inits \<noteq> 0" and base: "- 128 \<le> sint (pi_line_base inits)" "sint (pi_line_base inits) < 128"
    and range: "0 < sint (pi_line_range inits)" "sint (pi_line_range inits) < 256" and op: "pi_opcode_base inits < 256"
    and small: "uint (adv div ucast (pi_minimum_instruction_length inits)) * sint (pi_line_range inits) < 2 ^ 30"
    and opc: "0 < sint (dwarf_pro_get_opc inits adv la)"
  obtains d where "0 \<le> d" "d < sint (pi_line_range inits)" "sint la = sint (pi_line_base inits) + d"
    "dwarf_pro_get_opc inits adv la = of_int (d
       + uint (adv div ucast (pi_minimum_instruction_length inits)) * sint (pi_line_range inits) + uint (pi_opcode_base inits))"
    "d + uint (adv div ucast (pi_minimum_instruction_length inits)) * sint (pi_line_range inits)
       + uint (pi_opcode_base inits) < 256"
proof -
  let ?F = "adv div ucast (pi_minimum_instruction_length inits)" and ?R = "sint (pi_line_range inits)"
  let ?B = "sint (pi_line_base inits)" and ?O = "uint (pi_opcode_base inits)"
  let ?d = "sint la - ?B" and ?x = "sint la - ?B + uint ?F * ?R + ?O"
  have neg: "sint OPC_INCS_ZERO = - 1" "sint OPC_OUT_OF_RANGE = - 2" "sint LINE_OUT_OF_RANGE = - 3"
    by (simp_all add: OPC_INCS_ZERO_def OPC_OUT_OF_RANGE_def LINE_OUT_OF_RANGE_def)
  have sum: "sint (pi_line_base inits + pi_line_range inits) = ?B + ?R"
  proof -
    have "pi_line_base inits + pi_line_range inits = of_int (?B + ?R)" by simp
    moreover have "sint (of_int (?B + ?R) :: u32) = ?B + ?R" by (rule sint_of_int) (use base range in simp_all)
    ultimately show ?thesis by (simp only:)
  qed
  have in_range: "?B \<le> sint la" "sint la < ?B + ?R"
    and val: "dwarf_pro_get_opc inits adv la = ucast (scast (la - pi_line_base inits) + ?F * scast (pi_line_range inits)
                    + ucast (pi_opcode_base inits) :: u64)"
    and le: "sint (dwarf_pro_get_opc inits adv la) \<le> 255"
    using opc neg sum by (auto simp: dwarf_pro_get_opc_def Let_def split: if_splits)
  have "la - pi_line_base inits = of_int ?d" by simp
  moreover have "sint (of_int ?d :: u32) = ?d" by (rule sint_of_int) (use in_range range in simp_all)
  ultimately have c1: "scast (la - pi_line_base inits) = (of_int ?d :: u64)" by (simp only: word_cast)
  have c2: "scast (pi_line_range inits) = (of_int ?R :: u64)" "ucast (pi_opcode_base inits) = (of_int ?O :: u64)"
    by (simp_all only: word_cast)
  have c3: "of_int (uint ?F) = ?F" by simp
  have "scast (la - pi_line_base inits) + ?F * scast (pi_line_range inits) + ucast (pi_opcode_base inits)
     = (of_int ?x :: u64)"
    unfolding c1 c2 of_int_add of_int_mult c3 ..
  with val have val: "dwarf_pro_get_opc inits adv la = of_int ?x"
    using ucast_narrow [where 'a = 64 and 'b = 32, of ?x] by simp
  have "?O < 256" using op by (simp add: word_less_def)
  moreover have "0 \<le> uint ?F * ?R" using range by simp
  ultimately have "0 \<le> ?x" "?x < 2 ^ 31" using in_range range small uint_ge_0 [of "pi_opcode_base inits"] by simp_all
  then have "sint (of_int ?x :: u32) = ?x" by (intro sint_of_int) simp_all
  then have "?x < 256" using le val by simp
  then show thesis using that [of ?d] in_range val by simp
qed

lemma special_split:
  fixes la opc :: u32 and F :: u64
  assumes d: "0 \<le> d" "d < sint lrange" and la: "sint la = sint base + d"
    and opc: "opc = of_int (d + uint F * sint lrange + uint ob)" "d + uint F * sint lrange + uint ob < 256"
    and base: "- 128 \<le> sint base" "sint base < 128" and r: "sint lrange < 256" and ob: "ob < 256"
  defines "op \<equiv> (ucast opc :: byte) - ucast (ob :: u32)"
  shows "ucast (op div ucast (lrange :: u32)) = F"
    and "scast (ucast (base :: u32) :: byte) + ucast (op mod ucast lrange) = (scast la :: u64)"
    and "ucast ob \<le> (ucast opc :: byte)"
proof -
  let ?n = "d + uint F * sint lrange"
  have FR: "0 \<le> uint F * sint lrange" using d by simp
  have O: "0 \<le> uint ob" by simp
  have n: "0 \<le> ?n" "?n < 256" "0 \<le> ?n + uint ob" using d FR opc(2) O by linarith+
  have c: "(ucast opc :: byte) = of_int (?n + uint ob)"
    unfolding opc(1) by (rule ucast_narrow) simp
  have o: "(ucast ob :: byte) = of_int (uint ob)" by (simp only: word_cast)
  have "op = of_int ?n" unfolding op_def c o by (simp only: of_int_diff [symmetric] add_diff_cancel_right')
  moreover have "uint (of_int ?n :: byte) = ?n" by (rule uint_of_int) (use n in simp_all)
  ultimately have uop: "uint op = ?n" by (simp only:)
  have "(ucast lrange :: byte) = of_int (sint lrange)"
    using ucast_narrow [where 'a = 32 and 'b = 8, of "sint lrange"] by simp
  moreover have "uint (of_int (sint lrange) :: byte) = sint lrange" by (rule uint_of_int) (use d r in simp_all)
  ultimately have ur: "uint (ucast lrange :: byte) = sint lrange" by (simp only:)
  have "sint lrange \<noteq> 0" using d by simp
  then have q: "?n div sint lrange = uint F" "?n mod sint lrange = d"
    using d by simp_all
  have "ucast (op div ucast lrange) = (of_int (uint F) :: u64)"
    unfolding word_cast(1) [of "op div ucast lrange"] uint_div uop ur q ..
  then show "ucast (op div ucast lrange) = F" by simp
  have m: "ucast (op mod ucast lrange) = (of_int d :: u64)"
    unfolding word_cast(1) [of "op mod ucast lrange"] uint_mod uop ur q ..
  have "(ucast base :: byte) = of_int (sint base)"
    using ucast_narrow [where 'a = 32 and 'b = 8, of "sint base"] by simp
  moreover have "sint (of_int (sint base) :: byte) = sint base" by (rule sint_of_int) (use base in simp_all)
  ultimately have "(scast (ucast base :: byte) :: u64) = of_int (sint base)" by (simp only: word_cast(2))
  then show "scast (ucast base :: byte) + ucast (op mod ucast lrange) = (scast la :: u64)"
    unfolding m word_cast(2) [of la] la by (simp only: of_int_add)
  have "uint (of_int (?n + uint ob) :: byte) = ?n + uint ob" by (rule uint_of_int) (use n opc(2) in simp_all)
  moreover have "uint (of_int (uint ob) :: byte) = uint ob" by (rule uint_of_int) (use n opc(2) in simp_all)
  ultimately show "ucast ob \<le> (ucast opc :: byte)" unfolding c o word_le_def using n by (simp only:)
qed

subsection \<open>Pieces that set registers\<close>

definition does :: "line_args \<Rightarrow> line_context \<Rightarrow> piece \<Rightarrow> p_line \<Rightarrow> line_registers \<Rightarrow> p_line \<Rightarrow> line_registers \<Rightarrow> bool" where
  "does a ctx f prev r prev1 r1 \<longleftrightarrow> (\<forall>out (st :: line_state). ls_context st = ctx \<longrightarrow> ls_regs st = r \<longrightarrow>
     (\<exists>bs. f (prev, out) = DW_DLV_OK (prev1, emit bs out) \<and> runs a bs st (with_regs st r1)))"

lemma does_then:
  assumes "does a ctx f prev r prev1 r1" "does a ctx g prev1 r1 prev2 r2"
  shows "does a ctx (\<lambda>s. dlv_bind (f s) g) prev r prev2 r2"
  unfolding does_def
proof (intro allI impI)
  fix out and st :: line_state assume st: "ls_context st = ctx" "ls_regs st = r"
  obtain bs where bs: "f (prev, out) = DW_DLV_OK (prev1, emit bs out)" "runs a bs st (with_regs st r1)"
    using assms(1) st by (auto simp: does_def)
  obtain cs where "g (prev1, emit bs out) = DW_DLV_OK (prev2, emit cs (emit bs out))"
    "runs a cs (with_regs st r1) (with_regs (with_regs st r1) r2)"
    using assms(2) [unfolded does_def, rule_format, of "with_regs st r1" "emit bs out"] st(1) by auto
  then show "\<exists>bs. dlv_bind (f (prev, out)) g = DW_DLV_OK (prev2, emit bs out) \<and> runs a bs st (with_regs st r2)"
    using bs by (intro exI [of _ "bs @ cs"]) (simp add: runs_append)
qed

lemma does_write:
  assumes "\<And>out. f (prev, out) = (if c then writing w u (prev, out) else DW_DLV_OK (prev, out))"
    and "\<And>out. w out = DW_DLV_OK (emit bs out)"
    and "\<And>st :: line_state. c \<Longrightarrow> ls_context st = ctx \<Longrightarrow> ls_regs st = r \<Longrightarrow> runs a bs st (with_regs st r1)"
    and "c \<Longrightarrow> u prev = prev1" "\<not> c \<Longrightarrow> prev1 = prev \<and> r1 = r"
  shows "does a ctx f prev r prev1 r1"
  unfolding does_def
proof (intro allI impI)
  fix out and st :: line_state assume st: "ls_context st = ctx" "ls_regs st = r"
  show "\<exists>bs. f (prev, out) = DW_DLV_OK (prev1, emit bs out) \<and> runs a bs st (with_regs st r1)"
  proof (cases c)
    case True
    then show ?thesis using assms(1,2,4) assms(3) [OF True st] by (auto simp: writing_def)
  next
    case False
    then have "with_regs st r1 = st" using assms(5) st(2) with_regs_simps(7) [of st] by simp
    then show ?thesis using assms(1,5) False by (intro exI [of _ "[]"]) simp
  qed
qed

lemma does_cong: "(\<And>out. f (prev, out) = g (prev, out)) \<Longrightarrow> does a ctx g prev r prev1 r1 \<Longrightarrow> does a ctx f prev r prev1 r1"
  by (simp add: does_def)

text \<open>The registers that stand for \<open>prevline\<close>; \<open>isa\<close> is not kept up to date there.\<close>

definition regs_of :: "p_line \<Rightarrow> byte \<Rightarrow> line_registers" where
  "regs_of prev isa =
     \<lparr>lr_address = dpl_address prev, lr_file = dpl_file prev, lr_line = dpl_line prev, lr_column = dpl_column prev,
      lr_is_stmt = of_bool (dpl_is_stmt prev \<noteq> 0), lr_basic_block = False, lr_end_sequence = False, lr_prologue_end = False,
      lr_epilogue_begin = False, lr_isa = isa, lr_op_index = 0, lr_discriminator = 0, lr_call_context = 0,
      lr_subprogram = 0\<rparr>"

definition row_fits :: "line_inits \<Rightarrow> p_line \<Rightarrow> p_line \<Rightarrow> bool" where
  "row_fits inits prev l \<longleftrightarrow>
     (let adv = dpl_address l - dpl_address prev; m = ucast (pi_minimum_instruction_length inits) in
      adv mod m = 0 \<and> uint (adv div m) * sint (pi_line_range inits) < 2 ^ 30
      \<and> dpl_line l < 2 ^ 31 \<and> dpl_file l < 2 ^ 63 \<and> dpl_column l < 2 ^ 63 \<and> dpl_is_stmt l < 2
      \<and> dpl_basic_block l < 2 \<and> dpl_isa l < 256 \<and> (dpl_epilogue_begin l = 0 \<or> pi_opcode_base inits \<le> 12))"

definition prev_ok :: "p_line \<Rightarrow> bool" where
  "prev_ok prev \<longleftrightarrow> dpl_basic_block prev = 0 \<and> dpl_isa prev = 0 \<and> dpl_is_stmt prev < 2 \<and> dpl_line prev < 2 ^ 31"

definition newer_opcodes :: "line_inits \<Rightarrow> bool" where
  "newer_opcodes inits \<longleftrightarrow> 12 < pi_opcode_base inits"

definition isa_after :: "line_inits \<Rightarrow> byte \<Rightarrow> p_line \<Rightarrow> byte" where
  "isa_after inits isa l = (if newer_opcodes inits \<and> dpl_isa l \<noteq> 0 then ucast (dpl_isa l) else isa)"

lemma uint_narrow: "ob < 256 \<Longrightarrow> uint (ucast ob :: byte) = uint ob" for ob :: u32
  by (simp only: word_cast(1) [of ob]) (rule uint_of_int; simp add: word_less_def)

lemma inits_facts:
  assumes "usable_inits inits" "producer_context inits ctx"
  shows "b < 10 \<Longrightarrow> knows ctx b" "newer_opcodes inits \<Longrightarrow> b < 13 \<Longrightarrow> knows ctx b" "0 < lc_opcode_base ctx"
    "pi_opcode_base inits < 256" "ucast (pi_minimum_instruction_length inits) = (ucast (lc_minimum_instruction_length ctx) :: u64)"
    "(ucast (pi_minimum_instruction_length inits) :: u64) \<noteq> 0"
proof -
  have ob: "10 \<le> uint (pi_opcode_base inits)" "uint (pi_opcode_base inits) \<le> 13"
    using assms(1) by (simp_all add: usable_inits_def word_le_def)
  then show "pi_opcode_base inits < 256" by (simp add: word_less_def)
  then have u: "uint (lc_opcode_base ctx) = uint (pi_opcode_base inits)"
    using assms(2) uint_narrow [of "pi_opcode_base inits"] by (simp add: producer_context_def)
  then show "0 < lc_opcode_base ctx" using ob(1) by (simp add: word_less_def)
  show "knows ctx b" if "b < 10"
    using that u ob(1) assms(2) by (simp add: knows_def producer_context_def word_less_def)
  show "knows ctx b" if "newer_opcodes inits" "b < 13"
    using that u assms(2) by (simp add: knows_def producer_context_def word_less_def newer_opcodes_def)
  have m: "uint (ucast (pi_minimum_instruction_length inits) :: byte) = uint (pi_minimum_instruction_length inits)"
    by (rule uint_narrow) (use assms(1) in \<open>simp add: usable_inits_def\<close>)
  have lc: "lc_minimum_instruction_length ctx = ucast (pi_minimum_instruction_length inits)"
    using assms(2) by (simp add: producer_context_def)
  show "ucast (pi_minimum_instruction_length inits) = (ucast (lc_minimum_instruction_length ctx) :: u64)"
    by (rule trans [OF word_cast(1) [of "pi_minimum_instruction_length inits", where 'b = 64]])
      (simp only: lc word_cast(1) [of "ucast (pi_minimum_instruction_length inits) :: byte", where 'b = 64] m)
  have "uint (pi_minimum_instruction_length inits) \<noteq> 0" "uint (pi_minimum_instruction_length inits) < 256"
    using assms(1) by (simp_all add: usable_inits_def word_less_def unsigned_eq_0_iff)
  moreover from this(2) have "uint (of_int (uint (pi_minimum_instruction_length inits)) :: u64) = uint (pi_minimum_instruction_length inits)"
    by (intro uint_of_int) simp_all
  ultimately have "uint (ucast (pi_minimum_instruction_length inits) :: u64) \<noteq> 0"
    by (simp only: word_cast(1) [of "pi_minimum_instruction_length inits", where 'b = 64] not_False_eq_True)
  then show "(ucast (pi_minimum_instruction_length inits) :: u64) \<noteq> 0" by (simp add: unsigned_eq_0_iff)
qed

lemma small_signed: "v < 2 ^ 63 \<Longrightarrow> 0 \<le> sint v" for v :: u64
  using sint_64 [of v] by (simp add: word_less_def)

lemma bool_byte: "b < 2 \<Longrightarrow> b = 0 \<or> b = 1" for b :: byte
proof -
  assume "b < 2"
  then have "uint b < 2" by (simp add: word_less_def)
  then have "uint b = 0 \<or> uint b = 1" using uint_ge_0 [of b] by linarith
  then show ?thesis by (auto simp: word_uint_eq_iff)
qed

lemma does_same: "r1 = r \<Longrightarrow> does a ctx DW_DLV_OK prev r prev r1"
  unfolding does_def using with_regs_simps(7) by (auto intro!: exI [of _ "[]"])

lemma piece_flags:
  assumes ok: "usable_inits inits" "producer_context inits ctx" "row_fits inits prev0 l" "dpl_isa prev = 0"
    and r: "\<not> lr_epilogue_begin r" "\<not> lr_prologue_end r"
  shows "does a ctx (write_flags inits l) prev r prev
    (r\<lparr>lr_prologue_end := newer_opcodes inits \<and> dpl_prologue_end l \<noteq> 0, lr_isa := isa_after inits (lr_isa r) l\<rparr>)"
proof (cases "newer_opcodes inits")
  case False
  then show ?thesis using r
    by (intro does_cong [OF _ does_same]) (simp_all add: write_flags_def newer_opcodes_def isa_after_def)
next
  case True
  then have epi: "dpl_epilogue_begin l = 0" and isa: "dpl_isa l < 256"
    using ok(3) by (auto simp: row_fits_def newer_opcodes_def Let_def not_less)
  let ?r1 = "r\<lparr>lr_prologue_end := dpl_prologue_end l \<noteq> 0\<rparr>"
  let ?f = "\<lambda>s. if dpl_prologue_end l \<noteq> 0 then writing (write_ubyte DW_LNS_set_prologue_end) (\<lambda>prev. prev) s else DW_DLV_OK s"
  let ?g = "\<lambda>s. if dpl_isa l \<noteq> 0 then writing (write_opcode_uval DW_LNS_set_isa (dpl_isa l)) (\<lambda>prev. prev) s else DW_DLV_OK s"
  have "does a ctx ?f prev r prev ?r1"
  proof (rule does_write)
    show "runs a [DW_LNS_set_prologue_end] st (with_regs st ?r1)"
      if "dpl_prologue_end l \<noteq> 0" "ls_context st = ctx" "ls_regs st = r" for st :: line_state
      using runs_flag(3) [of st _ a] that inits_facts(2) [OF ok(1,2) True, of 10] by (auto simp: DW_LNS_set_prologue_end_def)
    show "?f (prev, out) = (if dpl_prologue_end l \<noteq> 0 then writing (write_ubyte DW_LNS_set_prologue_end) (\<lambda>prev. prev) (prev, out)
      else DW_DLV_OK (prev, out))" for out ..
  qed (use r in auto)
  moreover have "does a ctx ?g prev ?r1 prev (?r1\<lparr>lr_isa := isa_after inits (lr_isa ?r1) l\<rparr>)"
  proof (rule does_write)
    show "runs a (DW_LNS_set_isa # uleb (dpl_isa l)) st (with_regs st (?r1\<lparr>lr_isa := isa_after inits (lr_isa ?r1) l\<rparr>))"
      if "dpl_isa l \<noteq> 0" "ls_context st = ctx" "ls_regs st = ?r1" for st :: line_state
      using runs_set_isa [of st "dpl_isa l" a] that inits_facts(2) [OF ok(1,2) True, of 12] isa True
      by (auto simp: isa_after_def)
    show "?g (prev, out) = (if dpl_isa l \<noteq> 0 then writing (write_opcode_uval DW_LNS_set_isa (dpl_isa l)) (\<lambda>prev. prev) (prev, out)
      else DW_DLV_OK (prev, out))" for out ..
  qed (auto simp: isa_after_def)
  ultimately have "does a ctx (\<lambda>s. dlv_bind (?f s) ?g) prev r prev (?r1\<lparr>lr_isa := isa_after inits (lr_isa ?r1) l\<rparr>)"
    by (rule does_then)
  then have "does a ctx (write_flags inits l) prev r prev (?r1\<lparr>lr_isa := isa_after inits (lr_isa ?r1) l\<rparr>)"
    by (rule does_cong [rotated]) (use True epi ok(4) in \<open>simp add: write_flags_def newer_opcodes_def writing_def\<close>)
  then show ?thesis using True by simp
qed

lemma piece_file:
  assumes "usable_inits inits" "producer_context inits ctx" "row_fits inits prev0 l" "lr_file r = dpl_file prev"
  shows "does a ctx (write_set_file l) prev r (prev\<lparr>dpl_file := dpl_file l\<rparr>) (r\<lparr>lr_file := dpl_file l\<rparr>)"
proof (rule does_write)
  show "write_set_file l (prev, out) = (if dpl_file l \<noteq> dpl_file prev
      then writing (write_opcode_uval DW_LNS_set_file (dpl_file l)) (dpl_file_update (\<lambda>_. dpl_file l)) (prev, out)
      else DW_DLV_OK (prev, out))" for out
    by (simp add: write_set_file_def)
  show "runs a (DW_LNS_set_file # uleb (dpl_file l)) st (with_regs st (r\<lparr>lr_file := dpl_file l\<rparr>))"
    if "ls_context st = ctx" "ls_regs st = r" for st :: line_state
    using runs_set_file [of st "dpl_file l" a] that small_signed [of "dpl_file l"] inits_facts(1) [OF assms(1,2), of 4] assms(3)
    by (simp add: row_fits_def Let_def)
qed (use assms(4) in auto)

lemma piece_column:
  assumes "usable_inits inits" "producer_context inits ctx" "row_fits inits prev0 l" "lr_column r = dpl_column prev"
  shows "does a ctx (write_set_column l) prev r (prev\<lparr>dpl_column := dpl_column l\<rparr>) (r\<lparr>lr_column := dpl_column l\<rparr>)"
proof (rule does_write)
  show "write_set_column l (prev, out) = (if dpl_column l \<noteq> dpl_column prev
      then writing (write_opcode_uval DW_LNS_set_column (dpl_column l)) (dpl_column_update (\<lambda>_. dpl_column l)) (prev, out)
      else DW_DLV_OK (prev, out))" for out
    by (simp add: write_set_column_def)
  show "runs a (DW_LNS_set_column # uleb (dpl_column l)) st (with_regs st (r\<lparr>lr_column := dpl_column l\<rparr>))"
    if "ls_context st = ctx" "ls_regs st = r" for st :: line_state
    using runs_set_column [of st "dpl_column l" a] that small_signed [of "dpl_column l"] inits_facts(1) [OF assms(1,2), of 5] assms(3)
    by (simp add: row_fits_def Let_def)
qed (use assms(4) in auto)

lemma piece_is_stmt:
  assumes "usable_inits inits" "producer_context inits ctx" "row_fits inits prev0 l" "lr_is_stmt r = of_bool (dpl_is_stmt prev \<noteq> 0)"
    and "dpl_is_stmt prev < 2"
  shows "does a ctx (write_is_stmt l) prev r (prev\<lparr>dpl_is_stmt := dpl_is_stmt l\<rparr>) (r\<lparr>lr_is_stmt := of_bool (dpl_is_stmt l \<noteq> 0)\<rparr>)"
proof (rule does_write)
  have two: "dpl_is_stmt l = 0 \<or> dpl_is_stmt l = 1" "dpl_is_stmt prev = 0 \<or> dpl_is_stmt prev = 1"
    using bool_byte assms(3,5) by (simp_all add: row_fits_def Let_def)
  show "write_is_stmt l (prev, out) = (if dpl_is_stmt l \<noteq> dpl_is_stmt prev
      then writing (write_ubyte DW_LNS_negate_stmt) (dpl_is_stmt_update (\<lambda>_. dpl_is_stmt l)) (prev, out)
      else DW_DLV_OK (prev, out))" for out
    by (simp add: write_is_stmt_def)
  show "runs a [DW_LNS_negate_stmt] st (with_regs st (r\<lparr>lr_is_stmt := of_bool (dpl_is_stmt l \<noteq> 0)\<rparr>))"
    if "dpl_is_stmt l \<noteq> dpl_is_stmt prev" "ls_context st = ctx" "ls_regs st = r" for st :: line_state
    using runs_flag(1) [of st _ a] that inits_facts(1) [OF assms(1,2), of 6] assms(4) two
    by (auto simp: DW_LNS_negate_stmt_def)
qed (use assms(4) in auto)

lemma piece_basic_block:
  assumes "usable_inits inits" "producer_context inits ctx" "row_fits inits prev0 l" "dpl_basic_block prev = 0" "\<not> lr_basic_block r"
  shows "does a ctx (write_basic_block l) prev r (prev\<lparr>dpl_basic_block := dpl_basic_block l\<rparr>)
    (r\<lparr>lr_basic_block := dpl_basic_block l \<noteq> 0\<rparr>)"
proof (rule does_write)
  have two: "dpl_basic_block l = 0 \<or> dpl_basic_block l = 1"
    using bool_byte assms(3) by (simp add: row_fits_def Let_def)
  show "write_basic_block l (prev, out) = (if dpl_basic_block l \<noteq> 0
      then writing (write_ubyte DW_LNS_set_basic_block) (dpl_basic_block_update (\<lambda>_. dpl_basic_block l)) (prev, out)
      else DW_DLV_OK (prev, out))" for out
    using two assms(4) by (auto simp: write_basic_block_def)
  show "runs a [DW_LNS_set_basic_block] st (with_regs st (r\<lparr>lr_basic_block := dpl_basic_block l \<noteq> 0\<rparr>))"
    if "dpl_basic_block l \<noteq> 0" "ls_context st = ctx" "ls_regs st = r" for st :: line_state
    using runs_flag(2) [of st _ a] that inits_facts(1) [OF assms(1,2), of 7]
    by (auto simp: DW_LNS_set_basic_block_def)
qed (use assms(4,5) in auto)

lemma piece_discriminator:
  assumes "usable_inits inits" "producer_context inits ctx" "lr_discriminator r = 0"
  shows "does a ctx (\<lambda>s. if dpl_discriminator l \<noteq> 0 then writing (write_discriminator l) (\<lambda>prev. prev) s else DW_DLV_OK s)
    prev r prev (r\<lparr>lr_discriminator := dpl_discriminator l\<rparr>)"
proof (rule does_write)
  let ?n = "of_nat (length (uleb (dpl_discriminator l)) + 1) + 1"
  show "(if dpl_discriminator l \<noteq> 0 then writing (write_discriminator l) (\<lambda>prev. prev) (prev, out)
      else DW_DLV_OK (prev, out)) = (if dpl_discriminator l \<noteq> 0 then writing (write_discriminator l) (\<lambda>prev. prev) (prev, out)
      else DW_DLV_OK (prev, out))" for out ..
  show "runs a (0 # uleb ?n @ DW_LNE_set_discriminator # uleb (dpl_discriminator l)) st
      (with_regs st (r\<lparr>lr_discriminator := dpl_discriminator l\<rparr>))"
    if "ls_context st = ctx" "ls_regs st = r" for st :: line_state
    using runs_set_discriminator [of st a ?n "dpl_discriminator l"] that inits_facts(3) [OF assms(1,2)] by simp
qed (use assms(3) in \<open>simp_all add: write_discriminator_bytes\<close>)

subsection \<open>The piece that adds the row\<close>

definition added :: "line_args \<Rightarrow> line_registers \<Rightarrow> line_registers \<Rightarrow> line_state \<Rightarrow> line_state" where
  "added a r r1 st = (with_regs st r1)\<lparr>ls_is_addr_set := False,
     ls_rows := ls_rows st @ [row_of r False (ls_is_addr_set st) (la_is_actuals_table a)]\<rparr>"

definition finishes :: "line_args \<Rightarrow> line_context \<Rightarrow> piece \<Rightarrow> p_line \<Rightarrow> line_registers \<Rightarrow> p_line \<Rightarrow> line_registers \<Rightarrow>
    line_registers \<Rightarrow> bool" where
  "finishes a ctx f prev r prev1 r1 r2 \<longleftrightarrow> (\<forall>out (st :: line_state).
     ls_context st = ctx \<longrightarrow> ls_regs st = r \<longrightarrow> ls_mem st = [] \<longrightarrow>
     (\<exists>bs. f (prev, out) = DW_DLV_OK (prev1, emit bs out) \<and> runs a bs st (added a r1 r2 st)))"

lemma does_finishes:
  assumes "does a ctx f prev r prev1 r1" "finishes a ctx g prev1 r1 prev2 r2 r3"
  shows "finishes a ctx (\<lambda>s. dlv_bind (f s) g) prev r prev2 r2 r3"
  unfolding finishes_def
proof (intro allI impI)
  fix out and st :: line_state assume st: "ls_context st = ctx" "ls_regs st = r" "ls_mem st = []"
  obtain bs where bs: "f (prev, out) = DW_DLV_OK (prev1, emit bs out)" "runs a bs st (with_regs st r1)"
    using assms(1) st by (auto simp: does_def)
  obtain cs where "g (prev1, emit bs out) = DW_DLV_OK (prev2, emit cs (emit bs out))"
    "runs a cs (with_regs st r1) (added a r2 r3 (with_regs st r1))"
    using assms(2) [unfolded finishes_def, rule_format, of "with_regs st r1" "emit bs out"] st(1,3) by auto
  moreover have "added a r2 r3 (with_regs st r1) = added a r2 r3 st" by (simp add: added_def)
  ultimately show "\<exists>bs. dlv_bind (f (prev, out)) g = DW_DLV_OK (prev2, emit bs out) \<and> runs a bs st (added a r2 r3 st)"
    using bs by (intro exI [of _ "bs @ cs"]) (auto intro: runs_append)
qed

lemma finishes_cong:
  "(\<And>out. f (prev, out) = g (prev, out)) \<Longrightarrow> finishes a ctx g prev r prev1 r1 r2 \<Longrightarrow> finishes a ctx f prev r prev1 r1 r2"
  by (simp add: finishes_def)

definition cleared :: "line_registers \<Rightarrow> line_registers" where
  "cleared r = r\<lparr>lr_basic_block := False, lr_prologue_end := False, lr_epilogue_begin := False, lr_discriminator := 0\<rparr>"

lemma after_row_added:
  "after_row (st\<lparr>ls_is_addr_set := False, ls_rows := ls_rows st @ [row_of r False (ls_is_addr_set st) (la_is_actuals_table a)],
     ls_regs := r\<rparr>) = added a r (cleared r) st"
  by (simp add: after_row_def added_def with_regs_def cleared_def)

lemma finishes_copy:
  assumes "knows ctx 1" "la_dolines a" "\<not> lr_end_sequence r"
  shows "finishes a ctx write_copy prev r (prev\<lparr>dpl_basic_block := 0\<rparr>) r (cleared r)"
  unfolding finishes_def
proof (intro allI impI exI [of _ "[DW_LNS_copy]"] conjI)
  fix out and st :: line_state assume st: "ls_context st = ctx" "ls_regs st = r" "ls_mem st = []"
  show "write_copy (prev, out) = DW_DLV_OK (prev\<lparr>dpl_basic_block := 0\<rparr>, emit [DW_LNS_copy] out)"
    by (simp add: write_copy_def writing_def)
  show "runs a [DW_LNS_copy] st (added a r (cleared r) st)"
    using runs_copy [of st a] st assms after_row_added [where st = st and r = r and a = a] by (cases st) simp
qed

lemma finishes_special:
  assumes op: "lc_opcode_base ctx \<le> b" and max: "lc_maximum_ops_per_instruction ctx < 2" and "la_dolines a"
    and r: "\<not> lr_epilogue_begin r"
    and r1: "r1 = r\<lparr>lr_address := lr_address r + ucast ((b - lc_opcode_base ctx) div lc_line_range ctx)
        * ucast (lc_minimum_instruction_length ctx),
      lr_line := lr_line r + scast (lc_line_base ctx) + ucast ((b - lc_opcode_base ctx) mod lc_line_range ctx)\<rparr>"
    and line: "0 \<le> sint (lr_line r1)"
  shows "finishes a ctx (writing (write_ubyte b) f) prev r (f prev) r1 (cleared r1)"
  unfolding finishes_def
proof (intro allI impI exI [of _ "[b]"] conjI)
  fix out and st :: line_state assume st: "ls_context st = ctx" "ls_regs st = r" "ls_mem st = []"
  show "writing (write_ubyte b) f (prev, out) = DW_DLV_OK (f prev, emit [b] out)" by (simp add: writing_def)
  show "runs a [b] st (added a r1 (cleared r1) st)"
  proof (rule runs_op)
    fix p assume "at_bytes (la_section a) p (la_end a) [b]"
    then have "la_section a ! p = b" by (rule line_op_opcode)
    then have "line_op a p st = special_op a b (p + 1) st"
      using st(1) opcode_special [OF op] by (simp add: line_op_def Let_def)
    also have "\<dots> = DW_DLV_OK (p + 1, after_row (st\<lparr>ls_is_addr_set := False,
        ls_rows := ls_rows st @ [row_of r1 False (ls_is_addr_set st) (la_is_actuals_table a)], ls_regs := r1\<rparr>))"
      using st assms(3) r line max unfolding r1
      by (cases st) (simp add: special_op_def advance_address_def add_marked_row_def add_row_def Let_def not_less)
    finally show "line_op a p st = DW_DLV_OK (p + 1 + length [], added a r1 (cleared r1) st)"
      by (simp add: after_row_added)
  qed
qed

lemma exact_advance: "adv mod m = 0 \<Longrightarrow> adv div m * m = adv" for adv m :: u64
  using word_mod_div_equality [of adv m] by simp

lemma piece_advance:
  assumes ok: "usable_inits inits" "producer_context inits ctx" "row_fits inits prev l" "la_dolines a"
    and prev: "dpl_line prev < 2 ^ 31" "lr_address r = dpl_address prev" "lr_line r = dpl_line prev"
    and r: "\<not> lr_epilogue_begin r" "\<not> lr_end_sequence r"
  defines "r1 \<equiv> r\<lparr>lr_address := dpl_address l, lr_line := dpl_line l\<rparr>"
  shows "finishes a ctx (write_advance inits l) prev r
    (prev\<lparr>dpl_basic_block := 0, dpl_address := dpl_address l, dpl_line := dpl_line l\<rparr>) r1 (cleared r1)"
proof -
  let ?adv = "dpl_address l - dpl_address prev" and ?m = "ucast (pi_minimum_instruction_length inits) :: u64"
  let ?la = "ucast (dpl_line l - dpl_line prev) :: u32"
  let ?opc = "dwarf_pro_get_opc inits ?adv ?la"
  let ?prev1 = "prev\<lparr>dpl_basic_block := 0, dpl_address := dpl_address l, dpl_line := dpl_line l\<rparr>"
  note min = inits_facts(5) [OF ok(1,2)]
  have fits: "?adv mod ?m = 0" "uint (?adv div ?m) * sint (pi_line_range inits) < 2 ^ 30" "dpl_line l < 2 ^ 31"
    using ok(3) by (simp_all add: row_fits_def Let_def)
  have exact: "?adv div ?m * ?m = ?adv" by (rule exact_advance [OF fits(1)])
  have line: "dpl_line prev + scast ?la = dpl_line l" by (rule line_advance [OF fits(3) prev(1)])
  have "dpl_line l < 2 ^ 63" using fits(3) by (simp add: word_less_def)
  then have pos: "0 \<le> sint (dpl_line l)" by (rule small_signed)
  have min1: "?adv mod ucast MIN_INST_LENGTH = 0" by (simp add: MIN_INST_LENGTH_def)
  show ?thesis
  proof (cases "0 < sint ?opc")
    case True
    let ?f = "\<lambda>prev. prev\<lparr>dpl_basic_block := 0, dpl_address := dpl_address l, dpl_line := dpl_line l\<rparr>"
    have u: "- 128 \<le> sint (pi_line_base inits)" "sint (pi_line_base inits) < 128" "0 < sint (pi_line_range inits)"
      "sint (pi_line_range inits) < 256" "pi_minimum_instruction_length inits \<noteq> 0"
      using ok(1) by (simp_all add: usable_inits_def)
    obtain d where d: "0 \<le> d" "d < sint (pi_line_range inits)" "sint ?la = sint (pi_line_base inits) + d"
      "?opc = of_int (d + uint (?adv div ?m) * sint (pi_line_range inits) + uint (pi_opcode_base inits))"
      "d + uint (?adv div ?m) * sint (pi_line_range inits) + uint (pi_opcode_base inits) < 256"
      by (rule get_opc_special [OF u(5,1,2,3,4) inits_facts(4) [OF ok(1,2)] fits(2) True])
    note split = special_split [OF d u(1,2,4) inits_facts(4) [OF ok(1,2)]]
    have c: "lc_opcode_base ctx = ucast (pi_opcode_base inits)" "lc_line_range ctx = ucast (pi_line_range inits)"
      "lc_line_base ctx = ucast (pi_line_base inits)" "lc_maximum_ops_per_instruction ctx < 2"
      using ok(2) by (simp_all add: producer_context_def)
    have "finishes a ctx (writing (write_ubyte (ucast ?opc)) ?f) prev r (?f prev) r1 (cleared r1)"
    proof (rule finishes_special)
      show "lc_opcode_base ctx \<le> ucast ?opc" unfolding c by (rule split(3))
      have "dpl_address prev + ?adv div ?m * ?m = dpl_address l" unfolding exact by simp
      moreover have "dpl_line prev + scast (lc_line_base ctx) + ucast ((ucast ?opc - lc_opcode_base ctx) mod lc_line_range ctx)
          = dpl_line l"
        using split(2) line unfolding c by (simp only: add.assoc)
      ultimately show "r1 = r\<lparr>lr_address := lr_address r + ucast ((ucast ?opc - lc_opcode_base ctx) div lc_line_range ctx)
          * ucast (lc_minimum_instruction_length ctx),
        lr_line := lr_line r + scast (lc_line_base ctx) + ucast ((ucast ?opc - lc_opcode_base ctx) mod lc_line_range ctx)\<rparr>"
        unfolding r1_def prev(2,3) min [symmetric] c split(1) by simp
      show "0 \<le> sint (lr_line r1)" using pos by (simp add: r1_def)
    qed (use c ok(4) r in simp_all)
    then show ?thesis
      by (rule finishes_cong [rotated]) (use True min1 in \<open>simp add: write_advance_def Let_def\<close>)
  next
    case False
    let ?p1 = "prev\<lparr>dpl_basic_block := (if 0 < ?adv then 0 else dpl_basic_block prev), dpl_address := dpl_address l\<rparr>"
    let ?p2 = "?p1\<lparr>dpl_basic_block := (if ?la \<noteq> 0 then 0 else dpl_basic_block ?p1), dpl_line := dpl_line l\<rparr>"
    let ?r = "r\<lparr>lr_address := dpl_address l\<rparr>"
    let ?w1 = "writing (write_opcode_uval DW_LNS_advance_pc (?adv div ?m))
                      (\<lambda>prev. prev\<lparr>dpl_basic_block := 0, dpl_address := dpl_address l\<rparr>)"
    let ?w2 = "writing (\<lambda>o1. dlv_bind (write_ubyte DW_LNS_advance_line o1) (write_sval (scast ?la)))
                      (\<lambda>prev. prev\<lparr>dpl_basic_block := 0, dpl_line := dpl_line l\<rparr>)"
    let ?f1 = "\<lambda>s. if 0 < ?adv then ?w1 s else DW_DLV_OK s" and ?f2 = "\<lambda>s. if ?la \<noteq> 0 then ?w2 s else DW_DLV_OK s"
    have one: "does a ctx ?f1 prev r ?p1 ?r"
    proof (rule does_write)
      show "runs a (DW_LNS_advance_pc # uleb (?adv div ?m)) st (with_regs st ?r)"
        if "0 < ?adv" "ls_context st = ctx" "ls_regs st = r" for st :: line_state
      proof -
        have "dpl_address prev + ucast (lc_minimum_instruction_length ctx) * (?adv div ?m) = dpl_address l"
          using exact min by (simp add: mult.commute)
        then show ?thesis
          using runs_advance_pc [of st a "?adv div ?m"] that inits_facts(1) [OF ok(1,2), of 2] prev(2) by simp
      qed
      show "?f1 (prev, out) = (if 0 < ?adv then ?w1 (prev, out) else DW_DLV_OK (prev, out))" for out ..
    qed (use prev(2) in \<open>auto simp: word_gt_0\<close>)
    have two: "does a ctx ?f2 ?p1 ?r ?p2 r1"
    proof (rule does_write)
      show "runs a (DW_LNS_advance_line # sleb (scast ?la)) st (with_regs st r1)"
        if "?la \<noteq> 0" "ls_context st = ctx" "ls_regs st = ?r" for st :: line_state
        using runs_advance_line [of st "scast ?la" a] that inits_facts(1) [OF ok(1,2), of 3] prev(3) line pos
        by (simp add: r1_def)
      show "?f2 (?p1, out) = (if ?la \<noteq> 0 then ?w2 (?p1, out) else DW_DLV_OK (?p1, out))" for out ..
      show "\<not> ?la \<noteq> 0 \<Longrightarrow> ?p2 = ?p1 \<and> r1 = ?r" using line prev(3) by (simp add: r1_def)
    qed auto
    have three: "finishes a ctx write_copy ?p2 r1 (?p2\<lparr>dpl_basic_block := 0\<rparr>) r1 (cleared r1)"
      by (rule finishes_copy) (use inits_facts(1) [OF ok(1,2), of 1] ok(4) r in \<open>simp_all add: r1_def\<close>)
    have "?p2\<lparr>dpl_basic_block := 0\<rparr> = ?prev1" by (cases prev) simp
    with does_finishes [OF one does_finishes [OF two three]]
    have "finishes a ctx (\<lambda>s. dlv_bind (?f1 s) (\<lambda>s. dlv_bind (?f2 s) write_copy)) prev r ?prev1 r1 (cleared r1)"
      by (simp only:)
    then show ?thesis
      by (rule finishes_cong [rotated]) (use False min1 in \<open>simp add: write_advance_def Let_def\<close>)
  qed
qed

subsection \<open>A row\<close>

definition position_after :: "p_line \<Rightarrow> p_line \<Rightarrow> p_line" where
  "position_after prev l = prev\<lparr>dpl_address := dpl_address l, dpl_file := dpl_file l, dpl_line := dpl_line l,
     dpl_column := dpl_column l, dpl_is_stmt := dpl_is_stmt l, dpl_basic_block := 0\<rparr>"

text \<open>The row as it was declared. What the object's opcodes cannot say is lost, and so is a change of \<open>isa\<close> back to 0.\<close>

definition declared_row :: "line_inits \<Rightarrow> bool \<Rightarrow> byte \<Rightarrow> bool \<Rightarrow> p_line \<Rightarrow> line_row" where
  "declared_row inits is_actuals isa addr_set l =
     \<lparr>li_address = dpl_address l, li_discriminator = dpl_discriminator l, li_file = dpl_file l, li_line = dpl_line l,
      li_column = ucast (dpl_column l), li_isa = isa_after inits isa l, li_call_context = 0, li_subprogram = 0,
      li_is_stmt = (dpl_is_stmt l \<noteq> 0), li_basic_block = (dpl_basic_block l \<noteq> 0), li_end_sequence = False,
      li_prologue_end = (newer_opcodes inits \<and> dpl_prologue_end l \<noteq> 0), li_epilogue_begin = False,
      li_is_addr_set = addr_set, li_is_actuals_table = is_actuals\<rparr>"

lemma row_read_back:
  assumes ok: "usable_inits inits" "producer_context inits ctx" "row_fits inits prev l" "la_dolines a"
    and prev: "prev_ok prev" and st: "ls_context st = ctx" "ls_regs st = regs_of prev isa" "ls_mem st = []"
  shows "\<exists>bs. write_row inits l (prev, out) = DW_DLV_OK (position_after prev l, emit bs out)
    \<and> runs a bs st ((with_regs st (regs_of (position_after prev l) (isa_after inits isa l)))\<lparr>ls_is_addr_set := False,
       ls_rows := ls_rows st @ [declared_row inits (la_is_actuals_table a) isa (ls_is_addr_set st) l]\<rparr>)"
proof -
  note pv = prev [unfolded prev_ok_def]
  let ?r1 = "(regs_of prev isa)\<lparr>lr_prologue_end := newer_opcodes inits \<and> dpl_prologue_end l \<noteq> 0, lr_isa := isa_after inits isa l\<rparr>"
  let ?p2 = "prev\<lparr>dpl_file := dpl_file l\<rparr>" and ?r2 = "?r1\<lparr>lr_file := dpl_file l\<rparr>"
  let ?p3 = "?p2\<lparr>dpl_column := dpl_column l\<rparr>" and ?r3 = "?r2\<lparr>lr_column := dpl_column l\<rparr>"
  let ?p4 = "?p3\<lparr>dpl_is_stmt := dpl_is_stmt l\<rparr>" and ?r4 = "?r3\<lparr>lr_is_stmt := of_bool (dpl_is_stmt l \<noteq> 0)\<rparr>"
  let ?p5 = "?p4\<lparr>dpl_basic_block := dpl_basic_block l\<rparr>" and ?r5 = "?r4\<lparr>lr_basic_block := dpl_basic_block l \<noteq> 0\<rparr>"
  let ?r6 = "?r5\<lparr>lr_discriminator := dpl_discriminator l\<rparr>"
  let ?r7 = "?r6\<lparr>lr_address := dpl_address l, lr_line := dpl_line l\<rparr>"
  have fits5: "row_fits inits ?p5 l" using ok(3) by (simp add: row_fits_def)
  have isa0: "dpl_isa prev = 0" using pv by simp
  have 1: "does a ctx (write_flags inits l) prev (regs_of prev isa) prev ?r1"
    using piece_flags [OF ok(1-3) isa0, where a = a and r = "regs_of prev isa"] by (simp add: regs_of_def)
  have 2: "does a ctx (write_set_file l) prev ?r1 ?p2 ?r2"
    by (rule piece_file [OF ok(1-3)]) (simp add: regs_of_def)
  have 3: "does a ctx (write_set_column l) ?p2 ?r2 ?p3 ?r3"
    by (rule piece_column [OF ok(1-3)]) (simp add: regs_of_def)
  have 4: "does a ctx (write_is_stmt l) ?p3 ?r3 ?p4 ?r4"
    by (rule piece_is_stmt [OF ok(1-3)]) (use pv in \<open>simp_all add: regs_of_def\<close>)
  have 5: "does a ctx (write_basic_block l) ?p4 ?r4 ?p5 ?r5"
    by (rule piece_basic_block [OF ok(1-3)]) (use pv in \<open>simp_all add: regs_of_def\<close>)
  have 6: "does a ctx (\<lambda>s. if dpl_discriminator l \<noteq> 0 then writing (write_discriminator l) (\<lambda>prev. prev) s else DW_DLV_OK s)
    ?p5 ?r5 ?p5 ?r6"
    by (rule piece_discriminator [OF ok(1,2)]) (simp add: regs_of_def)
  have 7: "finishes a ctx (write_advance inits l) ?p5 ?r6
    (?p5\<lparr>dpl_basic_block := 0, dpl_address := dpl_address l, dpl_line := dpl_line l\<rparr>) ?r7 (cleared ?r7)"
    by (rule piece_advance [OF ok(1,2) fits5 ok(4)]) (use pv in \<open>simp_all add: regs_of_def\<close>)
  have p: "?p5\<lparr>dpl_basic_block := 0, dpl_address := dpl_address l, dpl_line := dpl_line l\<rparr> = position_after prev l"
    by (cases prev) (simp add: position_after_def)
  have r: "cleared ?r7 = regs_of (position_after prev l) (isa_after inits isa l)"
    by (cases prev) (simp add: cleared_def regs_of_def position_after_def)
  have row: "row_of ?r7 False flag actuals = declared_row inits actuals isa flag l" for flag actuals
    by (simp add: row_of_def declared_row_def regs_of_def)
  have "finishes a ctx (write_row inits l) prev (regs_of prev isa) (position_after prev l) ?r7 (cleared ?r7)"
    using does_finishes [OF 1 does_finishes [OF 2 does_finishes [OF 3 does_finishes [OF 4 does_finishes [OF 5
      does_finishes [OF 6 7]]]]]]
    unfolding p by (rule finishes_cong [rotated]) (simp only: write_row_def)
  then show ?thesis
    using st unfolding finishes_def added_def row r by auto
qed

subsection \<open>A whole program\<close>

text \<open>
  The lines that reach the generator through the interface are rows, set an address or end a sequence. \<open>prev\<close> is the
  position of the generator before the first line.
\<close>

fun program_fits :: "p_debug \<Rightarrow> p_line \<Rightarrow> p_line list \<Rightarrow> bool" where
  "program_fits dbg prev [] = True"
| "program_fits dbg prev (l # ls) =
     (if dpl_opc l = 0 then row_fits (de_line_inits dbg) prev l \<and> program_fits dbg (position_after prev l) ls
      else if dpl_opc l = DW_LNE_end_sequence
      then (dpl_address l - dpl_address prev) mod ucast (pi_minimum_instruction_length (de_line_inits dbg)) = 0
        \<and> program_fits dbg (dwarf_pro_reg_init dbg) ls
      else if dpl_opc l = DW_LNE_set_address
      then take_bit (8 * unat (pd_pointer_size dbg)) (dpl_address l) = dpl_address l
        \<and> program_fits dbg (prev\<lparr>dpl_address := dpl_address l\<rparr>) ls
      else False)"

text \<open>
  The matrix of rows that the lines describe: the row of an end of sequence has the position before it and its own
  address. \<open>addr_set\<close> marks the first row behind a set address.
\<close>

definition end_row :: "bool \<Rightarrow> byte \<Rightarrow> p_line \<Rightarrow> p_line \<Rightarrow> line_row" where
  "end_row is_actuals isa prev l =
     \<lparr>li_address = dpl_address l, li_discriminator = 0, li_file = dpl_file prev, li_line = dpl_line prev,
      li_column = ucast (dpl_column prev), li_isa = isa, li_call_context = 0, li_subprogram = 0,
      li_is_stmt = (dpl_is_stmt prev \<noteq> 0), li_basic_block = False, li_end_sequence = True, li_prologue_end = False,
      li_epilogue_begin = False, li_is_addr_set = False, li_is_actuals_table = is_actuals\<rparr>"

fun declared_rows :: "p_debug \<Rightarrow> bool \<Rightarrow> byte \<Rightarrow> bool \<Rightarrow> p_line \<Rightarrow> p_line list \<Rightarrow> line_row list" where
  "declared_rows dbg is_actuals isa addr_set prev [] = []"
| "declared_rows dbg is_actuals isa addr_set prev (l # ls) =
     (if dpl_opc l = 0
      then declared_row (de_line_inits dbg) is_actuals isa addr_set l
        # declared_rows dbg is_actuals (isa_after (de_line_inits dbg) isa l) False (position_after prev l) ls
      else if dpl_opc l = DW_LNE_end_sequence
      then end_row is_actuals isa prev l # declared_rows dbg is_actuals 0 addr_set (dwarf_pro_reg_init dbg) ls
      else declared_rows dbg is_actuals isa True (prev\<lparr>dpl_address := dpl_address l\<rparr>) ls)"

definition reads_producer :: "line_args \<Rightarrow> p_debug \<Rightarrow> line_context \<Rightarrow> bool" where
  "reads_producer a dbg ctx \<longleftrightarrow> usable_inits (de_line_inits dbg) \<and> producer_context (de_line_inits dbg) ctx
     \<and> la_dolines a \<and> \<not> la_doaddrs a \<and> la_address_size a = unat (pd_pointer_size dbg) \<and> la_address_size a \<le> 8
     \<and> de_swap (la_dbg a) = pd_swap dbg"

lemma prev_ok_init: "usable_inits (de_line_inits dbg) \<Longrightarrow> prev_ok (dwarf_pro_reg_init dbg)"
proof -
  assume "usable_inits (de_line_inits dbg)"
  then have s: "uint (pi_default_is_stmt (de_line_inits dbg)) < 2" by (simp add: usable_inits_def word_less_def)
  then have "pi_default_is_stmt (de_line_inits dbg) < 256" by (simp add: word_less_def)
  from uint_narrow [OF this] s show ?thesis by (simp add: prev_ok_def dwarf_pro_reg_init_def word_less_def)
qed

lemma prev_ok_after:
  assumes "prev_ok prev"
  shows "row_fits inits prev l \<Longrightarrow> prev_ok (position_after prev l)" "prev_ok (prev\<lparr>dpl_address := x\<rparr>)"
  using assms by (simp_all add: prev_ok_def position_after_def row_fits_def Let_def)

lemma regs_init:
  assumes "usable_inits (de_line_inits dbg)" "producer_context (de_line_inits dbg) ctx"
  shows "dwarf_set_line_table_regs_default_values (lc_default_is_stmt ctx) = regs_of (dwarf_pro_reg_init dbg) 0"
proof -
  have "uint (pi_default_is_stmt (de_line_inits dbg)) < 2" using assms(1) by (simp add: usable_inits_def word_less_def)
  then have "uint (pi_default_is_stmt (de_line_inits dbg)) = 0 \<or> uint (pi_default_is_stmt (de_line_inits dbg)) = 1"
    using uint_ge_0 [of "pi_default_is_stmt (de_line_inits dbg)"] by linarith
  then have "pi_default_is_stmt (de_line_inits dbg) = 0 \<or> pi_default_is_stmt (de_line_inits dbg) = 1"
    by (auto simp: word_uint_eq_iff)
  then show ?thesis using assms(2)
    by (auto simp: dwarf_set_line_table_regs_default_values_def regs_of_def dwarf_pro_reg_init_def producer_context_def)
qed

definition grown :: "line_out \<Rightarrow> byte list \<Rightarrow> (u32 \<times> u64 \<times> nat) list \<Rightarrow> line_out" where
  "grown out bs rs = \<lparr>lo_data = lo_data out @ bs, lo_relocs = lo_relocs out @ rs\<rparr>"

lemma grown_simps [simp]: "emit bs out = grown out bs []" "grown (grown out bs rs) cs qs = grown out (bs @ cs) (rs @ qs)"
  by (simp_all add: grown_def emit_def)

lemma end_sequence_read_back:
  assumes "reads_producer a dbg ctx" "prev_ok prev"
    and adv: "(dpl_address l - dpl_address prev) mod ucast (pi_minimum_instruction_length (de_line_inits dbg)) = 0"
    and st: "ls_context st = ctx" "ls_regs st = regs_of prev isa" "ls_mem st = []"
  shows "\<exists>bs. write_end_sequence dbg l (prev, out) = DW_DLV_OK (dwarf_pro_reg_init dbg, grown out bs [])
    \<and> runs a bs st (st\<lparr>ls_rows := ls_rows st @ [end_row (la_is_actuals_table a) isa prev l],
        ls_regs := regs_of (dwarf_pro_reg_init dbg) 0\<rparr>)"
proof -
  note rp = assms(1) [unfolded reads_producer_def]
  let ?adv = "dpl_address l - dpl_address prev" and ?m = "ucast (pi_minimum_instruction_length (de_line_inits dbg)) :: u64"
  let ?bs = "if 0 < ?adv then DW_LNS_advance_pc # uleb (?adv div ?m) else []"
  let ?cs = "0 # uleb 1 @ [DW_LNE_end_sequence]"
  have w: "write_end_sequence dbg l (prev, out) = DW_DLV_OK (dwarf_pro_reg_init dbg, grown out (?bs @ ?cs) [])"
    by (simp add: write_end_sequence_def Let_def)
  let ?st = "with_regs st ((regs_of prev isa)\<lparr>lr_address := dpl_address l\<rparr>)"
  have run1: "runs a ?bs st ?st"
  proof (cases "0 < ?adv")
    case True
    have "dpl_address prev + ucast (lc_minimum_instruction_length ctx) * (?adv div ?m) = dpl_address l"
      using exact_advance [OF adv] inits_facts(5) [of "de_line_inits dbg" ctx] rp by (simp add: mult.commute)
    then show ?thesis
      using runs_advance_pc [of st a "?adv div ?m"] True st inits_facts(1) [of "de_line_inits dbg" ctx 2] rp
      by (simp add: regs_of_def)
  next
    case False
    then have "(regs_of prev isa)\<lparr>lr_address := dpl_address l\<rparr> = ls_regs st" using st(2) by (simp add: regs_of_def word_gt_0)
    then show ?thesis using False by (simp add: with_regs_simps(7))
  qed
  have run2: "runs a ?cs ?st (?st\<lparr>ls_rows := ls_rows ?st @ [row_of (ls_regs ?st) True False (la_is_actuals_table a)],
      ls_regs := dwarf_set_line_table_regs_default_values (lc_default_is_stmt (ls_context ?st))\<rparr>)"
    by (rule runs_end_sequence) (use rp st inits_facts(3) in \<open>auto\<close>)
  have "row_of (ls_regs ?st) True False (la_is_actuals_table a) = end_row (la_is_actuals_table a) isa prev l"
    by (simp add: row_of_def end_row_def regs_of_def)
  moreover have "dwarf_set_line_table_regs_default_values (lc_default_is_stmt (ls_context ?st)) = regs_of (dwarf_pro_reg_init dbg) 0"
    using regs_init rp st(1) by simp
  moreover have "ls_rows ?st = ls_rows st" by simp
  ultimately have "runs a ?cs ?st (?st\<lparr>ls_rows := ls_rows st @ [end_row (la_is_actuals_table a) isa prev l],
      ls_regs := regs_of (dwarf_pro_reg_init dbg) 0\<rparr>)"
    using run2 by (simp only:)
  then have "runs a (?bs @ ?cs) st (?st\<lparr>ls_rows := ls_rows st @ [end_row (la_is_actuals_table a) isa prev l],
      ls_regs := regs_of (dwarf_pro_reg_init dbg) 0\<rparr>)"
    by (rule runs_append [OF run1])
  then show ?thesis using w by (intro exI [of _ "?bs @ ?cs"]) (simp add: with_regs_def)
qed

lemma set_address_read_back:
  assumes "reads_producer a dbg ctx" "prev_ok prev"
    and fits: "take_bit (8 * unat (pd_pointer_size dbg)) (dpl_address l) = dpl_address l"
    and st: "ls_context st = ctx" "ls_regs st = regs_of prev isa"
  shows "\<exists>bs rs. write_set_address dbg l (prev, out) = DW_DLV_OK (prev\<lparr>dpl_address := dpl_address l\<rparr>, grown out bs rs)
    \<and> runs a bs st ((with_regs st (regs_of (prev\<lparr>dpl_address := dpl_address l\<rparr>) isa))\<lparr>ls_is_addr_set := True\<rparr>)"
proof -
  note rp = assms(1) [unfolded reads_producer_def]
  let ?n = "unat (pd_pointer_size dbg)" and ?k = "1 + ucast (pd_pointer_size dbg) :: u64"
  let ?bs = "0 # uleb ?k @ DW_LNE_set_address # number_bytes (la_dbg a) ?n (dpl_address l)"
  have "WRITE_UNALIGNED (pd_swap dbg) (dpl_address l) ?n = number_bytes (la_dbg a) ?n (dpl_address l)"
    using WRITE_UNALIGNED_bytes [of ?n "la_dbg a" "dpl_address l"] rp by simp
  then have w: "\<exists>rs. write_set_address dbg l (prev, out) = DW_DLV_OK (prev\<lparr>dpl_address := dpl_address l\<rparr>, grown out ?bs rs)"
    by (simp add: write_set_address_def write_fixed_size_def Let_def grown_def)
  have "(regs_of prev isa)\<lparr>lr_address := dpl_address l, lr_op_index := 0\<rparr> = regs_of (prev\<lparr>dpl_address := dpl_address l\<rparr>) isa"
    by (simp add: regs_of_def)
  then have "runs a ?bs st ((with_regs st (regs_of (prev\<lparr>dpl_address := dpl_address l\<rparr>) isa))\<lparr>ls_is_addr_set := True\<rparr>)"
    using runs_set_address [of st a "dpl_address l" ?k] rp st fits inits_facts(3) [of "de_line_inits dbg" ctx] by simp
  with w show ?thesis by blast
qed

lemma lines_read_back:
  assumes rp: "reads_producer a dbg ctx"
  shows "prev_ok prev \<Longrightarrow> program_fits dbg prev ls \<Longrightarrow> ls_context st = ctx \<Longrightarrow> ls_regs st = regs_of prev isa \<Longrightarrow>
    ls_mem st = [] \<Longrightarrow>
    \<exists>bs rs prev1 st1. write_lines dbg ls (prev, out) = DW_DLV_OK (prev1, grown out bs rs) \<and> runs a bs st st1
      \<and> ls_rows st1 = ls_rows st @ declared_rows dbg (la_is_actuals_table a) isa (ls_is_addr_set st) prev ls
      \<and> ls_context st1 = ctx \<and> ls_mem st1 = []"
proof (induction ls arbitrary: prev st isa out)
  case Nil
  then show ?case by (intro exI [of _ "[]"] exI [of _ prev] exI [of _ st]) (simp add: grown_def)
next
  case (Cons l ls)
  note R = rp [unfolded reads_producer_def]
  let ?act = "la_is_actuals_table a"
  have step: ?case
    if line: "write_line dbg l (prev, out) = DW_DLV_OK (prev1, grown out bs rs)" "runs a bs st st1"
      and ok: "prev_ok prev1" "program_fits dbg prev1 ls" "ls_context st1 = ctx" "ls_regs st1 = regs_of prev1 isan"
        "ls_mem st1 = []" "ls_rows st1 = ls_rows st @ rows"
      and rows: "declared_rows dbg ?act isa (ls_is_addr_set st) prev (l # ls)
        = rows @ declared_rows dbg ?act isan (ls_is_addr_set st1) prev1 ls"
    for prev1 bs rs st1 isan rows
  proof -
    obtain cs qs prev2 st2 where IH: "write_lines dbg ls (prev1, grown out bs rs) = DW_DLV_OK (prev2, grown (grown out bs rs) cs qs)"
      "runs a cs st1 st2" "ls_rows st2 = ls_rows st1 @ declared_rows dbg ?act isan (ls_is_addr_set st1) prev1 ls"
      "ls_context st2 = ctx" "ls_mem st2 = []"
      using Cons.IH [OF ok(1-5)] by blast
    have "write_lines dbg (l # ls) (prev, out) = DW_DLV_OK (prev2, grown out (bs @ cs) (rs @ qs))"
      using line(1) IH(1) by simp
    moreover have "ls_rows st2 = ls_rows st @ declared_rows dbg ?act isa (ls_is_addr_set st) prev (l # ls)"
      unfolding rows IH(3) ok(6) by simp
    ultimately show ?case using runs_append [OF line(2) IH(2)] IH(4,5) by blast
  qed
  consider "dpl_opc l = 0" | "dpl_opc l = DW_LNE_end_sequence" | "dpl_opc l = DW_LNE_set_address"
    using Cons.prems(2) by (auto split: if_splits)
  then show ?case
  proof cases
    case 1
    then have fits: "row_fits (de_line_inits dbg) prev l" "program_fits dbg (position_after prev l) ls"
      using Cons.prems(2) by simp_all
    obtain bs where bs: "write_row (de_line_inits dbg) l (prev, out) = DW_DLV_OK (position_after prev l, emit bs out)"
      "runs a bs st ((with_regs st (regs_of (position_after prev l) (isa_after (de_line_inits dbg) isa l)))
        \<lparr>ls_is_addr_set := False,
         ls_rows := ls_rows st @ [declared_row (de_line_inits dbg) ?act isa (ls_is_addr_set st) l]\<rparr>)"
      using row_read_back [OF _ _ fits(1) _ Cons.prems(1,3-5)] R by blast
    show ?thesis
      by (rule step [OF _ bs(2), where rows = "[declared_row (de_line_inits dbg) ?act isa (ls_is_addr_set st) l]" and
        isan = "isa_after (de_line_inits dbg) isa l"]) (use 1 bs(1) fits(2) prev_ok_after(1) [OF Cons.prems(1) fits(1)] Cons.prems in
        \<open>simp_all add: write_line_def\<close>)
  next
    case 2
    then have fits: "(dpl_address l - dpl_address prev) mod ucast (pi_minimum_instruction_length (de_line_inits dbg)) = 0"
      "program_fits dbg (dwarf_pro_reg_init dbg) ls"
      using Cons.prems(2) by (simp_all add: line_codes)
    obtain bs where bs: "write_end_sequence dbg l (prev, out) = DW_DLV_OK (dwarf_pro_reg_init dbg, grown out bs [])"
      "runs a bs st (st\<lparr>ls_rows := ls_rows st @ [end_row ?act isa prev l], ls_regs := regs_of (dwarf_pro_reg_init dbg) 0\<rparr>)"
      using end_sequence_read_back [OF rp Cons.prems(1) fits(1) Cons.prems(3-5)] by blast
    show ?thesis
      by (rule step [OF _ bs(2), where rows = "[end_row ?act isa prev l]" and isan = 0]) (use 2 bs(1) fits(2) prev_ok_init [of dbg] R Cons.prems in
        \<open>simp_all add: write_line_def line_codes\<close>)
  next
    case 3
    then have fits: "take_bit (8 * unat (pd_pointer_size dbg)) (dpl_address l) = dpl_address l"
      "program_fits dbg (prev\<lparr>dpl_address := dpl_address l\<rparr>) ls"
      using Cons.prems(2) by (simp_all add: line_codes)
    obtain bs rs where bs: "write_set_address dbg l (prev, out) = DW_DLV_OK (prev\<lparr>dpl_address := dpl_address l\<rparr>, grown out bs rs)"
      "runs a bs st ((with_regs st (regs_of (prev\<lparr>dpl_address := dpl_address l\<rparr>) isa))\<lparr>ls_is_addr_set := True\<rparr>)"
      using set_address_read_back [OF rp Cons.prems(1) fits(1) Cons.prems(3,4)] by blast
    show ?thesis
      by (rule step [OF _ bs(2), where rows = "[]" and isan = isa]) (use 3 bs(1) fits(2) prev_ok_after(2) [OF Cons.prems(1)] Cons.prems in
        \<open>simp_all add: write_line_def line_codes\<close>)
  qed
qed

lemma program_runs:
  assumes rp: "reads_producer a dbg ctx" and fits: "program_fits dbg (dwarf_pro_reg_init dbg) (de_lines dbg)"
    and w: "write_lines dbg (de_lines dbg) (dwarf_pro_reg_init dbg, out) = DW_DLV_OK (prev, grown out bs rs)"
    and at: "at_bytes (la_section a) p (la_end a) bs" "la_end a = p + length bs"
    and single: "la_is_single_table a \<or> \<not> la_is_actuals_table a"
  shows "read_line_table_program a p ctx [] = DW_DLV_OK (ctx\<lparr>lc_linebuf_logicals :=
    declared_rows dbg (la_is_actuals_table a) 0 False (dwarf_pro_reg_init dbg) (de_lines dbg)\<rparr>)"
proof -
  note R = rp [unfolded reads_producer_def]
  let ?st = "\<lparr>ls_regs = dwarf_set_line_table_regs_default_values (lc_default_is_stmt ctx), ls_rows = [],
          ls_is_addr_set = False, ls_context = ctx, ls_mem = []\<rparr>"
  let ?rows = "declared_rows dbg (la_is_actuals_table a) 0 False (dwarf_pro_reg_init dbg) (de_lines dbg)"
  have "prev_ok (dwarf_pro_reg_init dbg)" "ls_regs ?st = regs_of (dwarf_pro_reg_init dbg) 0"
    using prev_ok_init [of dbg] regs_init [of dbg ctx] R by simp_all
  then obtain cs qs prev1 st1 where c: "write_lines dbg (de_lines dbg) (dwarf_pro_reg_init dbg, out) = DW_DLV_OK (prev1, grown out cs qs)"
    "runs a cs ?st st1" "ls_rows st1 = ?rows" "ls_context st1 = ctx" "ls_mem st1 = []"
    using lines_read_back [OF rp _ fits, of ?st 0 out] by auto
  have "cs = bs" using c(1) w by (simp add: grown_def)
  then have "line_loop a p ?st = line_loop a (la_end a) st1"
    using c(2) at by (simp add: runs_def)
  also have "\<dots> = DW_DLV_OK st1" by (subst line_loop.simps) simp
  finally show ?thesis using c(3-5) single by (simp add: read_line_table_program_def)
qed

text \<open>A context of the reader for the producer's header exists, so the program is always written.\<close>

lemma program_written:
  assumes "usable_inits (de_line_inits dbg)" "unat (pd_pointer_size dbg) \<le> 8"
    and "program_fits dbg (dwarf_pro_reg_init dbg) (de_lines dbg)"
  shows "\<exists>prev bs rs. write_lines dbg (de_lines dbg) (dwarf_pro_reg_init dbg, out) = DW_DLV_OK (prev, grown out bs rs)"
proof -
  let ?inits = "de_line_inits dbg"
  define ctx :: line_context where "ctx = \<lparr>lc_section_offset = 0, lc_version_number = 0, lc_total_length = 0,
     lc_length_field_length = 0, lc_address_size = 0, lc_segment_selector_size = 0, lc_prologue_length = 0,
     lc_actuals_table_offset = 0, lc_minimum_instruction_length = ucast (pi_minimum_instruction_length ?inits),
     lc_maximum_ops_per_instruction = 0, lc_line_ptr_start = 0, lc_line_ptr_end = 0, lc_line_prologue_start = 0,
     lc_default_is_stmt = ucast (pi_default_is_stmt ?inits), lc_line_base = ucast (pi_line_base ?inits),
     lc_line_range = ucast (pi_line_range ?inits), lc_opcode_base = ucast (pi_opcode_base ?inits),
     lc_opcode_length_table = 0, lc_std_op_count = ucast (pi_opcode_base ?inits) - 1, lc_include_directories = [],
     lc_file_entries = [], lc_file_entry_baseindex = 0, lc_file_entry_endindex = 0, lc_table_count = 0,
     lc_linebuf_logicals = [], lc_linebuf_actuals = []\<rparr>"
  define a :: line_args where "a = \<lparr>la_dbg = \<lparr>de_swap = pd_swap dbg, de_big_endian_object = False, de_length_size = 4,
     de_pointer_size = 8, de_assume_string_in_bounds = False\<rparr>, la_section = [], la_end = 0,
     la_address_size = unat (pd_pointer_size dbg), la_doaddrs = False, la_dolines = True, la_is_single_table = True,
     la_is_actuals_table = False\<rparr>"
  define st :: line_state where "st = \<lparr>ls_regs = regs_of (dwarf_pro_reg_init dbg) 0, ls_rows = [], ls_is_addr_set = False,
     ls_context = ctx, ls_mem = []\<rparr>"
  have "reads_producer a dbg ctx" using assms by (simp add: reads_producer_def producer_context_def a_def ctx_def)
  then show ?thesis
    using lines_read_back [OF _ prev_ok_init [OF assms(1)] assms(3), of a ctx st 0 out] by (auto simp: st_def)
qed

text \<open>
  C12: for declared rows, set addresses and ends of sequences the producer always makes a line number program, and it is
  read back as the matrix of exactly those rows, whatever stands before and behind it in the section: special opcodes,
  standard opcodes and extended opcodes are decoded to the position they were encoded for. The advances must be multiples
  of the minimum instruction length and small enough for the opcode arithmetic, lines must be below 2 ^ 31, and the rows
  must not begin an epilogue where the object's opcodes could say so.
\<close>

theorem line_program_read_back:
  assumes "reads_producer a dbg ctx" and "program_fits dbg (dwarf_pro_reg_init dbg) (de_lines dbg)"
    and "la_is_single_table a \<or> \<not> la_is_actuals_table a"
  shows "\<exists>prev out. write_lines dbg (de_lines dbg) (dwarf_pro_reg_init dbg, \<lparr>lo_data = before, lo_relocs = []\<rparr>)
        = DW_DLV_OK (prev, out)
    \<and> (\<forall>rest. read_line_table_program (a\<lparr>la_section := lo_data out @ rest, la_end := length (lo_data out)\<rparr>)
          (length before) ctx []
        = DW_DLV_OK (ctx\<lparr>lc_linebuf_logicals :=
            declared_rows dbg (la_is_actuals_table a) 0 False (dwarf_pro_reg_init dbg) (de_lines dbg)\<rparr>))"
proof -
  note R = assms(1) [unfolded reads_producer_def]
  let ?out = "\<lparr>lo_data = before, lo_relocs = []\<rparr>"
  obtain prev bs rs where w: "write_lines dbg (de_lines dbg) (dwarf_pro_reg_init dbg, ?out) = DW_DLV_OK (prev, grown ?out bs rs)"
    using program_written [OF _ _ assms(2)] R by metis
  have "read_line_table_program (a\<lparr>la_section := (before @ bs) @ rest, la_end := length (before @ bs)\<rparr>) (length before) ctx []
      = DW_DLV_OK (ctx\<lparr>lc_linebuf_logicals :=
            declared_rows dbg (la_is_actuals_table a) 0 False (dwarf_pro_reg_init dbg) (de_lines dbg)\<rparr>)" for rest
    using program_runs [of "a\<lparr>la_section := (before @ bs) @ rest, la_end := length (before @ bs)\<rparr>" dbg ctx, OF _ assms(2) w]
      assms(1,3) by (simp add: reads_producer_def at_bytes_def)
  then show ?thesis using w by (intro exI [of _ prev] exI [of _ "grown ?out bs rs"]) (simp add: grown_def)
qed

definition example_p_debug :: "p_line list \<Rightarrow> p_debug" where
  "example_p_debug ls = dwarf_init_default_line_header_vals
     \<lparr>de_lines = ls, de_inc_dirs = [], de_n_inc_dirs = 0, de_file_entries = [], de_n_file_entries = 0,
      
      de_line_inits = \<lparr>pi_linetable_version = 0, pi_default_is_stmt = 0, pi_minimum_instruction_length = 0, pi_opcode_base = 0,
        pi_line_base = 0, pi_line_range = 0, pi_maximum_operations_per_instruction = 0\<rparr>,
      de_output_version = 4, de_dwarf_offset_size = 4, de_64bit_extension = False,
      pd_pointer_size = 8, pd_swap = True, de_mem = []\<rparr>"

definition example_line :: "u64 \<Rightarrow> u64 \<Rightarrow> p_line" where
  "example_line address line = \<lparr>dpl_address = address, dpl_file = 1, dpl_line = line, dpl_column = 0, dpl_is_stmt = 1,
     dpl_basic_block = 0, dpl_opc = 0, dpl_r_symidx = 0, dpl_prologue_end = 0, dpl_epilogue_begin = 0, dpl_isa = 0,
     dpl_discriminator = 0\<rparr>"

definition example_line_context :: line_context where
  "example_line_context = \<lparr>lc_section_offset = 0, lc_version_number = 4, lc_total_length = 0, lc_length_field_length = 4,
     lc_address_size = 8, lc_segment_selector_size = 0, lc_prologue_length = 0, lc_actuals_table_offset = 0,
     lc_minimum_instruction_length = 1, lc_maximum_ops_per_instruction = 1, lc_line_ptr_start = 0, lc_line_ptr_end = 0,
     lc_line_prologue_start = 0, lc_default_is_stmt = 0, lc_line_base = 255, lc_line_range = 4, lc_opcode_base = 10,
     lc_opcode_length_table = 0, lc_std_op_count = 9, lc_include_directories = [], lc_file_entries = [],
     lc_file_entry_baseindex = 1, lc_file_entry_endindex = 1, lc_table_count = 0, lc_linebuf_logicals = [],
     lc_linebuf_actuals = []\<rparr>"

definition example_line_args :: line_args where
  "example_line_args = \<lparr>la_dbg = example_dbg, la_section = [], la_end = 0, la_address_size = 8, la_doaddrs = False,
     la_dolines = True, la_is_single_table = True, la_is_actuals_table = False\<rparr>"

definition example_lines :: "p_line list" where
  "example_lines = [(example_line 0x400000 0)\<lparr>dpl_opc := DW_LNE_set_address\<rparr>, example_line 0x400000 10,
     example_line 0x400004 12, (example_line 0x400010 0)\<lparr>dpl_opc := DW_LNE_end_sequence\<rparr>]"

lemmas example_line_defs = example_p_debug_def example_line_def example_line_context_def example_line_args_def
  example_lines_def dwarf_init_default_line_header_vals_def MIN_INST_LENGTH_def LINE_BASE_def LINE_RANGE_def OPCODE_BASE_def

lemma base_byte: "ucast (- 1 :: u32) = (255 :: byte)"
  by code_simp

theorem line_program_read_back_witness:
  "\<exists>prev out. write_lines (example_p_debug example_lines) example_lines
      (dwarf_pro_reg_init (example_p_debug example_lines), \<lparr>lo_data = [7], lo_relocs = []\<rparr>) = DW_DLV_OK (prev, out)
    \<and> map_dlv id (map (\<lambda>r. (li_address r, li_line r, li_end_sequence r)) \<circ> lc_linebuf_logicals)
        (read_line_table_program (example_line_args\<lparr>la_section := lo_data out @ [3], la_end := length (lo_data out)\<rparr>) 1
           example_line_context [])
      = DW_DLV_OK [(0x400000, 10, False), (0x400004, 12, False), (0x400010, 12, True)]"
proof -
  let ?dbg = "example_p_debug example_lines"
  have ok: "reads_producer example_line_args ?dbg example_line_context"
    by (simp add: reads_producer_def example_line_defs usable_inits_def producer_context_def example_dbg_def base_byte)
  have fits: "program_fits ?dbg (dwarf_pro_reg_init ?dbg) (de_lines ?dbg)"
    by (simp add: example_line_defs dwarf_pro_reg_init_def line_codes row_fits_def Let_def position_after_def)
  have rows: "map (\<lambda>r. (li_address r, li_line r, li_end_sequence r))
      (declared_rows ?dbg False 0 False (dwarf_pro_reg_init ?dbg) (de_lines ?dbg))
    = [(0x400000, 10, False), (0x400004, 12, False), (0x400010, 12, True)]"
    by (simp add: example_line_defs dwarf_pro_reg_init_def line_codes declared_row_def end_row_def position_after_def)
  have single: "la_is_single_table example_line_args \<or> \<not> la_is_actuals_table example_line_args"
    and actuals: "la_is_actuals_table example_line_args = False" and ls: "de_lines ?dbg = example_lines"
    by (simp_all add: example_line_args_def example_p_debug_def dwarf_init_default_line_header_vals_def)
  from line_program_read_back [OF ok fits single, of "[7]"] rows show ?thesis
    unfolding actuals ls by force
qed

text \<open>
  the reader runs a special opcode into a row whose end of sequence flag is that of the beginning of an epilogue: a row
  that only begins an epilogue is reported as the end of a sequence.
\<close>

theorem special_opcode_epilogue_ends_sequence:
  assumes "special_op a opcode p st = DW_DLV_OK (q, st1)" and "la_dolines a"
  shows "\<exists>row. ls_rows st1 = ls_rows st @ [row] \<and> li_end_sequence row = lr_epilogue_begin (ls_regs st)
    \<and> li_epilogue_begin row = lr_epilogue_begin (ls_regs st)"
  using assms
  by (auto simp: special_op_def add_marked_row_def add_row_def after_row_def row_of_def advance_address_def Let_def
      dlv_bind_OK_iff split: if_splits prod.splits)

definition example_line_state :: line_state where
  "example_line_state = \<lparr>ls_regs = (dwarf_set_line_table_regs_default_values 1)\<lparr>lr_epilogue_begin := True\<rparr>,
     ls_rows = [], ls_is_addr_set = False, ls_context = example_line_context, ls_mem = []\<rparr>"

theorem special_opcode_epilogue_ends_sequence_witness:
  "\<exists>q st1 row. special_op example_line_args 12 5 example_line_state = DW_DLV_OK (q, st1)
    \<and> ls_rows st1 = [row] \<and> li_end_sequence row \<and> li_epilogue_begin row"
proof -
  have "dlv_is_ok (special_op example_line_args 12 5 example_line_state)"
    by (simp add: special_op_def example_line_state_def example_line_args_def example_line_context_def
      dwarf_set_line_table_regs_default_values_def advance_address_def add_marked_row_def add_row_def Let_def)
  then obtain q st1 where r: "special_op example_line_args 12 5 example_line_state = DW_DLV_OK (q, st1)"
    by (cases "special_op example_line_args 12 5 example_line_state") auto
  from special_opcode_epilogue_ends_sequence [OF this] r show ?thesis
    by (auto simp: example_line_state_def example_line_args_def)
qed

text \<open>An opcode is read within the table.\<close>

lemma uword_in: "read_uword_de a p = DW_DLV_OK (v, q) \<Longrightarrow> q \<le> la_end a"
  by (auto simp: read_uword_de_def dest: uword_advances)

lemma sword_in: "read_sword_de a p = DW_DLV_OK (v, q) \<Longrightarrow> q \<le> la_end a"
  by (auto simp: read_sword_de_def dest: sword_advances)

lemma discard_in: "discard_operands a n p = DW_DLV_OK q \<Longrightarrow> p \<le> la_end a \<Longrightarrow> q \<le> la_end a"
  by (induction n arbitrary: p) (fastforce simp: dlv_bind_OK_iff dest: uword_in)+

lemma extended_in: "extended_op a p st = DW_DLV_OK (q, st1) \<Longrightarrow> q \<le> la_end a"
  by (auto simp: extended_op_def dlv_bind_OK_iff lne_end_sequence_def lne_set_address_def
      lne_define_file_def lne_unknown_def Let_def case_prod_unfold split: if_splits dest: uword_in)

lemma standard_in: "standard_op a opcode p st = DW_DLV_OK (q, st1) \<Longrightarrow> p \<le> la_end a \<Longrightarrow> q \<le> la_end a"
  unfolding standard_op_def Let_def
  by (auto simp: dlv_bind_OK_iff lns_copy_def lns_advance_pc_def
      lns_advance_line_def lns_set_file_def lns_set_column_def lns_const_add_pc_def lns_fixed_advance_pc_def
      lns_set_isa_def lns_set_subprogram_def lns_inlined_call_def lns_pop_context_def Let_def
      split: if_splits dest: uword_in sword_in)

text \<open>
  C38: an opcode that is read without an error, whatever the bytes are, ends behind its first byte and within the table, so
  the loop over the program makes progress with every round and never reads behind the table.
\<close>

theorem line_opcode_in_table:
  assumes "line_op a p st = DW_DLV_OK (q, st1)" and "p < la_end a"
  shows "p < q \<and> q \<le> la_end a"
proof -
  have "q \<le> la_end a"
    using assms by (auto simp: line_op_def Let_def dlv_bind_OK_iff special_op_def split: opcode_kind.splits if_splits
        dest!: discard_in extended_in standard_in)
  then show ?thesis using line_op_advances [OF assms(1)] by simp
qed

theorem line_opcode_in_table_witness:
  "\<exists>q st1. line_op (example_line_args\<lparr>la_section := [6, 1], la_end := 2\<rparr>) 0 example_line_state = DW_DLV_OK (q, st1)
    \<and> 0 < q \<and> q \<le> 2"
proof -
  let ?a = "example_line_args\<lparr>la_section := [6, 1], la_end := 2\<rparr>"
  have "dlv_is_ok (line_op ?a 0 example_line_state)"
    by (simp add: line_op_def example_line_state_def example_line_args_def example_line_context_def
      dwarf_set_line_table_regs_default_values_def WHAT_IS_OPCODE_def standard_op_def line_codes Let_def)
  then obtain q st1 where r: "line_op ?a 0 example_line_state = DW_DLV_OK (q, st1)"
    by (cases "line_op ?a 0 example_line_state") auto
  from line_opcode_in_table [OF this] r show ?thesis by auto
qed

text \<open>
  the producer's choice of a special opcode forgets the high bits of a long advance of the address: with the default
  header an advance of \<open>2 ^ 30\<close> units gets the opcode of no advance at all.
\<close>

theorem long_advance_lost:
  "dwarf_pro_get_opc (de_line_inits (example_p_debug [])) (2 ^ 30) 1 = dwarf_pro_get_opc (de_line_inits (example_p_debug [])) 0 1"
  by (simp add: example_line_defs dwarf_pro_get_opc_def Let_def)

end
