(* ===== verification/Line_Table.thy ===== *)
theory Line_Table
  imports Line_Header Line_Rows
begin

text \<open>
  A whole line number table, from the producer's declarations to the lines of the reader: the header with its directories
  and files, and behind it the program of \<open>Line_Rows\<close>.
\<close>

subsection \<open>Directories and files\<close>

definition c_string_at :: "byte list \<Rightarrow> nat \<Rightarrow> byte list" where
  "c_string_at sec p = take (c_strlen_at sec p) (drop p sec)"

definition plain_name :: "byte list \<Rightarrow> bool" where
  "plain_name n \<longleftrightarrow> n \<noteq> [] \<and> 0 \<notin> set n"

lemma plain_name_at:
  assumes at: "at_bytes sec p e (n @ [0])" and n: "plain_name n"
  shows "sec ! p \<noteq> 0" "c_strlen_at sec p = length n" "c_string_at sec p = n" "start \<le> p \<Longrightarrow>
    dwarf_check_string_valid dbg sec start p e err = DW_DLV_OK ()"
proof -
  show l: "c_strlen_at sec p = length n" using string_at(2) [OF at] n by (simp add: plain_name_def)
  have tn: "take (length n) (drop p sec) = n" using at by (simp add: at_bytes_append) (simp add: at_bytes_def)
  then show "c_string_at sec p = n" by (simp add: c_string_at_def l)
  obtain x xs where x: "n = x # xs" using n by (cases n) (auto simp: plain_name_def)
  then have "at_bytes sec p e (x # xs @ [0])" using at by simp
  then have "sec ! p = x" using at_bytes_first by blast
  then show "sec ! p \<noteq> 0" using n x by (auto simp: plain_name_def)
  show "dwarf_check_string_valid dbg sec start p e err = DW_DLV_OK ()" if "start \<le> p"
    using string_at(1) [OF at, of dbg err] n that by (auto simp: plain_name_def dwarf_check_string_valid_def split: if_splits)
qed

definition dir_bytes :: "byte list list \<Rightarrow> byte list" where
  "dir_bytes ds = concat (map (\<lambda>d. d @ [0]) ds)"

lemma dir_loop_at:
  assumes "at_bytes sec p e (dir_bytes ds @ [0])" "p + length (dir_bytes ds) + 1 \<le> e" "start \<le> p" "list_all plain_name ds"
  shows "\<exists>qs. dir_loop dbg sec start p e room dirs [] = DW_DLV_OK (dirs @ qs, p + length (dir_bytes ds) + 1, [])
    \<and> map (c_string_at sec) qs = ds"
  using assms
proof (induction ds arbitrary: p room dirs)
  case Nil
  then have "sec ! p = 0" using at_bytes_first by (auto simp: dir_bytes_def)
  then show ?case by (intro exI [of _ "[]"]) (simp add: dir_loop.simps [of _ _ _ p] dir_bytes_def)
next
  case (Cons d ds)
  have at: "at_bytes sec p e (d @ [0])" "at_bytes sec (p + length d + 1) e (dir_bytes ds @ [0])"
    using Cons.prems(1) at_bytes_append [of sec p e "d @ [0]" "dir_bytes ds @ [0]"]
    by (simp_all add: dir_bytes_def)
  have d: "plain_name d" using Cons.prems(4) by simp
  note n = plain_name_at [OF at(1) d]
  let ?p = "p + length d + 1" and ?room = "if room \<le> length dirs then 2 * room else room"
  have le: "?p + length (dir_bytes ds) + 1 \<le> e" "start \<le> ?p" "list_all plain_name ds" using Cons.prems(2-4) by (simp_all add: dir_bytes_def)
  obtain qs where qs: "dir_loop dbg sec start ?p e ?room (dirs @ [p]) [] = DW_DLV_OK ((dirs @ [p]) @ qs, ?p + length (dir_bytes ds) + 1, [])"
    "map (c_string_at sec) qs = ds"
    using Cons.IH [OF at(2) le] by blast
  have "dir_loop dbg sec start p e room dirs [] = dir_loop dbg sec start ?p e ?room (dirs @ [p]) []"
    using n(1,2) n(4) [OF Cons.prems(3)] le(1) by (subst dir_loop.simps) (simp add: Let_def)
  then show ?case using qs n(3) by (intro exI [of _ "p # qs"]) (simp add: dir_bytes_def)
qed

definition file_bytes :: "byte list \<times> u64 \<times> u64 \<times> u64 \<Rightarrow> byte list" where
  "file_bytes = (\<lambda>(name, i, t, l). name @ [0] @ uleb i @ uleb t @ uleb l)"

definition plain_file :: "nat \<Rightarrow> byte list \<times> u64 \<times> u64 \<times> u64 \<Rightarrow> bool" where
  "plain_file dirs = (\<lambda>(name, i, t, l). plain_name name \<and> unat i \<le> dirs)"

definition file_of :: "byte list \<Rightarrow> file_entry \<Rightarrow> byte list \<times> u64 \<times> u64 \<times> u64" where
  "file_of sec f = (c_string_at sec (fi_file_name f), fi_dir_index f, fi_time_last_mod f, fi_file_length f)"

lemma read_file_entry_at:
  assumes at: "at_bytes sec p e (file_bytes f)" and le: "p + length (file_bytes f) < e" and "start \<le> p"
    and f: "plain_file n f"
  shows "\<exists>fe. read_file_entry dbg sec start p e n = DW_DLV_OK (fe, p + length (file_bytes f)) \<and> file_of sec fe = f \<and> sec ! p \<noteq> 0"
proof -
  obtain name i t l where [simp]: "f = (name, i, t, l)" by (cases f)
  have a: "at_bytes sec p e (name @ [0])" "at_bytes sec (p + length name + 1) e (uleb i)"
    "at_bytes sec (p + length name + 1 + length (uleb i)) e (uleb t)"
    "at_bytes sec (p + length name + 1 + length (uleb i) + length (uleb t)) e (uleb l)"
    using at by (simp_all add: file_bytes_def at_bytes_append at_bytes_Cons [of _ _ _ 0 "_ @ _"] add.assoc)
  have p: "plain_name name" "unat i \<le> n" using f by (simp_all add: plain_file_def)
  note n = plain_name_at [OF a(1) p(1)]
  show ?thesis
    using n(1-3) n(4) [OF assms(3)] uword_at [OF a(2)] uword_at [OF a(3)] uword_at [OF a(4)] p(2) le
    by (simp add: read_file_entry_def file_bytes_def file_of_def add.assoc)
qed

definition with_files :: "file_entry list \<Rightarrow> line_context \<Rightarrow> line_context" where
  "with_files fs ctx = foldl (\<lambda>c f. dwarf_add_to_files_list f c) ctx fs"

lemma with_files_simps:
  "lc_file_entries (with_files fs ctx) = lc_file_entries ctx @ fs"
  "lc_include_directories (with_files fs ctx) = lc_include_directories ctx"
  "lc_minimum_instruction_length (with_files fs ctx) = lc_minimum_instruction_length ctx"
  "lc_maximum_ops_per_instruction (with_files fs ctx) = lc_maximum_ops_per_instruction ctx"
  "lc_default_is_stmt (with_files fs ctx) = lc_default_is_stmt ctx"
  "lc_line_base (with_files fs ctx) = lc_line_base ctx" "lc_line_range (with_files fs ctx) = lc_line_range ctx"
  "lc_opcode_base (with_files fs ctx) = lc_opcode_base ctx" "lc_std_op_count (with_files fs ctx) = lc_std_op_count ctx"
  "lc_line_ptr_end (with_files fs ctx) = lc_line_ptr_end ctx"
  "lc_line_prologue_start (with_files fs ctx) = lc_line_prologue_start ctx"
  "lc_prologue_length (with_files fs ctx) = lc_prologue_length ctx"
  "lc_actuals_table_offset (with_files fs ctx) = lc_actuals_table_offset ctx"
  by (induction fs arbitrary: ctx) (simp_all add: with_files_def dwarf_add_to_files_list_def Let_def)

lemma file_loop_at:
  assumes "at_bytes sec p e (concat (map file_bytes fs) @ [0])" "start \<le> p"
    "list_all (plain_file (length (lc_include_directories ctx))) fs"
  shows "\<exists>es. file_loop dbg sec start p e ctx [] = DW_DLV_OK (with_files es ctx, p + length (concat (map file_bytes fs)) + 1, [])
    \<and> map (file_of sec) es = fs"
  using assms
proof (induction fs arbitrary: p ctx)
  case Nil
  then have "sec ! p = 0" using at_bytes_first by auto
  then show ?case by (intro exI [of _ "[]"]) (simp add: file_loop.simps [of _ _ _ p] with_files_def)
next
  case (Cons f fs)
  let ?p = "p + length (file_bytes f)"
  have at: "at_bytes sec p e (file_bytes f)" "at_bytes sec ?p e (concat (map file_bytes fs) @ [0])"
    using Cons.prems(1) by (simp_all add: at_bytes_append add.assoc)
  have lt: "?p < e" using at(2) by (auto simp: at_bytes_def)
  have f: "plain_file (length (lc_include_directories ctx)) f" using Cons.prems(3) by simp
  obtain fe where fe: "read_file_entry dbg sec start p e (length (lc_include_directories ctx)) = DW_DLV_OK (fe, ?p)"
    "file_of sec fe = f" "sec ! p \<noteq> 0"
    using read_file_entry_at [OF at(1) lt Cons.prems(2) f, where dbg = dbg] by auto
  let ?ctx = "dwarf_add_to_files_list fe ctx"
  have ctx: "lc_include_directories ?ctx = lc_include_directories ctx" by (simp add: dwarf_add_to_files_list_def Let_def)
  obtain es where es: "file_loop dbg sec start ?p e ?ctx [] = DW_DLV_OK (with_files es ?ctx, ?p + length (concat (map file_bytes fs)) + 1, [])"
    "map (file_of sec) es = fs"
    using Cons.IH [OF at(2), of ?ctx] Cons.prems(2,3) ctx by auto
  have "file_loop dbg sec start p e ctx [] = file_loop dbg sec start ?p e ?ctx []"
    using fe(1,3) by (subst file_loop.simps) (simp add: Let_def)
  then show ?case using es fe(2) by (intro exI [of _ "fe # es"]) (simp add: with_files_def)
qed

subsection \<open>The fields of the header\<close>

lemma line_byte_at: "at_bytes sec p e (b # bs) \<Longrightarrow> line_byte sec p e err = DW_DLV_OK (b, p + 1)"
  using at_bytes_first [of sec p e b bs] by (simp add: line_byte_def)

lemma operands_match:
  assumes at: "at_bytes sec p e (map ((!) std_opcode_len) [0..<n])" and n: "n \<le> 12"
  shows "\<not> operand_ck_fail sec p (of_nat n)"
proof -
  have u: "unat (of_nat n :: byte) = n" using n by (simp add: unat_of_nat take_bit_nat_eq_self)
  have same: "dwarf_standard_opcode_operand_count ! i = std_opcode_len ! i" if "i < 12" for i
  proof -
    have "list_all (\<lambda>i. dwarf_standard_opcode_operand_count ! i = std_opcode_len ! i) [0..<12]"
      by (simp add: dwarf_standard_opcode_operand_count_def std_opcode_len_def upt_rec)
    then show ?thesis using that by (simp add: list_all_iff)
  qed
  have "sec ! (p + i) = std_opcode_len ! i" if "i < n" for i
  proof -
    have "take n (drop p sec) ! i = std_opcode_len ! i" using at that by (simp add: at_bytes_def)
    moreover have "p + i < length sec" using at that by (simp add: at_bytes_def)
    ultimately show ?thesis using that by simp
  qed
  then have "\<not> operandmismatch dwarf_standard_opcode_operand_count sec p n"
    using same n by (auto simp: operandmismatch_def list_ex_iff dwarf_standard_opcode_operand_count_def)
  then show ?thesis using n u by (simp add: operand_ck_fail_def dwarf_standard_opcode_operand_count_def)
qed

lemma at_bytes_wider: "at_bytes sec p e bs \<Longrightarrow> e \<le> e' \<Longrightarrow> e' \<le> length sec \<Longrightarrow> at_bytes sec p e' bs"
  by (simp add: at_bytes_def)

lemma version_read:
  assumes "at_bytes sec p e (number_bytes dbg 2 (ucast (v :: 16 word)))"
  shows "\<exists>w. READ_UNALIGNED_CK dbg sec p 2 e = DW_DLV_OK w \<and> ucast w = v"
proof -
  have "ucast (take_bit 16 (ucast v :: u64)) = v" by (rule bit_word_eqI) (simp add: bit_simps)
  then show ?thesis using read_number [OF assms] by simp
qed

text \<open>The fixed fields behind the lengths: version 4 has one more.\<close>

definition fixed_fields :: "16 word \<Rightarrow> byte \<Rightarrow> byte \<Rightarrow> byte \<Rightarrow> byte \<Rightarrow> byte \<Rightarrow> nat \<Rightarrow> byte list" where
  "fixed_fields ver mi mx dis lb lr n = mi # (if ver = 4 then [mx] else []) @ [dis, lb, lr, of_nat n + 1]
     @ map ((!) std_opcode_len) [0..<n]"

definition fields_context :: "header_args \<Rightarrow> bool \<Rightarrow> u64 \<Rightarrow> 16 word \<Rightarrow> u64 \<Rightarrow> nat \<Rightarrow> byte \<Rightarrow> byte \<Rightarrow> byte \<Rightarrow> byte \<Rightarrow> byte \<Rightarrow> nat \<Rightarrow>
    line_context \<Rightarrow> line_context" where
  "fields_context h x tot ver plen p mi mx dis lb lr n ctx = ctx\<lparr>lc_section_offset := of_nat (ha_data_start h),
     lc_version_number := ver, lc_total_length := tot, lc_length_field_length := (if x then 12 else 4),
     lc_address_size := ha_address_size h, lc_segment_selector_size := ha_segment_selector_size h,
     lc_prologue_length := plen, lc_minimum_instruction_length := mi,
     lc_maximum_ops_per_instruction := (if ver = 4 then mx else lc_maximum_ops_per_instruction ctx),
     lc_line_ptr_start := ha_data_start h, lc_line_ptr_end := ha_data_start h + (if x then 12 else 4) + unat tot,
     lc_line_prologue_start := p, lc_default_is_stmt := dis, lc_line_base := lb, lc_line_range := lr,
     lc_opcode_base := of_nat n + 1, lc_opcode_length_table := p + (if ver = 4 then 6 else 5), lc_std_op_count := of_nat n\<rparr>"

lemma read_header_fields_at:
  fixes h :: header_args
  defines "dbg \<equiv> ha_dbg h" and "sec \<equiv> ha_section h" and "st \<equiv> ha_data_start h"
  assumes e: "e = st + (if x then 12 else 4) + unat tot" "e \<le> length sec"
    and at1: "at_bytes sec st e (initial_length dbg x tot)" and at2: "at_bytes sec pv e (number_bytes dbg 2 (ucast ver))"
    and at3: "at_bytes sec (pv + 2) e (number_bytes dbg len plen)" and at4: "at_bytes sec p e (fixed_fields ver mi mx dis lb lr n @ tail)"
    and pv: "pv = st + (if x then 12 else 4)" and p: "p = pv + 2 + len" and len: "len = (if x then 8 else 4)"
    and small: "\<not> x \<Longrightarrow> tot < DISTINGUISHED_VALUE \<and> tot \<noteq> 0" "take_bit (8 * len) plen = plen" "tot \<le> of_nat (length sec)"
    and ver: "ver \<in> {2, 3, 4}" and plen: "plen \<le> tot" and lr: "lr \<noteq> 0" and n: "n \<le> 12" and tail: "tail \<noteq> []"
  shows "read_header_fields h ctx = DW_DLV_OK (fields_context h x tot ver plen p mi mx dis lb lr n ctx,
    p + length (fixed_fields ver mi mx dis lb lr n))"
proof -
  let ?l = "length (initial_length dbg x tot)"
  have l: "?l = (if x then 12 else 4)" by (simp add: initial_length_def)
  have "READ_AREA_LENGTH_CK dbg sec st (of_nat (length sec)) (length sec)
      = DW_DLV_OK (tot, if x then 8 else 4, if x then 4 else 0, st + ?l)"
    using read_area_length [OF at_bytes_wider [OF at1 e(2) order_refl], of "of_nat (length sec)"] small by (simp add: not_less)
  then have 1: "READ_AREA_LENGTH_CK dbg sec st (of_nat (length sec)) (length sec)
      = DW_DLV_OK (tot, len, if x then 4 else 0, pv)"
    unfolding l len pv .
  have e1: "pv + unat tot = e" using e pv by simp
  obtain w where 2: "READ_UNALIGNED_CK dbg sec pv 2 e = DW_DLV_OK w" "ucast w = ver" using version_read [OF at2] by blast
  have 3: "READ_UNALIGNED_CK dbg sec (pv + 2) len e = DW_DLV_OK plen" using read_number [OF at3] len small(2) by simp
  let ?k = "if ver = 4 then 1 else 0 :: nat"
  have at4': "at_bytes sec p e [mi]" "at_bytes sec (p + 1) e (if ver = 4 then [mx] else [])"
    "at_bytes sec (p + 1 + ?k) e [dis]" "at_bytes sec (p + 2 + ?k) e [lb]" "at_bytes sec (p + 3 + ?k) e [lr]"
    "at_bytes sec (p + 4 + ?k) e [of_nat n + 1]" "at_bytes sec (p + 5 + ?k) e (map ((!) std_opcode_len) [0..<n])"
    "at_bytes sec (p + 5 + ?k + n) e tail"
    using at4 by (auto simp: fixed_fields_def at_bytes_append at_bytes_Cons [of _ _ _ _ "_ # _"] at_bytes_Cons [of _ _ _ _ "_ @ _"]
        add.assoc eval_nat_numeral split: if_splits)
  have q: "p + 5 + ?k + n < e" using at4'(8) tail by (cases tail) (auto simp: at_bytes_def)
  have u: "unat (of_nat n + 1 :: byte) = n + 1"
  proof -
    have "of_nat n + 1 = (of_nat (n + 1) :: byte)" by simp
    then show ?thesis using n by (simp only: unat_of_nat) (simp add: take_bit_nat_eq_self)
  qed
  have v: "ver \<noteq> 5" "ver \<noteq> 0xf006" "ver \<in> {2, 3, 4, 5, 0xf006}" using ver by auto
  have un: "unat (of_nat n :: byte) = n" using n by (simp add: unat_of_nat take_bit_nat_eq_self)
  note b = line_byte_at [OF at4'(1)] line_byte_at [OF at4'(3)] line_byte_at [OF at4'(4)] line_byte_at [OF at4'(5)] line_byte_at [OF at4'(6)]
  have mx: "(if ver = 4 \<or> False \<or> ver = 0xf006 then line_byte sec (p + 1) e DW_DLE_DEBUG_LINE_LENGTH_BAD
      else DW_DLV_OK (lc_maximum_ops_per_instruction ctx, p + 1))
    = DW_DLV_OK (if ver = 4 then mx else lc_maximum_ops_per_instruction ctx, p + 1 + ?k)"
    using v at4'(2) line_byte_at [of sec "p + 1" e mx "[]"] by auto
  have fail: "\<not> operand_ck_fail sec (p + 5 + ?k) (of_nat n)" by (rule operands_match [OF at4'(7) n])
  have un': "(of_nat n + 1 - 1 :: byte) = of_nat n" by simp
  have P: "pv + 2 + len = p" using p by simp
  have b4: "line_byte sec (p + 1 + ?k) e err = DW_DLV_OK (dis, p + 2 + ?k)"
    "line_byte sec (p + 2 + ?k) e err = DW_DLV_OK (lb, p + 3 + ?k)"
    "line_byte sec (p + 3 + ?k) e err = DW_DLV_OK (lr, p + 4 + ?k)"
    "line_byte sec (p + 4 + ?k) e err = DW_DLV_OK (of_nat n + 1, p + 5 + ?k)" for err
    using b(2-5) [of err] by simp_all
  have F: "(length sec < e) = False" "(ver \<notin> {2, 3, 4, 5, 0xf006}) = False" "(ver = 5) = False" "(tot < plen) = False"
    "(lr = 0) = False" "(e \<le> p + 5 + ?k + (n + 1) - 1) = False"
    "(length sec \<le> p + 5 + ?k + min n (length dwarf_standard_opcode_operand_count)) = False"
    "operand_ck_fail sec (p + 5 + ?k) (of_nat n) = False"
    using e(2) v plen lr q fail by auto
  show ?thesis
    unfolding read_header_fields_def Let_def dbg_def [symmetric] sec_def [symmetric] st_def [symmetric]
    unfolding 1 dlv_bind.simps prod.case e1 F if_False 2 3 P b(1) mx b4 u un' un
    using len by (simp add: fields_context_def fixed_fields_def e(1) st_def add.commute)
qed

subsection \<open>The producer's table\<close>

definition table_fits :: "p_debug \<Rightarrow> byte list list \<Rightarrow> (byte list \<times> u64 \<times> u64 \<times> u64) list \<Rightarrow> bool" where
  "table_fits dbg ds fs \<longleftrightarrow> usable_inits (de_line_inits dbg) \<and> unat (pd_pointer_size dbg) \<le> 8
     \<and> pi_maximum_operations_per_instruction (de_line_inits dbg) < 2
     \<and> (de_output_version dbg = 2 \<or> de_output_version dbg = 3 \<or> de_output_version dbg = 4)
     \<and> pi_linetable_version (de_line_inits dbg) = ucast (de_output_version dbg)
     \<and> de_dwarf_offset_size dbg = (if de_64bit_extension dbg then 8 else 4)
     \<and> de_inc_dirs dbg = map (\<lambda>d. \<lparr>dfe_name = Some d, dfe_args = []\<rparr>) ds
     \<and> de_file_entries dbg = map (\<lambda>(n, i, t, l). \<lparr>dfe_name = Some n, dfe_args = uleb i @ uleb t @ uleb l\<rparr>) fs
     \<and> list_all plain_name ds \<and> list_all (plain_file (length ds)) fs
     \<and> program_fits dbg (dwarf_pro_reg_init dbg) (de_lines dbg)"

definition header_tail :: "byte list list \<Rightarrow> (byte list \<times> u64 \<times> u64 \<times> u64) list \<Rightarrow> byte list" where
  "header_tail ds fs = dir_bytes ds @ [0] @ concat (map file_bytes fs) @ [0]"

definition producer_fields :: "p_debug \<Rightarrow> byte list" where
  "producer_fields dbg = (let i = de_line_inits dbg in
     fixed_fields (de_output_version dbg) (ucast (pi_minimum_instruction_length i))
       (ucast (pi_maximum_operations_per_instruction i)) (ucast (pi_default_is_stmt i)) (ucast (pi_line_base i))
       (ucast (pi_line_range i)) (unat (pi_opcode_base i - 1)))"

definition prologue_size :: "p_debug \<Rightarrow> byte list list \<Rightarrow> (byte list \<times> u64 \<times> u64 \<times> u64) list \<Rightarrow> nat" where
  "prologue_size dbg ds fs = length (producer_fields dbg) + length (header_tail ds fs)"

lemma opcode_base_nat:
  assumes "usable_inits inits"
  shows "unat (pi_opcode_base inits - 1) \<le> 12" "ucast (pi_opcode_base inits) = (of_nat (unat (pi_opcode_base inits - 1)) + 1 :: byte)"
    "ucast (pi_opcode_base inits) - 1 = (of_nat (unat (pi_opcode_base inits - 1)) :: byte)"
proof -
  let ?ob = "pi_opcode_base inits"
  have ob: "10 \<le> uint ?ob" "uint ?ob \<le> 13" using assms by (simp_all add: usable_inits_def word_le_def)
  then have "?ob \<noteq> 0" by auto
  then have m: "unat (?ob - 1) = unat ?ob - 1" by (rule unat_minus_one)
  have u: "int (unat ?ob) = uint ?ob" by simp
  then have n: "10 \<le> unat ?ob" "unat ?ob \<le> 13" using ob by linarith+
  then show "unat (?ob - 1) \<le> 12" using m by simp
  have "ucast ?ob = (of_int (uint ?ob) :: byte)" by (rule word_cast(1))
  also have "\<dots> = of_nat (unat ?ob)" unfolding u [symmetric] by (rule of_int_of_nat_eq)
  also have "\<dots> = of_nat (unat (?ob - 1) + 1)" using m n by simp
  finally show c: "ucast ?ob = (of_nat (unat (?ob - 1)) + 1 :: byte)" by simp
  show "ucast ?ob - 1 = (of_nat (unat (?ob - 1)) :: byte)" unfolding c by simp
qed

lemma table_names: "table_fits dbg ds fs \<Longrightarrow> names_set dbg"
  by (auto simp: table_fits_def names_set_def list_all_iff)

lemma name_lengths:
  assumes "table_fits dbg ds fs"
  shows "concat (map (\<lambda>e. the (dfe_name e) @ [0]) (de_inc_dirs dbg)) = dir_bytes ds"
    "concat (map entry_bytes (de_file_entries dbg)) = concat (map file_bytes fs)"
    "sum_list (map (\<lambda>e. length (the (dfe_name e)) + 1) (de_inc_dirs dbg)) = length (dir_bytes ds)"
    "sum_list (map (\<lambda>e. length (the (dfe_name e)) + 1 + length (dfe_args e)) (de_file_entries dbg))
      = length (concat (map file_bytes fs))"
proof -
  have d: "de_inc_dirs dbg = map (\<lambda>d. \<lparr>dfe_name = Some d, dfe_args = []\<rparr>) ds"
    and f: "de_file_entries dbg = map (\<lambda>(n, i, t, l). \<lparr>dfe_name = Some n, dfe_args = uleb i @ uleb t @ uleb l\<rparr>) fs"
    using assms by (simp_all add: table_fits_def)
  show "concat (map (\<lambda>e. the (dfe_name e) @ [0]) (de_inc_dirs dbg)) = dir_bytes ds"
    unfolding d by (induction ds) (simp_all add: dir_bytes_def)
  show "concat (map entry_bytes (de_file_entries dbg)) = concat (map file_bytes fs)"
    unfolding f by (induction fs) (auto simp: entry_bytes_def file_bytes_def)
  show "sum_list (map (\<lambda>e. length (the (dfe_name e)) + 1) (de_inc_dirs dbg)) = length (dir_bytes ds)"
    unfolding d by (induction ds) (simp_all add: dir_bytes_def)
  show "sum_list (map (\<lambda>e. length (the (dfe_name e)) + 1 + length (dfe_args e)) (de_file_entries dbg))
      = length (concat (map file_bytes fs))"
    unfolding f by (induction fs) (auto simp: file_bytes_def)
qed

lemma version_words:
  "ucast (ucast (v :: 16 word) :: u32) = v" "(ucast v :: u32) = 4 \<longleftrightarrow> v = 4" "(ucast v :: u32) = 5 \<longleftrightarrow> v = 5"
proof -
  show c: "ucast (ucast v :: u32) = v" for v :: "16 word" by (rule bit_word_eqI) (simp add: bit_simps)
  show "(ucast v :: u32) = 4 \<longleftrightarrow> v = 4" "(ucast v :: u32) = 5 \<longleftrightarrow> v = 5"
    using c [of v] by (auto dest: arg_cong [where f = "ucast :: u32 \<Rightarrow> 16 word"])
qed

definition header_size :: "p_debug \<Rightarrow> byte list list \<Rightarrow> (byte list \<times> u64 \<times> u64 \<times> u64) list \<Rightarrow> nat" where
  "header_size dbg ds fs =
     extension_size dbg + de_dwarf_offset_size dbg + 2 + de_dwarf_offset_size dbg + prologue_size dbg ds fs"

lemma sum_of_nat: "(\<Sum>x\<leftarrow>xs. of_nat (f x)) = (of_nat (\<Sum>x\<leftarrow>xs. f x) :: u32)"
  by (induction xs) simp_all

lemma calculated_size:
  assumes "table_fits dbg ds fs"
  shows "calculate_size_of_line_header4 dbg = of_nat (header_size dbg ds fs)"
proof -
  have v: "pi_linetable_version (de_line_inits dbg) = ucast (de_output_version dbg)" using assms by (simp add: table_fits_def)
  have ob: "(of_nat (unat (pi_opcode_base (de_line_inits dbg) - 1)) :: u32) = pi_opcode_base (de_line_inits dbg) - 1" by simp
  show ?thesis
    unfolding calculate_size_of_line_header4_def sum_of_nat name_lengths(3,4) [OF assms] Let_def
    by (simp add: header_size_def prologue_size_def producer_fields_def fixed_fields_def header_tail_def
        Let_def v version_words(2) ob [simplified])
qed

lemma small_size: "n < 2 ^ 32 \<Longrightarrow> (ucast (of_nat n :: u32) :: u64) = of_nat n"
  by (simp add: unsigned_of_nat take_bit_nat_eq_self)


lemma header_length:
  assumes t: "table_fits dbg ds fs"
  shows "length (line_header4 dbg prolog_size) = header_size dbg ds fs"
proof -
  have F: "pi_linetable_version (de_line_inits dbg) = ucast (de_output_version dbg)" "de_dwarf_offset_size dbg \<le> 8"
    "de_output_version dbg \<noteq> 5"
    using t by (auto simp: table_fits_def)
  have W: "length (WRITE_UNALIGNED (pd_swap dbg) v n) = n" if "n \<le> 8" for v n
    using WRITE_UNALIGNED_bytes [OF that, of "example_dbg\<lparr>de_swap := pd_swap dbg\<rparr>" v] by simp
  show ?thesis
    using F(2,3)
    by (simp add: line_header4_def Let_def W F(1) version_words name_lengths(1,2) [OF t] header_size_def prologue_size_def
        producer_fields_def fixed_fields_def header_tail_def extension_size_def)
qed

lemma header_written:
  assumes t: "table_fits dbg ds fs" and rd: "de_swap rd = pd_swap dbg" and size: "header_size dbg ds fs < 2 ^ 32"
  shows "line_header4 dbg (calculate_size_of_line_header4 dbg) =
    (if de_64bit_extension dbg then number_bytes rd 4 DISTINGUISHED_VALUE else [])
    @ number_bytes rd (de_dwarf_offset_size dbg) 0 @ number_bytes rd 2 (ucast (de_output_version dbg))
    @ number_bytes rd (de_dwarf_offset_size dbg) (of_nat (prologue_size dbg ds fs)) @ producer_fields dbg @ header_tail ds fs"
proof -
  have F: "pi_linetable_version (de_line_inits dbg) = ucast (de_output_version dbg)"
    "de_dwarf_offset_size dbg = (if de_64bit_extension dbg then 8 else 4)" "usable_inits (de_line_inits dbg)"
    "de_output_version dbg \<noteq> 5"
    using t by (auto simp: table_fits_def)
  have W: "WRITE_UNALIGNED (pd_swap dbg) v n = number_bytes rd n v" if "n \<le> 8" for v n
    using WRITE_UNALIGNED_bytes [OF that, of rd v] rd by simp
  have c: "ucast (calculate_size_of_line_header4 dbg) = (of_nat (header_size dbg ds fs) :: u64)"
    unfolding calculated_size [OF t] by (rule small_size [OF size])
  have du: "of_nat (header_size dbg ds fs)
      - of_nat (extension_size dbg + de_dwarf_offset_size dbg + 2) - of_nat (de_dwarf_offset_size dbg)
      = (of_nat (prologue_size dbg ds fs) :: u64)"
    by (simp add: header_size_def)
  have ob: "ucast (pi_opcode_base (de_line_inits dbg)) = (of_nat (unat (pi_opcode_base (de_line_inits dbg) - 1)) + 1 :: byte)"
    by (rule opcode_base_nat(2) [OF F(3)])
  show ?thesis
  proof (cases "de_64bit_extension dbg")
    case True
    then have x: "extension_size dbg = 4" "de_dwarf_offset_size dbg = 8" using F(2) by (simp_all add: extension_size_def)
    show ?thesis using du x True F(4)
      by (simp add: line_header4_def c Let_def W F(1) version_words name_lengths(1,2) [OF t] ob
          producer_fields_def fixed_fields_def header_tail_def)
  next
    case False
    then have x: "extension_size dbg = 0" "de_dwarf_offset_size dbg = 4" using F(2) by (simp_all add: extension_size_def)
    show ?thesis using du x False F(4)
      by (simp add: line_header4_def c Let_def W F(1) version_words name_lengths(1,2) [OF t] ob
          producer_fields_def fixed_fields_def header_tail_def)
  qed
qed

definition table_bytes :: "dwarf_debug \<Rightarrow> p_debug \<Rightarrow> byte list list \<Rightarrow> (byte list \<times> u64 \<times> u64 \<times> u64) list \<Rightarrow> u64 \<Rightarrow> byte list" where
  "table_bytes rd dbg ds fs tot = initial_length rd (de_64bit_extension dbg) tot
     @ number_bytes rd 2 (ucast (de_output_version dbg))
     @ number_bytes rd (de_dwarf_offset_size dbg) (of_nat (prologue_size dbg ds fs)) @ producer_fields dbg @ header_tail ds fs"

lemma length_table_bytes:
  assumes "table_fits dbg ds fs"
  shows "length (table_bytes rd dbg ds fs tot)
    = (if de_64bit_extension dbg then 12 else 4) + 2 + de_dwarf_offset_size dbg + prologue_size dbg ds fs"
  using assms by (simp add: table_bytes_def initial_length_def prologue_size_def)

lemma table_generated:
  assumes t: "table_fits dbg ds fs" and rd: "de_swap rd = pd_swap dbg" and mem: "de_mem dbg = []"
    and size: "header_size dbg ds fs < 2 ^ 32"
  shows "\<exists>prev out0 bs rs. write_lines dbg (de_lines dbg) (dwarf_pro_reg_init dbg, out0) = DW_DLV_OK (prev, grown out0 bs rs)
    \<and> (\<exists>tot. dwarf_pro_generate_debugline dbg = Some (DW_DLV_OK \<lparr>lo_data = table_bytes rd dbg ds fs tot @ bs, lo_relocs = rs\<rparr>)
      \<and> (length (table_bytes rd dbg ds fs tot @ bs) < 2 ^ 31 \<longrightarrow>
          unat tot = length (table_bytes rd dbg ds fs tot @ bs) - (if de_64bit_extension dbg then 12 else 4)))"
proof -
  let ?x = "de_64bit_extension dbg" and ?off = "de_dwarf_offset_size dbg" and ?ext = "extension_size dbg"
  let ?H = "line_header4 dbg (calculate_size_of_line_header4 dbg)" and ?n = "if ?x then 12 else 4 :: nat"
  have F: "usable_inits (de_line_inits dbg)" "unat (pd_pointer_size dbg) \<le> 8" "?off = (if ?x then 8 else 4)"
    "\<not> 5 < de_output_version dbg" "de_output_version dbg \<noteq> 5" "program_fits dbg (dwarf_pro_reg_init dbg) (de_lines dbg)"
    using t by (auto simp: table_fits_def)
  note H = header_written [OF t rd size]
  note len = header_length [OF t]
  have ext: "?ext + ?off = ?n" "?off + ?ext = ?n" using F(3) by (simp_all add: extension_size_def)
  obtain prev bs rs where w: "write_lines dbg (de_lines dbg) (dwarf_pro_reg_init dbg, \<lparr>lo_data = ?H, lo_relocs = []\<rparr>)
      = DW_DLV_OK (prev, grown \<lparr>lo_data = ?H, lo_relocs = []\<rparr> bs rs)"
    using program_written [OF F(1,2,6)] by blast
  define tot :: u64 where "tot = scast (of_nat (length (?H @ bs)) - of_nat ?n :: u32)"
  have W: "WRITE_UNALIGNED (pd_swap dbg) tot ?off = number_bytes rd ?off tot"
    using WRITE_UNALIGNED_bytes [of ?off rd tot] rd F(3) by simp
  have patched: "take ?ext (?H @ bs) @ number_bytes rd ?off tot @ drop (?ext + ?off) (?H @ bs) = table_bytes rd dbg ds fs tot @ bs"
    unfolding H using F(3) by (simp add: table_bytes_def initial_length_def extension_size_def)
  have l: "length (?H @ bs) = length (table_bytes rd dbg ds fs tot @ bs)"
    unfolding patched [symmetric] using ext(1) len [of "calculate_size_of_line_header4 dbg"] by (simp add: header_size_def)
  have C: "(5 < de_output_version dbg) = False" "(de_output_version dbg = 5 \<or> \<not> names_set dbg) = False"
    "(of_nat (length ?H) \<noteq> (ucast (calculate_size_of_line_header4 dbg) :: u64)) = False"
    "(\<not> fst (alloc (de_mem dbg))) = False"
    using F(4,5) table_names [OF t] mem small_size [OF size] by (simp_all add: len calculated_size [OF t])
  have T: "scast (of_nat (length (?H @ bs)) - of_nat (?off + ?ext) :: u32) = tot" unfolding tot_def ext(2) ..
  have gen: "dwarf_pro_generate_debugline dbg = Some (DW_DLV_OK \<lparr>lo_data = table_bytes rd dbg ds fs tot @ bs, lo_relocs = rs\<rparr>)"
    unfolding dwarf_pro_generate_debugline_def Let_def C if_False w dlv_bind.simps prod.case T W grown_def line_out.simps patched
    by simp
  have "unat tot = length (table_bytes rd dbg ds fs tot @ bs) - ?n" if small: "length (table_bytes rd dbg ds fs tot @ bs) < 2 ^ 31"
  proof -
    let ?L = "length (?H @ bs)"
    have b: "?n \<le> ?L" "int (?L - ?n) < 2147483648" using small l length_table_bytes [OF t] by auto
    have "(of_nat ?L - of_nat ?n :: u32) = of_int (int (?L - ?n))" 
      unfolding of_int_of_nat_eq by (rule of_nat_diff [OF b(1), symmetric])
    moreover have "sint (of_int (int (?L - ?n)) :: u32) = int (?L - ?n)" by (rule sint_of_int) (use b(2) in simp_all)
    ultimately have "tot = of_int (int (?L - ?n))" unfolding tot_def by (simp only: word_cast(2))
    then have "tot = of_nat (?L - ?n)" by (simp only: of_int_of_nat_eq)
    then show ?thesis using of_nat_small [of "?L - ?n"] b(2) l by simp
  qed
  then show ?thesis using w gen by blast
qed

text \<open>What was generated has the header in it.\<close>

lemma generated_length:
  assumes t: "table_fits dbg ds fs" and ok: "dwarf_pro_generate_debugline dbg = Some (DW_DLV_OK out)"
  shows "header_size dbg ds fs \<le> length (lo_data out)"
proof -
  let ?H = "line_header4 dbg (calculate_size_of_line_header4 dbg)" and ?off = "de_dwarf_offset_size dbg"
  have F: "usable_inits (de_line_inits dbg)" "unat (pd_pointer_size dbg) \<le> 8" "?off \<le> 8"
    "\<not> 5 < de_output_version dbg" "de_output_version dbg \<noteq> 5" "program_fits dbg (dwarf_pro_reg_init dbg) (de_lines dbg)"
    using t by (auto simp: table_fits_def)
  obtain prev bs rs where w: "write_lines dbg (de_lines dbg) (dwarf_pro_reg_init dbg, \<lparr>lo_data = ?H, lo_relocs = []\<rparr>)
      = DW_DLV_OK (prev, grown \<lparr>lo_data = ?H, lo_relocs = []\<rparr> bs rs)"
    using program_written [OF F(1,2,6)] by blast
  have W: "length (WRITE_UNALIGNED (pd_swap dbg) v ?off) = ?off" for v
    using WRITE_UNALIGNED_bytes [OF F(3), of "example_dbg\<lparr>de_swap := pd_swap dbg\<rparr>" v] by simp
  have C: "(5 < de_output_version dbg) = False" "(de_output_version dbg = 5 \<or> \<not> names_set dbg) = False"
    using F(4,5) table_names [OF t] by simp_all
  have size: "extension_size dbg + ?off \<le> header_size dbg ds fs" by (simp add: header_size_def)
  show ?thesis
    using ok size unfolding dwarf_pro_generate_debugline_def Let_def C if_False w dlv_bind.simps prod.case grown_def
    by (auto simp: header_length [OF t] W split: if_splits)
qed

lemma producer_context_fields:
  assumes t: "table_fits dbg ds fs" and max: "lc_maximum_ops_per_instruction ctx < 2"
  shows "producer_context (de_line_inits dbg) (with_files es ((fields_context h x tot (de_output_version dbg) plen p
     (ucast (pi_minimum_instruction_length (de_line_inits dbg))) (ucast (pi_maximum_operations_per_instruction (de_line_inits dbg)))
     (ucast (pi_default_is_stmt (de_line_inits dbg))) (ucast (pi_line_base (de_line_inits dbg)))
     (ucast (pi_line_range (de_line_inits dbg))) (unat (pi_opcode_base (de_line_inits dbg) - 1)) ctx)\<lparr>lc_include_directories := qs\<rparr>))"
proof -
  let ?i = "de_line_inits dbg"
  have u: "usable_inits ?i" and mx: "pi_maximum_operations_per_instruction ?i < 2" using t by (simp_all add: table_fits_def)
  have "uint (pi_maximum_operations_per_instruction ?i) < 2" using mx by (simp add: word_less_def)
  moreover from this have "pi_maximum_operations_per_instruction ?i < 256" by (simp add: word_less_def)
  from uint_narrow [OF this] have "uint (ucast (pi_maximum_operations_per_instruction ?i) :: byte)
      = uint (pi_maximum_operations_per_instruction ?i)" .
  ultimately have "(ucast (pi_maximum_operations_per_instruction ?i) :: byte) < 2" by (simp add: word_less_def)
  then show ?thesis using max
    by (simp add: producer_context_def with_files_simps fields_context_def opcode_base_nat(2) [OF u] opcode_base_nat(3) [OF u, unfolded opcode_base_nat(2) [OF u]])
qed

lemma range_byte: "usable_inits inits \<Longrightarrow> (ucast (pi_line_range inits) :: byte) \<noteq> 0"
proof -
  assume "usable_inits inits"
  then have r: "0 < sint (pi_line_range inits)" "sint (pi_line_range inits) < 256" by (simp_all add: usable_inits_def)
  have "(ucast (pi_line_range inits) :: byte) = of_int (sint (pi_line_range inits))"
    using ucast_narrow [where 'a = 32 and 'b = 8, of "sint (pi_line_range inits)"] by simp
  moreover have "uint (of_int (sint (pi_line_range inits)) :: byte) = sint (pi_line_range inits)"
    by (rule uint_of_int) (use r in simp_all)
  ultimately have "uint (ucast (pi_line_range inits) :: byte) \<noteq> 0" using r(1) by (simp only:)
  then show ?thesis by (simp add: unsigned_eq_0_iff)
qed

lemma at_section: "e = length pre + length bs \<Longrightarrow> at_bytes (pre @ bs @ rest) (length pre) e bs"
  by (simp add: at_bytes_def)

text \<open>The reader on the bytes of the producer's table.\<close>

lemma table_read:
  assumes t: "table_fits dbg ds fs" and rd: "de_swap (ha_dbg h) = pd_swap dbg"
    and w: "write_lines dbg (de_lines dbg) (dwarf_pro_reg_init dbg, out0) = DW_DLV_OK (prev, grown out0 bs rs)"
    and sec: "ha_section h = pre @ (table_bytes (ha_dbg h) dbg ds fs tot @ bs) @ rest" "ha_data_start h = length pre"
      "length (ha_section h) < 2 ^ 64"
    and tot: "unat tot = length (table_bytes (ha_dbg h) dbg ds fs tot @ bs) - (if de_64bit_extension dbg then 12 else 4)"
      "length (table_bytes (ha_dbg h) dbg ds fs tot @ bs) < 2 ^ 31"
  shows "\<exists>ctx. srclines_at h (unat (pd_pointer_size dbg)) False True [] = Some (DW_DLV_OK ctx)
    \<and> lc_linebuf_logicals ctx = declared_rows dbg False 0 False (dwarf_pro_reg_init dbg) (de_lines dbg)
    \<and> map (c_string_at (ha_section h)) (lc_include_directories ctx) = ds
    \<and> map (file_of (ha_section h)) (lc_file_entries ctx) = fs"
proof -
  let ?rd = "ha_dbg h" and ?sec = "ha_section h" and ?st = "length pre" and ?x = "de_64bit_extension dbg"
  let ?i = "de_line_inits dbg" and ?len = "de_dwarf_offset_size dbg" and ?plen = "of_nat (prologue_size dbg ds fs) :: u64"
  let ?T = "table_bytes ?rd dbg ds fs tot" and ?n = "if ?x then 12 else 4 :: nat"
  define e where "e = ?st + length (?T @ bs)"
  have F: "usable_inits ?i" "unat (pd_pointer_size dbg) \<le> 8" "?len = (if ?x then 8 else 4)"
    "de_output_version dbg \<in> {2, 3, 4}" "program_fits dbg (dwarf_pro_reg_init dbg) (de_lines dbg)"
    "list_all plain_name ds" "list_all (plain_file (length ds)) fs"
    using t by (auto simp: table_fits_def)
  have lT: "length ?T = ?n + 2 + ?len + prologue_size dbg ds fs" by (rule length_table_bytes [OF t])
  have ee: "e = ?st + ?n + unat tot" "e \<le> length ?sec" using tot(1) lT by (simp_all add: e_def sec(1))
  have at: "at_bytes ?sec ?st e (?T @ bs)" unfolding sec(1) by (rule at_section) (simp add: e_def)
  define p where "p = ?st + ?n + 2 + ?len"
  let ?fields = "producer_fields dbg"
  have il: "length (initial_length ?rd ?x tot) = ?n" by (simp add: initial_length_def)
  have parts: "at_bytes ?sec ?st e (initial_length ?rd ?x tot)"
    "at_bytes ?sec (?st + ?n) e (number_bytes ?rd 2 (ucast (de_output_version dbg)))"
    "at_bytes ?sec (?st + ?n + 2) e (number_bytes ?rd ?len ?plen)"
    "at_bytes ?sec p e (?fields @ header_tail ds fs @ bs)"
    using at unfolding table_bytes_def append.assoc at_bytes_append [of _ _ _ "initial_length ?rd ?x tot"]
      at_bytes_append [of _ _ _ "number_bytes _ _ _"] il length_number_bytes p_def by simp_all
  have tail: "at_bytes ?sec (p + length ?fields) e (dir_bytes ds @ [0])"
    "at_bytes ?sec (p + length ?fields + length (dir_bytes ds) + 1) e (concat (map file_bytes fs) @ [0])"
    "at_bytes ?sec (p + prologue_size dbg ds fs) e bs"
    using parts(4) at_bytes_append [of ?sec "p + length ?fields" e "dir_bytes ds @ [0]" "(concat (map file_bytes fs) @ [0]) @ bs"]
      at_bytes_append [of ?sec "p + length ?fields + length (dir_bytes ds @ [0])" e "concat (map file_bytes fs) @ [0]" bs]
    by (simp_all add: at_bytes_append [of ?sec p e ?fields] header_tail_def prologue_size_def add.assoc)
  have small: "prologue_size dbg ds fs < 2 ^ 31" "unat tot < 2 ^ 31" "unat tot \<noteq> 0" "prologue_size dbg ds fs \<le> unat tot"
    using tot lT F(3) by auto
  have up: "unat ?plen = prologue_size dbg ds fs" using small(1) by (intro of_nat_small) simp
  have z: "tot < DISTINGUISHED_VALUE" "tot \<noteq> 0" "?plen \<le> tot" "tot \<le> of_nat (length ?sec)"
  proof -
    show "tot < DISTINGUISHED_VALUE" using small(2) by (simp add: word_less_nat_alt DISTINGUISHED_VALUE_def)
    show "tot \<noteq> 0" using small(3) by auto
    show "?plen \<le> tot" using small(4) up by (simp add: word_le_nat_alt)
    have "unat (of_nat (length ?sec) :: u64) = length ?sec" by (rule of_nat_small [OF sec(3)])
    then show "tot \<le> of_nat (length ?sec)" using ee by (simp add: word_le_nat_alt)
  qed
  have tb: "take_bit (8 * ?len) ?plen = ?plen"
  proof (cases ?x)
    case True
    then show ?thesis using F(3) by (intro bit_word_eqI) (simp add: bit_simps)
  next
    case False
    have "?plen < 2 ^ 32" using small(1) up by (simp add: word_less_nat_alt)
    then show ?thesis using False F(3) by (intro less_mask_take) simp_all
  qed
  let ?ctx1 = "fields_context h ?x tot (de_output_version dbg) ?plen p (ucast (pi_minimum_instruction_length ?i))
     (ucast (pi_maximum_operations_per_instruction ?i)) (ucast (pi_default_is_stmt ?i)) (ucast (pi_line_base ?i))
     (ucast (pi_line_range ?i)) (unat (pi_opcode_base ?i - 1)) new_line_context"
  have fields: "read_header_fields h new_line_context = DW_DLV_OK (?ctx1, p + length ?fields)"
    unfolding producer_fields_def Let_def
  proof (rule read_header_fields_at [where e = e and pv = "?st + ?n" and len = ?len and tail = "header_tail ds fs @ bs"])
    show "at_bytes ?sec p e (fixed_fields (de_output_version dbg) (ucast (pi_minimum_instruction_length ?i))
        (ucast (pi_maximum_operations_per_instruction ?i)) (ucast (pi_default_is_stmt ?i)) (ucast (pi_line_base ?i))
        (ucast (pi_line_range ?i)) (unat (pi_opcode_base ?i - 1)) @ header_tail ds fs @ bs)"
      using parts(4) by (simp only: producer_fields_def Let_def)
  qed (use ee parts(1-3) F z tb range_byte opcode_base_nat(1) in \<open>simp_all add: sec(2) p_def header_tail_def\<close>)
  let ?p1 = "p + length ?fields + length (dir_bytes ds) + 1" and ?p2 = "p + prologue_size dbg ds fs"
  have st: "?st \<le> p + length ?fields" "?st \<le> ?p1" by (simp_all add: p_def)
  have behind: "?p1 + length (concat (map file_bytes fs)) + 1 \<le> e" using tail(2) by (simp add: at_bytes_def)
  obtain qs where qs: "dir_loop ?rd ?sec ?st (p + length ?fields) e 5 [] [] = DW_DLV_OK (qs, ?p1, [])"
    "map (c_string_at ?sec) qs = ds"
    using dir_loop_at [OF tail(1) _ st(1) F(6), where dbg = ?rd and room = 5 and dirs = "[]"] behind by auto
  then have nq: "length qs = length ds" by (metis length_map)
  let ?ctx2 = "?ctx1\<lparr>lc_include_directories := qs\<rparr>"
  obtain es where es: "file_loop ?rd ?sec ?st ?p1 e ?ctx2 [] = DW_DLV_OK (with_files es ?ctx2, ?p2, [])"
    "map (file_of ?sec) es = fs"
    using file_loop_at [OF tail(2) st(2), of ?ctx2 ?rd] F(7) nq by (auto simp: prologue_size_def header_tail_def add.assoc)
  let ?ctx3 = "with_files es ?ctx2"
  have c: "lc_line_ptr_end ?ctx1 = e" "lc_version_number ?ctx1 = de_output_version dbg"
    using ee(1) by (simp_all add: fields_context_def sec(2))
  have c3: "lc_line_ptr_end ?ctx3 = e" "lc_line_prologue_start ?ctx3 + unat (lc_prologue_length ?ctx3) = ?p2"
    "lc_actuals_table_offset ?ctx3 = 0"
    using c(1) up by (simp_all add: with_files_simps fields_context_def new_line_context_def)
  have v: "\<not> 5 \<le> de_output_version dbg" using F(4) by auto
  have p2: "e = ?p2 + length bs" using lT by (simp add: e_def p_def)
  obtain k where fin: "finish_header ?ctx3 ?p2 [] = DW_DLV_OK (?ctx3\<lparr>lc_line_ptr_start := ?p2, lc_table_count := k\<rparr>, ?p2, None, [])"
    using c3 p2 by (simp add: finish_header_def Let_def)
  let ?ctx4 = "?ctx3\<lparr>lc_line_ptr_start := ?p2, lc_table_count := k\<rparr>"
  have ok: "\<not> e < ?p1" "\<not> e \<le> ?p1" "\<not> e < ?p2" using behind p2 by simp_all
  have header: "read_line_table_header h new_line_context [] = Some (DW_DLV_OK (?ctx4, ?p2, None, []))"
    unfolding read_line_table_header_def Let_def fields dlv.case prod.case c if_not_P [OF v]
    using qs(1) es(1) ok fin by (simp add: sec(2))
  let ?a = "single_table_args h e (unat (pd_pointer_size dbg)) False True"
  have "producer_context ?i ?ctx3" by (rule producer_context_fields [OF t]) (simp add: new_line_context_def)
  then have "producer_context ?i ?ctx4" by (simp add: producer_context_def)
  then have rp: "reads_producer ?a dbg ?ctx4" using F(1,2) rd by (simp add: reads_producer_def single_table_args_def)
  have "read_line_table_program ?a ?p2 ?ctx4 [] = DW_DLV_OK (?ctx4\<lparr>lc_linebuf_logicals :=
      declared_rows dbg False 0 False (dwarf_pro_reg_init dbg) (de_lines dbg)\<rparr>)"
    using program_runs [OF rp F(5) w, of ?p2] tail(3) p2 by (simp add: single_table_args_def)
  then have "srclines_at h (unat (pd_pointer_size dbg)) False True [] = Some (DW_DLV_OK (?ctx4\<lparr>lc_linebuf_logicals :=
      declared_rows dbg False 0 False (dwarf_pro_reg_init dbg) (de_lines dbg)\<rparr>))"
    using header c3(1) by (simp add: srclines_at_def Let_def)
  then show ?thesis using qs(2) es(2) by (simp add: with_files_simps fields_context_def new_line_context_def)
qed

text \<open>
  C3: the line number table that the producer makes of declared directories, files and rows, in DWARF 2, 3 or 4, with 32-bit
  or 64-bit lengths, in either byte order and at any place of the section, is read back as those directories, files and
  rows: the header's lengths fit, the table of standard opcodes is accepted, the names and numbers of the lists are found,
  and the program is run from the position behind them to the end of the table.
\<close>

theorem line_table_read_back:
  assumes "table_fits dbg ds fs" and "de_mem dbg = []" and "de_swap (ha_dbg h) = pd_swap dbg"
    and "dwarf_pro_generate_debugline dbg = Some (DW_DLV_OK out)" and "length (lo_data out) < 2 ^ 31"
    and "ha_section h = pre @ lo_data out @ rest" and "ha_data_start h = length pre" and "length (ha_section h) < 2 ^ 64"
  shows "\<exists>ctx. srclines_at h (unat (pd_pointer_size dbg)) False True [] = Some (DW_DLV_OK ctx)
    \<and> lc_linebuf_logicals ctx = declared_rows dbg False 0 False (dwarf_pro_reg_init dbg) (de_lines dbg)
    \<and> map (c_string_at (ha_section h)) (lc_include_directories ctx) = ds
    \<and> map (file_of (ha_section h)) (lc_file_entries ctx) = fs"
proof -
  obtain prev out0 bs rs tot where w: "write_lines dbg (de_lines dbg) (dwarf_pro_reg_init dbg, out0) = DW_DLV_OK (prev, grown out0 bs rs)"
    and g: "dwarf_pro_generate_debugline dbg = Some (DW_DLV_OK \<lparr>lo_data = table_bytes (ha_dbg h) dbg ds fs tot @ bs, lo_relocs = rs\<rparr>)"
    and l: "length (table_bytes (ha_dbg h) dbg ds fs tot @ bs) < 2 ^ 31 \<longrightarrow>
      unat tot = length (table_bytes (ha_dbg h) dbg ds fs tot @ bs) - (if de_64bit_extension dbg then 12 else 4)"
    using table_generated [OF assms(1) assms(3) assms(2)] generated_length [OF assms(1,4)] assms(5) by force
  have data: "lo_data out = table_bytes (ha_dbg h) dbg ds fs tot @ bs" using g assms(4) by auto
  show ?thesis
    by (rule table_read [OF assms(1,3) w]) (use assms(5-8) l data in simp_all)
qed

definition example_table :: p_debug where
  "example_table = (example_p_debug example_lines)\<lparr>de_inc_dirs := [\<lparr>dfe_name = Some [47, 100], dfe_args = []\<rparr>], de_n_inc_dirs := 1,
     de_file_entries := [\<lparr>dfe_name = Some [97, 46, 99], dfe_args = uleb 1 @ uleb 0 @ uleb 300\<rparr>], de_n_file_entries := 1\<rparr>"

definition example_header_args :: "byte list \<Rightarrow> header_args" where
  "example_header_args data = \<lparr>ha_dbg = example_dbg, ha_section = [1, 2] @ data @ [3], ha_data_start = 2,
     ha_address_size = 8, ha_segment_selector_size = 0\<rparr>"

lemma example_generated:
  "(case dwarf_pro_generate_debugline example_table of
      Some (DW_DLV_OK out) \<Rightarrow> length (lo_data out) < 100 | _ \<Rightarrow> False)"
  by code_simp

theorem line_table_read_back_witness:
  "\<exists>out ctx. dwarf_pro_generate_debugline example_table = Some (DW_DLV_OK out)
    \<and> srclines_at (example_header_args (lo_data out)) 8 False True [] = Some (DW_DLV_OK ctx)
    \<and> map (\<lambda>r. (li_address r, li_line r, li_end_sequence r)) (lc_linebuf_logicals ctx)
      = [(0x400000, 10, False), (0x400004, 12, False), (0x400010, 12, True)]
    \<and> map (c_string_at (ha_section (example_header_args (lo_data out)))) (lc_include_directories ctx) = [[47, 100]]
    \<and> map (file_of (ha_section (example_header_args (lo_data out)))) (lc_file_entries ctx) = [([97, 46, 99], 1, 0, 300)]"
proof -
  obtain out where out: "dwarf_pro_generate_debugline example_table = Some (DW_DLV_OK out)" "length (lo_data out) < 100"
    using example_generated by (auto split: option.splits dlv.splits)
  let ?h = "example_header_args (lo_data out)"
  have fits: "program_fits example_table (dwarf_pro_reg_init example_table) (de_lines example_table)"
    by (simp add: example_table_def example_line_defs dwarf_pro_reg_init_def line_codes row_fits_def Let_def position_after_def)
  have t: "table_fits example_table [[47, 100]] [([97, 46, 99], 1, 0, 300)]"
    using fits by (simp add: table_fits_def example_table_def example_line_defs usable_inits_def plain_name_def plain_file_def)
  have rows: "map (\<lambda>r. (li_address r, li_line r, li_end_sequence r))
      (declared_rows example_table False 0 False (dwarf_pro_reg_init example_table) (de_lines example_table))
    = [(0x400000, 10, False), (0x400004, 12, False), (0x400010, 12, True)]"
    by (simp add: example_table_def example_line_defs dwarf_pro_reg_init_def line_codes declared_row_def end_row_def position_after_def)
  have h: "de_mem example_table = []" "de_swap (ha_dbg ?h) = pd_swap example_table" "unat (pd_pointer_size example_table) = 8"
    "ha_section ?h = [1, 2] @ lo_data out @ [3]" "ha_data_start ?h = length [1, 2 :: byte]" "length (ha_section ?h) < 2 ^ 64"
    using out(2) by (simp_all add: example_table_def example_line_defs example_header_args_def example_dbg_def)
  have l: "length (lo_data out) < 2 ^ 31" using out(2) by simp
  from line_table_read_back [OF t h(1,2) out(1) l h(4-6)] rows show ?thesis
    using out(1) unfolding h(3) by metis
qed




text \<open>
  C40: when the memory for the name of a directory runs out, the declaration fails, but its entry without a name stays in
  the list, and generating the table follows the null pointer.
\<close>

theorem nameless_directory_crashes:
  assumes "de_mem dbg = True # False # mem" and "de_output_version dbg < 5"
  shows "fst (dwarf_add_directory_decl_a name dbg) = DW_DLV_ERROR DW_DLE_STRING_ALLOC
    \<and> dwarf_pro_generate_debugline (snd (dwarf_add_directory_decl_a name dbg)) = None"
proof -
  have "\<not> 5 < de_output_version dbg" using assms(2) by auto
  then show ?thesis using assms
    by (simp add: dwarf_add_directory_decl_a_def dwarf_pro_generate_debugline_def names_set_def Let_def)
qed

theorem nameless_directory_crashes_witness:
  "dwarf_pro_generate_debugline (snd (dwarf_add_directory_decl_a [47] (example_table\<lparr>de_mem := [True, False]\<rparr>))) = None"
proof -
  have "de_mem (example_table\<lparr>de_mem := [True, False]\<rparr>) = True # False # []" by simp
  moreover have "de_output_version (example_table\<lparr>de_mem := [True, False]\<rparr>) < 5"
    by (simp add: example_table_def example_line_defs)
  ultimately show ?thesis using nameless_directory_crashes [of "example_table\<lparr>de_mem := [True, False]\<rparr>" "[]" "[47]"] by blast
qed

end
