(* ===== verification/Spec2Isabelle.thy ===== *)
theory Spec2Isabelle
  imports Leb128 Icflow_Tool Icflow_Sharing Tied Dwarf_String Launcher Harmless Crc32 Secname Uri Getopt Tree_Clients Die_Tree Line_Table
begin

text \<open>
  A verification development for the dynamic collection of indirect control flow: the Pin tool
  that records the edges, the launcher that starts it, and the \<open>libdwarf\<close> library that the
  kit brings along for debugging information. All paths are relative to \<open>src/Mypintool/\<close>;
  \<open>libdwarf/\<close>, \<open>libdwarfp/\<close> and \<open>dwarfdump/\<close> stand for the directories of these names
  under \<open>extras/libdwarf/libdwarf-0.7.0/src/\<close>.

  \<^bold>\<open>The program.\<close> \<open>source/launcher\<close> is the program \<open>pin\<close>: it looks for the Pin binary beside
  itself, prepares the environment and replaces itself by it. Pin loads
  \<open>source/tools/MyPinTool/MyPinTool.cpp\<close>, whose callbacks instrument the indirect calls and
  jumps of the main executable; when the program under test ends, \<open>Fini\<close> merges the edges of
  the run into two JSON files that all runs share. \<open>libdwarf\<close> reads the debugging sections of
  an object file, \<open>libdwarfp\<close> writes them, \<open>dwarfdump\<close> prints them.

  \<^bold>\<open>Conventions.\<close> \<open>Prelude\<close> has the machine integers (words of their width, so that they wrap
  as in C), C strings as lists of characters, and \<open>dlv\<close>, the results \<open>DW_DLV_OK\<close>,
  \<open>DW_DLV_NO_ENTRY\<close> and \<open>DW_DLV_ERROR\<close> of the library's functions; an error is a
  constructor of \<open>dw_error\<close> in \<open>Abbrev\<close>. A section is a list of bytes and a pointer into it
  an offset. What the C code gets from outside (Pin, the operating system, \<open>malloc\<close>) is an
  argument of the definitions. Crashes and accesses outside an object are values of the
  results, so that a theorem that a call succeeds says that there are none. Every definition
  can be evaluated.

  \<^bold>\<open>The collector.\<close>
  \<^item> \<open>Icflow_Tool\<close>: \<open>MyPinTool.cpp\<close>. The maps of edges are association lists, ordered as
    \<open>std::map\<close> keeps them; one definition per callback, for loading, saving and \<open>Fini\<close>. The
    locale \<open>edge_store\<close> is the interface of the maps, interpreted on \<open>insert_edge\<close>. Shown: a
    run records exactly the branches taken between \<open>.text\<close> addresses from translated indirect
    calls and jumps, and runs one after the other accumulate.
  \<^item> \<open>Icflow_Sharing\<close>: \<open>Fini\<close> as a sequence of file operations of several processes, with the
    file locks. A run that is not disturbed computes \<open>fini\<close> and adds its edges to both files, two writers
    exclude each other, every execution ends; and two runs at the same time can lose the edges of one, as loading happens before
    the lock is taken.
  \<^item> \<open>Launcher\<close>: \<open>launcher_u.c\<close>, \<open>os_specific_l.c\<close>, \<open>utils.c\<close>. Which program is run, with
    which arguments and environment.

  \<^bold>\<open>Reading and writing the parts of DWARF.\<close>
  \<^item> \<open>Leb128\<close>: \<open>libdwarf/dwarf_leb.c\<close>; round trips of the variable-length numbers.
  \<^item> \<open>Reading\<close>: \<open>dwarf_memcpy_swap.c\<close> and the reading macros of \<open>dwarf_util.h\<close>, against the
    numbers, initial lengths and strings a producer writes.
  \<^item> \<open>Abbrev\<close>, \<open>Abbrev_Table\<close>: \<open>dwarf_abbrev.c\<close>, \<open>dwarf_fill_in_attr_form.c\<close> and the
    table of abbreviations of \<open>dwarf_util.c\<close>. A declaration written is read back; lookups by
    code are a map from codes to declarations, whatever the allocations do; freeing the table
    is safe.
  \<^item> \<open>Forms\<close>: \<open>_dwarf_get_size_of_val\<close>, against a grammar of the values of each form, and
    where it measures a value of \<open>DW_FORM_indirect\<close>.
  \<^item> \<open>Die_Walk\<close>, \<open>Die_Tree\<close>: the next entry, sibling and first child of
    \<open>dwarf_die_deliv.c\<close>. The calls visit exactly the tree of entries a producer wrote.
  \<^item> \<open>Line_Program\<close>, \<open>Line_Header\<close>: \<open>dwarf_line_table_reader_common.h\<close> and
    \<open>dwarf_srclines\<close>, the registers and rows of a line number program and its header.
    \<open>Line_Producer\<close>: \<open>libdwarfp/dwarf_pro_line.c\<close> and the line tables of
    \<open>dwarf_pro_section.c\<close>. \<open>Line_Rows\<close> and \<open>Line_Table\<close> compose them: what was declared is
    what is read.

  \<^bold>\<open>Tables, strings and checks of libdwarf.\<close>
  \<^item> \<open>Tsearch_Hash\<close>, \<open>Tied\<close>: the hashed search table of \<open>dwarf_tsearchhash.c\<close> refines a finite
    map through its resizes (locale \<open>tsearch_keys\<close>, interpreted on the comparison and the hash
    function of \<open>dwarf_tied.c\<close>), and what the search for a unit by its signature finds in it.
  \<^item> \<open>Dwarf_String\<close>: \<open>dwarf_string.c\<close> with its memory made explicit; no call leaves it.
  \<^item> \<open>Harmless\<close>: \<open>dwarf_harmless.c\<close>, a circular list that keeps the last messages (locale
    \<open>bounded_log\<close>, interpreted on the list).
  \<^item> \<open>Crc32\<close>: \<open>dwarf_crc.c\<close>, \<open>dwarf_crc32.c\<close>; \<open>Secname\<close>: \<open>dwarf_secname_ck.c\<close>.

  \<^bold>\<open>dwarfdump.\<close>
  \<^item> \<open>Getopt\<close>: \<open>dd_getopt.c\<close> and the loop of \<open>dd_command_options.c\<close> over it. \<open>Uri\<close>:
    \<open>dd_uri.c\<close>.
  \<^item> \<open>Tsearch_Bal\<close>: \<open>dd_tsearchbal.c\<close>, a balanced tree changed in place, on a heap of addresses.
    \<open>Bal_Tree\<close>, \<open>Bal_Insert\<close>, \<open>Bal_Delete\<close> and \<open>Bal_Run\<close> show that it refines a finite map, stays
    balanced and in order under all calls and allocation failures, and never follows a null
    pointer, as long as the comparison returns only -1, 0 and 1; with \<open>strcmp\<close> deletion can crash.
    \<open>Tree_Clients\<close>: \<open>dd_helpertree.c\<close> on top of it, a map from offsets to values (locale
    \<open>tree_client\<close>, interpreted on its comparison).

  \<^bold>\<open>Loops and bounds.\<close> Loops over a section end because each round moves towards its end, and
  are total functions with that distance as their measure (\<open>scan_loop\<close>, \<open>sibling_loop\<close>,
  \<open>attr_loop\<close>, \<open>line_loop\<close>, \<open>dir_loop\<close>, \<open>file_loop\<close>). Where a bound is an argument, it is
  proved to be enough: the level of \<open>tsearch_inner\<close> is the length of the table of primes
  (\<open>tsearch_inner_bound\<close>), the messages copied when the list of harmless errors is resized are
  at most \<open>dh_maxcount\<close>, the rounds of \<open>getopt_loop\<close> are bounded by the length of the command
  line, the levels of \<open>Die_Tree\<close> by the number of entries. A loop that
  does not end in the source, the search of \<open>Tied\<close> over a unit that cannot be read, is shown
  to exhaust every bound. The loops of \<open>Tsearch_Bal\<close> follow links of the heap and are partial
  functions; that they return on every state calls lead to is part of what is shown there.

  \<^bold>\<open>Not modelled.\<close> Pin and its headers, \<open>nlohmann::json\<close> (its documents are a datatype; their
  text is abstracted), the samples and tests of the kit, and the scripts that run the
  collection are third-party code or glue. The readers of ELF, Mach-O and PE files are I/O;
  sections are inputs. Printing in \<open>dwarfdump\<close>, tables of names, and \<open>dwarf_alloc.c\<close> hold no
  logic the results depend on. Of \<open>libdwarf\<close> the location expressions, frames, macros, ranges
  and name indexes, and of the line tables the headers of version 5 and the experimental
  two-level ones, are left out, as are the remaining sections of \<open>libdwarfp\<close>. Messages are
  counted, not printed, and releasing memory is modelled only where a theorem is about it.
\<close>

end
